(* ===== verification/Prelude.thy ===== *)
theory Prelude
  imports Main "HOL-Library.Word" "HOL-Library.Monad_Syntax"
begin

unbundle bit_operations_syntax

text \<open>
  Shared vocabulary of the development: the machine integer types of
  \<^verbatim>\<open>common/common_types.h\<close>, a byte-addressed memory with its interface, in-place
  updates of byte arrays, fixed-width codecs with their interface, and the generic facts
  about lists and words that the component theories use.
\<close>

section \<open>Machine integers and characters\<close>

type_synonym u8 = "8 word"
type_synonym u16 = "16 word"
type_synonym u32 = "32 word"
type_synonym u64 = "64 word"

text \<open>
  A \<^verbatim>\<open>char\<close> of the source is one byte, as a character of HOL is.
\<close>

definition u8_of_char :: "char \<Rightarrow> u8" where
  "u8_of_char c = word_of_nat (of_char c)"

definition char_of_u8 :: "u8 \<Rightarrow> char" where
  "char_of_u8 b = char_of (unat b)"

named_theorems layout_consts "sizes and offsets of the on-disk layout"

lemma unat_u8_of_char: "unat (u8_of_char c) = of_char c"
proof -
  have "(of_char c :: nat) < 256" by (cases c) (simp add: of_char_def horner_sum_simps)
  then show ?thesis by (simp add: u8_of_char_def unat_of_nat)
qed

lemma char_of_u8_of_char [simp]: "char_of_u8 (u8_of_char c) = c"
  by (simp add: char_of_u8_def unat_u8_of_char)

lemma u8_of_char_of_u8 [simp]: "u8_of_char (char_of_u8 b) = b"
proof -
  have "unat b < 256" using unsigned_less [of b] by simp
  then show ?thesis
    by (simp add: u8_of_char_def char_of_u8_def of_char_of)
qed

lemma map_char_of_u8_of_char [simp]: "map (char_of_u8 \<circ> u8_of_char) cs = cs"
  by (simp add: comp_def)

lemma map_u8_of_char_of_u8 [simp]: "map (u8_of_char \<circ> char_of_u8) bs = bs"
  by (simp add: comp_def)

section \<open>Slices of byte arrays\<close>

text \<open>
  \<open>slice k n xs\<close> is the sub-array of \<open>n\<close> elements at offset \<open>k\<close>; \<open>copy_into xs k ys\<close> is what
  \<^verbatim>\<open>std::copy\<close> of \<open>ys\<close> to the address of \<open>xs[k]\<close> leaves in \<open>xs\<close>.
\<close>

definition slice :: "nat \<Rightarrow> nat \<Rightarrow> 'a list \<Rightarrow> 'a list" where
  "slice k n xs = take n (drop k xs)"

definition copy_into :: "'a list \<Rightarrow> nat \<Rightarrow> 'a list \<Rightarrow> 'a list" where
  "copy_into xs k ys = take k xs @ ys @ drop (k + length ys) xs"

lemma length_slice [simp]: "k + n \<le> length xs \<Longrightarrow> length (slice k n xs) = n"
  by (simp add: slice_def)

lemma length_slice_min: "length (slice k n xs) = min n (length xs - k)"
  by (simp add: slice_def)

lemma nth_slice: "i < n \<Longrightarrow> k + n \<le> length xs \<Longrightarrow> slice k n xs ! i = xs ! (k + i)"
  by (simp add: slice_def)

lemma slice_0 [simp]: "slice 0 n xs = take n xs"
  by (simp add: slice_def)

lemma slice_append_skip [simp]: "slice (length xs) n (xs @ ys) = take n ys"
  by (simp add: slice_def)

lemma slice_slice: "k' + n' \<le> n \<Longrightarrow> slice k' n' (slice k n xs) = slice (k + k') n' xs"
  by (simp add: slice_def drop_take min_def add.commute)

lemma append_slices: "slice k n xs @ slice (k + n) n' xs = slice k (n + n') xs"
  by (simp add: slice_def take_add add.commute)

lemma length_copy_into [simp]:
  "k + length ys \<le> length xs \<Longrightarrow> length (copy_into xs k ys) = length xs"
  by (simp add: copy_into_def)

lemma slice_copy_into_same:
  "k + length ys \<le> length xs \<Longrightarrow> slice k (length ys) (copy_into xs k ys) = ys"
  by (simp add: slice_def copy_into_def)

lemma nth_copy_into:
  "k + length ys \<le> length xs \<Longrightarrow> i < length xs \<Longrightarrow>
   copy_into xs k ys ! i = (if k \<le> i \<and> i < k + length ys then ys ! (i - k) else xs ! i)"
  by (auto simp: copy_into_def nth_append min_def)

lemma slice_copy_into_other:
  assumes "k + length ys \<le> length xs" and "j + n \<le> length xs"
    and "j + n \<le> k \<or> k + length ys \<le> j"
  shows "slice j n (copy_into xs k ys) = slice j n xs"
  by (rule nth_equalityI) (use assms in \<open>auto simp: nth_slice nth_copy_into\<close>)

lemma copy_into_append:
  "k + length ys + length zs \<le> length xs \<Longrightarrow>
   copy_into (copy_into xs k ys) (k + length ys) zs = copy_into xs k (ys @ zs)"
  by (simp add: copy_into_def ac_simps)

lemma copy_into_Nil [simp]: "copy_into xs k [] = xs"
  by (simp add: copy_into_def)

lemma slice_take: "k + n \<le> m \<Longrightarrow> slice k n (take m xs) = slice k n xs"
  by (simp add: slice_def drop_take min_def)

lemma list_of_slices: "length xs = n * w \<Longrightarrow> concat (map (\<lambda>i. slice (i * w) w xs) [0..<n]) = xs"
proof -
  have "concat (map (\<lambda>i. slice (i * w) w xs) [0..<m]) = take (m * w) xs" for m
  proof (induction m)
    case 0
    show ?case by simp
  next
    case (Suc m)
    have "concat (map (\<lambda>i. slice (i * w) w xs) [0..<Suc m])
      = take (m * w) xs @ slice (m * w) w xs" using Suc by simp
    then show ?case by (simp add: slice_def take_add [symmetric] add.commute)
  qed
  then show "length xs = n * w \<Longrightarrow> ?thesis" by simp
qed

section \<open>Searching arrays\<close>

text \<open>
  \<^verbatim>\<open>std::find_if\<close> on an array: the position of the first element that satisfies the
  predicate, or the length of the array (the end iterator).
\<close>

definition find_if :: "('a \<Rightarrow> bool) \<Rightarrow> 'a list \<Rightarrow> nat" where
  "find_if P xs = length (takeWhile (\<lambda>x. \<not> P x) xs)"

lemma find_if_less: "find_if P xs < length xs \<longleftrightarrow> (\<exists>x\<in>set xs. P x)"
  by (induction xs) (auto simp: find_if_def)

lemma find_if_le: "find_if P xs \<le> length xs"
  by (simp add: find_if_def length_takeWhile_le)

lemma find_if_end: "find_if P xs = length xs \<longleftrightarrow> (\<forall>x\<in>set xs. \<not> P x)"
  using find_if_less [of P xs] find_if_le [of P xs] by (auto simp: less_le)

lemma find_if_sat: "find_if P xs < length xs \<Longrightarrow> P (xs ! find_if P xs)"
  using nth_length_takeWhile [of "\<lambda>x. \<not> P x" xs] by (simp add: find_if_def)

lemma find_if_first: "k < find_if P xs \<Longrightarrow> \<not> P (xs ! k)"
proof -
  assume k: "k < find_if P xs"
  then have "takeWhile (\<lambda>x. \<not> P x) xs ! k \<in> set (takeWhile (\<lambda>x. \<not> P x) xs)" by (simp add: find_if_def)
  then show ?thesis using takeWhile_nth [of k "\<lambda>x. \<not> P x" xs] k by (auto simp: find_if_def dest: set_takeWhileD)
qed

section \<open>Byte-addressed memory\<close>

text \<open>
  The interface the driver relies on when it reads and writes the NAND image through
  pointers: reading back a write, the independence of disjoint ranges, and the splitting
  of a range. Proved for the memory of the model below.
\<close>

locale byte_store =
  fixes rd :: "'m \<Rightarrow> nat \<Rightarrow> nat \<Rightarrow> u8 list"
    and wr :: "'m \<Rightarrow> nat \<Rightarrow> u8 list \<Rightarrow> 'm"
  assumes rd_length: "length (rd m a n) = n"
    and rd_slice: "k + n \<le> n' \<Longrightarrow> slice k n (rd m a n') = rd m (a + k) n"
    and rd_wr_same: "rd (wr m a bs) a (length bs) = bs"
    and rd_wr_other: "b + n \<le> a \<or> a + length bs \<le> b \<Longrightarrow> rd (wr m a bs) b n = rd m b n"
begin

lemma rd_wr_within:
  assumes "k + n \<le> length bs"
  shows "rd (wr m a bs) (a + k) n = slice k n bs"
  using rd_slice [OF assms, of "wr m a bs" a] rd_wr_same [of m a bs] by simp

lemma rd_wr_at: "n = length bs \<Longrightarrow> rd (wr m a bs) a n = bs"
  by (simp add: rd_wr_same)

lemma rd_take: "n \<le> n' \<Longrightarrow> take n (rd m a n') = rd m a n"
  using rd_slice [of 0 n n' m a] by simp

end

type_synonym memory = "nat \<Rightarrow> u8"

definition mem_read :: "memory \<Rightarrow> nat \<Rightarrow> nat \<Rightarrow> u8 list" where
  "mem_read m a n = map (\<lambda>i. m (a + i)) [0..<n]"

definition mem_write :: "memory \<Rightarrow> nat \<Rightarrow> u8 list \<Rightarrow> memory" where
  "mem_write m a bs = (\<lambda>x. if a \<le> x \<and> x < a + length bs then bs ! (x - a) else m x)"

lemma length_mem_read [simp]: "length (mem_read m a n) = n"
  by (simp add: mem_read_def)

interpretation mem: byte_store mem_read mem_write
proof unfold_locales
  fix m :: memory and a k n n' b :: nat and bs :: "u8 list"
  show "length (mem_read m a n) = n" by simp
  show "slice k n (mem_read m a n') = mem_read m (a + k) n" if "k + n \<le> n'"
    by (rule nth_equalityI) (use that in \<open>auto simp: nth_slice mem_read_def add.assoc\<close>)
  show "mem_read (mem_write m a bs) a (length bs) = bs"
    by (rule nth_equalityI) (auto simp: mem_read_def mem_write_def)
  show "mem_read (mem_write m a bs) b n = mem_read m b n"
    if "b + n \<le> a \<or> a + length bs \<le> b"
    using that by (auto simp: mem_read_def mem_write_def)
qed

section \<open>Fixed-width codecs\<close>

text \<open>
  A field of the packed on-disk structures is stored in a fixed number of bytes. The
  locale states the contract of one field; inside it, arrays of such fields are handled
  once and for all.
\<close>

definition chunks :: "nat \<Rightarrow> nat \<Rightarrow> 'a list \<Rightarrow> 'a list list" where
  "chunks n w bs = map (\<lambda>i. slice (i * w) w bs) [0..<n]"

lemma length_chunks [simp]: "length (chunks n w bs) = n"
  by (simp add: chunks_def)

lemma concat_chunks: "length bs = n * w \<Longrightarrow> concat (chunks n w bs) = bs"
  by (simp add: chunks_def list_of_slices)

lemma chunks_concat:
  assumes "\<And>b. b \<in> set bss \<Longrightarrow> length b = w"
  shows "chunks (length bss) w (concat bss) = bss"
  using assms
proof (induction bss)
  case Nil
  then show ?case by (simp add: chunks_def)
next
  case (Cons b bss)
  have len: "length b = w" using Cons.prems by simp
  have "chunks (length (b # bss)) w (concat (b # bss))
    = slice 0 w (b @ concat bss)
      # map (\<lambda>i. slice (Suc i * w) w (b @ concat bss)) [0..<length bss]"
    unfolding chunks_def list.size by (simp add: upt_conv_Cons map_Suc_upt [symmetric] comp_def del: upt_Suc)
  also have "\<dots> = b # chunks (length bss) w (concat bss)"
    using len by (simp add: chunks_def slice_def)
  finally show ?case using Cons by simp
qed

locale codec =
  fixes enc :: "'a \<Rightarrow> u8 list" and dec :: "u8 list \<Rightarrow> 'a" and width :: nat and ok :: "'a \<Rightarrow> bool"
  assumes enc_length: "ok x \<Longrightarrow> length (enc x) = width"
    and dec_enc: "ok x \<Longrightarrow> dec (enc x) = x"
begin

lemma array_length:
  "(\<And>x. x \<in> set xs \<Longrightarrow> ok x) \<Longrightarrow> length (concat (map enc xs)) = length xs * width"
  by (induction xs) (auto simp: enc_length)

lemma array_dec_enc:
  assumes "\<And>x. x \<in> set xs \<Longrightarrow> ok x" and "n = length xs"
  shows "map dec (chunks n width (concat (map enc xs))) = xs"
proof -
  have "chunks (length (map enc xs)) width (concat (map enc xs)) = map enc xs"
    by (rule chunks_concat) (use assms enc_length in auto)
  then show ?thesis using assms by (simp add: map_idI dec_enc)
qed

lemma enc_inj: "ok x \<Longrightarrow> ok y \<Longrightarrow> enc x = enc y \<Longrightarrow> x = y"
  using dec_enc by metis

end

locale exact_codec = codec +
  assumes dec_ok: "length bs = width \<Longrightarrow> ok (dec bs)"
    and enc_dec: "length bs = width \<Longrightarrow> enc (dec bs) = bs"
begin

lemma chunk_length: "length bs = n * width \<Longrightarrow> b \<in> set (chunks n width bs) \<Longrightarrow> length b = width"
proof -
  assume len: "length bs = n * width" and "b \<in> set (chunks n width bs)"
  then obtain i where i: "i < n" "b = slice (i * width) width bs" by (auto simp: chunks_def)
  have "i * width + width \<le> n * width"
    using i(1) mult_le_mono1 [of "Suc i" n width] by simp
  then show "length b = width" using i len by simp
qed

lemma array_dec_ok:
  "length bs = n * width \<Longrightarrow> x \<in> set (map dec (chunks n width bs)) \<Longrightarrow> ok x"
  using chunk_length dec_ok by auto

lemma array_enc_dec:
  assumes "length bs = n * width"
  shows "concat (map enc (map dec (chunks n width bs))) = bs"
proof -
  have "map enc (map dec (chunks n width bs)) = chunks n width bs"
    using chunk_length [OF assms] enc_dec by (simp add: map_idI)
  then show ?thesis using concat_chunks [OF assms] by simp
qed

end

end
