(* ===== verification/Align.thy ===== *)
theory Align
  imports Prelude
begin

text \<open>
  The alignment templates of \<^verbatim>\<open>common/align.h\<close> at an arbitrary unsigned type \<open>'a word\<close>;
  the arithmetic is done in \<^verbatim>\<open>size_t\<close> (64 bits) and cast back.
\<close>

definition AlignUp :: "'a::len word \<Rightarrow> u64 \<Rightarrow> 'a word" where
  "AlignUp val sz = ucast ((ucast val :: u64) + (sz - ucast val mod sz) mod sz)"

definition AlignDown :: "'a::len word \<Rightarrow> u64 \<Rightarrow> 'a word" where
  "AlignDown val sz = ucast ((ucast val :: u64) - ucast val mod sz)"

lemma unat_ucast_u64:
  assumes "LENGTH('a::len) \<le> 64"
  shows "unat (ucast (val :: 'a word) :: u64) = unat val"
proof -
  have "unat val < 2 ^ LENGTH('a)" by (rule unsigned_less)
  also have "\<dots> \<le> 2 ^ 64" using assms by (rule power_increasing) simp
  finally have "unat val < 2 ^ 64" .
  then show ?thesis by (simp add: unsigned_ucast_eq take_bit_nat_eq_self)
qed

lemma unat_AlignDown:
  assumes "LENGTH('a::len) \<le> 64"
  shows "unat (AlignDown (val :: 'a word) sz) = unat val - unat val mod unat sz"
proof -
  have v: "unat (ucast val :: u64) = unat val"
    using assms(1) by (rule unat_ucast_u64)
  have "(ucast val :: u64) mod sz \<le> ucast val"
    by (simp add: word_le_nat_alt unat_mod v)
  then have "unat ((ucast val :: u64) - ucast val mod sz) = unat val - unat val mod unat sz"
    by (simp add: unat_sub unat_mod v)
  moreover have "unat val - unat val mod unat sz < 2 ^ LENGTH('a)"
    using unsigned_less [of val] by (rule le_less_trans [rotated]) simp
  ultimately show ?thesis
    unfolding AlignDown_def by (simp add: unsigned_ucast_eq take_bit_nat_eq_self)
qed

lemma unat_AlignUp:
  assumes "LENGTH('a::len) \<le> 64" and "0 < sz"
    and fits: "unat val + (unat sz - unat val mod unat sz) mod unat sz < 2 ^ LENGTH('a)"
  shows "unat (AlignUp (val :: 'a word) sz)
    = unat val + (unat sz - unat val mod unat sz) mod unat sz"
proof -
  have v: "unat (ucast val :: u64) = unat val"
    using assms(1) by (rule unat_ucast_u64)
  have "(ucast val :: u64) mod sz \<le> sz"
    using assms(2) by (simp add: word_le_nat_alt unat_mod v word_less_nat_alt less_imp_le)
  then have pad: "unat ((sz - ucast val mod sz) mod sz)
    = (unat sz - unat val mod unat sz) mod unat sz"
    by (simp add: unat_mod unat_sub v)
  have "(2 :: nat) ^ LENGTH('a) \<le> 2 ^ 64" using assms(1) by (rule power_increasing) simp
  then have "unat ((ucast val :: u64) + (sz - ucast val mod sz) mod sz)
    = unat val + (unat sz - unat val mod unat sz) mod unat sz"
    using fits by (simp add: unat_word_ariths(1) pad v)
  then show ?thesis
    unfolding AlignUp_def using fits by (simp add: unsigned_ucast_eq take_bit_nat_eq_self)
qed

lemma pad_to_multiple:
  fixes v s :: nat
  assumes "0 < s"
  shows "s dvd v + (s - v mod s) mod s" and "(s - v mod s) mod s < s"
proof -
  have "v mod s + (s - v mod s) = s"
    using mod_less_divisor [OF assms, of v] by linarith
  moreover have "(v + (s - v mod s) mod s) mod s = (v mod s + (s - v mod s)) mod s"
    by (metis mod_add_left_eq mod_add_right_eq)
  ultimately have "(v + (s - v mod s) mod s) mod s = 0" by (metis mod_self)
  then show "s dvd v + (s - v mod s) mod s" by (rule mod_0_imp_dvd)
  show "(s - v mod s) mod s < s" using assms by (rule mod_less_divisor)
qed

text \<open>
  C37 Alignment. At any type of at most 64 bits, \<^verbatim>\<open>AlignDown\<close> is the largest multiple of the
  size that is not above the value, and \<^verbatim>\<open>AlignUp\<close> the smallest one that is not below it, as
  long as that fits the type.
\<close>

theorem align_spec:
  fixes val :: "'a::len word"
  assumes "LENGTH('a) \<le> 64" and "0 < sz"
    and "unat val + (unat sz - unat val mod unat sz) mod unat sz < 2 ^ LENGTH('a)"
  shows "unat sz dvd unat (AlignDown val sz) \<and> unat (AlignDown val sz) \<le> unat val \<and>
    unat val < unat (AlignDown val sz) + unat sz \<and>
    unat sz dvd unat (AlignUp val sz) \<and> unat val \<le> unat (AlignUp val sz) \<and>
    unat (AlignUp val sz) < unat val + unat sz"
proof -
  have s: "0 < unat sz" using assms(2) by (simp add: word_less_nat_alt)
  have "unat val mod unat sz < unat sz" using s by simp
  then show ?thesis
    using unat_AlignDown [OF assms(1), of val sz] unat_AlignUp [OF assms] pad_to_multiple [OF s, of "unat val"]
      dividend_less_times_div [OF s, of "unat val"]
    by (simp add: minus_mod_eq_mult_div add.commute)
qed

lemma align_spec_witness: "unat (AlignUp (0x1234 :: u32) 0x40) < 0x1234 + 0x40 \<and> 0x40 dvd unat (AlignUp (0x1234 :: u32) 0x40)"
  using align_spec [of "0x40" "0x1234 :: u32"] by simp

end
