(* ===== verification/Swap.thy ===== *)
theory Swap
  imports Prelude
begin

text \<open>
  The byte-order helpers of \<^verbatim>\<open>common/swap.h\<close> and the memory layout of integers on
  the little-endian host. The byte-swapping functions are those of the portable branch of
  the header; the platform branches call intrinsics with the same documented result.
\<close>

section \<open>Byte swapping\<close>

definition swap8 :: "u8 \<Rightarrow> u8" where
  "swap8 data = data"

definition swap24 :: "u8 list \<Rightarrow> u32" where
  "swap24 data = push_bit 16 (ucast (data ! 0)) OR push_bit 8 (ucast (data ! 1)) OR ucast (data ! 2)"

definition swap16 :: "u16 \<Rightarrow> u16" where
  "swap16 data = drop_bit 8 data OR push_bit 8 data"

definition swap32 :: "u32 \<Rightarrow> u32" where
  "swap32 data = push_bit 16 (ucast (swap16 (ucast data))) OR ucast (swap16 (ucast (drop_bit 16 data)))"

definition swap64 :: "u64 \<Rightarrow> u64" where
  "swap64 data = push_bit 32 (ucast (swap32 (ucast data))) OR ucast (swap32 (ucast (drop_bit 32 data)))"

section \<open>Integers in host memory\<close>

text \<open>
  \<open>host16\<close> and \<open>host32\<close> are the bytes an integer occupies on the (little-endian) host,
  which is what \<^verbatim>\<open>memcpy\<close> from it yields; \<open>host16_read\<close> and \<open>host32_read\<close> go back.
\<close>

definition host16 :: "u16 \<Rightarrow> u8 list" where
  "host16 x = [ucast x, ucast (drop_bit 8 x)]"

definition host16_read :: "u8 list \<Rightarrow> u16" where
  "host16_read bs = ucast (bs ! 0) OR push_bit 8 (ucast (bs ! 1))"

definition host32 :: "u32 \<Rightarrow> u8 list" where
  "host32 x = [ucast x, ucast (drop_bit 8 x), ucast (drop_bit 16 x), ucast (drop_bit 24 x)]"

definition host32_read :: "u8 list \<Rightarrow> u32" where
  "host32_read bs = ucast (bs ! 0) OR push_bit 8 (ucast (bs ! 1))
     OR push_bit 16 (ucast (bs ! 2)) OR push_bit 24 (ucast (bs ! 3))"

definition host64 :: "u64 \<Rightarrow> u8 list" where
  "host64 x = host32 (ucast x) @ host32 (ucast (drop_bit 32 x))"

definition host64_read :: "u8 list \<Rightarrow> u64" where
  "host64_read bs = ucast (host32_read (take 4 bs)) OR push_bit 32 (ucast (host32_read (drop 4 bs)))"

text \<open>The overloads that read through a byte pointer.\<close>

definition swap16_ptr :: "u8 list \<Rightarrow> u16" where
  "swap16_ptr data = swap16 (host16_read data)"

definition swap32_ptr :: "u8 list \<Rightarrow> u32" where
  "swap32_ptr data = swap32 (host32_read data)"

definition swap64_ptr :: "u8 list \<Rightarrow> u64" where
  "swap64_ptr data = swap64 (host64_read data)"

text \<open>The in-place \<^verbatim>\<open>swap<count>\<close> templates.\<close>

definition swap_1 :: "u8 list \<Rightarrow> u8 list" where
  "swap_1 data = data"

definition swap_2 :: "u8 list \<Rightarrow> u8 list" where
  "swap_2 data = host16 (swap16_ptr data)"

definition swap_4 :: "u8 list \<Rightarrow> u8 list" where
  "swap_4 data = host32 (swap32_ptr data)"

definition swap_8 :: "u8 list \<Rightarrow> u8 list" where
  "swap_8 data = host64 (swap64_ptr data)"

definition FromBigEndian16 :: "u16 \<Rightarrow> u16" where
  "FromBigEndian16 data = host16_read (swap_2 (host16 data))"

definition FromBigEndian32 :: "u32 \<Rightarrow> u32" where
  "FromBigEndian32 data = host32_read (swap_4 (host32 data))"

section \<open>Big-endian values\<close>

text \<open>
  \<^verbatim>\<open>BigEndianValue\<close> keeps the swapped value in its only member; assignment and the
  conversion operator swap. \<open>be16_bytes\<close> and \<open>be32_bytes\<close> are the bytes such a member
  occupies in a packed structure.
\<close>

record 'w BigEndianValue =
  raw :: 'w

definition be16_set :: "u16 \<Rightarrow> u16 BigEndianValue" where
  "be16_set v = \<lparr>raw = FromBigEndian16 v\<rparr>"

definition be16_get :: "u16 BigEndianValue \<Rightarrow> u16" where
  "be16_get b = FromBigEndian16 (raw b)"

definition be32_set :: "u32 \<Rightarrow> u32 BigEndianValue" where
  "be32_set v = \<lparr>raw = FromBigEndian32 v\<rparr>"

definition be32_get :: "u32 BigEndianValue \<Rightarrow> u32" where
  "be32_get b = FromBigEndian32 (raw b)"

definition be16_bytes :: "u16 \<Rightarrow> u8 list" where
  "be16_bytes v = host16 (raw (be16_set v))"

definition be16_read :: "u8 list \<Rightarrow> u16" where
  "be16_read bs = be16_get \<lparr>raw = host16_read bs\<rparr>"

definition be32_bytes :: "u32 \<Rightarrow> u8 list" where
  "be32_bytes v = host32 (raw (be32_set v))"

definition be32_read :: "u8 list \<Rightarrow> u32" where
  "be32_read bs = be32_get \<lparr>raw = host32_read bs\<rparr>"

section \<open>Facts\<close>

lemma bit_swap16: "bit (swap16 x) n \<longleftrightarrow> n < 16 \<and> bit x (if n < 8 then 8 + n else n - 8)"
  by (auto simp: swap16_def bit_simps not_less dest: bit_imp_le_length)

lemma bit_swap32:
  "bit (swap32 x) n \<longleftrightarrow> n < 32 \<and> bit x (if n < 8 then 24 + n else if n < 16 then 8 + n
     else if n < 24 then n - 8 else n - 24)"
  by (auto simp: swap32_def bit_simps bit_swap16 not_less)

lemma swap16_swap16 [simp]: "swap16 (swap16 x) = x"
  by (rule bit_word_eqI) (auto simp: bit_swap16)

lemma swap32_swap32 [simp]: "swap32 (swap32 x) = x"
  by (rule bit_word_eqI) (auto simp: bit_swap32)

lemma swap64_swap64 [simp]: "swap64 (swap64 x) = x"
proof -
  have lo: "ucast (swap64 x) = swap32 (ucast (drop_bit 32 x))"
    by (rule bit_word_eqI) (simp add: swap64_def bit_simps)
  have hi: "ucast (drop_bit 32 (swap64 x)) = swap32 (ucast x)"
    by (rule bit_word_eqI) (auto simp: swap64_def bit_simps dest: bit_imp_le_length)
  have "swap64 (swap64 x)
    = push_bit 32 (ucast (ucast (drop_bit 32 x) :: u32)) OR ucast (ucast x :: u32)"
    by (subst swap64_def) (simp add: lo hi)
  also have "\<dots> = x"
    by (rule bit_word_eqI) (auto simp: bit_simps not_less)
  finally show ?thesis .
qed

lemma host16_read_host16 [simp]: "host16_read (host16 x) = x"
  by (rule bit_word_eqI) (auto simp: host16_read_def host16_def bit_simps not_less)

lemma host32_read_host32 [simp]: "host32_read (host32 x) = x"
  by (rule bit_word_eqI)
    (auto simp: host32_read_def host32_def bit_simps not_less, (rule ccontr, simp add: not_less)+)

lemma length_host16 [simp]: "length (host16 x) = 2"
  by (simp add: host16_def)

lemma length_host32 [simp]: "length (host32 x) = 4"
  by (simp add: host32_def)

lemma list_length_2: "length xs = 2 \<Longrightarrow> xs = [xs ! 0, xs ! 1]"
  by (auto simp: numeral_2_eq_2 length_Suc_conv)

lemma list_length_4: "length xs = 4 \<Longrightarrow> xs = [xs ! 0, xs ! 1, xs ! 2, xs ! 3]"
  by (auto simp: eval_nat_numeral length_Suc_conv)

lemma bit_u8_beyond:
  "\<not> bit (b :: u8) (8 + n)" "\<not> bit (b :: u8) (16 + n)" "\<not> bit (b :: u8) (24 + n)"
  by (auto dest: bit_imp_le_length)

lemma host16_host16_read: "length bs = 2 \<Longrightarrow> host16 (host16_read bs) = bs"
proof -
  assume "length bs = 2"
  moreover have "host16 (host16_read bs) = [bs ! 0, bs ! 1]"
    unfolding host16_def host16_read_def
    by (auto intro!: bit_word_eqI simp: bit_simps bit_u8_beyond)
  ultimately show ?thesis using list_length_2 by metis
qed

lemma host32_host32_read: "length bs = 4 \<Longrightarrow> host32 (host32_read bs) = bs"
proof -
  assume "length bs = 4"
  moreover have "host32 (host32_read bs) = [bs ! 0, bs ! 1, bs ! 2, bs ! 3]"
    unfolding host32_def host32_read_def
    by (auto intro!: bit_word_eqI simp: bit_simps bit_u8_beyond)
  ultimately show ?thesis using list_length_4 by metis
qed

lemma host64_read_host64 [simp]: "host64_read (host64 x) = x"
  by (rule bit_word_eqI) (auto simp: host64_read_def host64_def bit_simps not_less)

lemma host64_host64_read: "length bs = 8 \<Longrightarrow> host64 (host64_read bs) = bs"
proof -
  assume len: "length bs = 8"
  have "ucast (host64_read bs) = host32_read (take 4 bs)" "ucast (drop_bit 32 (host64_read bs)) = host32_read (drop 4 bs)"
    by (rule bit_word_eqI, auto simp: host64_read_def bit_simps dest: bit_imp_le_length)+
  then show ?thesis using len by (simp add: host64_def host32_host32_read)
qed

text \<open>Swapping in place twice restores the bytes, at every width.\<close>

lemma swap_twice:
  "swap_1 (swap_1 bs) = bs" "length bs = 2 \<Longrightarrow> swap_2 (swap_2 bs) = bs" "length bs = 4 \<Longrightarrow> swap_4 (swap_4 bs) = bs"
  "length bs = 8 \<Longrightarrow> swap_8 (swap_8 bs) = bs"
  by (simp_all add: swap_1_def swap_2_def swap16_ptr_def host16_host16_read swap_4_def swap32_ptr_def host32_host32_read
      swap_8_def swap64_ptr_def host64_host64_read)

lemma FromBigEndian16_eq: "FromBigEndian16 x = swap16 x"
  by (simp add: FromBigEndian16_def swap_2_def swap16_ptr_def)

lemma FromBigEndian32_eq: "FromBigEndian32 x = swap32 x"
  by (simp add: FromBigEndian32_def swap_4_def swap32_ptr_def)

lemmas be_unfold = be16_set_def be16_get_def be32_set_def be32_get_def
  be16_bytes_def be16_read_def be32_bytes_def be32_read_def FromBigEndian16_eq FromBigEndian32_eq

lemma be16_get_set [simp]: "be16_get (be16_set v) = v"
  by (simp add: be_unfold)

lemma be32_get_set [simp]: "be32_get (be32_set v) = v"
  by (simp add: be_unfold)

text \<open>
  The two integer fields satisfy the codec contract in both directions; the arrays of the
  superblock use the array lemmas of these interpretations.
\<close>

interpretation be16: exact_codec be16_bytes be16_read 2 "\<lambda>_. True"
  by unfold_locales (simp_all add: be_unfold host16_host16_read)

interpretation be32: exact_codec be32_bytes be32_read 4 "\<lambda>_. True"
  by unfold_locales (simp_all add: be_unfold host32_host32_read)

lemma be16_bytes_big_endian: "be16_bytes v = [ucast (drop_bit 8 v), ucast v]"
  by (auto simp: be_unfold host16_def bit_simps bit_swap16 intro!: bit_word_eqI
      dest: bit_imp_le_length)

lemma be32_bytes_big_endian:
  "be32_bytes v = [ucast (drop_bit 24 v), ucast (drop_bit 16 v), ucast (drop_bit 8 v), ucast v]"
  by (auto simp: be_unfold host32_def bit_simps bit_swap32 intro!: bit_word_eqI
      dest: bit_imp_le_length)

end
