(* ===== verification/Result.thy ===== *)
theory Result
  imports Prelude
begin

text \<open>
  The public types of \<^verbatim>\<open>include/wiifs/result.h\<close> and \<^verbatim>\<open>include/wiifs/fs.h\<close>.
  \<^verbatim>\<open>Result<T>\<close> is the sum \<open>ResultCode + 'a\<close>: \<open>Inl\<close> holds an error code, \<open>Inr\<close> a value.
\<close>

datatype ResultCode =
    Success
  | Invalid
  | AccessDenied
  | SuperblockWriteFailed
  | SuperblockInitFailed
  | AlreadyExists
  | NotFound
  | FstFull
  | NoFreeSpace
  | NoFreeHandle
  | TooManyPathComponents
  | InUse
  | BadBlock
  | EccError
  | CriticalEccError
  | FileNotEmpty
  | CheckFailed
  | UnknownError

type_synonym 'a Result = "ResultCode + 'a"

definition Succeeded :: "'a Result \<Rightarrow> bool" where
  "Succeeded r = (case r of Inl _ \<Rightarrow> False | Inr _ \<Rightarrow> True)"

definition NAND_SIZE :: nat where
  "NAND_SIZE = 0x21000000"

type_synonym Uid = u32
type_synonym Gid = u16
type_synonym Fd = u32
type_synonym FileAttribute = u8

text \<open>
  \<^verbatim>\<open>FileMode\<close> and \<^verbatim>\<open>SeekMode\<close> have a fixed underlying type, so a value of the enumeration
  is any value of that type.
\<close>

type_synonym FileMode = u8

definition FileMode_None :: FileMode where
  "FileMode_None = 0"

definition FileMode_Read :: FileMode where
  "FileMode_Read = 1"

definition FileMode_Write :: FileMode where
  "FileMode_Write = 2"

definition FileMode_and :: "FileMode \<Rightarrow> FileMode \<Rightarrow> FileMode" where
  "FileMode_and lhs rhs = lhs AND rhs"

definition FileMode_or :: "FileMode \<Rightarrow> FileMode \<Rightarrow> FileMode" where
  "FileMode_or lhs rhs = lhs OR rhs"

type_synonym SeekMode = u32

definition SeekMode_Set :: SeekMode where
  "SeekMode_Set = 0"

definition SeekMode_Current :: SeekMode where
  "SeekMode_Current = 1"

definition SeekMode_End :: SeekMode where
  "SeekMode_End = 2"

record Metadata =
  md_uid :: Uid
  md_gid :: Gid
  md_attribute :: FileAttribute
  md_owner_mode :: FileMode
  md_group_mode :: FileMode
  md_other_mode :: FileMode
  md_is_file :: bool
  md_size :: u32
  md_fst_index :: u16

record NandStats =
  cluster_size :: u32
  free_clusters :: u32
  used_clusters :: u32
  bad_clusters :: u32
  reserved_clusters :: u32
  free_inodes :: u32
  used_inodes :: u32

record DirectoryStats =
  ds_used_clusters :: u32
  ds_used_inodes :: u32

record FileStatus =
  fstat_offset :: u32
  fstat_size :: u32

record FileSystemKeys =
  key_hmac :: "u8 list"
  key_aes :: "u8 list"

definition INTERNAL_FD :: Fd where
  "INTERNAL_FD = 0xffffff00"

lemmas mode_defs = FileMode_None_def FileMode_Read_def FileMode_Write_def FileMode_and_def
  FileMode_or_def

lemmas seek_defs = SeekMode_Set_def SeekMode_Current_def SeekMode_End_def

end
