(* ===== verification/Sffs.thy ===== *)
theory Sffs
  imports Swap Result
begin

text \<open>
  The on-disk structures of \<^verbatim>\<open>driver/sffs.h\<close> with the member functions of
  \<^verbatim>\<open>driver/sffs.cpp\<close>, their packed byte layout, and the permission check of
  \<^verbatim>\<open>driver/util.cpp\<close>. A record field holds the value of its \<^verbatim>\<open>BigEndianValue\<close>; the
  layout functions store and load it in big-endian order.
\<close>

section \<open>Geometry\<close>

definition PAGES_PER_CLUSTER :: nat where
  "PAGES_PER_CLUSTER = 8"

definition DATA_BYTES_PER_PAGE :: nat where
  "DATA_BYTES_PER_PAGE = 2048"

definition SPARE_BYTES_PER_PAGE :: nat where
  "SPARE_BYTES_PER_PAGE = 64"

definition PAGE_SIZE :: nat where
  "PAGE_SIZE = DATA_BYTES_PER_PAGE + SPARE_BYTES_PER_PAGE"

definition CLUSTER_DATA_SIZE :: nat where
  "CLUSTER_DATA_SIZE = PAGES_PER_CLUSTER * DATA_BYTES_PER_PAGE"

definition Offset :: "u32 \<Rightarrow> u32 \<Rightarrow> u32" where
  "Offset cluster_index page_index =
     (cluster_index * of_nat PAGES_PER_CLUSTER * of_nat PAGE_SIZE) + (page_index * of_nat PAGE_SIZE)"

definition SUPERBLOCK_START_CLUSTER :: u16 where
  "SUPERBLOCK_START_CLUSTER = 0x7f00"

definition NUMBER_OF_SUPERBLOCKS :: nat where
  "NUMBER_OF_SUPERBLOCKS = 16"

definition CLUSTERS_PER_SUPERBLOCK :: nat where
  "CLUSTERS_PER_SUPERBLOCK = 16"

definition SuperblockCluster :: "u32 \<Rightarrow> u16" where
  "SuperblockCluster superblock_index = ucast (ucast SUPERBLOCK_START_CLUSTER + superblock_index * 16)"

definition HMAC_PAGE1 :: nat where
  "HMAC_PAGE1 = 6"

definition HMAC_PAGE2 :: nat where
  "HMAC_PAGE2 = 7"

definition HMAC1_OFFSET_IN_PAGE1 :: nat where
  "HMAC1_OFFSET_IN_PAGE1 = 1"

definition HMAC1_SIZE_IN_PAGE1 :: nat where
  "HMAC1_SIZE_IN_PAGE1 = 20"

definition HMAC2_OFFSET_IN_PAGE1 :: nat where
  "HMAC2_OFFSET_IN_PAGE1 = HMAC1_OFFSET_IN_PAGE1 + HMAC1_SIZE_IN_PAGE1"

definition HMAC2_SIZE_IN_PAGE1 :: nat where
  "HMAC2_SIZE_IN_PAGE1 = 12"

definition HMAC2_OFFSET_IN_PAGE2 :: nat where
  "HMAC2_OFFSET_IN_PAGE2 = 1"

definition HMAC2_SIZE_IN_PAGE2 :: nat where
  "HMAC2_SIZE_IN_PAGE2 = 20 - HMAC2_SIZE_IN_PAGE1"

declare PAGES_PER_CLUSTER_def [layout_consts] DATA_BYTES_PER_PAGE_def [layout_consts]
  SPARE_BYTES_PER_PAGE_def [layout_consts] PAGE_SIZE_def [layout_consts]
  CLUSTER_DATA_SIZE_def [layout_consts] SUPERBLOCK_START_CLUSTER_def [layout_consts]
  NUMBER_OF_SUPERBLOCKS_def [layout_consts] CLUSTERS_PER_SUPERBLOCK_def [layout_consts]
  HMAC_PAGE1_def [layout_consts] HMAC_PAGE2_def [layout_consts]
  HMAC1_OFFSET_IN_PAGE1_def [layout_consts] HMAC1_SIZE_IN_PAGE1_def [layout_consts]
  HMAC2_OFFSET_IN_PAGE1_def [layout_consts] HMAC2_SIZE_IN_PAGE1_def [layout_consts]
  HMAC2_OFFSET_IN_PAGE2_def [layout_consts] HMAC2_SIZE_IN_PAGE2_def [layout_consts]

section \<open>FST entries\<close>

record FstEntry =
  e_name :: string
  e_mode :: u8
  e_attr :: FileAttribute
  e_sub :: u16
  e_sib :: u16
  e_size :: u32
  e_uid :: Uid
  e_gid :: Gid
  e_x3 :: u32

text \<open>\<^verbatim>\<open>FstEntry{}\<close>: every byte zero.\<close>

definition zero_FstEntry :: FstEntry where
  "zero_FstEntry = \<lparr>e_name = replicate 12 (CHR 0x00), e_mode = 0, e_attr = 0, e_sub = 0, e_sib = 0,
     e_size = 0, e_uid = 0, e_gid = 0, e_x3 = 0\<rparr>"

definition GetName :: "FstEntry \<Rightarrow> string" where
  "GetName e = takeWhile (\<lambda>c. c \<noteq> CHR 0x00) (e_name e)"

definition SetName :: "string \<Rightarrow> FstEntry \<Rightarrow> FstEntry" where
  "SetName new_name e =
     e\<lparr>e_name := copy_into (replicate 12 (CHR 0x00)) 0 (take (min (length new_name) 12) new_name)\<rparr>"

definition IsFile :: "FstEntry \<Rightarrow> bool" where
  "IsFile e \<longleftrightarrow> e_mode e AND 3 = 1"

definition IsDirectory :: "FstEntry \<Rightarrow> bool" where
  "IsDirectory e \<longleftrightarrow> e_mode e AND 3 = 2"

definition GetOwnerMode :: "FstEntry \<Rightarrow> FileMode" where
  "GetOwnerMode e = drop_bit 6 (e_mode e) AND 3"

definition GetGroupMode :: "FstEntry \<Rightarrow> FileMode" where
  "GetGroupMode e = drop_bit 4 (e_mode e AND 0x30) AND 3"

definition GetOtherMode :: "FstEntry \<Rightarrow> FileMode" where
  "GetOtherMode e = drop_bit 2 (e_mode e AND 0xc) AND 3"

definition SetAccessMode :: "FileMode \<Rightarrow> FileMode \<Rightarrow> FileMode \<Rightarrow> FstEntry \<Rightarrow> FstEntry" where
  "SetAccessMode owner grp other e =
     e\<lparr>e_mode := (e_mode e AND 3) OR push_bit 6 owner OR 16 * grp OR 4 * other\<rparr>"

definition HasPermission :: "FstEntry \<Rightarrow> Uid \<Rightarrow> Gid \<Rightarrow> FileMode \<Rightarrow> bool" where
  "HasPermission fst_entry uid gid requested_mode =
     (if uid = 0 then True
      else let file_mode = (if e_uid fst_entry = uid then GetOwnerMode fst_entry
                            else if e_gid fst_entry = gid then GetGroupMode fst_entry
                            else GetOtherMode fst_entry)
           in requested_mode AND file_mode = requested_mode)"

section \<open>The superblock\<close>

definition CLUSTER_LAST_IN_CHAIN :: u16 where
  "CLUSTER_LAST_IN_CHAIN = 0xfffb"

definition CLUSTER_RESERVED :: u16 where
  "CLUSTER_RESERVED = 0xfffc"

definition CLUSTER_BAD_BLOCK :: u16 where
  "CLUSTER_BAD_BLOCK = 0xfffd"

definition CLUSTER_UNUSED :: u16 where
  "CLUSTER_UNUSED = 0xfffe"

lemmas cluster_marks = CLUSTER_LAST_IN_CHAIN_def CLUSTER_RESERVED_def CLUSTER_BAD_BLOCK_def
  CLUSTER_UNUSED_def

definition SUPERBLOCK_MAGIC :: string where
  "SUPERBLOCK_MAGIC = ''SFFS''"

text \<open>The sizes of the arrays \<^verbatim>\<open>fat\<close> and \<^verbatim>\<open>fst\<close>, part of their types.\<close>

definition FAT_SIZE :: nat where
  "FAT_SIZE = 0x8000"

definition FST_SIZE :: nat where
  "FST_SIZE = 0x17ff"

record Superblock =
  sb_magic :: string
  sb_version :: u32
  sb_unknown :: u32
  sb_fat :: "u16 list"
  sb_fst :: "FstEntry list"
  sb_padding :: "u8 list"

definition zero_Superblock :: Superblock where
  "zero_Superblock = \<lparr>sb_magic = replicate 4 (CHR 0x00), sb_version = 0, sb_unknown = 0,
     sb_fat = replicate FAT_SIZE 0, sb_fst = replicate FST_SIZE zero_FstEntry,
     sb_padding = replicate 20 0\<rparr>"

text \<open>
  What the types guarantee: the arrays have their declared lengths. Every operation of the
  model keeps this.
\<close>

definition entry_wf :: "FstEntry \<Rightarrow> bool" where
  "entry_wf e \<longleftrightarrow> length (e_name e) = 12"

definition sb_wf :: "Superblock \<Rightarrow> bool" where
  "sb_wf sb \<longleftrightarrow> length (sb_magic sb) = 4 \<and> length (sb_fat sb) = FAT_SIZE \<and>
     length (sb_fst sb) = FST_SIZE \<and> (\<forall>e \<in> set (sb_fst sb). entry_wf e) \<and> length (sb_padding sb) = 20"

text \<open>Array accesses, and updates through a pointer to an entry.\<close>

definition fst_at :: "Superblock \<Rightarrow> u16 \<Rightarrow> FstEntry" where
  "fst_at sb i = sb_fst sb ! unat i"

definition fat_at :: "Superblock \<Rightarrow> u16 \<Rightarrow> u16" where
  "fat_at sb i = sb_fat sb ! unat i"

definition upd_fst :: "u16 \<Rightarrow> (FstEntry \<Rightarrow> FstEntry) \<Rightarrow> Superblock \<Rightarrow> Superblock" where
  "upd_fst i f sb = sb\<lparr>sb_fst := (sb_fst sb)[unat i := f (sb_fst sb ! unat i)]\<rparr>"

definition set_fat :: "u16 \<Rightarrow> u16 \<Rightarrow> Superblock \<Rightarrow> Superblock" where
  "set_fat i v sb = sb\<lparr>sb_fat := (sb_fat sb)[unat i := v]\<rparr>"

definition in_fst :: "u16 \<Rightarrow> bool" where
  "in_fst i \<longleftrightarrow> unat i < FST_SIZE"

definition in_fat :: "u16 \<Rightarrow> bool" where
  "in_fat i \<longleftrightarrow> unat i < FAT_SIZE"

section \<open>Byte layout of the packed structures\<close>

definition FstEntry_bytes :: "FstEntry \<Rightarrow> u8 list" where
  "FstEntry_bytes e = map u8_of_char (e_name e) @ [e_mode e, e_attr e] @ be16_bytes (e_sub e)
     @ be16_bytes (e_sib e) @ be32_bytes (e_size e) @ be32_bytes (e_uid e) @ be16_bytes (e_gid e)
     @ be32_bytes (e_x3 e)"

definition FstEntry_of_bytes :: "u8 list \<Rightarrow> FstEntry" where
  "FstEntry_of_bytes bs = \<lparr>e_name = map char_of_u8 (slice 0 12 bs), e_mode = bs ! 12, e_attr = bs ! 13,
     e_sub = be16_read (slice 14 2 bs), e_sib = be16_read (slice 16 2 bs),
     e_size = be32_read (slice 18 4 bs), e_uid = be32_read (slice 22 4 bs),
     e_gid = be16_read (slice 26 2 bs), e_x3 = be32_read (slice 28 4 bs)\<rparr>"

definition Superblock_bytes :: "Superblock \<Rightarrow> u8 list" where
  "Superblock_bytes sb = map u8_of_char (sb_magic sb) @ be32_bytes (sb_version sb)
     @ be32_bytes (sb_unknown sb) @ concat (map be16_bytes (sb_fat sb))
     @ concat (map FstEntry_bytes (sb_fst sb)) @ sb_padding sb"

definition Superblock_of_bytes :: "u8 list \<Rightarrow> Superblock" where
  "Superblock_of_bytes bs = \<lparr>sb_magic = map char_of_u8 (slice 0 4 bs),
     sb_version = be32_read (slice 4 4 bs), sb_unknown = be32_read (slice 8 4 bs),
     sb_fat = map be16_read (chunks FAT_SIZE 2 (slice 12 (FAT_SIZE * 2) bs)),
     sb_fst = map FstEntry_of_bytes (chunks FST_SIZE 32 (slice (12 + FAT_SIZE * 2) (FST_SIZE * 32) bs)),
     sb_padding = slice (12 + FAT_SIZE * 2 + FST_SIZE * 32) 20 bs\<rparr>"

definition SUPERBLOCK_BYTES :: nat where
  "SUPERBLOCK_BYTES = 12 + FAT_SIZE * 2 + FST_SIZE * 32 + 20"

record SuperblockSalt =
  ss_padding :: "u8 list"
  ss_starting_cluster :: u16
  ss_padding2 :: "u8 list"

definition SuperblockSalt_bytes :: "SuperblockSalt \<Rightarrow> u8 list" where
  "SuperblockSalt_bytes s = ss_padding s @ be16_bytes (ss_starting_cluster s) @ ss_padding2 s"

record DataSalt =
  ds_uid :: u32
  ds_name :: string
  ds_chain_index :: u32
  ds_fst_index :: u32
  ds_x3 :: u32
  ds_padding :: "u8 list"

definition DataSalt_bytes :: "DataSalt \<Rightarrow> u8 list" where
  "DataSalt_bytes s = be32_bytes (ds_uid s) @ map u8_of_char (ds_name s) @ be32_bytes (ds_chain_index s)
     @ be32_bytes (ds_fst_index s) @ be32_bytes (ds_x3 s) @ ds_padding s"

section \<open>Array facts\<close>

lemma nth_update_word:
  "xs[unat i := v] ! unat j = (if j = i \<and> unat i < length xs then v else xs ! unat j)"
proof (cases "unat i < length xs")
  case True
  then show ?thesis by (simp add: nth_list_update word_unat_eq_iff)
next
  case False
  then show ?thesis by (simp add: list_update_beyond)
qed

lemma fst_at_upd_fst:
  "fst_at (upd_fst i f sb) j
     = (if j = i \<and> unat i < length (sb_fst sb) then f (fst_at sb i) else fst_at sb j)"
  by (simp add: fst_at_def upd_fst_def nth_update_word)

lemma fat_at_set_fat:
  "fat_at (set_fat i v sb) j = (if j = i \<and> unat i < length (sb_fat sb) then v else fat_at sb j)"
  by (simp add: fat_at_def set_fat_def nth_update_word)

lemma sb_fields_upd [simp]:
  "sb_fat (upd_fst i f sb) = sb_fat sb" "sb_fst (set_fat i v sb) = sb_fst sb"
  "length (sb_fst (upd_fst i f sb)) = length (sb_fst sb)"
  "length (sb_fat (set_fat i v sb)) = length (sb_fat sb)"
  "sb_version (upd_fst i f sb) = sb_version sb" "sb_version (set_fat i v sb) = sb_version sb"
  "sb_magic (upd_fst i f sb) = sb_magic sb" "sb_magic (set_fat i v sb) = sb_magic sb"
  "sb_padding (upd_fst i f sb) = sb_padding sb" "sb_padding (set_fat i v sb) = sb_padding sb"
  "sb_unknown (upd_fst i f sb) = sb_unknown sb" "sb_unknown (set_fat i v sb) = sb_unknown sb"
  by (simp_all add: upd_fst_def set_fat_def)

lemma fat_at_upd_fst [simp]: "fat_at (upd_fst i f sb) j = fat_at sb j"
  by (simp add: fat_at_def)

lemma fst_at_set_fat [simp]: "fst_at (set_fat i v sb) j = fst_at sb j"
  by (simp add: fst_at_def)

lemma fst_at_mem: "sb_wf sb \<Longrightarrow> in_fst i \<Longrightarrow> fst_at sb i \<in> set (sb_fst sb)"
  by (simp add: sb_wf_def in_fst_def fst_at_def)

lemma entry_wf_fst_at: "sb_wf sb \<Longrightarrow> in_fst i \<Longrightarrow> entry_wf (fst_at sb i)"
  using fst_at_mem by (simp add: sb_wf_def)

lemma sb_wf_upd_fst:
  assumes "sb_wf sb" and "in_fst i \<Longrightarrow> entry_wf (f (fst_at sb i))"
  shows "sb_wf (upd_fst i f sb)"
proof -
  have "\<forall>e \<in> set (sb_fst (upd_fst i f sb)). entry_wf e"
    using assms set_update_subset_insert [of "sb_fst sb" "unat i"]
    by (cases "in_fst i") (fastforce simp: upd_fst_def sb_wf_def in_fst_def fst_at_def list_update_beyond)+
  then show ?thesis using assms by (simp add: sb_wf_def)
qed

lemma sb_wf_set_fat [simp]: "sb_wf (set_fat i v sb) = sb_wf sb"
  by (simp add: sb_wf_def)

lemma sb_wf_version [simp]: "sb_wf (sb\<lparr>sb_version := v\<rparr>) = sb_wf sb"
  by (simp add: sb_wf_def)

lemma sb_wf_zero: "sb_wf zero_Superblock"
  by (simp add: sb_wf_def zero_Superblock_def entry_wf_def zero_FstEntry_def)

lemma entry_wf_upd [simp]:
  "entry_wf (e\<lparr>e_mode := m\<rparr>) = entry_wf e" "entry_wf (e\<lparr>e_attr := a\<rparr>) = entry_wf e"
  "entry_wf (e\<lparr>e_sub := s\<rparr>) = entry_wf e" "entry_wf (e\<lparr>e_sib := s\<rparr>) = entry_wf e"
  "entry_wf (e\<lparr>e_size := z\<rparr>) = entry_wf e" "entry_wf (e\<lparr>e_uid := u\<rparr>) = entry_wf e"
  "entry_wf (e\<lparr>e_gid := g\<rparr>) = entry_wf e" "entry_wf (e\<lparr>e_x3 := x\<rparr>) = entry_wf e"
  by (simp_all add: entry_wf_def)

lemma entry_wf_SetAccessMode [simp]: "entry_wf (SetAccessMode a b c e) = entry_wf e"
  by (simp add: SetAccessMode_def)

lemma length_SetName: "length (e_name (SetName n e)) = 12"
  by (simp add: SetName_def)

lemma entry_wf_SetName [simp]: "entry_wf (SetName n e)"
  by (simp add: entry_wf_def length_SetName)

section \<open>Names and modes\<close>

lemma GetName_SetName:
  assumes "CHR 0x00 \<notin> set n"
  shows "GetName (SetName n e) = take 12 n"
proof -
  have nz: "\<And>c. c \<in> set (take 12 n) \<Longrightarrow> c \<noteq> CHR 0x00" using assms by (auto dest: in_set_takeD)
  have "take (min (length n) 12) n = take 12 n" by (simp add: min_def)
  then have "e_name (SetName n e) = take 12 n @ replicate (12 - length (take 12 n)) (CHR 0x00)"
    by (simp add: SetName_def copy_into_def)
  then show ?thesis
    unfolding GetName_def using nz
    by (simp add: takeWhile_append2 takeWhile_replicate del: length_take)
qed

lemma GetName_length: "entry_wf e \<Longrightarrow> length (GetName e) \<le> 12"
  unfolding GetName_def entry_wf_def by (metis length_takeWhile_le)

lemma GetName_cong [simp]:
  "GetName (e\<lparr>e_mode := m\<rparr>) = GetName e" "GetName (e\<lparr>e_sib := s\<rparr>) = GetName e"
  "GetName (e\<lparr>e_sub := s\<rparr>) = GetName e" "GetName (e\<lparr>e_size := z\<rparr>) = GetName e"
  "GetName (e\<lparr>e_uid := u\<rparr>) = GetName e" "GetName (e\<lparr>e_gid := g\<rparr>) = GetName e"
  "GetName (e\<lparr>e_attr := a\<rparr>) = GetName e" "GetName (e\<lparr>e_x3 := x\<rparr>) = GetName e"
  "GetName (SetAccessMode a1 a2 a3 e) = GetName e"
  by (simp_all add: GetName_def SetAccessMode_def)

lemma SetAccessMode_type [simp]: "e_mode (SetAccessMode a b c e) AND 3 = e_mode e AND 3"
proof -
  have t: "16 * b = push_bit 4 b" "4 * c = push_bit 2 c" by (simp_all add: push_bit_eq_mult)
  have m: "(3 :: u8) = mask 2" by (simp add: mask_eq_exp_minus_1)
  show ?thesis unfolding SetAccessMode_def t m by (simp add: take_bit_eq_mask [symmetric] take_bit_or take_bit_push_bit)
qed

section \<open>Properties\<close>

text \<open>
  The access mode of an entry: after \<^verbatim>\<open>SetAccessMode\<close> with two-bit modes the three getters
  return them, and the type bits and every other field of the entry are unchanged.
\<close>

theorem access_mode_roundtrip:
  assumes "owner < 4" and "grp < 4" and "other < 4"
  shows "GetOwnerMode (SetAccessMode owner grp other e) = owner \<and>
    GetGroupMode (SetAccessMode owner grp other e) = grp \<and>
    GetOtherMode (SetAccessMode owner grp other e) = other \<and>
    IsFile (SetAccessMode owner grp other e) = IsFile e \<and>
    IsDirectory (SetAccessMode owner grp other e) = IsDirectory e \<and>
    SetAccessMode owner grp other e = e\<lparr>e_mode := e_mode (SetAccessMode owner grp other e)\<rparr>"
proof -
  have four: "x = 0 \<or> x = 1 \<or> x = 2 \<or> x = 3" if "x < 4" for x :: u8
  proof -
    have "unat x < 4" using that by (simp add: word_less_nat_alt)
    then have "unat x = 0 \<or> unat x = 1 \<or> unat x = 2 \<or> unat x = 3" by linarith
    then show ?thesis by (auto simp: word_unat_eq_iff)
  qed
  have low: "(((m AND 3) OR push_bit 6 owner OR 16 * grp OR 4 * other) AND 3) = m AND 3" for m :: u8
    using four [OF assms(1)] four [OF assms(2)] four [OF assms(3)]
    by (elim disjE; simp add: bit.conj_disj_distrib2 and.assoc push_bit_eq_mult)
  have high: "drop_bit 6 ((m AND 3) OR push_bit 6 owner OR 16 * grp OR 4 * other) AND 3 = owner"
    "drop_bit 4 (((m AND 3) OR push_bit 6 owner OR 16 * grp OR 4 * other) AND 0x30) AND 3 = grp"
    "drop_bit 2 (((m AND 3) OR push_bit 6 owner OR 16 * grp OR 4 * other) AND 0xc) AND 3 = other" for m :: u8
    using four [OF assms(1)] four [OF assms(2)] four [OF assms(3)]
    by (elim disjE; simp add: bit.conj_disj_distrib2 and.assoc push_bit_eq_mult drop_bit_or drop_bit_and)+
  have "grp AND 3 = grp" "other AND 3 = other"
    using four [OF assms(2)] four [OF assms(3)] by auto
  then show ?thesis
    using low [of "e_mode e"] high [of "e_mode e"]
    by (simp add: SetAccessMode_def GetOwnerMode_def GetGroupMode_def GetOtherMode_def IsFile_def IsDirectory_def)
qed

lemma access_mode_roundtrip_witness:
  "GetGroupMode (SetAccessMode 3 1 0 zero_FstEntry) = 1"
  using access_mode_roundtrip [of 3 1 0 zero_FstEntry] by simp

end
