(* ===== verification/Crypto.thy ===== *)
theory Crypto
  imports Sffs
begin

text \<open>
  The cryptographic wrappers of \<^verbatim>\<open>common/crypto.cpp\<close>. The mbedTLS library they call is a
  parameter: a record of its functions, over a type \<open>'k\<close> of AES contexts and a type \<open>'c\<close> of
  SHA-1 contexts. \<open>mbedtls_ok\<close> collects what the driver relies on, as the library's
  documentation states it.
\<close>

section \<open>The library as a parameter\<close>

datatype aes_mode = MBEDTLS_AES_DECRYPT | MBEDTLS_AES_ENCRYPT

record ('k, 'c) mbedtls =
  aes_setkey_dec :: "u8 list \<Rightarrow> nat \<Rightarrow> 'k"
  aes_setkey_enc :: "u8 list \<Rightarrow> nat \<Rightarrow> 'k"
  aes_crypt_cbc :: "'k \<Rightarrow> aes_mode \<Rightarrow> u8 list \<Rightarrow> u8 list \<Rightarrow> u8 list \<times> u8 list"
  sha1_starts :: 'c
  sha1_update :: "'c \<Rightarrow> u8 list \<Rightarrow> 'c"
  sha1_finish :: "'c \<Rightarrow> u8 list"

text \<open>
  \<open>aes_crypt_cbc ctx mode iv src\<close> is the output and the updated initialisation vector.
  On whole blocks the output is as long as the input; the vector stays a block, and
  passing it to the next call continues the stream; decryption undoes encryption; a
  SHA-1 digest has 20 bytes.
\<close>

definition whole_blocks :: "u8 list \<Rightarrow> bool" where
  "whole_blocks src \<longleftrightarrow> 16 dvd length src"

definition mbedtls_ok :: "('k, 'c) mbedtls \<Rightarrow> bool" where
  "mbedtls_ok lib \<longleftrightarrow>
     (\<forall>k m iv src. length iv = 16 \<longrightarrow> whole_blocks src \<longrightarrow>
        length (fst (aes_crypt_cbc lib k m iv src)) = length src \<and>
        length (snd (aes_crypt_cbc lib k m iv src)) = 16) \<and>
     (\<forall>k m iv src src'. length iv = 16 \<longrightarrow> whole_blocks src \<longrightarrow> whole_blocks src' \<longrightarrow>
        aes_crypt_cbc lib k m iv (src @ src') =
          (fst (aes_crypt_cbc lib k m iv src)
             @ fst (aes_crypt_cbc lib k m (snd (aes_crypt_cbc lib k m iv src)) src'),
           snd (aes_crypt_cbc lib k m (snd (aes_crypt_cbc lib k m iv src)) src'))) \<and>
     (\<forall>key iv src. length iv = 16 \<longrightarrow> whole_blocks src \<longrightarrow>
        fst (aes_crypt_cbc lib (aes_setkey_dec lib key 128) MBEDTLS_AES_DECRYPT iv
              (fst (aes_crypt_cbc lib (aes_setkey_enc lib key 128) MBEDTLS_AES_ENCRYPT iv src))) = src) \<and>
     (\<forall>c. length (sha1_finish lib c) = 20)"

section \<open>The wrappers\<close>

text \<open>
  Both take the vector by pointer: the result pairs the buffer with the updated vector.
\<close>

definition AesDecrypt :: "('k, 'c) mbedtls \<Rightarrow> u8 list \<Rightarrow> u8 list \<Rightarrow> u8 list \<Rightarrow> u8 list \<times> u8 list" where
  "AesDecrypt lib key iv src = aes_crypt_cbc lib (aes_setkey_dec lib key 128) MBEDTLS_AES_DECRYPT iv src"

definition AesEncrypt :: "('k, 'c) mbedtls \<Rightarrow> u8 list \<Rightarrow> u8 list \<Rightarrow> u8 list \<Rightarrow> u8 list \<times> u8 list" where
  "AesEncrypt lib key iv src = aes_crypt_cbc lib (aes_setkey_enc lib key 128) MBEDTLS_AES_ENCRYPT iv src"

record 'c BlockMacGenerator =
  m_hash_context :: 'c
  m_hmac_key :: "u8 list"

definition xorpad :: "u8 list \<Rightarrow> u8 \<Rightarrow> u8 list" where
  "xorpad hmac_key x = map (\<lambda>byte. byte XOR x) (copy_into (replicate 0x40 0) 0 hmac_key)"

definition BlockMacGenerator_new :: "('k, 'c) mbedtls \<Rightarrow> u8 list \<Rightarrow> 'c BlockMacGenerator" where
  "BlockMacGenerator_new lib hmac_key =
     \<lparr>m_hash_context = sha1_update lib (sha1_starts lib) (xorpad hmac_key 0x36), m_hmac_key = hmac_key\<rparr>"

definition Update :: "('k, 'c) mbedtls \<Rightarrow> u8 list \<Rightarrow> 'c BlockMacGenerator \<Rightarrow> 'c BlockMacGenerator" where
  "Update lib input g = g\<lparr>m_hash_context := sha1_update lib (m_hash_context g) input\<rparr>"

definition FinaliseAndGetHash :: "('k, 'c) mbedtls \<Rightarrow> 'c BlockMacGenerator \<Rightarrow> u8 list" where
  "FinaliseAndGetHash lib g =
     (let temp_hash = sha1_finish lib (m_hash_context g);
          c0 = sha1_starts lib;
          c1 = sha1_update lib c0 (xorpad (m_hmac_key g) 0x5c);
          c2 = sha1_update lib c1 temp_hash
      in sha1_finish lib c2)"

section \<open>Message authentication codes of the file system\<close>

definition SuperblockSalt_for :: "u16 \<Rightarrow> SuperblockSalt" where
  "SuperblockSalt_for index = \<lparr>ss_padding = replicate 0x12 0,
     ss_starting_cluster = SuperblockCluster (ucast index), ss_padding2 = replicate 0x2c 0\<rparr>"

definition GenerateHmacForSuperblock ::
  "('k, 'c) mbedtls \<Rightarrow> FileSystemKeys \<Rightarrow> Superblock \<Rightarrow> u16 \<Rightarrow> u8 list" where
  "GenerateHmacForSuperblock lib keys superblock index =
     (let g0 = BlockMacGenerator_new lib (key_hmac keys);
          g1 = Update lib (SuperblockSalt_bytes (SuperblockSalt_for index)) g0;
          g2 = Update lib (Superblock_bytes superblock) g1
      in FinaliseAndGetHash lib g2)"

definition DataSalt_for :: "FstEntry \<Rightarrow> u16 \<Rightarrow> u16 \<Rightarrow> DataSalt" where
  "DataSalt_for entry fst_index chain_index = \<lparr>ds_uid = e_uid entry, ds_name = e_name entry,
     ds_chain_index = ucast chain_index, ds_fst_index = ucast fst_index, ds_x3 = e_x3 entry,
     ds_padding = replicate 0x24 0\<rparr>"

text \<open>
  The entry is read with \<^verbatim>\<open>fst.at\<close>; every caller has checked the index, so the exception
  of an index out of range does not occur.
\<close>

definition GenerateHmacForData ::
  "('k, 'c) mbedtls \<Rightarrow> FileSystemKeys \<Rightarrow> Superblock \<Rightarrow> u8 list \<Rightarrow> u16 \<Rightarrow> u16 \<Rightarrow> u8 list" where
  "GenerateHmacForData lib keys superblock cluster_data fst_index chain_index =
     (let salt = DataSalt_for (fst_at superblock fst_index) fst_index chain_index;
          g0 = BlockMacGenerator_new lib (key_hmac keys);
          g1 = Update lib (DataSalt_bytes salt) g0;
          g2 = Update lib (take CLUSTER_DATA_SIZE cluster_data) g1
      in FinaliseAndGetHash lib g2)"

section \<open>Facts\<close>

lemma length_FinaliseAndGetHash: "mbedtls_ok lib \<Longrightarrow> length (FinaliseAndGetHash lib g) = 20"
  by (simp add: FinaliseAndGetHash_def mbedtls_ok_def Let_def)

lemma length_GenerateHmacForSuperblock:
  "mbedtls_ok lib \<Longrightarrow> length (GenerateHmacForSuperblock lib keys sb i) = 20"
  by (simp add: GenerateHmacForSuperblock_def length_FinaliseAndGetHash Let_def)

lemma length_GenerateHmacForData:
  "mbedtls_ok lib \<Longrightarrow> length (GenerateHmacForData lib keys sb d i j) = 20"
  by (simp add: GenerateHmacForData_def length_FinaliseAndGetHash Let_def)

lemma AesEncrypt_length:
  "mbedtls_ok lib \<Longrightarrow> length iv = 16 \<Longrightarrow> whole_blocks src \<Longrightarrow>
   length (fst (AesEncrypt lib key iv src)) = length src \<and> length (snd (AesEncrypt lib key iv src)) = 16"
  by (simp add: mbedtls_ok_def AesEncrypt_def)

lemma AesEncrypt_append:
  "mbedtls_ok lib \<Longrightarrow> length iv = 16 \<Longrightarrow> whole_blocks src \<Longrightarrow> whole_blocks src' \<Longrightarrow>
   AesEncrypt lib key iv (src @ src') =
     (fst (AesEncrypt lib key iv src) @ fst (AesEncrypt lib key (snd (AesEncrypt lib key iv src)) src'),
      snd (AesEncrypt lib key (snd (AesEncrypt lib key iv src)) src'))"
  unfolding mbedtls_ok_def AesEncrypt_def by blast

lemma AesDecrypt_AesEncrypt:
  "mbedtls_ok lib \<Longrightarrow> length iv = 16 \<Longrightarrow> whole_blocks src \<Longrightarrow>
   fst (AesDecrypt lib key iv (fst (AesEncrypt lib key iv src))) = src"
  unfolding mbedtls_ok_def AesEncrypt_def AesDecrypt_def by blast

text \<open>The salts have the size the structures declare.\<close>

lemma length_SuperblockSalt: "length (SuperblockSalt_bytes (SuperblockSalt_for i)) = 0x40"
  by (simp add: SuperblockSalt_bytes_def SuperblockSalt_for_def be16.enc_length)

lemma length_DataSalt: "entry_wf e \<Longrightarrow> length (DataSalt_bytes (DataSalt_for e i j)) = 0x40"
  by (simp add: DataSalt_bytes_def DataSalt_for_def entry_wf_def be32.enc_length)

section \<open>A concrete instance of the library's contract\<close>

text \<open>
  A cipher-block chain over the block permutation that adds the key bytewise, with a
  byte-sum digest: small enough to evaluate, and an instance of \<open>mbedtls_ok\<close>.
\<close>

fun cbc_blocks :: "(u8 list \<Rightarrow> u8 list \<Rightarrow> u8 list \<times> u8 list) \<Rightarrow> nat \<Rightarrow> u8 list \<Rightarrow> u8 list \<Rightarrow> u8 list \<times> u8 list" where
  "cbc_blocks f 0 iv src = ([], iv)"
| "cbc_blocks f (Suc n) iv src =
     (let (out, iv') = f iv (take 16 src); (rest, iv'') = cbc_blocks f n iv' (drop 16 src)
      in (out @ rest, iv''))"

definition demo_block :: "u8 list \<Rightarrow> u8 list \<Rightarrow> u8 list \<Rightarrow> aes_mode \<Rightarrow> u8 list \<times> u8 list" where
  "demo_block key iv b m = (case m of
     MBEDTLS_AES_ENCRYPT \<Rightarrow> (let c = map2 (\<lambda>x v. (x XOR v) + (if key = [] then 0 else hd key)) b iv in (c, c))
   | MBEDTLS_AES_DECRYPT \<Rightarrow> (map2 (\<lambda>x v. (x - (if key = [] then 0 else hd key)) XOR v) b iv, b))"

definition demo_mbedtls :: "(u8 list, u8) mbedtls" where
  "demo_mbedtls = \<lparr>aes_setkey_dec = (\<lambda>key n. key), aes_setkey_enc = (\<lambda>key n. key),
     aes_crypt_cbc = (\<lambda>key m iv src. cbc_blocks (\<lambda>iv b. demo_block key iv b m) (length src div 16) iv src),
     sha1_starts = 0, sha1_update = (\<lambda>c bs. c + sum_list bs), sha1_finish = (\<lambda>c. replicate 20 c)\<rparr>"

lemma demo_block_length:
  "length iv = 16 \<Longrightarrow> length b = 16 \<Longrightarrow>
   length (fst (demo_block key iv b m)) = 16 \<and> length (snd (demo_block key iv b m)) = 16"
  by (cases m) (simp_all add: demo_block_def Let_def)

lemma cbc_length:
  "length iv = 16 \<Longrightarrow> length src = n * 16 \<Longrightarrow>
   length (fst (cbc_blocks (\<lambda>iv b. demo_block key iv b m) n iv src)) = n * 16 \<and>
   length (snd (cbc_blocks (\<lambda>iv b. demo_block key iv b m) n iv src)) = 16"
  by (induction n arbitrary: iv src) (auto simp: case_prod_beta Let_def demo_block_length)

lemma cbc_append:
  "length src = n * 16 \<Longrightarrow>
   cbc_blocks f (n + k) iv (src @ src') =
     (fst (cbc_blocks f n iv src) @ fst (cbc_blocks f k (snd (cbc_blocks f n iv src)) src'),
      snd (cbc_blocks f k (snd (cbc_blocks f n iv src)) src'))"
  by (induction n arbitrary: iv src) (auto simp: case_prod_beta Let_def)

lemma demo_block_inverse:
  assumes "length iv = 16" "length b = 16"
  shows "demo_block key iv (fst (demo_block key iv b MBEDTLS_AES_ENCRYPT)) MBEDTLS_AES_DECRYPT
    = (b, snd (demo_block key iv b MBEDTLS_AES_ENCRYPT))"
  using assms by (auto simp: demo_block_def Let_def xor.assoc intro!: nth_equalityI)

lemma cbc_inverse:
  "length iv = 16 \<Longrightarrow> length src = n * 16 \<Longrightarrow>
   fst (cbc_blocks (\<lambda>iv b. demo_block key iv b MBEDTLS_AES_DECRYPT) n iv
     (fst (cbc_blocks (\<lambda>iv b. demo_block key iv b MBEDTLS_AES_ENCRYPT) n iv src))) = src"
  by (induction n arbitrary: iv src)
    (auto simp: case_prod_beta Let_def demo_block_length demo_block_inverse)

lemma demo_mbedtls_ok: "mbedtls_ok demo_mbedtls"
  unfolding mbedtls_ok_def
proof (intro conjI allI impI)
  fix k m and iv src src' :: "u8 list"
  assume iv: "length iv = 16" and src: "whole_blocks src"
  define n where "n = length src div 16"
  have n: "length src = n * 16" using src by (simp add: n_def whole_blocks_def)
  show "length (fst (aes_crypt_cbc demo_mbedtls k m iv src)) = length src"
    "length (snd (aes_crypt_cbc demo_mbedtls k m iv src)) = 16"
    using cbc_length [OF iv n] by (simp_all add: demo_mbedtls_def n)
  assume "whole_blocks src'"
  then show "aes_crypt_cbc demo_mbedtls k m iv (src @ src') =
          (fst (aes_crypt_cbc demo_mbedtls k m iv src)
             @ fst (aes_crypt_cbc demo_mbedtls k m (snd (aes_crypt_cbc demo_mbedtls k m iv src)) src'),
           snd (aes_crypt_cbc demo_mbedtls k m (snd (aes_crypt_cbc demo_mbedtls k m iv src)) src'))"
    using cbc_append [OF n] by (simp add: demo_mbedtls_def n)
next
  fix key and iv src :: "u8 list"
  assume iv: "length iv = 16" and src: "whole_blocks src"
  define n where "n = length src div 16"
  have n: "length src = n * 16" using src by (simp add: n_def whole_blocks_def)
  show "fst (aes_crypt_cbc demo_mbedtls (aes_setkey_dec demo_mbedtls key 128) MBEDTLS_AES_DECRYPT iv
              (fst (aes_crypt_cbc demo_mbedtls (aes_setkey_enc demo_mbedtls key 128) MBEDTLS_AES_ENCRYPT iv src))) = src"
    using cbc_inverse [OF iv n] cbc_length [OF iv n] by (simp add: demo_mbedtls_def n)
next
  fix c
  show "length (sha1_finish demo_mbedtls c) = 20" by (simp add: demo_mbedtls_def)
qed

section \<open>Properties\<close>

text \<open>
  The standard construction of a keyed code over a hash, for keys of at most a block.
\<close>

definition sha1_of :: "('k, 'c) mbedtls \<Rightarrow> u8 list \<Rightarrow> u8 list" where
  "sha1_of lib msg = sha1_finish lib (sha1_update lib (sha1_starts lib) msg)"

definition hmac_of :: "('k, 'c) mbedtls \<Rightarrow> u8 list \<Rightarrow> u8 list \<Rightarrow> u8 list" where
  "hmac_of lib key msg =
     (let k = key @ replicate (64 - length key) 0 in
      sha1_of lib (map (\<lambda>b. b XOR 0x5c) k @ sha1_of lib (map (\<lambda>b. b XOR 0x36) k @ msg)))"

definition sha1_incremental :: "('k, 'c) mbedtls \<Rightarrow> bool" where
  "sha1_incremental lib \<longleftrightarrow> (\<forall>c xs ys. sha1_update lib (sha1_update lib c xs) ys = sha1_update lib c (xs @ ys))"

lemma mac_is_hmac:
  assumes "sha1_incremental lib"
  shows "FinaliseAndGetHash lib (fold (Update lib) parts (BlockMacGenerator_new lib key)) = hmac_of lib key (concat parts)"
proof -
  have inc: "sha1_update lib (sha1_update lib c xs) ys = sha1_update lib c (xs @ ys)" for c xs ys
    using assms by (simp add: sha1_incremental_def)
  have f: "fold (Update lib) parts g = g\<lparr>m_hash_context := sha1_update lib (m_hash_context g) (concat parts)\<rparr>"
    if "sha1_update lib (m_hash_context g) [] = m_hash_context g" for g
    using that
  proof (induction parts arbitrary: g)
    case (Cons p parts)
    have "fold (Update lib) parts (Update lib p g) = (Update lib p g)\<lparr>m_hash_context := sha1_update lib (m_hash_context (Update lib p g)) (concat parts)\<rparr>"
      by (rule Cons.IH) (simp add: Update_def inc)
    moreover have "Update lib p g = g\<lparr>m_hash_context := sha1_update lib (m_hash_context g) p\<rparr>" by (simp add: Update_def)
    ultimately show ?case by (simp add: inc)
  qed simp
  have pad: "copy_into (replicate 64 0) 0 key = key @ replicate (64 - length key) 0"
    by (simp add: copy_into_def)
  show ?thesis
    by (subst f) (simp_all add: BlockMacGenerator_new_def FinaliseAndGetHash_def inc hmac_of_def sha1_of_def xorpad_def pad Let_def)
qed

text \<open>
  C40 The codes of the file system are standard HMACs: if hashing in pieces is hashing the
  concatenation, the code of a data cluster is the HMAC, under the HMAC key, of the 64-byte
  salt followed by the first \<^verbatim>\<open>CLUSTER_DATA_SIZE\<close> bytes of the data, and the code of a
  superblock that of its salt followed by its bytes.
\<close>

theorem codes_are_hmacs:
  assumes "sha1_incremental lib"
  shows "GenerateHmacForData lib keys sb d f i =
      hmac_of lib (key_hmac keys) (DataSalt_bytes (DataSalt_for (fst_at sb f) f i) @ take CLUSTER_DATA_SIZE d) \<and>
    GenerateHmacForSuperblock lib keys sb k =
      hmac_of lib (key_hmac keys) (SuperblockSalt_bytes (SuperblockSalt_for k) @ Superblock_bytes sb)"
  using mac_is_hmac [OF assms, of "[_, _]" "key_hmac keys"]
  by (simp add: GenerateHmacForData_def GenerateHmacForSuperblock_def Let_def)

lemma codes_are_hmacs_witness:
  "GenerateHmacForSuperblock demo_mbedtls \<lparr>key_hmac = replicate 20 1, key_aes = replicate 16 2\<rparr> zero_Superblock 3 =
     hmac_of demo_mbedtls (replicate 20 1) (SuperblockSalt_bytes (SuperblockSalt_for 3) @ Superblock_bytes zero_Superblock)"
  using codes_are_hmacs [of demo_mbedtls "\<lparr>key_hmac = replicate 20 1, key_aes = replicate 16 2\<rparr>" zero_Superblock _ _ _ 3]
  by (simp add: sha1_incremental_def demo_mbedtls_def add.assoc)

end
