(* ===== verification/Ecc.thy ===== *)
theory Ecc
  imports Swap
begin

text \<open>
  The NAND error-correcting code of \<^verbatim>\<open>common/ecc.cpp\<close>: for each 512-byte block, twelve
  pairs of line and column parities. The reference specification states each code bit as
  the parity of the data bits whose position has a given address bit clear or set; from it
  follows that two codes of blocks differing in one bit name that bit's position.
\<close>

section \<open>The code of \<^verbatim>\<open>ecc.cpp\<close>\<close>

function Parity_loop :: "u8 \<Rightarrow> u8 \<Rightarrow> u8" where
  "Parity_loop x y = (if x \<noteq> 0 then Parity_loop (drop_bit 1 x) (y XOR (x AND 1)) else y)"
  by pat_completeness auto
termination
proof (relation "measure (\<lambda>(x, y). unat x)")
  show "wf (measure (\<lambda>(x :: u8, y :: u8). unat x))" by simp
next
  fix x y :: u8
  assume "x \<noteq> 0"
  then have "0 < unat x" by (simp add: unat_gt_0)
  then have "unat x div 2 < unat x" by simp
  then show "((drop_bit 1 x, y XOR (x AND 1)), (x, y)) \<in> measure (\<lambda>(x, y). unat x)"
    by (simp add: drop_bit_eq_div unat_div)
qed

declare Parity_loop.simps [simp del]

definition Parity :: "u8 \<Rightarrow> u8" where
  "Parity x = Parity_loop x 0"

text \<open>
  The array \<^verbatim>\<open>u8 a[12][2]\<close> is a list of twelve pairs; \<open>xor_at\<close> is \<^verbatim>\<open>a[j][c] ^= x\<close>.
\<close>

type_synonym parities = "(u8 \<times> u8) list"

definition xor_at :: "parities \<Rightarrow> nat \<Rightarrow> nat \<Rightarrow> u8 \<Rightarrow> parities" where
  "xor_at a j c x = a[j := (if c = 0 then (fst (a ! j) XOR x, snd (a ! j))
                            else (fst (a ! j), snd (a ! j) XOR x))]"

definition ecc_byte :: "u8 list \<Rightarrow> nat \<Rightarrow> parities \<Rightarrow> parities" where
  "ecc_byte data i a = fold (\<lambda>j a. xor_at a (3 + j) ((i div 2 ^ j) mod 2) (data ! i)) [0..<9] a"

definition ecc_lines :: "u8 list \<Rightarrow> parities" where
  "ecc_lines data = fold (ecc_byte data) [0..<512] (replicate 12 (0, 0))"

definition ecc_columns :: "parities \<Rightarrow> parities" where
  "ecc_columns a = (let x = fst (a ! 3) XOR snd (a ! 3) in
     a[0 := (x AND 0x55, x AND 0xaa), 1 := (x AND 0x33, x AND 0xcc), 2 := (x AND 0x0f, x AND 0xf0)])"

definition ecc_words :: "u8 list \<Rightarrow> u32 \<times> u32" where
  "ecc_words data = (let a = map (\<lambda>(p, q). (Parity p, Parity q)) (ecc_columns (ecc_lines data)) in
     (fold (\<lambda>j w. w OR push_bit j (ucast (fst (a ! j)))) [0..<12] 0,
      fold (\<lambda>j w. w OR push_bit j (ucast (snd (a ! j)))) [0..<12] 0))"

definition ecc_block :: "u8 list \<Rightarrow> u8 list" where
  "ecc_block data = (case ecc_words data of (a0, a1) \<Rightarrow>
     [ucast a0, ucast (drop_bit 8 a0), ucast a1, ucast (drop_bit 8 a1)])"

definition Calculate :: "u8 list \<Rightarrow> u8 list" where
  "Calculate data = concat (map (\<lambda>k. ecc_block (drop (512 * k) data)) [0..<4])"

section \<open>Parities as sums\<close>

definition popcount :: "u8 \<Rightarrow> nat" where
  "popcount x = (\<Sum>b<8. of_bool (bit x b))"

lemma popcount_0 [simp]: "popcount 0 = 0"
  by (simp add: popcount_def)

lemma popcount_shift: "popcount x = of_bool (bit x 0) + popcount (drop_bit 1 x)"
proof -
  have "popcount (drop_bit 1 x) = (\<Sum>b<7. of_bool (bit x (Suc b))) + of_bool (bit x 8)"
    by (simp add: popcount_def bit_simps eval_nat_numeral)
  moreover have "\<not> bit x 8" by (auto dest: bit_imp_le_length)
  moreover have "popcount x = of_bool (bit x 0) + (\<Sum>b<7. of_bool (bit x (Suc b)))"
    unfolding popcount_def using sum.lessThan_Suc_shift [of "\<lambda>b. of_bool (bit x b) :: nat" 7]
    by (simp del: sum.lessThan_Suc)
  ultimately show ?thesis by simp
qed

lemma and_1_word: "(x :: u8) AND 1 = of_bool (bit x 0)"
  by (simp add: and_one_eq bit_0 mod_2_eq_odd)

lemma Parity_loop_eq: "Parity_loop x y = y XOR of_bool (odd (popcount x))"
proof (induction x y rule: Parity_loop.induct)
  case (1 x y)
  show ?case
  proof (cases "x = 0")
    case True
    then show ?thesis by (subst Parity_loop.simps) simp
  next
    case False
    have "Parity_loop x y = (y XOR (x AND 1)) XOR of_bool (odd (popcount (drop_bit 1 x)))"
      using 1 False by (subst Parity_loop.simps) simp
    then show ?thesis
      using popcount_shift [of x] by (auto simp: and_1_word xor.assoc)
  qed
qed

lemma Parity_eq: "Parity x = of_bool (odd (popcount x))"
  by (simp add: Parity_def Parity_loop_eq)

lemma odd_sum_of_bool_odd:
  "finite A \<Longrightarrow> odd (\<Sum>b\<in>A. of_bool (odd (f b)) :: nat) = odd (\<Sum>b\<in>A. f b :: nat)"
  by (induction A rule: finite_induct) (auto simp del: sum_of_bool_eq)

section \<open>The reference specification\<close>

text \<open>
  \<open>ref_bit data j v\<close> is the parity of the bits of a 512-byte block whose 12-bit position
  \<open>8 * i + b\<close> has address bit \<open>j\<close> equal to \<open>v\<close>.
\<close>

definition ref_count :: "u8 list \<Rightarrow> nat \<Rightarrow> bool \<Rightarrow> nat" where
  "ref_count data j v = (\<Sum>i<512. \<Sum>b<8. of_bool (bit (data ! i) b \<and> bit (8 * i + b) j = v))"

definition ref_bit :: "u8 list \<Rightarrow> nat \<Rightarrow> bool \<Rightarrow> bool" where
  "ref_bit data j v = odd (ref_count data j v)"

lemma bit_position:
  fixes i b j :: nat
  assumes "b < 8"
  shows "bit (8 * i + b) j = (if j < 3 then bit b j else bit i (j - 3))"
proof (cases "j < 3")
  case True
  then consider "j = 0" | "j = 1" | "j = 2" by linarith
  moreover have "odd (8 * i + b) = odd b" "odd ((8 * i + b) div 2) = odd (b div 2)"
    "odd ((8 * i + b) div 4) = odd (b div 4)"
    by presburger+
  ultimately show ?thesis by cases (simp_all add: bit_iff_odd)
next
  case False
  then have "(8 * i + b) div 2 ^ j = i div 2 ^ (j - 3)"
  proof -
    have "(2 :: nat) ^ j = 8 * 2 ^ (j - 3)"
      using False power_add [of "2 :: nat" 3 "j - 3"] by simp
    then show ?thesis using assms by (simp add: div_mult2_eq)
  qed
  then show ?thesis using False by (simp add: bit_iff_odd)
qed

section \<open>The accumulated lines\<close>

lemma length_xor_at [simp]: "length (xor_at a j c x) = length a"
  by (simp add: xor_at_def)

lemma xor_at_nth:
  "j < length a \<Longrightarrow> xor_at a j c x ! k =
     (if k = j then (if c = 0 then (fst (a ! j) XOR x, snd (a ! j))
                     else (fst (a ! j), snd (a ! j) XOR x)) else a ! k)"
  by (auto simp: xor_at_def nth_list_update)

lemma ecc_byte_inner:
  assumes "length a = 12" and "m \<le> 9"
  shows "length (fold (\<lambda>j a. xor_at a (3 + j) ((i div 2 ^ j) mod 2) x) [0..<m] a) = 12 \<and>
    (\<forall>j<9. fold (\<lambda>j a. xor_at a (3 + j) ((i div 2 ^ j) mod 2) x) [0..<m] a ! (3 + j) =
      (if j < m then (if bit i j then (fst (a ! (3 + j)), snd (a ! (3 + j)) XOR x)
                      else (fst (a ! (3 + j)) XOR x, snd (a ! (3 + j)))) else a ! (3 + j)))"
  using assms(2)
proof (induction m)
  case 0
  then show ?case using assms by simp
next
  case (Suc m)
  then show ?case using assms
    by (auto simp: xor_at_nth bit_iff_odd mod2_eq_if less_Suc_eq)
qed

lemma ecc_byte_line:
  assumes "length a = 12" and "j < 9"
  shows "ecc_byte data i a ! (3 + j) =
    (if bit i j then (fst (a ! (3 + j)), snd (a ! (3 + j)) XOR data ! i)
     else (fst (a ! (3 + j)) XOR data ! i, snd (a ! (3 + j))))"
  using ecc_byte_inner [OF assms(1), of 9 i "data ! i"] assms(2) by (simp add: ecc_byte_def)

lemma length_ecc_byte: "length a = 12 \<Longrightarrow> length (ecc_byte data i a) = 12"
  using ecc_byte_inner [of a 9 i "data ! i"] by (simp add: ecc_byte_def)

lemma ecc_lines_upto:
  defines "acc \<equiv> \<lambda>data n. fold (ecc_byte data) [0..<n] (replicate 12 (0, 0))"
  shows "length (acc data n) = 12 \<and> (\<forall>j<9. \<forall>b.
     (bit (fst (acc data n ! (3 + j))) b \<longleftrightarrow> odd (\<Sum>i<n. of_bool (bit (data ! i) b \<and> \<not> bit i j) :: nat)) \<and>
     (bit (snd (acc data n ! (3 + j))) b \<longleftrightarrow> odd (\<Sum>i<n. of_bool (bit (data ! i) b \<and> bit i j) :: nat)))"
proof (induction n)
  case 0
  show ?case by (simp add: acc_def )
next
  case (Suc n)
  have step: "acc data (Suc n) = ecc_byte data n (acc data n)" by (simp add: acc_def)
  show ?case
    using Suc by (auto simp: step ecc_byte_line length_ecc_byte bit_xor_iff simp del: sum_of_bool_eq)
qed

lemma ecc_lines_fst:
  "j < 9 \<Longrightarrow> bit (fst (ecc_lines data ! (3 + j))) b
     \<longleftrightarrow> odd (\<Sum>i<512. of_bool (bit (data ! i) b \<and> \<not> bit i j) :: nat)"
  using ecc_lines_upto [of data 512] by (simp add: ecc_lines_def del: sum_of_bool_eq)

lemma ecc_lines_snd:
  "j < 9 \<Longrightarrow> bit (snd (ecc_lines data ! (3 + j))) b
     \<longleftrightarrow> odd (\<Sum>i<512. of_bool (bit (data ! i) b \<and> bit i j) :: nat)"
  using ecc_lines_upto [of data 512] by (simp add: ecc_lines_def del: sum_of_bool_eq)

lemma length_ecc_lines [simp]: "length (ecc_lines data) = 12"
  using ecc_lines_upto [of data 512] by (simp add: ecc_lines_def del: sum_of_bool_eq)

section \<open>Equivalence with the reference\<close>

lemma ref_count_swap:
  "ref_count data j v = (\<Sum>b<8. \<Sum>i<512. of_bool (bit (data ! i) b \<and> bit (8 * i + b) j = v))"
  unfolding ref_count_def by (rule sum.swap)

lemma line_parity:
  assumes "\<And>b. b < 8 \<Longrightarrow> bit x b \<longleftrightarrow> odd (f b :: nat)"
  shows "odd (popcount x) \<longleftrightarrow> odd (\<Sum>b<8. f b)"
proof -
  have "popcount x = (\<Sum>b<8. of_bool (odd (f b)))"
    unfolding popcount_def by (rule sum.cong) (use assms in auto)
  then show ?thesis by (simp only: odd_sum_of_bool_odd finite_lessThan)
qed

lemma byte_masks:
  assumes "b < 8"
  shows "bit (0x55 :: u8) b \<longleftrightarrow> \<not> bit b 0" "bit (0xaa :: u8) b \<longleftrightarrow> bit b 0"
    "bit (0x33 :: u8) b \<longleftrightarrow> \<not> bit b 1" "bit (0xcc :: u8) b \<longleftrightarrow> bit b 1"
    "bit (0x0f :: u8) b \<longleftrightarrow> \<not> bit b 2" "bit (0xf0 :: u8) b \<longleftrightarrow> bit b 2"
proof -
  have "b \<in> {0, 1, 2, 3, 4, 5, 6, 7}" using assms by auto
  then show "bit (0x55 :: u8) b \<longleftrightarrow> \<not> bit b 0" "bit (0xaa :: u8) b \<longleftrightarrow> bit b 0"
    "bit (0x33 :: u8) b \<longleftrightarrow> \<not> bit b 1" "bit (0xcc :: u8) b \<longleftrightarrow> bit b 1"
    "bit (0x0f :: u8) b \<longleftrightarrow> \<not> bit b 2" "bit (0xf0 :: u8) b \<longleftrightarrow> bit b 2"
    by (auto simp: bit_numeral_rec bit_0)
qed

text \<open>The exclusive or of both halves of any line is the exclusive or of all bytes.\<close>

lemma all_bytes_bit:
  "bit (fst (ecc_lines data ! 3) XOR snd (ecc_lines data ! 3)) b
     \<longleftrightarrow> odd (\<Sum>i<512. of_bool (bit (data ! i) b) :: nat)"
proof -
  have "(\<Sum>i<512. of_bool (bit (data ! i) b) :: nat)
    = (\<Sum>i<512. of_bool (bit (data ! i) b \<and> \<not> bit i 0)) + (\<Sum>i<512. of_bool (bit (data ! i) b \<and> bit i 0))"
    unfolding sum.distrib [symmetric] by (rule sum.cong) auto
  then show ?thesis
    using ecc_lines_fst [of 0 data b] ecc_lines_snd [of 0 data b]
    by (simp add: bit_xor_iff del: sum_of_bool_eq)
qed

lemma sum_of_bool_conj_const:
  "(\<Sum>i\<in>A. of_bool (P i \<and> c) :: nat) = (if c then (\<Sum>i\<in>A. of_bool (P i)) else 0)"
  by (cases c) (simp_all del: sum_of_bool_eq)

lemma ref_bit_column:
  assumes "j < 3" and "\<And>b. b < 8 \<Longrightarrow> bit m b \<longleftrightarrow> bit b j = v"
  shows "odd (popcount ((fst (ecc_lines data ! 3) XOR snd (ecc_lines data ! 3)) AND m)) = ref_bit data j v"
  unfolding ref_bit_def ref_count_swap
proof (rule line_parity)
  fix b :: nat
  assume "b < 8"
  then show "bit ((fst (ecc_lines data ! 3) XOR snd (ecc_lines data ! 3)) AND m) b
    \<longleftrightarrow> odd (\<Sum>i<512. of_bool (bit (data ! i) b \<and> bit (8 * i + b) j = v) :: nat)"
    using assms all_bytes_bit [of data b]
    by (simp add: bit_and_iff bit_position sum_of_bool_conj_const del: sum_of_bool_eq)
qed

lemma ref_bit_line_fst:
  assumes "j < 9"
  shows "odd (popcount (fst (ecc_lines data ! (3 + j)))) = ref_bit data (3 + j) False"
  unfolding ref_bit_def ref_count_swap
  by (rule line_parity) (use assms in \<open>simp add: ecc_lines_fst bit_position del: sum_of_bool_eq\<close>)

lemma ref_bit_line_snd:
  assumes "j < 9"
  shows "odd (popcount (snd (ecc_lines data ! (3 + j)))) = ref_bit data (3 + j) True"
  unfolding ref_bit_def ref_count_swap
  by (rule line_parity) (use assms in \<open>simp add: ecc_lines_snd bit_position del: sum_of_bool_eq\<close>)

lemma columns_parity:
  assumes "j < 12"
  shows "odd (popcount (fst (ecc_columns (ecc_lines data) ! j))) = ref_bit data j False \<and>
    odd (popcount (snd (ecc_columns (ecc_lines data) ! j))) = ref_bit data j True"
proof (cases "j < 3")
  case True
  then have j: "j = 0 \<or> j = 1 \<or> j = 2" by linarith
  let ?x = "fst (ecc_lines data ! 3) XOR snd (ecc_lines data ! 3)"
  have "odd (popcount (?x AND 0x55)) = ref_bit data 0 False"
    "odd (popcount (?x AND 0xaa)) = ref_bit data 0 True"
    "odd (popcount (?x AND 0x33)) = ref_bit data 1 False"
    "odd (popcount (?x AND 0xcc)) = ref_bit data 1 True"
    "odd (popcount (?x AND 0x0f)) = ref_bit data 2 False"
    "odd (popcount (?x AND 0xf0)) = ref_bit data 2 True"
    by (rule ref_bit_column, simp, simp only: byte_masks simp_thms)+
  then show ?thesis
    using j by (auto simp: ecc_columns_def Let_def nth_list_update)
next
  case False
  then obtain k where k: "j = 3 + k" using le_Suc_ex by (metis not_less)
  then have "ecc_columns (ecc_lines data) ! j = ecc_lines data ! (3 + k)"
    by (simp add: ecc_columns_def Let_def nth_list_update)
  then show ?thesis using k assms ref_bit_line_fst ref_bit_line_snd by simp
qed

lemma bit_or_fold:
  "bit (fold (\<lambda>j w. w OR push_bit j (of_bool (f j))) [0..<n] (0 :: u32)) k
     \<longleftrightarrow> k < n \<and> k < 32 \<and> f k"
  by (induction n) (auto simp: bit_simps less_Suc_eq)

theorem ecc_words_bits:
  "bit (fst (ecc_words data)) k \<longleftrightarrow> k < 12 \<and> ref_bit data k False"
  "bit (snd (ecc_words data)) k \<longleftrightarrow> k < 12 \<and> ref_bit data k True"
proof -
  let ?a = "ecc_columns (ecc_lines data)"
  have len: "length ?a = 12" by (simp add: ecc_columns_def Let_def)
  have u: "ucast (of_bool b :: u8) = (of_bool b :: u32)" for b by simp
  have f: "fst (ecc_words data) = fold (\<lambda>j w. w OR push_bit j (of_bool (ref_bit data j False))) [0..<12] 0"
    unfolding ecc_words_def Let_def fst_conv
    by (rule fold_cong)
      (simp_all add: len case_prod_beta Parity_eq u columns_parity del: of_bool_eq_iff)
  have s: "snd (ecc_words data) = fold (\<lambda>j w. w OR push_bit j (of_bool (ref_bit data j True))) [0..<12] 0"
    unfolding ecc_words_def Let_def snd_conv
    by (rule fold_cong)
      (simp_all add: len case_prod_beta Parity_eq u columns_parity del: of_bool_eq_iff)
  show "bit (fst (ecc_words data)) k \<longleftrightarrow> k < 12 \<and> ref_bit data k False"
    unfolding f bit_or_fold by auto
  show "bit (snd (ecc_words data)) k \<longleftrightarrow> k < 12 \<and> ref_bit data k True"
    unfolding s bit_or_fold by auto
qed

section \<open>Locating a flipped bit\<close>

definition flip_bit_at :: "u8 list \<Rightarrow> nat \<Rightarrow> nat \<Rightarrow> u8 list" where
  "flip_bit_at data i b = data[i := (data ! i) XOR push_bit b 1]"

definition syndrome :: "u8 list \<Rightarrow> u8 list \<Rightarrow> u32 \<times> u32" where
  "syndrome data data' = (fst (ecc_words data) XOR fst (ecc_words data'),
                          snd (ecc_words data) XOR snd (ecc_words data'))"

lemma odd_sum_change:
  fixes f g :: "'a \<Rightarrow> nat"
  assumes "finite A" "a \<in> A" "\<And>x. x \<in> A \<Longrightarrow> x \<noteq> a \<Longrightarrow> f x = g x"
  shows "odd (sum f A) \<longleftrightarrow> odd (sum g A) \<noteq> (odd (f a) \<noteq> odd (g a))"
proof -
  have "sum f (A - {a}) = sum g (A - {a})" by (rule sum.cong) (use assms in auto)
  then show ?thesis using sum.remove [OF assms(1,2), of f] sum.remove [OF assms(1,2), of g] by auto
qed

lemma bit_flip_bit_at:
  assumes "length data = 512" "i0 < 512" "b0 < 8" "i < 512"
  shows "bit (flip_bit_at data i0 b0 ! i) b \<longleftrightarrow> bit (data ! i) b \<noteq> (i = i0 \<and> b = b0)"
  using assms by (auto simp: flip_bit_at_def nth_list_update bit_simps bit_1_iff)

lemma ref_bit_flip:
  assumes "length data = 512" "i0 < 512" "b0 < 8"
  shows "ref_bit (flip_bit_at data i0 b0) j v \<longleftrightarrow> ref_bit data j v \<noteq> (bit (8 * i0 + b0) j = v)"
proof -
  let ?f = "\<lambda>i. \<Sum>b<8. of_bool (bit (flip_bit_at data i0 b0 ! i) b \<and> bit (8 * i + b) j = v) :: nat"
  let ?g = "\<lambda>i. \<Sum>b<8. of_bool (bit (data ! i) b \<and> bit (8 * i + b) j = v) :: nat"
  have "odd (sum ?f {..<512}) \<longleftrightarrow> odd (sum ?g {..<512}) \<noteq> (odd (?f i0) \<noteq> odd (?g i0))"
    by (rule odd_sum_change) (use assms bit_flip_bit_at in auto)
  moreover have "odd (?f i0) \<longleftrightarrow> odd (?g i0) \<noteq> (bit (8 * i0 + b0) j = v)"
    by (subst odd_sum_change [where a = b0 and g = "\<lambda>b. of_bool (bit (data ! i0) b \<and> bit (8 * i0 + b) j = v)"])
      (use assms bit_flip_bit_at in auto)
  ultimately show ?thesis unfolding ref_bit_def ref_count_def by blast
qed

lemma syndrome_flip:
  assumes "length data = 512" "i < 512" "b < 8"
  shows "snd (syndrome data (flip_bit_at data i b)) = of_nat (8 * i + b)"
    and "fst (syndrome data (flip_bit_at data i b)) = of_nat (8 * i + b) XOR mask 12"
proof -
  have small: "bit (8 * i + b) k \<Longrightarrow> k < 12" for k
  proof (rule ccontr)
    assume "bit (8 * i + b) k" "\<not> k < 12"
    moreover have "8 * i + b < 2 ^ 12" using assms by simp
    moreover have "(2 :: nat) ^ 12 \<le> 2 ^ k" using \<open>\<not> k < 12\<close> by (intro power_increasing) auto
    ultimately show False by (simp add: bit_iff_odd)
  qed
  define p where "p = 8 * i + b"
  note flip = ref_bit_flip [OF assms, folded p_def] and small = small [folded p_def]
  have "snd (syndrome data (flip_bit_at data i b)) = of_nat p"
    by (rule bit_word_eqI)
      (use small in \<open>auto simp: syndrome_def bit_xor_iff ecc_words_bits flip bit_of_nat_iff\<close>)
  moreover have "fst (syndrome data (flip_bit_at data i b)) = of_nat p XOR mask 12"
    by (rule bit_word_eqI)
      (use small in \<open>auto simp: syndrome_def bit_xor_iff ecc_words_bits flip bit_of_nat_iff bit_mask_iff\<close>)
  ultimately show "snd (syndrome data (flip_bit_at data i b)) = of_nat (8 * i + b)"
    and "fst (syndrome data (flip_bit_at data i b)) = of_nat (8 * i + b) XOR mask 12"
    by (simp_all only: p_def)
qed

text \<open>Reading the two words back from the four code bytes.\<close>

lemma ecc_block_words:
  "host16_read (slice 0 2 (ecc_block data)) = ucast (fst (ecc_words data))"
  "host16_read (slice 2 2 (ecc_block data)) = ucast (snd (ecc_words data))"
  by (auto simp: ecc_block_def slice_def host16_read_def case_prod_beta bit_simps not_less
      intro!: bit_word_eqI)

lemma length_ecc_block [simp]: "length (ecc_block data) = 4"
  by (simp add: ecc_block_def case_prod_beta)

lemma length_Calculate [simp]: "length (Calculate data) = 16"
  by (simp add: Calculate_def length_concat comp_def interv_sum_list_conv_sum_set_nat)

section \<open>Properties\<close>

text \<open>
  C37 The optimised computation of the error-correcting code is the textbook one: bit \<open>k\<close> of
  the first word of a 512-byte block is the parity of the data bits whose bit position has
  bit \<open>k\<close> clear, bit \<open>k\<close> of the second word the parity of those whose position has bit \<open>k\<close>
  set, for the twelve position bits; the bytes hold the two words in little-endian order.
\<close>

theorem ecc_reference:
  "(\<forall>k. bit (fst (ecc_words data)) k = (k < 12 \<and> ref_bit data k False)) \<and>
   (\<forall>k. bit (snd (ecc_words data)) k = (k < 12 \<and> ref_bit data k True)) \<and>
   host16_read (take 2 (ecc_block data)) = ucast (fst (ecc_words data)) \<and>
   host16_read (drop 2 (ecc_block data)) = ucast (snd (ecc_words data))"
  using ecc_words_bits [of data] ecc_block_words [of data] by (simp add: slice_def)

text \<open>
  C38 The code locates single-bit errors: if one bit of a block is flipped, the exclusive or
  of the codes before and after holds the position of that bit in the second word and its
  complement in the first.
\<close>

theorem ecc_locates_flip:
  assumes "length data = 512" and "i < 512" and "b < 8"
  shows "snd (ecc_words data) XOR snd (ecc_words (flip_bit_at data i b)) = of_nat (8 * i + b)
    \<and> fst (ecc_words data) XOR fst (ecc_words (flip_bit_at data i b)) = of_nat (8 * i + b) XOR mask 12"
  using syndrome_flip [OF assms] by (simp add: syndrome_def)

lemma ecc_locates_flip_witness:
  "snd (ecc_words (replicate 512 0x5a)) XOR snd (ecc_words (flip_bit_at (replicate 512 0x5a) 300 5)) = 2405"
  using ecc_locates_flip [of "replicate 512 0x5a" 300 5] by simp

end
