(* ===== verification/Layout.thy ===== *)
theory Layout
  imports Sffs
begin

text \<open>
  The packed structures of \<^verbatim>\<open>driver/sffs.h\<close> as codecs: FST entries and whole superblocks
  survive being written to and read from their bytes, in both directions, and the bytes are those of
  the documented format (\<open>holds_superblock\<close>).
\<close>

section \<open>FST entries\<close>

lemma slice_append_ge: "length xs \<le> k \<Longrightarrow> slice k n (xs @ ys) = slice (k - length xs) n ys"
  by (simp add: slice_def)

lemma slice_append_fit: "k + n \<le> length xs \<Longrightarrow> slice k n (xs @ ys) = slice k n xs"
  by (simp add: slice_def)

lemma slice_Cons: "0 < k \<Longrightarrow> slice k n (x # xs) = slice (k - 1) n xs"
  by (simp add: slice_def drop_Cons')

lemma slice_all: "length xs \<le> n \<Longrightarrow> slice 0 n xs = xs"
  by simp

lemma two_bytes: "k + 2 \<le> length bs \<Longrightarrow> [bs ! k, bs ! Suc k] = slice k 2 bs"
  by (rule nth_equalityI) (auto simp: nth_slice less_Suc_eq numeral_2_eq_2)

lemmas field_lengths = be16.enc_length [OF TrueI] be32.enc_length [OF TrueI]

lemma FstEntry_dec_enc:
  assumes "entry_wf e"
  shows "FstEntry_of_bytes (FstEntry_bytes e) = e"
  using assms
  by (simp add: FstEntry_of_bytes_def FstEntry_bytes_def entry_wf_def slice_append_ge
      slice_append_fit slice_Cons nth_append field_lengths be16.dec_enc be32.dec_enc slice_all)

lemma FstEntry_enc_dec:
  assumes "length bs = 32"
  shows "FstEntry_bytes (FstEntry_of_bytes bs) = bs"
proof -
  have "[bs ! 12, bs ! 13] = slice 12 2 bs" using two_bytes [of 12 bs] assms by simp
  then have "FstEntry_bytes (FstEntry_of_bytes bs)
    = slice 0 12 bs @ slice 12 2 bs @ slice 14 2 bs @ slice 16 2 bs @ slice 18 4 bs @ slice 22 4 bs
      @ slice 26 2 bs @ slice 28 4 bs"
    using assms by (simp add: FstEntry_bytes_def FstEntry_of_bytes_def be16.enc_dec be32.enc_dec)
  also have "\<dots> = slice 0 32 bs"
    using append_slices [of 26 2 bs 4] append_slices [of 22 4 bs 6] append_slices [of 18 4 bs 10]
      append_slices [of 16 2 bs 14] append_slices [of 14 2 bs 16] append_slices [of 12 2 bs 18]
      append_slices [of 0 12 bs 20]
    by simp
  finally show ?thesis using assms by simp
qed

interpretation fst_entry: exact_codec FstEntry_bytes FstEntry_of_bytes 32 entry_wf
proof unfold_locales
  fix e :: FstEntry and bs :: "u8 list"
  show "length (FstEntry_bytes e) = 32" if "entry_wf e"
    using that by (simp add: FstEntry_bytes_def entry_wf_def field_lengths)
  show "FstEntry_of_bytes (FstEntry_bytes e) = e" if "entry_wf e"
    using that by (rule FstEntry_dec_enc)
  show "entry_wf (FstEntry_of_bytes bs)" if "length bs = 32"
    using that by (simp add: entry_wf_def FstEntry_of_bytes_def)
  show "FstEntry_bytes (FstEntry_of_bytes bs) = bs" if "length bs = 32"
    using that by (rule FstEntry_enc_dec)
qed

section \<open>Superblocks\<close>

lemma fat_bytes_length: "length (concat (map be16_bytes xs)) = length xs * 2"
  by (rule be16.array_length) simp

lemma fst_bytes_length: "\<forall>e \<in> set es. entry_wf e \<Longrightarrow> length (concat (map FstEntry_bytes es)) = length es * 32"
  by (rule fst_entry.array_length) simp

lemma Superblock_dec_enc:
  assumes "sb_wf sb"
  shows "Superblock_of_bytes (Superblock_bytes sb) = sb"
proof -
  let ?fat = "concat (map be16_bytes (sb_fat sb))"
  let ?fst = "concat (map FstEntry_bytes (sb_fst sb))"
  have lens: "length (sb_magic sb) = 4" "length ?fat = FAT_SIZE * 2" "length ?fst = FST_SIZE * 32"
    "length (sb_padding sb) = 20"
    using assms by (simp_all add: sb_wf_def fat_bytes_length fst_bytes_length)
  have fat: "map be16_read (chunks FAT_SIZE 2 ?fat) = sb_fat sb"
    by (rule be16.array_dec_enc) (use assms in \<open>simp_all add: sb_wf_def\<close>)
  have fst: "map FstEntry_of_bytes (chunks FST_SIZE 32 ?fst) = sb_fst sb"
    by (rule fst_entry.array_dec_enc) (use assms in \<open>simp_all add: sb_wf_def\<close>)
  show ?thesis
    by (simp add: Superblock_of_bytes_def Superblock_bytes_def slice_append_ge slice_append_fit
        lens field_lengths be32.dec_enc slice_all fat fst del: slice_0)
qed

lemma Superblock_enc_dec:
  assumes "length bs = SUPERBLOCK_BYTES"
  shows "Superblock_bytes (Superblock_of_bytes bs) = bs"
proof -
  let ?fat = "slice 12 (FAT_SIZE * 2) bs"
  let ?fst = "slice (12 + FAT_SIZE * 2) (FST_SIZE * 32) bs"
  have fat: "concat (map be16_bytes (map be16_read (chunks FAT_SIZE 2 ?fat))) = ?fat"
    by (rule be16.array_enc_dec) (use assms in \<open>simp add: SUPERBLOCK_BYTES_def\<close>)
  have fst: "concat (map FstEntry_bytes (map FstEntry_of_bytes (chunks FST_SIZE 32 ?fst))) = ?fst"
    by (rule fst_entry.array_enc_dec) (use assms in \<open>simp add: SUPERBLOCK_BYTES_def\<close>)
  have "Superblock_bytes (Superblock_of_bytes bs)
    = slice 0 4 bs @ slice 4 4 bs @ slice 8 4 bs @ ?fat @ ?fst
      @ slice (12 + FAT_SIZE * 2 + FST_SIZE * 32) 20 bs"
    unfolding Superblock_bytes_def Superblock_of_bytes_def Superblock.simps fat fst
    using assms by (simp add: be32.enc_dec SUPERBLOCK_BYTES_def)
  also have "\<dots> = slice 0 SUPERBLOCK_BYTES bs"
    using append_slices [of "12 + FAT_SIZE * 2" "FST_SIZE * 32" bs 20]
      append_slices [of 12 "FAT_SIZE * 2" bs "FST_SIZE * 32 + 20"]
      append_slices [of 8 4 bs "FAT_SIZE * 2 + (FST_SIZE * 32 + 20)"]
      append_slices [of 4 4 bs "4 + (FAT_SIZE * 2 + (FST_SIZE * 32 + 20))"]
      append_slices [of 0 4 bs "8 + (FAT_SIZE * 2 + (FST_SIZE * 32 + 20))"]
    by (simp add: SUPERBLOCK_BYTES_def del: slice_0)
  finally show ?thesis using assms by simp
qed

interpretation superblock: exact_codec Superblock_bytes Superblock_of_bytes SUPERBLOCK_BYTES sb_wf
proof unfold_locales
  fix sb :: Superblock and bs :: "u8 list"
  show "length (Superblock_bytes sb) = SUPERBLOCK_BYTES" if "sb_wf sb"
    using that by (simp add: Superblock_bytes_def sb_wf_def field_lengths fat_bytes_length
        fst_bytes_length SUPERBLOCK_BYTES_def)
  show "Superblock_of_bytes (Superblock_bytes sb) = sb" if "sb_wf sb"
    using that by (rule Superblock_dec_enc)
  show "sb_wf (Superblock_of_bytes bs)" if len: "length bs = SUPERBLOCK_BYTES"
  proof -
    have "entry_wf e" if "e \<in> set (map FstEntry_of_bytes
        (chunks FST_SIZE 32 (slice (12 + FAT_SIZE * 2) (FST_SIZE * 32) bs)))" for e
      by (rule fst_entry.array_dec_ok [OF _ that]) (use len in \<open>simp add: SUPERBLOCK_BYTES_def\<close>)
    then show ?thesis using len by (simp add: sb_wf_def Superblock_of_bytes_def SUPERBLOCK_BYTES_def)
  qed
  show "Superblock_bytes (Superblock_of_bytes bs) = bs" if "length bs = SUPERBLOCK_BYTES"
    using that by (rule Superblock_enc_dec)
qed

lemma SUPERBLOCK_BYTES_eq: "SUPERBLOCK_BYTES = CLUSTERS_PER_SUPERBLOCK * CLUSTER_DATA_SIZE"
  by (simp add: SUPERBLOCK_BYTES_def FAT_SIZE_def FST_SIZE_def layout_consts)

section \<open>The documented format\<close>

text \<open>
  The format of a superblock as the documentation of the file system describes it, apart from the
  structures of the source: numbers are big-endian, every field has a fixed offset.
  \<open>holds_entry\<close> and \<open>holds_superblock\<close> say that an array of bytes is an entry or a superblock
  in this format.
\<close>

definition big_endian :: "u8 list \<Rightarrow> nat" where
  "big_endian bs = foldl (\<lambda>v b. 256 * v + unat b) 0 bs"

definition holds_entry :: "u8 list \<Rightarrow> FstEntry \<Rightarrow> bool" where
  "holds_entry bs e \<longleftrightarrow> map unat (slice 0 12 bs) = map of_char (e_name e) \<and>
     bs ! 12 = e_mode e \<and> bs ! 13 = e_attr e \<and>
     big_endian (slice 14 2 bs) = unat (e_sub e) \<and> big_endian (slice 16 2 bs) = unat (e_sib e) \<and>
     big_endian (slice 18 4 bs) = unat (e_size e) \<and> big_endian (slice 22 4 bs) = unat (e_uid e) \<and>
     big_endian (slice 26 2 bs) = unat (e_gid e) \<and> big_endian (slice 28 4 bs) = unat (e_x3 e)"

definition holds_superblock :: "u8 list \<Rightarrow> Superblock \<Rightarrow> bool" where
  "holds_superblock bs sb \<longleftrightarrow> map unat (slice 0 4 bs) = map of_char (sb_magic sb) \<and>
     big_endian (slice 4 4 bs) = unat (sb_version sb) \<and> big_endian (slice 8 4 bs) = unat (sb_unknown sb) \<and>
     (\<forall>c<0x8000. big_endian (slice (12 + 2 * c) 2 bs) = unat (sb_fat sb ! c)) \<and>
     (\<forall>i<0x17ff. holds_entry (slice (0x1000c + 32 * i) 32 bs) (sb_fst sb ! i)) \<and>
     slice 0x3ffec 20 bs = sb_padding sb"

lemma nat_digits:
  fixes n :: nat
  shows "n < 65536 \<Longrightarrow> 256 * (n div 256 mod 256) + n mod 256 = n"
    and "n < 4294967296 \<Longrightarrow> 16777216 * (n div 16777216 mod 256) + 65536 * (n div 65536 mod 256)
      + 256 * (n div 256 mod 256) + n mod 256 = n"
proof -
  have d: "256 * (m div 256) + m mod 256 = m" for m :: nat by simp
  show "256 * (n div 256 mod 256) + n mod 256 = n" if "n < 65536"
    using that d [of n] by (simp add: less_mult_imp_div_less)
  have q: "n div 65536 = n div 256 div 256" "n div 16777216 = n div 256 div 256 div 256"
    by (simp_all add: div_mult2_eq [symmetric])
  show "16777216 * (n div 16777216 mod 256) + 65536 * (n div 65536 mod 256)
      + 256 * (n div 256 mod 256) + n mod 256 = n" if "n < 4294967296"
  proof -
    have "n div 16777216 mod 256 = n div 16777216"
      using that by (simp add: less_mult_imp_div_less)
    then show ?thesis
      using d [of n] d [of "n div 256"] d [of "n div 256 div 256"] unfolding q by linarith
  qed
qed

lemma big_endian_be16:
  assumes "length bs = 2"
  shows "big_endian bs = unat (be16_read bs)"
proof -
  have "unat (be16_read bs) < 65536" using unsigned_less [of "be16_read bs", where 'a = nat] by simp
  then have "big_endian (be16_bytes (be16_read bs)) = unat (be16_read bs)"
    by (simp add: be16_bytes_big_endian big_endian_def unsigned_ucast_eq take_bit_nat_def drop_bit_eq_div
        unat_div nat_digits)
  then show ?thesis using be16.enc_dec [OF assms] by simp
qed

lemma big_endian_be32:
  assumes "length bs = 4"
  shows "big_endian bs = unat (be32_read bs)"
proof -
  have "unat (be32_read bs) < 4294967296" using unsigned_less [of "be32_read bs", where 'a = nat] by simp
  then have "big_endian (be32_bytes (be32_read bs)) = unat (be32_read bs)"
    using nat_digits(2) [of "unat (be32_read bs)"]
    by (simp add: be32_bytes_big_endian big_endian_def unsigned_ucast_eq take_bit_nat_def drop_bit_eq_div unat_div)
  then show ?thesis using be32.enc_dec [OF assms] by simp
qed

lemma of_char_of_u8: "of_char (char_of_u8 b) = unat b"
  using unsigned_less [of b, where 'a = nat] by (simp add: char_of_u8_def of_char_of)

lemma FstEntry_of_bytes_holds: "length bs = 32 \<Longrightarrow> holds_entry bs (FstEntry_of_bytes bs)"
  by (simp add: holds_entry_def FstEntry_of_bytes_def big_endian_be16 big_endian_be32 of_char_of_u8)

lemma Superblock_of_bytes_holds:
  assumes "length bs = SUPERBLOCK_BYTES"
  shows "holds_superblock bs (Superblock_of_bytes bs)"
proof -
  have len: "length bs = 0x40000" using assms by (simp add: SUPERBLOCK_BYTES_def FAT_SIZE_def FST_SIZE_def)
  have fat: "sb_fat (Superblock_of_bytes bs) ! c = be16_read (slice (12 + 2 * c) 2 bs)" if "c < 0x8000" for c
  proof -
    have "c < FAT_SIZE" "c * 2 + 2 \<le> FAT_SIZE * 2" using that by (simp_all add: FAT_SIZE_def)
    then show ?thesis by (simp add: Superblock_of_bytes_def chunks_def slice_slice mult.commute del: slice_0)
  qed
  have entries: "sb_fst (Superblock_of_bytes bs) ! i = FstEntry_of_bytes (slice (0x1000c + 32 * i) 32 bs)"
    if "i < 0x17ff" for i
  proof -
    have "i < FST_SIZE" "i * 32 + 32 \<le> FST_SIZE * 32"
      using that by (simp_all add: FST_SIZE_def)
    then show ?thesis
      by (simp add: Superblock_of_bytes_def chunks_def slice_slice mult.commute FAT_SIZE_def del: slice_0)
  qed
  have fields: "map unat (slice 0 4 bs) = map of_char (sb_magic (Superblock_of_bytes bs))"
    "sb_version (Superblock_of_bytes bs) = be32_read (slice 4 4 bs)"
    "sb_unknown (Superblock_of_bytes bs) = be32_read (slice 8 4 bs)"
    "sb_padding (Superblock_of_bytes bs) = slice 0x3ffec 20 bs"
    by (simp_all add: Superblock_of_bytes_def FAT_SIZE_def FST_SIZE_def of_char_of_u8)
  have two: "big_endian (slice (12 + 2 * c) 2 bs) = unat (be16_read (slice (12 + 2 * c) 2 bs))" if "c < 0x8000" for c
    by (rule big_endian_be16) (use that len in simp)
  have four: "big_endian (slice 4 4 bs) = unat (be32_read (slice 4 4 bs))"
    "big_endian (slice 8 4 bs) = unat (be32_read (slice 8 4 bs))"
    using len by (simp_all add: big_endian_be32)
  have "holds_entry (slice (0x1000c + 32 * i) 32 bs) (FstEntry_of_bytes (slice (0x1000c + 32 * i) 32 bs))"
    if "i < 0x17ff" for i
    by (rule FstEntry_of_bytes_holds) (use that len in simp)
  then show ?thesis
    using fields two four fat entries unfolding holds_superblock_def by metis
qed

end
