(* ===== verification/Cluster.thy ===== *)
theory Cluster
  imports Crypto Ecc Layout
begin

text \<open>
  Reading and writing one cluster of the NAND image: the two lowest operations of
  \<^verbatim>\<open>driver/low_level.cpp\<close>. The members they use (\<^verbatim>\<open>m_keys\<close>, \<^verbatim>\<open>m_nand\<close>) are arguments;
  a pointer into the image is its offset.
\<close>

section \<open>The operations\<close>

record ReadResult =
  rr_data :: "u8 list"
  rr_hmac1 :: "u8 list"
  rr_hmac2 :: "u8 list"

definition page_addr :: "u16 \<Rightarrow> nat \<Rightarrow> nat" where
  "page_addr cluster page = unat (Offset (ucast cluster) (of_nat page))"

definition ReadCluster ::
  "('k, 'c) mbedtls \<Rightarrow> FileSystemKeys \<Rightarrow> memory \<Rightarrow> u16 \<Rightarrow> ReadResult Result" where
  "ReadCluster lib keys nand cluster =
     (if cluster \<ge> 0x8000 then Inl Invalid
      else
        let raw_data = fold (\<lambda>page result. result @ mem_read nand (page_addr cluster page) DATA_BYTES_PER_PAGE)
              [0..<PAGES_PER_CLUSTER] [];
            data = (if cluster < SUPERBLOCK_START_CLUSTER
                    then fst (AesDecrypt lib (key_aes keys) (replicate 16 0) raw_data) else raw_data);
            spare1 = page_addr cluster HMAC_PAGE1 + DATA_BYTES_PER_PAGE;
            spare2 = page_addr cluster HMAC_PAGE2 + DATA_BYTES_PER_PAGE;
            hmac1 = mem_read nand (spare1 + HMAC1_OFFSET_IN_PAGE1) HMAC1_SIZE_IN_PAGE1;
            hmac2 = mem_read nand (spare1 + HMAC2_OFFSET_IN_PAGE1) HMAC2_SIZE_IN_PAGE1
                  @ mem_read nand (spare2 + HMAC2_OFFSET_IN_PAGE2) HMAC2_SIZE_IN_PAGE2
        in Inr \<lparr>rr_data = data, rr_hmac1 = hmac1, rr_hmac2 = hmac2\<rparr>)"

definition spare_for :: "nat \<Rightarrow> u8 list \<Rightarrow> u8 list \<Rightarrow> u8 list" where
  "spare_for page ecc hmac =
     (let spare = copy_into ((replicate 0x40 0)[0 := 0xff]) 0x30 ecc in
      if page = HMAC_PAGE1 then
        copy_into (copy_into spare HMAC1_OFFSET_IN_PAGE1 hmac) HMAC2_OFFSET_IN_PAGE1
          (take HMAC2_SIZE_IN_PAGE1 hmac)
      else if page = HMAC_PAGE2 then
        copy_into spare HMAC2_OFFSET_IN_PAGE2 (slice HMAC2_SIZE_IN_PAGE1 HMAC2_SIZE_IN_PAGE2 hmac)
      else spare)"

definition write_page ::
  "('k, 'c) mbedtls \<Rightarrow> FileSystemKeys \<Rightarrow> u16 \<Rightarrow> u8 list \<Rightarrow> u8 list \<Rightarrow> nat \<Rightarrow> memory \<times> u8 list \<Rightarrow> memory \<times> u8 list" where
  "write_page lib keys cluster data hmac page st = (case st of (nand, iv) \<Rightarrow>
     let source = slice (page * DATA_BYTES_PER_PAGE) DATA_BYTES_PER_PAGE data;
         dest = page_addr cluster page;
         (page_data, iv') = (if cluster \<ge> SUPERBLOCK_START_CLUSTER then (source, iv)
                             else AesEncrypt lib (key_aes keys) iv source);
         nand1 = mem_write nand dest page_data;
         ecc = Calculate (mem_read nand1 dest DATA_BYTES_PER_PAGE);
         nand2 = mem_write nand1 (dest + DATA_BYTES_PER_PAGE) (spare_for page ecc hmac)
     in (nand2, iv'))"

definition WriteCluster ::
  "('k, 'c) mbedtls \<Rightarrow> FileSystemKeys \<Rightarrow> memory \<Rightarrow> u16 \<Rightarrow> u8 list \<Rightarrow> u8 list \<Rightarrow> ResultCode \<times> memory" where
  "WriteCluster lib keys nand cluster data hmac =
     (if cluster \<ge> 0x8000 then (Invalid, nand)
      else (Success, fst (fold (write_page lib keys cluster data hmac) [0..<PAGES_PER_CLUSTER]
                           (nand, replicate 16 0))))"

section \<open>Addresses\<close>

definition cluster_base :: "u16 \<Rightarrow> nat" where
  "cluster_base cluster = unat cluster * (PAGES_PER_CLUSTER * PAGE_SIZE)"

lemma unat_cluster_less: "cluster < 0x8000 \<Longrightarrow> unat (cluster :: u16) < 0x8000"
  by (simp add: word_less_nat_alt)

lemma page_addr_eq:
  assumes "cluster < 0x8000" and "page < PAGES_PER_CLUSTER"
  shows "page_addr cluster page = cluster_base cluster + page * PAGE_SIZE"
proof -
  have c: "unat cluster < 0x8000" using assms by (simp add: unat_cluster_less)
  have p: "page < 8" using assms by (simp add: layout_consts)
  have uc: "unat (ucast cluster :: u32) = unat cluster"
    using c by (simp add: unsigned_ucast_eq take_bit_nat_eq_self)
  have up: "unat (of_nat page :: u32) = page" using p by (simp add: unat_of_nat)
  show ?thesis
    using c p
    by (simp add: page_addr_def Offset_def cluster_base_def layout_consts unat_word_ariths uc up)
qed

lemma cluster_in_nand:
  assumes "cluster < 0x8000"
  shows "cluster_base cluster + PAGES_PER_CLUSTER * PAGE_SIZE \<le> NAND_SIZE"
  using unat_cluster_less [OF assms] by (simp add: cluster_base_def layout_consts NAND_SIZE_def)

lemma clusters_disjoint:
  assumes "c \<noteq> c'"
  shows "cluster_base c + PAGES_PER_CLUSTER * PAGE_SIZE \<le> cluster_base c' \<or>
         cluster_base c' + PAGES_PER_CLUSTER * PAGE_SIZE \<le> cluster_base c"
proof -
  have "unat c \<noteq> unat c'" using assms by (metis word_unat_eq_iff)
  then have "unat c + 1 \<le> unat c' \<or> unat c' + 1 \<le> unat c" by linarith
  then show ?thesis by (auto simp: cluster_base_def layout_consts)
qed

section \<open>A written cluster as one image\<close>

text \<open>
  \<open>page_cipher\<close> is what \<open>write_page\<close> stores in the data area of each page;
  \<open>page_image\<close> adds the spare area; \<open>cluster_image\<close> is the whole cluster.
\<close>

definition cipher_upto ::
  "('k, 'c) mbedtls \<Rightarrow> FileSystemKeys \<Rightarrow> u16 \<Rightarrow> u8 list \<Rightarrow> nat \<Rightarrow> u8 list \<times> u8 list" where
  "cipher_upto lib keys cluster data n =
     (if cluster \<ge> SUPERBLOCK_START_CLUSTER \<or> n = 0
      then (take (n * DATA_BYTES_PER_PAGE) data, replicate 16 0)
      else AesEncrypt lib (key_aes keys) (replicate 16 0) (take (n * DATA_BYTES_PER_PAGE) data))"

definition page_image :: "u8 list \<Rightarrow> u8 list \<Rightarrow> nat \<Rightarrow> u8 list" where
  "page_image cipher hmac page =
     (let d = slice (page * DATA_BYTES_PER_PAGE) DATA_BYTES_PER_PAGE cipher
      in d @ spare_for page (Calculate d) hmac)"

definition cluster_image :: "u8 list \<Rightarrow> u8 list \<Rightarrow> u8 list" where
  "cluster_image cipher hmac = concat (map (page_image cipher hmac) [0..<PAGES_PER_CLUSTER])"

lemma length_spare_for:
  assumes "length ecc = 16" "length hmac = 20"
  shows "length (spare_for page ecc hmac) = SPARE_BYTES_PER_PAGE"
  using assms by (simp add: spare_for_def Let_def layout_consts)

lemma length_page_image:
  assumes "length cipher = CLUSTER_DATA_SIZE" "length hmac = 20" "page < PAGES_PER_CLUSTER"
  shows "length (page_image cipher hmac page) = PAGE_SIZE"
  using assms length_spare_for [of "Calculate (slice (page * 2048) 2048 cipher)" hmac page]
  by (simp add: page_image_def Let_def layout_consts)

lemma whole_blocks_pages: "n * DATA_BYTES_PER_PAGE \<le> length data \<Longrightarrow> whole_blocks (take (n * DATA_BYTES_PER_PAGE) data)"
  by (simp add: whole_blocks_def layout_consts min_def)

lemma length_cipher_upto:
  assumes "mbedtls_ok lib" "n * DATA_BYTES_PER_PAGE \<le> length data"
  shows "length (fst (cipher_upto lib keys c data n)) = n * DATA_BYTES_PER_PAGE"
    and "length (snd (cipher_upto lib keys c data n)) = 16"
  using assms AesEncrypt_length [OF assms(1) _ whole_blocks_pages [OF assms(2)], of "replicate 16 0" "key_aes keys"]
  by (simp_all add: cipher_upto_def)

lemma cipher_upto_Suc:
  assumes "mbedtls_ok lib" "Suc n * DATA_BYTES_PER_PAGE \<le> length data" "c < SUPERBLOCK_START_CLUSTER"
    and iv_def: "iv = snd (cipher_upto lib keys c data n)"
    and src_def: "src = slice (n * DATA_BYTES_PER_PAGE) DATA_BYTES_PER_PAGE data"
  shows "cipher_upto lib keys c data (Suc n) =
    (fst (cipher_upto lib keys c data n) @ fst (AesEncrypt lib (key_aes keys) iv src),
     snd (AesEncrypt lib (key_aes keys) iv src))"
proof (cases "n = 0")
  case True
  then show ?thesis
    using assms(3) by (simp add: cipher_upto_def iv_def src_def not_le [symmetric])
next
  case False
  have "take (Suc n * DATA_BYTES_PER_PAGE) data = take (n * DATA_BYTES_PER_PAGE) data @ src"
    by (simp add: src_def slice_def take_add [symmetric] add.commute)
  moreover have "whole_blocks (take (n * DATA_BYTES_PER_PAGE) data)"
    by (rule whole_blocks_pages) (use assms in simp)
  moreover have "whole_blocks src"
    using assms(2) by (simp add: whole_blocks_def src_def layout_consts)
  ultimately show ?thesis
    using assms(3) AesEncrypt_append [OF assms(1), of "replicate 16 0" "take (n * DATA_BYTES_PER_PAGE) data" src]
    by (simp add: False cipher_upto_def iv_def not_le [symmetric])
qed

lemma mem_write_append:
  "mem_write (mem_write m a xs) (a + length xs) ys = mem_write m a (xs @ ys)"
  by (rule ext) (auto simp: mem_write_def nth_append)

lemma write_page_image:
  assumes c: "c < 0x8000" and p: "page < PAGES_PER_CLUSTER"
    and pd: "(page_data, iv') = (if c \<ge> SUPERBLOCK_START_CLUSTER
      then (slice (page * DATA_BYTES_PER_PAGE) DATA_BYTES_PER_PAGE data, iv)
      else AesEncrypt lib (key_aes keys) iv (slice (page * DATA_BYTES_PER_PAGE) DATA_BYTES_PER_PAGE data))"
    and len: "length page_data = DATA_BYTES_PER_PAGE"
  shows "write_page lib keys c data hmac page (nand, iv) =
    (mem_write nand (cluster_base c + page * PAGE_SIZE)
       (page_data @ spare_for page (Calculate page_data) hmac), iv')"
proof -
  let ?a = "cluster_base c + page * PAGE_SIZE"
  have rd: "mem_read (mem_write nand ?a page_data) ?a DATA_BYTES_PER_PAGE = page_data"
    using len mem.rd_wr_at by metis
  have "mem_write (mem_write nand ?a page_data) (?a + DATA_BYTES_PER_PAGE) ys
    = mem_write nand ?a (page_data @ ys)" for ys
    using mem_write_append [of nand ?a page_data ys] len by simp
  then show ?thesis
    by (simp only: write_page_def Let_def prod.case pd [symmetric] page_addr_eq [OF c p] rd)
qed

text \<open>The data area of page \<open>n\<close>, as the loop computes it from the running vector.\<close>

definition page_cipher ::
  "('k, 'c) mbedtls \<Rightarrow> FileSystemKeys \<Rightarrow> u16 \<Rightarrow> u8 list \<Rightarrow> nat \<Rightarrow> u8 list \<times> u8 list" where
  "page_cipher lib keys c data n =
     (let src = slice (n * DATA_BYTES_PER_PAGE) DATA_BYTES_PER_PAGE data;
          iv = snd (cipher_upto lib keys c data n)
      in if c \<ge> SUPERBLOCK_START_CLUSTER then (src, iv) else AesEncrypt lib (key_aes keys) iv src)"

lemma cipher_upto_step:
  assumes ok: "mbedtls_ok lib" and len: "Suc n * DATA_BYTES_PER_PAGE \<le> length data"
  shows "cipher_upto lib keys c data (Suc n)
    = (fst (cipher_upto lib keys c data n) @ fst (page_cipher lib keys c data n),
       snd (page_cipher lib keys c data n))"
proof (cases "c \<ge> SUPERBLOCK_START_CLUSTER")
  case True
  then show ?thesis
    by (simp add: cipher_upto_def page_cipher_def slice_def take_add [symmetric] add.commute)
next
  case False
  then show ?thesis
    using cipher_upto_Suc [OF ok len _ refl refl] by (simp add: page_cipher_def Let_def)
qed

lemma length_page_cipher:
  assumes ok: "mbedtls_ok lib" and len: "Suc n * DATA_BYTES_PER_PAGE \<le> length data"
  shows "length (fst (page_cipher lib keys c data n)) = DATA_BYTES_PER_PAGE"
  using cipher_upto_step [OF assms, of keys c] length_cipher_upto(1) [OF ok len, of keys c]
    length_cipher_upto(1) [OF ok, of n data keys c] len
  by (simp add: add.commute)

lemma cipher_upto_prefix:
  assumes ok: "mbedtls_ok lib" and "n \<le> m" and "m * DATA_BYTES_PER_PAGE \<le> length data"
  shows "\<exists>rest. fst (cipher_upto lib keys c data m) = fst (cipher_upto lib keys c data n) @ rest"
  using assms(2,3)
proof (induction m rule: dec_induct)
  case base
  then show ?case by simp
next
  case (step m)
  then show ?case using cipher_upto_step [OF ok step.prems, of keys c] by auto
qed

lemma cipher_slice:
  assumes ok: "mbedtls_ok lib" and len: "length data = CLUSTER_DATA_SIZE" and n: "n < PAGES_PER_CLUSTER"
    and cipher: "cipher = fst (cipher_upto lib keys c data PAGES_PER_CLUSTER)"
  shows "slice (n * DATA_BYTES_PER_PAGE) DATA_BYTES_PER_PAGE cipher = fst (page_cipher lib keys c data n)"
proof -
  have l: "m \<le> PAGES_PER_CLUSTER \<Longrightarrow> m * DATA_BYTES_PER_PAGE \<le> length data" for m
    using len by (simp add: CLUSTER_DATA_SIZE_def)
  obtain rest where "cipher = fst (cipher_upto lib keys c data (Suc n)) @ rest"
    using cipher_upto_prefix [OF ok _ l [OF order_refl], of "Suc n" keys c] n cipher by auto
  then have "cipher = fst (cipher_upto lib keys c data n) @ fst (page_cipher lib keys c data n) @ rest"
    using cipher_upto_step [OF ok l [OF Suc_leI [OF n]], of keys c] by simp
  then show ?thesis
    using length_cipher_upto(1) [OF ok l [OF less_imp_le [OF n]], of keys c]
      length_page_cipher [OF ok l [OF Suc_leI [OF n]], of keys c]
    by (simp add: slice_append_ge slice_append_fit)
qed

lemma length_concat_pages:
  assumes "length cipher = CLUSTER_DATA_SIZE" "length hmac = 20" "n \<le> PAGES_PER_CLUSTER"
  shows "length (concat (map (page_image cipher hmac) [0..<n])) = n * PAGE_SIZE"
  using assms(3) by (induction n) (simp_all add: length_page_image [OF assms(1,2)])

lemma fold_write_pages:
  assumes ok: "mbedtls_ok lib" and c: "c < 0x8000" and len: "length data = CLUSTER_DATA_SIZE"
    and hm: "length hmac = 20" and n: "n \<le> PAGES_PER_CLUSTER"
    and cipher: "cipher = fst (cipher_upto lib keys c data PAGES_PER_CLUSTER)"
  shows "fold (write_page lib keys c data hmac) [0..<n] (nand, replicate 16 0) =
    (mem_write nand (cluster_base c) (concat (map (page_image cipher hmac) [0..<n])),
     snd (cipher_upto lib keys c data n))"
  using n
proof (induction n)
  case 0
  show ?case by (auto simp: mem_write_def cipher_upto_def fun_eq_iff)
next
  case (Suc n)
  have l: "Suc n * DATA_BYTES_PER_PAGE \<le> length data"
    using len Suc.prems mult_le_mono1 [OF Suc.prems] by (simp add: CLUSTER_DATA_SIZE_def)
  have lc: "length cipher = CLUSTER_DATA_SIZE"
    using length_cipher_upto(1) [OF ok, of PAGES_PER_CLUSTER data keys c] len cipher
    by (simp add: CLUSTER_DATA_SIZE_def)
  let ?img = "concat (map (page_image cipher hmac) [0..<n])"
  have n: "n < PAGES_PER_CLUSTER" using Suc.prems by simp
  have pc: "slice (n * DATA_BYTES_PER_PAGE) DATA_BYTES_PER_PAGE cipher = fst (page_cipher lib keys c data n)"
    by (rule cipher_slice [OF ok len n cipher])
  have "write_page lib keys c data hmac n (mem_write nand (cluster_base c) ?img, snd (cipher_upto lib keys c data n))
    = (mem_write (mem_write nand (cluster_base c) ?img) (cluster_base c + n * PAGE_SIZE)
        (fst (page_cipher lib keys c data n) @ spare_for n (Calculate (fst (page_cipher lib keys c data n))) hmac),
       snd (page_cipher lib keys c data n))"
    by (rule write_page_image [OF c n], simp add: page_cipher_def Let_def)
      (rule length_page_cipher [OF ok l])
  moreover have "fst (page_cipher lib keys c data n) @ spare_for n (Calculate (fst (page_cipher lib keys c data n))) hmac
    = page_image cipher hmac n"
    by (simp add: page_image_def pc Let_def)
  moreover have "cluster_base c + n * PAGE_SIZE = cluster_base c + length ?img"
    using length_concat_pages [OF lc hm less_imp_le [OF n]] by simp
  ultimately show ?case
    using Suc by (simp add: mem_write_append cipher_upto_step [OF ok l])
qed

lemma WriteCluster_image:
  assumes "mbedtls_ok lib" "c < 0x8000" "length data = CLUSTER_DATA_SIZE" "length hmac = 20"
  shows "WriteCluster lib keys nand c data hmac = (Success, mem_write nand (cluster_base c)
    (cluster_image (fst (cipher_upto lib keys c data PAGES_PER_CLUSTER)) hmac))"
  using assms fold_write_pages [OF assms order_refl refl, of keys nand]
  by (simp add: WriteCluster_def cluster_image_def not_le)

section \<open>Reading a cluster image back\<close>

lemma length_cluster_image:
  assumes "length cipher = CLUSTER_DATA_SIZE" "length hmac = 20"
  shows "length (cluster_image cipher hmac) = PAGES_PER_CLUSTER * PAGE_SIZE"
  using length_concat_pages [OF assms order_refl] by (simp add: cluster_image_def)

lemma slice_cluster_image:
  assumes "length cipher = CLUSTER_DATA_SIZE" "length hmac = 20" "page < PAGES_PER_CLUSTER"
  shows "slice (page * PAGE_SIZE) PAGE_SIZE (cluster_image cipher hmac) = page_image cipher hmac page"
proof -
  let ?f = "page_image cipher hmac"
  have "chunks (length (map ?f [0..<PAGES_PER_CLUSTER])) PAGE_SIZE (cluster_image cipher hmac)
    = map ?f [0..<PAGES_PER_CLUSTER]"
    unfolding cluster_image_def
    by (rule chunks_concat) (use length_page_image [OF assms(1,2)] in auto)
  then have "chunks PAGES_PER_CLUSTER PAGE_SIZE (cluster_image cipher hmac) ! page = ?f page"
    using assms(3) by simp
  then show ?thesis using assms(3) by (simp add: chunks_def)
qed

lemma read_cluster_image:
  assumes "length cipher = CLUSTER_DATA_SIZE" "length hmac = 20" "page < PAGES_PER_CLUSTER"
    and "k + n \<le> PAGE_SIZE"
  shows "mem_read (mem_write nand a (cluster_image cipher hmac)) (a + page * PAGE_SIZE + k) n
    = slice k n (page_image cipher hmac page)"
proof -
  have le: "page * PAGE_SIZE + PAGE_SIZE \<le> PAGES_PER_CLUSTER * PAGE_SIZE"
    using mult_le_mono1 [OF Suc_leI [OF assms(3)], of PAGE_SIZE] by simp
  have "mem_read (mem_write nand a (cluster_image cipher hmac)) (a + (page * PAGE_SIZE + k)) n
    = slice (page * PAGE_SIZE + k) n (cluster_image cipher hmac)"
    by (rule mem.rd_wr_within) (use le assms(4) length_cluster_image [OF assms(1,2)] in simp)
  also have "\<dots> = slice k n (slice (page * PAGE_SIZE) PAGE_SIZE (cluster_image cipher hmac))"
    by (rule slice_slice [symmetric]) (rule assms(4))
  finally show ?thesis by (simp add: slice_cluster_image [OF assms(1-3)] add.assoc)
qed

lemma page_image_data:
  assumes "length cipher = CLUSTER_DATA_SIZE" "page < PAGES_PER_CLUSTER"
  shows "slice 0 DATA_BYTES_PER_PAGE (page_image cipher hmac page)
    = slice (page * DATA_BYTES_PER_PAGE) DATA_BYTES_PER_PAGE cipher"
  using assms by (simp add: page_image_def Let_def layout_consts)

lemma page_image_spare:
  assumes "length cipher = CLUSTER_DATA_SIZE" "page < PAGES_PER_CLUSTER"
  shows "slice (DATA_BYTES_PER_PAGE + k) n (page_image cipher hmac page)
    = slice k n (spare_for page (Calculate (slice (page * DATA_BYTES_PER_PAGE) DATA_BYTES_PER_PAGE cipher)) hmac)"
  using assms by (simp add: page_image_def Let_def layout_consts slice_append_ge)

lemma spare_hmac:
  assumes "length ecc = 16" "length hmac = 20"
  shows "slice HMAC1_OFFSET_IN_PAGE1 HMAC1_SIZE_IN_PAGE1 (spare_for HMAC_PAGE1 ecc hmac) = hmac"
    and "slice HMAC2_OFFSET_IN_PAGE1 HMAC2_SIZE_IN_PAGE1 (spare_for HMAC_PAGE1 ecc hmac) = take HMAC2_SIZE_IN_PAGE1 hmac"
    and "slice HMAC2_OFFSET_IN_PAGE2 HMAC2_SIZE_IN_PAGE2 (spare_for HMAC_PAGE2 ecc hmac) = drop HMAC2_SIZE_IN_PAGE1 hmac"
    and "slice 0x30 16 (spare_for page ecc hmac) = ecc"
  using assms
  by (auto simp: spare_for_def Let_def layout_consts slice_def copy_into_def min_def)

lemma read_pages_fold:
  "fold (\<lambda>page result. result @ f page) xs acc = acc @ concat (map f xs)"
  by (induction xs arbitrary: acc) simp_all

text \<open>
  Reading a cluster after writing it gives back the data and two intact copies of the
  message authentication code.
\<close>

lemma ReadCluster_WriteCluster:
  assumes ok: "mbedtls_ok lib" and c: "c < 0x8000" and len: "length data = CLUSTER_DATA_SIZE"
    and hm: "length hmac = 20"
  shows "ReadCluster lib keys (snd (WriteCluster lib keys nand c data hmac)) c
    = Inr \<lparr>rr_data = data, rr_hmac1 = hmac, rr_hmac2 = hmac\<rparr>"
proof -
  define cipher where "cipher = fst (cipher_upto lib keys c data PAGES_PER_CLUSTER)"
  define m where "m = mem_write nand (cluster_base c) (cluster_image cipher hmac)"
  have w: "snd (WriteCluster lib keys nand c data hmac) = m"
    by (simp add: WriteCluster_image [OF assms] m_def cipher_def)
  have lc: "length cipher = CLUSTER_DATA_SIZE"
    using length_cipher_upto(1) [OF ok, of PAGES_PER_CLUSTER data keys c] len
    by (simp add: cipher_def CLUSTER_DATA_SIZE_def)
  have rd: "mem_read m (page_addr c p + k) n = slice k n (page_image cipher hmac p)"
    if "p < PAGES_PER_CLUSTER" "k + n \<le> PAGE_SIZE" for p k n
    using read_cluster_image [OF lc hm that] by (simp add: m_def page_addr_eq [OF c that(1)])
  have page: "mem_read m (page_addr c p) DATA_BYTES_PER_PAGE
    = slice (p * DATA_BYTES_PER_PAGE) DATA_BYTES_PER_PAGE cipher" if "p < PAGES_PER_CLUSTER" for p
    using rd [OF that, of 0 DATA_BYTES_PER_PAGE] page_image_data [OF lc that] by (simp add: layout_consts)
  have "concat (map (\<lambda>p. mem_read m (page_addr c p) DATA_BYTES_PER_PAGE) [0..<PAGES_PER_CLUSTER])
    = concat (map (\<lambda>p. slice (p * DATA_BYTES_PER_PAGE) DATA_BYTES_PER_PAGE cipher) [0..<PAGES_PER_CLUSTER])"
    by (rule arg_cong [where f = concat], rule map_cong) (simp_all add: page)
  also have "\<dots> = cipher" by (rule list_of_slices) (simp add: lc CLUSTER_DATA_SIZE_def)
  finally have raw: "fold (\<lambda>page result. result @ mem_read m (page_addr c page) DATA_BYTES_PER_PAGE)
    [0..<PAGES_PER_CLUSTER] [] = cipher" by (simp add: read_pages_fold)
  have data: "(if c < SUPERBLOCK_START_CLUSTER then fst (AesDecrypt lib (key_aes keys) (replicate 16 0) cipher) else cipher) = data"
    using len AesDecrypt_AesEncrypt [OF ok, of "replicate 16 0" data "key_aes keys"]
    by (auto simp: cipher_def cipher_upto_def whole_blocks_def layout_consts not_le)
  have sp: "mem_read m (page_addr c p + DATA_BYTES_PER_PAGE + k) n
    = slice k n (spare_for p (Calculate (slice (p * DATA_BYTES_PER_PAGE) DATA_BYTES_PER_PAGE cipher)) hmac)"
    if "p < PAGES_PER_CLUSTER" "k + n \<le> SPARE_BYTES_PER_PAGE" for p k n
    using rd [OF that(1), of "DATA_BYTES_PER_PAGE + k" n] page_image_spare [OF lc that(1)] that(2)
    by (simp add: PAGE_SIZE_def add.assoc)
  have b: "HMAC_PAGE1 < PAGES_PER_CLUSTER" "HMAC_PAGE2 < PAGES_PER_CLUSTER"
    "HMAC1_OFFSET_IN_PAGE1 + HMAC1_SIZE_IN_PAGE1 \<le> SPARE_BYTES_PER_PAGE"
    "HMAC2_OFFSET_IN_PAGE1 + HMAC2_SIZE_IN_PAGE1 \<le> SPARE_BYTES_PER_PAGE"
    "HMAC2_OFFSET_IN_PAGE2 + HMAC2_SIZE_IN_PAGE2 \<le> SPARE_BYTES_PER_PAGE"
    by (simp_all add: layout_consts)
  show ?thesis
    using c unfolding w ReadCluster_def Let_def raw data
    by (simp add: not_le [symmetric] sp [OF b(1,3)] sp [OF b(1,4)] sp [OF b(2,5)] spare_hmac hm)
qed

lemma WriteCluster_frame:
  assumes ok: "mbedtls_ok lib" and c: "c < 0x8000" and len: "length data = CLUSTER_DATA_SIZE"
    and hm: "length hmac = 20" and other: "c' \<noteq> c"
  shows "ReadCluster lib keys' (snd (WriteCluster lib keys nand c data hmac)) c' = ReadCluster lib keys' nand c'"
proof (cases "c' < 0x8000")
  case True
  define cipher where "cipher = fst (cipher_upto lib keys c data PAGES_PER_CLUSTER)"
  define m where "m = mem_write nand (cluster_base c) (cluster_image cipher hmac)"
  have w: "snd (WriteCluster lib keys nand c data hmac) = m"
    by (simp add: WriteCluster_image [OF ok c len hm] m_def cipher_def)
  have lc: "length cipher = CLUSTER_DATA_SIZE"
    using length_cipher_upto(1) [OF ok, of PAGES_PER_CLUSTER data keys c] len
    by (simp add: cipher_def CLUSTER_DATA_SIZE_def)
  have rd: "mem_read m (page_addr c' p + k) n = mem_read nand (page_addr c' p + k) n"
    if "p < PAGES_PER_CLUSTER" "k + n \<le> PAGE_SIZE" for p k n
  proof -
    have "p * PAGE_SIZE + PAGE_SIZE \<le> PAGES_PER_CLUSTER * PAGE_SIZE"
      using mult_le_mono1 [OF Suc_leI [OF that(1)], of PAGE_SIZE] by simp
    then show ?thesis
      unfolding m_def page_addr_eq [OF True that(1)]
      by (intro mem.rd_wr_other)
        (use clusters_disjoint [OF other] that(2) length_cluster_image [OF lc hm] in auto)
  qed
  have pg: "mem_read m (page_addr c' p) DATA_BYTES_PER_PAGE = mem_read nand (page_addr c' p) DATA_BYTES_PER_PAGE"
    if "p < PAGES_PER_CLUSTER" for p
    using rd [OF that, of 0] by (simp add: PAGE_SIZE_def)
  have sp: "mem_read m (page_addr c' p + DATA_BYTES_PER_PAGE + k) n = mem_read nand (page_addr c' p + DATA_BYTES_PER_PAGE + k) n"
    if "p < PAGES_PER_CLUSTER" "k + n \<le> SPARE_BYTES_PER_PAGE" for p k n
    using rd [OF that(1), of "DATA_BYTES_PER_PAGE + k"] that(2) by (simp add: PAGE_SIZE_def add.assoc)
  have raw: "map (\<lambda>p. mem_read m (page_addr c' p) DATA_BYTES_PER_PAGE) [0..<PAGES_PER_CLUSTER]
    = map (\<lambda>p. mem_read nand (page_addr c' p) DATA_BYTES_PER_PAGE) [0..<PAGES_PER_CLUSTER]"
    by (rule map_cong) (simp_all add: pg)
  have b: "HMAC_PAGE1 < PAGES_PER_CLUSTER" "HMAC_PAGE2 < PAGES_PER_CLUSTER"
    "HMAC1_OFFSET_IN_PAGE1 + HMAC1_SIZE_IN_PAGE1 \<le> SPARE_BYTES_PER_PAGE"
    "HMAC2_OFFSET_IN_PAGE1 + HMAC2_SIZE_IN_PAGE1 \<le> SPARE_BYTES_PER_PAGE"
    "HMAC2_OFFSET_IN_PAGE2 + HMAC2_SIZE_IN_PAGE2 \<le> SPARE_BYTES_PER_PAGE"
    by (simp_all add: layout_consts)
  show ?thesis
    unfolding w ReadCluster_def Let_def read_pages_fold raw
    by (simp only: sp [OF b(1,3)] sp [OF b(1,4)] sp [OF b(2,5)])
next
  case False
  then show ?thesis by (simp add: ReadCluster_def not_less)
qed

section \<open>Properties\<close>

text \<open>
  C35 A cluster round trip. A successful write of a cluster, encrypted unless it belongs to a
  superblock, is read back as the same data with both stored copies of the message
  authentication code intact.
\<close>

theorem cluster_roundtrip:
  assumes "mbedtls_ok lib" and "c < 0x8000" and "length data = CLUSTER_DATA_SIZE" and "length hmac = 20"
    and "WriteCluster lib keys nand c data hmac = (result, nand')"
  shows "result = Success \<and> ReadCluster lib keys nand' c = Inr \<lparr>rr_data = data, rr_hmac1 = hmac, rr_hmac2 = hmac\<rparr>"
  using ReadCluster_WriteCluster [OF assms(1-4), of keys nand] WriteCluster_image [OF assms(1-4), of keys nand] assms(5)
  by simp

lemma cluster_roundtrip_witness:
  "ReadCluster demo_mbedtls \<lparr>key_hmac = replicate 20 1, key_aes = replicate 16 7\<rparr>
     (snd (WriteCluster demo_mbedtls \<lparr>key_hmac = replicate 20 1, key_aes = replicate 16 7\<rparr> (\<lambda>_. 0xff) 0x40
        (replicate CLUSTER_DATA_SIZE 5) (replicate 20 3))) 0x40
   = Inr \<lparr>rr_data = replicate CLUSTER_DATA_SIZE 5, rr_hmac1 = replicate 20 3, rr_hmac2 = replicate 20 3\<rparr>"
  by (rule cluster_roundtrip [OF demo_mbedtls_ok _ _ _ prod.collapse [symmetric], THEN conjunct2]) simp_all

text \<open>
  C36 Writing a cluster touches nothing else: a byte of the image that changes lies inside the
  cluster, which lies inside the NAND, and every other cluster reads as before.
\<close>

theorem cluster_write_frame:
  assumes "mbedtls_ok lib" and "c < 0x8000" and "length data = CLUSTER_DATA_SIZE" and "length hmac = 20"
    and "WriteCluster lib keys nand c data hmac = (result, nand')"
  shows "(\<forall>a. nand' a \<noteq> nand a \<longrightarrow> cluster_base c \<le> a \<and> a < cluster_base c + PAGES_PER_CLUSTER * PAGE_SIZE \<and> a < NAND_SIZE)
    \<and> (\<forall>c'. c' \<noteq> c \<longrightarrow> ReadCluster lib keys nand' c' = ReadCluster lib keys nand c')"
proof -
  have img: "nand' = mem_write nand (cluster_base c)
      (cluster_image (fst (cipher_upto lib keys c data PAGES_PER_CLUSTER)) hmac)"
    using WriteCluster_image [OF assms(1-4), of keys nand] assms(5) by simp
  have "length (fst (cipher_upto lib keys c data PAGES_PER_CLUSTER)) = CLUSTER_DATA_SIZE"
    using length_cipher_upto(1) [OF assms(1), of PAGES_PER_CLUSTER data keys c] assms(3)
    by (simp add: CLUSTER_DATA_SIZE_def)
  then have "nand' a \<noteq> nand a \<Longrightarrow> cluster_base c \<le> a \<and> a < cluster_base c + PAGES_PER_CLUSTER * PAGE_SIZE" for a
    unfolding img by (auto simp: mem_write_def length_cluster_image [OF _ assms(4)] split: if_splits)
  then show ?thesis
    using cluster_in_nand [OF assms(2)] WriteCluster_frame [OF assms(1-4), of _ keys keys nand] assms(5)
    by fastforce
qed

lemma cluster_write_frame_witness:
  "ReadCluster demo_mbedtls \<lparr>key_hmac = [], key_aes = [7]\<rparr>
     (snd (WriteCluster demo_mbedtls \<lparr>key_hmac = [], key_aes = [7]\<rparr> (\<lambda>_. 0xff) 0x40
        (replicate CLUSTER_DATA_SIZE 5) (replicate 20 3))) 0x41
   = ReadCluster demo_mbedtls \<lparr>key_hmac = [], key_aes = [7]\<rparr> (\<lambda>_. 0xff) 0x41"
  by (rule cluster_write_frame [OF demo_mbedtls_ok _ _ _ prod.collapse [symmetric], THEN conjunct2, rule_format]) simp_all

end
