(* ===== verification/FsState.thy ===== *)
theory FsState
  imports Cluster
begin

text \<open>
  The state of \<^verbatim>\<open>FileSystemImpl\<close> (\<^verbatim>\<open>driver/fs.h\<close>). A \<^verbatim>\<open>Handle*\<close> is a \<open>HandleRef\<close>: a slot
  of the handle table or the internal handle. The superblock pointer is an option; a
  pointer obtained from \<^verbatim>\<open>GetSuperblock\<close> refers to the contents of \<open>m_superblock\<close>, so a
  write through it is an update of that field.
\<close>

record Handle =
  h_opened :: bool
  h_fst_index :: u16
  h_gid :: u16
  h_uid :: u32
  h_mode :: FileMode
  h_file_offset :: u32
  h_file_size :: u32
  h_superblock_flush_needed :: bool

text \<open>\<^verbatim>\<open>Handle{}\<close>.\<close>

definition new_Handle :: Handle where
  "new_Handle = \<lparr>h_opened = False, h_fst_index = 0xffff, h_gid = 0, h_uid = 0, h_mode = FileMode_None,
     h_file_offset = 0, h_file_size = 0, h_superblock_flush_needed = False\<rparr>"

datatype HandleRef = Slot nat | Internal

definition NUM_HANDLES :: nat where
  "NUM_HANDLES = 16"

record FileSystemImpl =
  m_nand :: memory
  m_keys :: FileSystemKeys
  m_superblock :: "Superblock option"
  m_superblock_index :: u32
  m_handles :: "Handle list"
  m_internal_handle :: Handle
  m_cache_handle :: "HandleRef option"
  m_cache_chain_index :: u16
  m_cache_data :: "u8 list"
  m_cache_for_write :: bool

text \<open>The state the member initialisers give, before the body of the constructor runs.\<close>

definition initial_fs :: "memory \<Rightarrow> FileSystemKeys \<Rightarrow> FileSystemImpl" where
  "initial_fs nand_bytes keys = \<lparr>m_nand = nand_bytes, m_keys = keys, m_superblock = None,
     m_superblock_index = 0, m_handles = replicate NUM_HANDLES new_Handle,
     m_internal_handle = new_Handle\<lparr>h_opened := True\<rparr>, m_cache_handle = None,
     m_cache_chain_index = 0xffff, m_cache_data = [], m_cache_for_write = False\<rparr>"

definition handle_at :: "FileSystemImpl \<Rightarrow> HandleRef \<Rightarrow> Handle" where
  "handle_at s h = (case h of Slot i \<Rightarrow> m_handles s ! i | Internal \<Rightarrow> m_internal_handle s)"

definition upd_handle :: "HandleRef \<Rightarrow> (Handle \<Rightarrow> Handle) \<Rightarrow> FileSystemImpl \<Rightarrow> FileSystemImpl" where
  "upd_handle h f s = (case h of
     Slot i \<Rightarrow> s\<lparr>m_handles := (m_handles s)[i := f (m_handles s ! i)]\<rparr>
   | Internal \<Rightarrow> s\<lparr>m_internal_handle := f (m_internal_handle s)\<rparr>)"

definition valid_ref :: "HandleRef \<Rightarrow> bool" where
  "valid_ref h = (case h of Slot i \<Rightarrow> i < NUM_HANDLES | Internal \<Rightarrow> True)"

text \<open>
  The operations that may read out of bounds, dereference an empty optional or loop
  forever have results of type \<open>(\<dots>) option\<close>; \<open>None\<close> stands for a run without a
  defined result. The type of a state-changing operation:
\<close>

type_synonym ('r) fs_op = "FileSystemImpl \<Rightarrow> ('r \<times> FileSystemImpl) option"

section \<open>Handle facts\<close>

lemma handle_at_upd_handle:
  assumes "length (m_handles s) = NUM_HANDLES" "valid_ref h"
  shows "handle_at (upd_handle h f s) h' = (if h' = h then f (handle_at s h) else handle_at s h')"
  using assms
  by (cases h; cases h')
    (auto simp: handle_at_def upd_handle_def valid_ref_def nth_list_update)

lemma upd_handle_fields [simp]:
  "m_nand (upd_handle h f s) = m_nand s" "m_keys (upd_handle h f s) = m_keys s"
  "m_superblock (upd_handle h f s) = m_superblock s"
  "m_superblock_index (upd_handle h f s) = m_superblock_index s"
  "m_cache_handle (upd_handle h f s) = m_cache_handle s"
  "m_cache_chain_index (upd_handle h f s) = m_cache_chain_index s"
  "m_cache_data (upd_handle h f s) = m_cache_data s"
  "m_cache_for_write (upd_handle h f s) = m_cache_for_write s"
  "length (m_handles (upd_handle h f s)) = length (m_handles s)"
  by (simp_all add: upd_handle_def split: HandleRef.splits)

lemma handle_at_fields [simp]:
  "handle_at (s\<lparr>m_superblock := a\<rparr>) h = handle_at s h"
  "handle_at (s\<lparr>m_superblock_index := b\<rparr>) h = handle_at s h"
  "handle_at (s\<lparr>m_nand := c\<rparr>) h = handle_at s h"
  "handle_at (s\<lparr>m_cache_handle := d\<rparr>) h = handle_at s h"
  "handle_at (s\<lparr>m_cache_chain_index := e\<rparr>) h = handle_at s h"
  "handle_at (s\<lparr>m_cache_data := g\<rparr>) h = handle_at s h"
  "handle_at (s\<lparr>m_cache_for_write := i\<rparr>) h = handle_at s h"
  by (simp_all add: handle_at_def split: HandleRef.splits)

end
