(* ===== verification/SuperblockIO.thy ===== *)
theory SuperblockIO
  imports FsState
begin

text \<open>
  Loading and persisting superblocks: \<^verbatim>\<open>ReadSuperblock\<close>, \<^verbatim>\<open>GetSuperblock\<close> and
  \<^verbatim>\<open>FlushSuperblock\<close> of \<^verbatim>\<open>driver/low_level.cpp\<close>.
\<close>

section \<open>Reading\<close>

fun ReadSuperblock_loop ::
  "('k, 'c) mbedtls \<Rightarrow> FileSystemKeys \<Rightarrow> memory \<Rightarrow> u16 \<Rightarrow> nat list \<Rightarrow> u8 list \<Rightarrow> Superblock Result" where
  "ReadSuperblock_loop lib keys nand superblock [] block = Inr (Superblock_of_bytes block)"
| "ReadSuperblock_loop lib keys nand superblock (i # is) block =
     (case ReadCluster lib keys nand (ucast (ucast (SuperblockCluster (ucast superblock)) + of_nat i :: u32)) of
        Inl e \<Rightarrow> Inl e
      | Inr data \<Rightarrow> ReadSuperblock_loop lib keys nand superblock is (block @ rr_data data))"

definition ReadSuperblock ::
  "('k, 'c) mbedtls \<Rightarrow> FileSystemKeys \<Rightarrow> memory \<Rightarrow> u16 \<Rightarrow> Superblock Result" where
  "ReadSuperblock lib keys nand superblock =
     ReadSuperblock_loop lib keys nand superblock [0..<CLUSTERS_PER_SUPERBLOCK] []"

text \<open>One iteration of the search for the newest superblock.\<close>

definition scan_superblock ::
  "('k, 'c) mbedtls \<Rightarrow> nat \<Rightarrow> u32 \<times> FileSystemImpl \<Rightarrow> u32 \<times> FileSystemImpl" where
  "scan_superblock lib i st = (case st of (highest_version, s) \<Rightarrow>
     (case ReadSuperblock lib (m_keys s) (m_nand s) (of_nat i) of
        Inl _ \<Rightarrow> (highest_version, s)
      | Inr superblock \<Rightarrow>
          if sb_magic superblock \<noteq> SUPERBLOCK_MAGIC then (highest_version, s)
          else if sb_version superblock < highest_version then (highest_version, s)
          else (sb_version superblock,
                s\<lparr>m_superblock_index := of_nat i, m_superblock := Some superblock\<rparr>)))"

definition GetSuperblock ::
  "('k, 'c) mbedtls \<Rightarrow> FileSystemImpl \<Rightarrow> Superblock option \<times> FileSystemImpl" where
  "GetSuperblock lib s = (case m_superblock s of
     Some sb \<Rightarrow> (Some sb, s)
   | None \<Rightarrow>
       let s1 = snd (fold (scan_superblock lib) [0..<NUMBER_OF_SUPERBLOCKS] (0, s)) in
       (case m_superblock s1 of
          None \<Rightarrow> (None, s1)
        | Some sb \<Rightarrow>
            let hash = GenerateHmacForSuperblock lib (m_keys s1) sb (ucast (m_superblock_index s1));
                read_result = ReadCluster lib (m_keys s1) (m_nand s1)
                  (ucast (ucast (SuperblockCluster (m_superblock_index s1)) + 15 :: u32))
            in (case read_result of
                  Inl _ \<Rightarrow> (None, s1)
                | Inr r \<Rightarrow> if hash \<noteq> rr_hmac1 r \<and> hash \<noteq> rr_hmac2 r then (None, s1) else (Some sb, s1))))"

section \<open>Writing\<close>

fun write_superblock_clusters ::
  "('k, 'c) mbedtls \<Rightarrow> FileSystemKeys \<Rightarrow> u32 \<Rightarrow> u8 list \<Rightarrow> u8 list \<Rightarrow> nat list \<Rightarrow> memory \<Rightarrow> ResultCode \<times> memory" where
  "write_superblock_clusters lib keys index bytes hmac [] nand = (Success, nand)"
| "write_superblock_clusters lib keys index bytes hmac (cluster # cs) nand =
     (case WriteCluster lib keys nand (ucast (ucast (SuperblockCluster index) + of_nat cluster :: u32))
             (slice (cluster * CLUSTER_DATA_SIZE) CLUSTER_DATA_SIZE bytes)
             (if cluster = 15 then hmac else replicate 20 0) of
        (result, nand') \<Rightarrow>
          if result \<noteq> Success then (result, nand')
          else write_superblock_clusters lib keys index bytes hmac cs nand')"

text \<open>
  The 15 extra versions written after an overflow; \<open>flush\<close> is the recursive call.
\<close>

fun flush_extra :: "ResultCode fs_op \<Rightarrow> nat \<Rightarrow> ResultCode fs_op" where
  "flush_extra flush 0 s = Some (Success, s)"
| "flush_extra flush (Suc n) s = (case flush s of
     None \<Rightarrow> None
   | Some (result, s') \<Rightarrow> if result \<noteq> Success then Some (result, s') else flush_extra flush n s')"

definition write_block :: "('k, 'c) mbedtls \<Rightarrow> ResultCode fs_op \<Rightarrow> ResultCode fs_op" where
  "write_block lib flush s =
     (let index = (m_superblock_index s + 1) mod of_nat NUMBER_OF_SUPERBLOCKS;
          s1 = s\<lparr>m_superblock_index := index\<rparr>
      in case m_superblock s1 of
           None \<Rightarrow> None
         | Some sb \<Rightarrow>
             let hmac = GenerateHmacForSuperblock lib (m_keys s1) sb (ucast index) in
             (case write_superblock_clusters lib (m_keys s1) index (Superblock_bytes sb) hmac
                     [0..<CLUSTERS_PER_SUPERBLOCK] (m_nand s1) of
                (result, nand') \<Rightarrow>
                  let s2 = s1\<lparr>m_nand := nand'\<rparr> in
                  if result \<noteq> Success then Some (result, s2)
                  else if sb_version sb = 0 then flush_extra flush 15 s2
                  else Some (Success, s2)))"

fun retry_write_block :: "ResultCode fs_op \<Rightarrow> nat \<Rightarrow> ResultCode fs_op" where
  "retry_write_block body 0 s = Some (SuperblockWriteFailed, s)"
| "retry_write_block body (Suc n) s = (case body s of
     None \<Rightarrow> None
   | Some (result, s') \<Rightarrow> if result = Success then Some (Success, s') else retry_write_block body n s')"

text \<open>
  \<^verbatim>\<open>FlushSuperblock\<close> calls itself after a version overflow; the fuel bounds the depth of
  these calls. Two levels always suffice (\<open>FlushSuperblock_enough\<close> below).
\<close>

fun FlushSuperblock_fuel :: "nat \<Rightarrow> ('k, 'c) mbedtls \<Rightarrow> ResultCode fs_op" where
  "FlushSuperblock_fuel 0 lib s = None"
| "FlushSuperblock_fuel (Suc n) lib s = (case m_superblock s of
     None \<Rightarrow> Some (NotFound, s)
   | Some sb \<Rightarrow>
       retry_write_block (write_block lib (FlushSuperblock_fuel n lib)) NUMBER_OF_SUPERBLOCKS
         (s\<lparr>m_superblock := Some (sb\<lparr>sb_version := sb_version sb + 1\<rparr>)\<rparr>))"

definition FlushSuperblock :: "('k, 'c) mbedtls \<Rightarrow> ResultCode fs_op" where
  "FlushSuperblock lib s = FlushSuperblock_fuel 2 lib s"

section \<open>The clusters of a superblock\<close>

definition sb_cluster :: "nat \<Rightarrow> nat \<Rightarrow> u16" where
  "sb_cluster index i = of_nat (0x7f00 + index * 16 + i)"

lemma unat_sb_cluster:
  "index < NUMBER_OF_SUPERBLOCKS \<Longrightarrow> i < CLUSTERS_PER_SUPERBLOCK \<Longrightarrow>
   unat (sb_cluster index i) = 0x7f00 + index * 16 + i"
  by (simp add: sb_cluster_def unat_of_nat layout_consts del: of_nat_add of_nat_mult)

lemma sb_cluster_less:
  "index < NUMBER_OF_SUPERBLOCKS \<Longrightarrow> i < CLUSTERS_PER_SUPERBLOCK \<Longrightarrow> sb_cluster index i < 0x8000"
  by (simp add: word_less_nat_alt unat_sb_cluster layout_consts)

lemma sb_cluster_inj:
  assumes "index < NUMBER_OF_SUPERBLOCKS" "i < CLUSTERS_PER_SUPERBLOCK"
    "index' < NUMBER_OF_SUPERBLOCKS" "i' < CLUSTERS_PER_SUPERBLOCK"
    "sb_cluster index i = sb_cluster index' i'"
  shows "index = index' \<and> i = i'"
proof -
  have "index * 16 + i = index' * 16 + i'"
    using unat_sb_cluster [OF assms(1,2)] unat_sb_cluster [OF assms(3,4)] assms(5) by simp
  moreover have "i < 16" "i' < 16" using assms by (simp_all add: layout_consts)
  then have "(index * 16 + i) div 16 = index" "(index' * 16 + i') div 16 = index'"
    "(index * 16 + i) mod 16 = i" "(index' * 16 + i') mod 16 = i'" by simp_all
  ultimately show ?thesis by metis
qed

lemma SuperblockCluster_add:
  assumes "unat index < NUMBER_OF_SUPERBLOCKS" "i < CLUSTERS_PER_SUPERBLOCK"
  shows "ucast (ucast (SuperblockCluster index) + of_nat i :: u32) = sb_cluster (unat index) i"
proof -
  have lt: "unat index < 16" "i < 16" using assms by (simp_all add: layout_consts)
  have "unat (ucast SUPERBLOCK_START_CLUSTER + index * 16 :: u32) = 0x7f00 + unat index * 16"
    using lt by (simp add: unat_word_ariths layout_consts unsigned_ucast_eq)
  then have "unat (SuperblockCluster index) = 0x7f00 + unat index * 16"
    using lt by (simp add: SuperblockCluster_def unsigned_ucast_eq take_bit_nat_def)
  then have "unat (ucast (SuperblockCluster index) + of_nat i :: u32) = 0x7f00 + unat index * 16 + i"
    using lt by (simp add: unat_word_ariths unsigned_ucast_eq take_bit_nat_def unat_of_nat)
  then show ?thesis
    using lt by (simp add: word_unat_eq_iff unsigned_ucast_eq sb_cluster_def unat_of_nat take_bit_nat_def
      del: of_nat_add of_nat_mult)
qed

lemma ReadSuperblock_cluster:
  assumes "k < NUMBER_OF_SUPERBLOCKS" "i < CLUSTERS_PER_SUPERBLOCK"
  shows "ucast (ucast (SuperblockCluster (ucast (of_nat k :: u16))) + of_nat i :: u32) = sb_cluster k i"
proof -
  have "k < 16" using assms(1) by (simp add: layout_consts)
  then have "unat (ucast (of_nat k :: u16) :: u32) = k"
    by (simp add: unsigned_ucast_eq unat_of_nat take_bit_nat_def)
  then show ?thesis using SuperblockCluster_add [of "ucast (of_nat k :: u16)" i] assms by simp
qed

section \<open>What a written superblock reads back as\<close>

lemma write_superblock_clusters_Success:
  assumes "mbedtls_ok lib" "unat index < NUMBER_OF_SUPERBLOCKS" "length bytes = SUPERBLOCK_BYTES"
    "length hmac = 20" "set cs \<subseteq> {..<CLUSTERS_PER_SUPERBLOCK}" "distinct cs"
  shows "fst (write_superblock_clusters lib keys index bytes hmac cs nand) = Success \<and>
    (\<forall>i \<in> set cs. ReadCluster lib keys (snd (write_superblock_clusters lib keys index bytes hmac cs nand))
        (sb_cluster (unat index) i) =
      Inr \<lparr>rr_data = slice (i * CLUSTER_DATA_SIZE) CLUSTER_DATA_SIZE bytes,
        rr_hmac1 = (if i = 15 then hmac else replicate 20 0),
        rr_hmac2 = (if i = 15 then hmac else replicate 20 0)\<rparr>) \<and>
    (\<forall>keys' c. c \<notin> sb_cluster (unat index) ` set cs \<longrightarrow>
      ReadCluster lib keys' (snd (write_superblock_clusters lib keys index bytes hmac cs nand)) c
        = ReadCluster lib keys' nand c)"
  using assms(5,6)
proof (induction cs arbitrary: nand)
  case Nil
  then show ?case by simp
next
  case (Cons i cs)
  let ?data = "slice (i * CLUSTER_DATA_SIZE) CLUSTER_DATA_SIZE bytes"
  let ?h = "if i = 15 then hmac else replicate 20 0"
  have i: "i < CLUSTERS_PER_SUPERBLOCK" using Cons.prems by simp
  have c: "sb_cluster (unat index) i < 0x8000" by (rule sb_cluster_less [OF assms(2) i])
  have "i * CLUSTER_DATA_SIZE + CLUSTER_DATA_SIZE \<le> length bytes"
    using mult_le_mono1 [OF Suc_leI [OF i], of CLUSTER_DATA_SIZE] assms(3) by (simp add: SUPERBLOCK_BYTES_eq)
  then have d: "length ?data = CLUSTER_DATA_SIZE" by simp
  have h: "length ?h = 20" using assms(4) by simp
  obtain nand' where w: "WriteCluster lib keys nand (sb_cluster (unat index) i) ?data ?h = (Success, nand')"
    and nand': "nand' = snd (WriteCluster lib keys nand (sb_cluster (unat index) i) ?data ?h)"
    using WriteCluster_image [OF assms(1) c d h, of keys nand] by simp
  have own: "ReadCluster lib keys nand' (sb_cluster (unat index) i) = Inr \<lparr>rr_data = ?data, rr_hmac1 = ?h, rr_hmac2 = ?h\<rparr>"
    unfolding nand' by (rule ReadCluster_WriteCluster [OF assms(1) c d h])
  have other: "ReadCluster lib keys' nand' c' = ReadCluster lib keys' nand c'"
    if "c' \<noteq> sb_cluster (unat index) i" for keys' c'
    unfolding nand' by (rule WriteCluster_frame [OF assms(1) c d h that])
  have eq: "write_superblock_clusters lib keys index bytes hmac (i # cs) nand
    = write_superblock_clusters lib keys index bytes hmac cs nand'"
    by (simp add: SuperblockCluster_add [OF assms(2) i] w)
  have "i \<notin> set cs" "set cs \<subseteq> {..<CLUSTERS_PER_SUPERBLOCK}" "distinct cs" using Cons.prems by auto
  then have notin: "sb_cluster (unat index) i \<notin> sb_cluster (unat index) ` set cs"
    using sb_cluster_inj [OF assms(2) i assms(2)] by auto
  show ?case
    unfolding eq using Cons.IH [of nand'] Cons.prems own other notin by simp
qed

lemma ReadSuperblock_loop_Inr:
  assumes "\<And>i. i \<in> set is \<Longrightarrow>
    ReadCluster lib keys nand (ucast (ucast (SuperblockCluster (ucast superblock)) + of_nat i :: u32)) = Inr (r i)"
  shows "ReadSuperblock_loop lib keys nand superblock is block
    = Inr (Superblock_of_bytes (block @ concat (map (\<lambda>i. rr_data (r i)) is)))"
  using assms by (induction "is" arbitrary: block) simp_all

lemma ReadSuperblock_loop_cong:
  assumes "\<And>i. i \<in> set is \<Longrightarrow>
    ReadCluster lib keys nand (ucast (ucast (SuperblockCluster (ucast superblock)) + of_nat i :: u32))
    = ReadCluster lib keys nand' (ucast (ucast (SuperblockCluster (ucast superblock)) + of_nat i :: u32))"
  shows "ReadSuperblock_loop lib keys nand superblock is block = ReadSuperblock_loop lib keys nand' superblock is block"
  using assms by (induction "is" arbitrary: block) (simp_all split: sum.splits)

lemma ReadSuperblock_cong:
  assumes "k < NUMBER_OF_SUPERBLOCKS"
    and "\<And>i. i < CLUSTERS_PER_SUPERBLOCK \<Longrightarrow>
      ReadCluster lib keys nand (sb_cluster k i) = ReadCluster lib keys nand' (sb_cluster k i)"
  shows "ReadSuperblock lib keys nand (of_nat k) = ReadSuperblock lib keys nand' (of_nat k)"
  unfolding ReadSuperblock_def
  by (rule ReadSuperblock_loop_cong) (use assms in \<open>simp add: ReadSuperblock_cluster\<close>)

text \<open>
  \<open>stored lib keys nand k sb\<close>: slot \<open>k\<close> of the image holds \<open>sb\<close> with a valid code.
\<close>

definition stored :: "('k, 'c) mbedtls \<Rightarrow> FileSystemKeys \<Rightarrow> memory \<Rightarrow> u32 \<Rightarrow> Superblock \<Rightarrow> bool" where
  "stored lib keys nand index sb \<longleftrightarrow>
     ReadSuperblock lib keys nand (of_nat (unat index)) = Inr sb \<and>
     (\<exists>r. ReadCluster lib keys nand (sb_cluster (unat index) 15) = Inr r \<and>
        rr_hmac1 r = GenerateHmacForSuperblock lib keys sb (ucast index) \<and>
        rr_hmac2 r = GenerateHmacForSuperblock lib keys sb (ucast index))"

definition outside_slot :: "u32 \<Rightarrow> u16 \<Rightarrow> bool" where
  "outside_slot index c \<longleftrightarrow> c \<notin> sb_cluster (unat index) ` {..<CLUSTERS_PER_SUPERBLOCK}"

lemma write_superblock_stored:
  assumes ok: "mbedtls_ok lib" and idx: "unat index < NUMBER_OF_SUPERBLOCKS" and wf: "sb_wf sb"
    and hmac: "hmac = GenerateHmacForSuperblock lib keys sb (ucast index)"
    and w: "write_superblock_clusters lib keys index (Superblock_bytes sb) hmac [0..<CLUSTERS_PER_SUPERBLOCK] nand
      = (result, nand')"
  shows "result = Success" and "stored lib keys nand' index sb"
    and "outside_slot index c \<Longrightarrow> ReadCluster lib keys' nand' c = ReadCluster lib keys' nand c"
proof -
  have len: "length (Superblock_bytes sb) = SUPERBLOCK_BYTES" by (rule superblock.enc_length [OF wf])
  have "length hmac = 20" by (simp add: hmac length_GenerateHmacForSuperblock ok)
  note main = write_superblock_clusters_Success [OF ok idx len this, of "[0..<CLUSTERS_PER_SUPERBLOCK]" keys nand,
      unfolded w fst_conv snd_conv]
  have res: "result = Success"
    and own: "\<And>i. i < CLUSTERS_PER_SUPERBLOCK \<Longrightarrow> ReadCluster lib keys nand' (sb_cluster (unat index) i) =
      Inr \<lparr>rr_data = slice (i * CLUSTER_DATA_SIZE) CLUSTER_DATA_SIZE (Superblock_bytes sb),
        rr_hmac1 = (if i = 15 then hmac else replicate 20 0),
        rr_hmac2 = (if i = 15 then hmac else replicate 20 0)\<rparr>"
    and oth: "\<And>keys' c. c \<notin> sb_cluster (unat index) ` {0..<CLUSTERS_PER_SUPERBLOCK} \<Longrightarrow>
      ReadCluster lib keys' nand' c = ReadCluster lib keys' nand c"
    using main by (auto simp: atLeast0LessThan)
  show "result = Success" by (rule res)
  show "ReadCluster lib keys' nand' c = ReadCluster lib keys' nand c" if "outside_slot index c"
    using oth that by (simp add: outside_slot_def atLeast0LessThan)
  have "ReadSuperblock lib keys nand' (of_nat (unat index)) = Inr (Superblock_of_bytes ([] @
    concat (map (\<lambda>i. rr_data \<lparr>rr_data = slice (i * CLUSTER_DATA_SIZE) CLUSTER_DATA_SIZE (Superblock_bytes sb),
        rr_hmac1 = (if i = 15 then hmac else replicate 20 0),
        rr_hmac2 = (if i = 15 then hmac else replicate 20 0)\<rparr>) [0..<CLUSTERS_PER_SUPERBLOCK])))"
    unfolding ReadSuperblock_def
    by (rule ReadSuperblock_loop_Inr) (simp only: ReadSuperblock_cluster [OF idx] own set_upt atLeastLessThan_iff)
  also have "\<dots> = Inr sb"
    using list_of_slices [of "Superblock_bytes sb" CLUSTERS_PER_SUPERBLOCK CLUSTER_DATA_SIZE]
    by (simp add: len SUPERBLOCK_BYTES_eq superblock.dec_enc [OF wf])
  finally show "stored lib keys nand' index sb"
    using own [of 15] by (simp add: stored_def hmac layout_consts)
qed

end
