(* ===== verification/Persist.thy ===== *)
theory Persist
  imports SuperblockIO
begin

text \<open>
  What \<^verbatim>\<open>FlushSuperblock\<close> leaves on the image and what \<^verbatim>\<open>GetSuperblock\<close> finds there: every
  flush is a sequence of single versions written to consecutive slots (\<open>flush_one\<close>), and a
  file system mounted afterwards loads the last of them.
\<close>

section \<open>One version\<close>

definition next_index :: "u32 \<Rightarrow> u32" where
  "next_index i = (i + 1) mod of_nat NUMBER_OF_SUPERBLOCKS"

definition bump_version :: "Superblock \<Rightarrow> Superblock" where
  "bump_version sb = sb\<lparr>sb_version := sb_version sb + 1\<rparr>"

definition flush_one :: "('k, 'c) mbedtls \<Rightarrow> FileSystemImpl \<Rightarrow> FileSystemImpl" where
  "flush_one lib s = (case m_superblock s of
     None \<Rightarrow> s
   | Some sb \<Rightarrow>
       let sb' = bump_version sb; index = next_index (m_superblock_index s);
           hmac = GenerateHmacForSuperblock lib (m_keys s) sb' (ucast index)
       in s\<lparr>m_superblock := Some sb', m_superblock_index := index,
            m_nand := snd (write_superblock_clusters lib (m_keys s) index (Superblock_bytes sb') hmac
                             [0..<CLUSTERS_PER_SUPERBLOCK] (m_nand s))\<rparr>)"

lemma unat_next_index: "unat (next_index i) < NUMBER_OF_SUPERBLOCKS"
  by (simp add: next_index_def layout_consts unat_mod)

lemma unat_next_index_eq:
  "unat i < NUMBER_OF_SUPERBLOCKS \<Longrightarrow> unat (next_index i) = (unat i + 1) mod NUMBER_OF_SUPERBLOCKS"
  by (simp add: next_index_def layout_consts unat_mod unat_word_ariths)

lemma bump_version_fields [simp]:
  "sb_version (bump_version sb) = sb_version sb + 1" "sb_magic (bump_version sb) = sb_magic sb"
  "sb_fat (bump_version sb) = sb_fat sb" "sb_fst (bump_version sb) = sb_fst sb"
  "sb_wf (bump_version sb) = sb_wf sb"
  by (simp_all add: bump_version_def)

lemma fst_at_bump_version [simp]: "fst_at (bump_version sb) i = fst_at sb i" "fat_at (bump_version sb) i = fat_at sb i"
  by (simp_all add: fst_at_def fat_at_def)

lemma flush_one_fields [simp]:
  "m_keys (flush_one lib s) = m_keys s" "m_handles (flush_one lib s) = m_handles s"
  "m_internal_handle (flush_one lib s) = m_internal_handle s"
  "m_cache_handle (flush_one lib s) = m_cache_handle s"
  "m_cache_chain_index (flush_one lib s) = m_cache_chain_index s"
  "m_cache_data (flush_one lib s) = m_cache_data s"
  "m_cache_for_write (flush_one lib s) = m_cache_for_write s"
  "m_superblock (flush_one lib s) = map_option bump_version (m_superblock s)"
  by (simp_all add: flush_one_def Let_def split: option.splits)

lemma flush_one_disk:
  assumes "mbedtls_ok lib" "m_superblock s = Some sb" "sb_wf sb"
  shows "m_superblock_index (flush_one lib s) = next_index (m_superblock_index s)"
    and "stored lib (m_keys s) (m_nand (flush_one lib s)) (next_index (m_superblock_index s)) (bump_version sb)"
    and "outside_slot (next_index (m_superblock_index s)) c \<Longrightarrow>
      ReadCluster lib keys' (m_nand (flush_one lib s)) c = ReadCluster lib keys' (m_nand s) c"
proof -
  let ?i = "next_index (m_superblock_index s)"
  let ?h = "GenerateHmacForSuperblock lib (m_keys s) (bump_version sb) (ucast ?i)"
  obtain r n where w: "write_superblock_clusters lib (m_keys s) ?i (Superblock_bytes (bump_version sb)) ?h
      [0..<CLUSTERS_PER_SUPERBLOCK] (m_nand s) = (r, n)" by fastforce
  have n: "m_nand (flush_one lib s) = n" using w assms(2) by (simp add: flush_one_def Let_def)
  have wf: "sb_wf (bump_version sb)" using assms(3) by simp
  note st = write_superblock_stored [OF assms(1) unat_next_index wf refl w]
  show "m_superblock_index (flush_one lib s) = ?i" using assms(2) by (simp add: flush_one_def Let_def)
  show "stored lib (m_keys s) (m_nand (flush_one lib s)) ?i (bump_version sb)" unfolding n by (rule st(2))
  show "ReadCluster lib keys' (m_nand (flush_one lib s)) c = ReadCluster lib keys' (m_nand s) c"
    if "outside_slot ?i c" unfolding n by (rule st(3) [OF that])
qed

section \<open>The flush as a sequence of versions\<close>

lemma write_block_eq:
  assumes ok: "mbedtls_ok lib" and sb: "m_superblock s = Some sb" and wf: "sb_wf sb"
  shows "write_block lib flush (s\<lparr>m_superblock := Some (sb\<lparr>sb_version := sb_version sb + 1\<rparr>)\<rparr>) =
    (if sb_version sb + 1 = 0 then flush_extra flush 15 (flush_one lib s) else Some (Success, flush_one lib s))"
proof -
  let ?i = "next_index (m_superblock_index s)"
  let ?h = "GenerateHmacForSuperblock lib (m_keys s) (bump_version sb) (ucast ?i)"
  obtain r n where w: "write_superblock_clusters lib (m_keys s) ?i (Superblock_bytes (bump_version sb)) ?h
      [0..<CLUSTERS_PER_SUPERBLOCK] (m_nand s) = (r, n)" by fastforce
  have wf': "sb_wf (bump_version sb)" using wf by simp
  have r: "r = Success" by (rule write_superblock_stored(1) [OF ok unat_next_index wf' refl w])
  show ?thesis
    unfolding bump_version_def [symmetric]
    by (simp add: write_block_def flush_one_def Let_def sb w r next_index_def [symmetric])
qed

lemma FlushSuperblock_fuel_step:
  assumes ok: "mbedtls_ok lib" and sb: "m_superblock s = Some sb" and wf: "sb_wf sb"
    and v: "sb_version sb + 1 \<noteq> 0"
  shows "FlushSuperblock_fuel (Suc n) lib s = Some (Success, flush_one lib s)"
proof -
  have "retry_write_block (write_block lib flush) (Suc k)
      (s\<lparr>m_superblock := Some (sb\<lparr>sb_version := sb_version sb + 1\<rparr>)\<rparr>)
    = Some (Success, flush_one lib s)" for flush k
    using v write_block_eq [OF ok sb wf, of flush] by simp
  then show ?thesis using sb by (simp add: layout_consts eval_nat_numeral)
qed

lemma flush_extra_steps:
  assumes ok: "mbedtls_ok lib" and "m_superblock s = Some sb" and "sb_wf sb"
    and "unat (sb_version sb) + k < 2 ^ 32"
  shows "flush_extra (FlushSuperblock_fuel (Suc n) lib) k s = Some (Success, (flush_one lib ^^ k) s)"
  using assms(2-)
proof (induction k arbitrary: s sb)
  case 0
  then show ?case by simp
next
  case (Suc k)
  have u: "unat (sb_version sb + 1) = unat (sb_version sb) + 1"
    using Suc.prems(3) by (simp add: unat_word_ariths)
  then have v: "sb_version sb + 1 \<noteq> 0" by (metis add_is_0 unat_0 zero_neq_one)
  have "flush_extra (FlushSuperblock_fuel (Suc n) lib) k (flush_one lib s)
    = Some (Success, (flush_one lib ^^ k) (flush_one lib s))"
    by (rule Suc.IH [of _ "bump_version sb"]) (use Suc.prems u in simp_all)
  then show ?case
    by (simp add: FlushSuperblock_fuel_step [OF ok Suc.prems(1,2) v] funpow_swap1 del: FlushSuperblock_fuel.simps)
qed

definition flush_count :: "Superblock \<Rightarrow> nat" where
  "flush_count sb = (if sb_version sb + 1 = 0 then 16 else 1)"

lemma FlushSuperblock_fuel_eq:
  assumes ok: "mbedtls_ok lib" and sb: "m_superblock s = Some sb" and wf: "sb_wf sb"
  shows "FlushSuperblock_fuel (Suc (Suc n)) lib s = Some (Success, (flush_one lib ^^ flush_count sb) s)"
proof (cases "sb_version sb + 1 = 0")
  case False
  then show ?thesis
    using FlushSuperblock_fuel_step [OF ok sb wf False] by (simp add: flush_count_def del: FlushSuperblock_fuel.simps)
next
  case True
  have one: "m_superblock (flush_one lib s) = Some (bump_version sb)" by (simp add: sb)
  have "flush_extra (FlushSuperblock_fuel (Suc n) lib) 15 (flush_one lib s)
    = Some (Success, (flush_one lib ^^ 15) (flush_one lib s))"
    by (rule flush_extra_steps [OF ok one]) (use wf True in simp_all)
  moreover have "(flush_one lib ^^ 15) (flush_one lib s) = (flush_one lib ^^ 16) s"
    by (simp add: eval_nat_numeral funpow_swap1)
  ultimately have "retry_write_block (write_block lib (FlushSuperblock_fuel (Suc n) lib)) (Suc k)
      (s\<lparr>m_superblock := Some (sb\<lparr>sb_version := sb_version sb + 1\<rparr>)\<rparr>)
    = Some (Success, (flush_one lib ^^ 16) s)" for k
    using write_block_eq [OF ok sb wf, of "FlushSuperblock_fuel (Suc n) lib"] True
    by (simp del: FlushSuperblock_fuel.simps funpow.simps)
  then show ?thesis
    using sb by (subst FlushSuperblock_fuel.simps) (simp add: layout_consts eval_nat_numeral flush_count_def True
      del: FlushSuperblock_fuel.simps funpow.simps)
qed

section \<open>The search for the newest superblock\<close>

text \<open>
  \<open>slot lib keys nand k\<close> is the superblock a search sees in slot \<open>k\<close>, if any.
\<close>

definition slot :: "('k, 'c) mbedtls \<Rightarrow> FileSystemKeys \<Rightarrow> memory \<Rightarrow> nat \<Rightarrow> Superblock option" where
  "slot lib keys nand k = (case ReadSuperblock lib keys nand (of_nat k) of
     Inl _ \<Rightarrow> None
   | Inr sb \<Rightarrow> if sb_magic sb = SUPERBLOCK_MAGIC then Some sb else None)"

lemma scan_superblock_slot:
  "scan_superblock lib k (v, s) = (case slot lib (m_keys s) (m_nand s) k of
     None \<Rightarrow> (v, s)
   | Some sb \<Rightarrow> if sb_version sb < v then (v, s)
       else (sb_version sb, s\<lparr>m_superblock_index := of_nat k, m_superblock := Some sb\<rparr>))"
  by (simp add: scan_superblock_def slot_def split: sum.splits)

definition scan_upto :: "('k, 'c) mbedtls \<Rightarrow> FileSystemImpl \<Rightarrow> nat \<Rightarrow> u32 \<times> FileSystemImpl" where
  "scan_upto lib s n = fold (scan_superblock lib) [0..<n] (0, s)"

lemma scan_upto_Suc: "scan_upto lib s (Suc n) = scan_superblock lib n (scan_upto lib s n)"
  by (simp add: scan_upto_def)

lemma scan_upto_fields:
  "\<exists>a b. snd (scan_upto lib s n) = s\<lparr>m_superblock_index := a, m_superblock := b\<rparr>"
proof (induction n)
  case 0
  show ?case by (rule exI [of _ "m_superblock_index s"], rule exI [of _ "m_superblock s"]) (simp add: scan_upto_def)
next
  case (Suc n)
  obtain v t where t: "scan_upto lib s n = (v, t)" by fastforce
  with Suc obtain a b where "t = s\<lparr>m_superblock_index := a, m_superblock := b\<rparr>" by auto
  then show ?case
    by (cases "slot lib (m_keys s) (m_nand s) n")
      (auto simp: scan_upto_Suc t scan_superblock_slot)
qed

lemma scan_upto_keys [simp]:
  "m_keys (snd (scan_upto lib s n)) = m_keys s" "m_nand (snd (scan_upto lib s n)) = m_nand s"
  "m_handles (snd (scan_upto lib s n)) = m_handles s"
  using scan_upto_fields [of lib s n] by auto

lemma scan_upto_Suc_slot:
  "scan_upto lib s (Suc n) = (case slot lib (m_keys s) (m_nand s) n of
     None \<Rightarrow> scan_upto lib s n
   | Some sb \<Rightarrow> if sb_version sb < fst (scan_upto lib s n) then scan_upto lib s n
       else (sb_version sb, (snd (scan_upto lib s n))\<lparr>m_superblock_index := of_nat n, m_superblock := Some sb\<rparr>))"
  using scan_superblock_slot [of lib n "fst (scan_upto lib s n)" "snd (scan_upto lib s n)"]
  by (auto simp: scan_upto_Suc split: option.split)

text \<open>The search keeps the highest version seen, and the superblock that has it.\<close>

lemma scan_upto_inv:
  assumes "m_superblock s = None" and "n \<le> NUMBER_OF_SUPERBLOCKS"
  shows "(case m_superblock (snd (scan_upto lib s n)) of
      None \<Rightarrow> fst (scan_upto lib s n) = 0 \<and> (\<forall>k<n. slot lib (m_keys s) (m_nand s) k = None)
    | Some sb \<Rightarrow> fst (scan_upto lib s n) = sb_version sb \<and>
        unat (m_superblock_index (snd (scan_upto lib s n))) < n \<and>
        slot lib (m_keys s) (m_nand s) (unat (m_superblock_index (snd (scan_upto lib s n)))) = Some sb \<and>
        (\<forall>k<n. \<forall>sb'. slot lib (m_keys s) (m_nand s) k = Some sb' \<longrightarrow> sb_version sb' \<le> sb_version sb))"
  using assms(2)
proof (induction n)
  case 0
  then show ?case using assms(1) by (simp add: scan_upto_def)
next
  case (Suc n)
  have n: "unat (of_nat n :: u32) = n"
    using Suc.prems by (simp add: unat_of_nat layout_consts)
  show ?case
  proof (cases "slot lib (m_keys s) (m_nand s) n")
    case None
    then show ?thesis using Suc
      by (auto simp: scan_upto_Suc_slot less_Suc_eq split: option.splits)
  next
    case (Some sb)
    then show ?thesis using Suc n
      by (auto simp: scan_upto_Suc_slot less_Suc_eq not_less split: option.splits)
  qed
qed

lemma scan_upto_pick:
  assumes K: "K < n" "n \<le> NUMBER_OF_SUPERBLOCKS" and sb: "slot lib (m_keys s) (m_nand s) K = Some sb"
    and max: "\<And>k sb'. k < n \<Longrightarrow> k \<noteq> K \<Longrightarrow> slot lib (m_keys s) (m_nand s) k = Some sb' \<Longrightarrow> sb_version sb' < sb_version sb"
    and none: "m_superblock s = None"
  shows "m_superblock (snd (scan_upto lib s n)) = Some sb \<and>
    m_superblock_index (snd (scan_upto lib s n)) = of_nat K"
proof -
  note inv = scan_upto_inv [OF none K(2), of lib]
  obtain sb' where sb': "m_superblock (snd (scan_upto lib s n)) = Some sb'"
    using inv K sb by (auto split: option.splits)
  let ?k = "unat (m_superblock_index (snd (scan_upto lib s n)))"
  have k: "?k < n" "slot lib (m_keys s) (m_nand s) ?k = Some sb'" "sb_version sb \<le> sb_version sb'"
    using inv sb' K sb by auto
  have "?k = K"
    using max [OF k(1) _ k(2)] k(3) by (metis not_less)
  then have "m_superblock_index (snd (scan_upto lib s n)) = of_nat K"
    using K by (simp add: word_unat_eq_iff unat_of_nat layout_consts)
  then show ?thesis using \<open>?k = K\<close> k sb sb' by simp
qed

section \<open>Mounting\<close>

text \<open>
  \<open>newest lib s\<close>: the superblock in memory is on the image with a valid code, and every
  other slot holds an older one (or none).
\<close>

definition newest :: "('k, 'c) mbedtls \<Rightarrow> FileSystemImpl \<Rightarrow> bool" where
  "newest lib s \<longleftrightarrow> (\<exists>sb. m_superblock s = Some sb \<and> sb_magic sb = SUPERBLOCK_MAGIC \<and>
     unat (m_superblock_index s) < NUMBER_OF_SUPERBLOCKS \<and>
     stored lib (m_keys s) (m_nand s) (m_superblock_index s) sb \<and>
     (\<forall>k<NUMBER_OF_SUPERBLOCKS. \<forall>sb'. k \<noteq> unat (m_superblock_index s) \<longrightarrow>
        slot lib (m_keys s) (m_nand s) k = Some sb' \<longrightarrow> sb_version sb' < sb_version sb))"

text \<open>
  \<open>versions_upto\<close>: no slot holds a version above the one in memory.
\<close>

definition versions_upto :: "('k, 'c) mbedtls \<Rightarrow> FileSystemImpl \<Rightarrow> bool" where
  "versions_upto lib s \<longleftrightarrow> (\<forall>sb. m_superblock s = Some sb \<longrightarrow>
     sb_wf sb \<and> sb_magic sb = SUPERBLOCK_MAGIC \<and> unat (m_superblock_index s) < NUMBER_OF_SUPERBLOCKS \<and>
     (\<forall>k<NUMBER_OF_SUPERBLOCKS. \<forall>sb'. slot lib (m_keys s) (m_nand s) k = Some sb' \<longrightarrow>
        sb_version sb' \<le> sb_version sb))"

lemma GetSuperblock_newest:
  assumes "newest lib s" and u: "m_keys u = m_keys s" "m_nand u = m_nand s" "m_superblock u = None"
  shows "GetSuperblock lib u = (m_superblock s,
    u\<lparr>m_superblock := m_superblock s, m_superblock_index := m_superblock_index s\<rparr>)"
proof -
  obtain sb where sb: "m_superblock s = Some sb" "sb_magic sb = SUPERBLOCK_MAGIC"
    "unat (m_superblock_index s) < NUMBER_OF_SUPERBLOCKS"
    "stored lib (m_keys s) (m_nand s) (m_superblock_index s) sb"
    and old: "\<And>k sb'. k < NUMBER_OF_SUPERBLOCKS \<Longrightarrow> k \<noteq> unat (m_superblock_index s) \<Longrightarrow>
      slot lib (m_keys s) (m_nand s) k = Some sb' \<Longrightarrow> sb_version sb' < sb_version sb"
    using assms by (auto simp: newest_def)
  let ?K = "unat (m_superblock_index s)"
  have "slot lib (m_keys s) (m_nand s) ?K = Some sb"
    using sb(2,4) by (simp add: slot_def stored_def)
  then have pick: "m_superblock (snd (scan_upto lib u NUMBER_OF_SUPERBLOCKS)) = Some sb"
    "m_superblock_index (snd (scan_upto lib u NUMBER_OF_SUPERBLOCKS)) = m_superblock_index s"
    using scan_upto_pick [OF sb(3) order_refl, of lib u sb] old u by auto
  have t: "snd (scan_upto lib u NUMBER_OF_SUPERBLOCKS)
    = u\<lparr>m_superblock := m_superblock s, m_superblock_index := m_superblock_index s\<rparr>"
  proof -
    obtain a b where ab: "snd (scan_upto lib u NUMBER_OF_SUPERBLOCKS) = u\<lparr>m_superblock_index := a, m_superblock := b\<rparr>"
      using scan_upto_fields by blast
    show ?thesis using pick sb(1) unfolding ab by simp
  qed
  have c: "ucast (ucast (SuperblockCluster (m_superblock_index s)) + 15 :: u32) = sb_cluster ?K 15"
    using SuperblockCluster_add [OF sb(3), of 15] by (simp add: layout_consts)
  show ?thesis
    using sb t [unfolded scan_upto_def] u
    by (auto simp: GetSuperblock_def Let_def c stored_def)
qed

lemma slot_cong:
  assumes "k < NUMBER_OF_SUPERBLOCKS" "unat index < NUMBER_OF_SUPERBLOCKS" "k \<noteq> unat index"
    and "\<And>c. outside_slot index c \<Longrightarrow> ReadCluster lib keys nand' c = ReadCluster lib keys nand c"
  shows "slot lib keys nand' k = slot lib keys nand k"
proof -
  have "ReadCluster lib keys nand' (sb_cluster k i) = ReadCluster lib keys nand (sb_cluster k i)"
    if "i < CLUSTERS_PER_SUPERBLOCK" for i
    by (rule assms(4)) (use assms(1-3) that sb_cluster_inj [OF assms(1) that assms(2)] in \<open>auto simp: outside_slot_def\<close>)
  then show ?thesis using ReadSuperblock_cong [OF assms(1), of lib keys nand' nand] by (simp add: slot_def)
qed

lemma flush_one_slots:
  assumes ok: "mbedtls_ok lib" and sb: "m_superblock s = Some sb" "sb_wf sb" "sb_magic sb = SUPERBLOCK_MAGIC"
    and k: "k < NUMBER_OF_SUPERBLOCKS"
  shows "slot lib (m_keys s) (m_nand (flush_one lib s)) k =
    (if k = unat (next_index (m_superblock_index s)) then Some (bump_version sb)
     else slot lib (m_keys s) (m_nand s) k)"
proof (cases "k = unat (next_index (m_superblock_index s))")
  case True
  then show ?thesis
    using flush_one_disk(2) [OF ok sb(1,2)] sb(3) by (simp add: slot_def stored_def)
next
  case False
  have "slot lib (m_keys s) (m_nand (flush_one lib s)) k = slot lib (m_keys s) (m_nand s) k"
    by (rule slot_cong [OF k unat_next_index False]) (rule flush_one_disk(3) [OF ok sb(1,2)])
  then show ?thesis using False by simp
qed

lemma flush_one_newest:
  assumes ok: "mbedtls_ok lib" and sb: "m_superblock s = Some sb" and inv: "versions_upto lib s"
    and v: "sb_version sb + 1 \<noteq> 0"
  shows "newest lib (flush_one lib s)"
proof -
  have i: "sb_wf sb" "sb_magic sb = SUPERBLOCK_MAGIC"
    "\<And>k sb'. k < NUMBER_OF_SUPERBLOCKS \<Longrightarrow> slot lib (m_keys s) (m_nand s) k = Some sb' \<Longrightarrow> sb_version sb' \<le> sb_version sb"
    using inv sb by (auto simp: versions_upto_def)
  have "sb_version sb < sb_version sb + 1" using v unatSuc [of "sb_version sb"] by (simp add: word_less_nat_alt add.commute)
  then have "sb_version sb' < sb_version sb + 1"
    if "k < NUMBER_OF_SUPERBLOCKS" "slot lib (m_keys s) (m_nand s) k = Some sb'" for k sb'
    using i(3) [OF that] by (rule le_less_trans [rotated])
  then show ?thesis
    using flush_one_disk [OF ok sb i(1)] i(2) sb unat_next_index [of "m_superblock_index s"]
    by (auto simp: newest_def flush_one_slots [OF ok sb i(1,2)])
qed

section \<open>After a version overflow\<close>

lemma flush_one_iter:
  "m_superblock s = Some sb \<Longrightarrow> m_superblock ((flush_one lib ^^ n) s) = Some ((bump_version ^^ n) sb)"
  by (induction n) auto

lemma flush_one_iter_fields [simp]:
  "m_keys ((flush_one lib ^^ n) s) = m_keys s" "m_handles ((flush_one lib ^^ n) s) = m_handles s"
  "m_internal_handle ((flush_one lib ^^ n) s) = m_internal_handle s"
  "m_cache_handle ((flush_one lib ^^ n) s) = m_cache_handle s"
  "m_cache_chain_index ((flush_one lib ^^ n) s) = m_cache_chain_index s"
  "m_cache_data ((flush_one lib ^^ n) s) = m_cache_data s"
  "m_cache_for_write ((flush_one lib ^^ n) s) = m_cache_for_write s"
  by (induction n) auto

lemma bump_iter_fields [simp]:
  "sb_version ((bump_version ^^ n) sb) = sb_version sb + of_nat n"
  "sb_magic ((bump_version ^^ n) sb) = sb_magic sb" "sb_wf ((bump_version ^^ n) sb) = sb_wf sb"
  "sb_fat ((bump_version ^^ n) sb) = sb_fat sb" "sb_fst ((bump_version ^^ n) sb) = sb_fst sb"
  by (induction n) (simp_all add: algebra_simps)

lemma flush_iter_index:
  assumes "mbedtls_ok lib" "m_superblock s = Some sb" "sb_wf sb" "unat (m_superblock_index s) < NUMBER_OF_SUPERBLOCKS"
  shows "unat (m_superblock_index ((flush_one lib ^^ n) s)) = (unat (m_superblock_index s) + n) mod NUMBER_OF_SUPERBLOCKS"
proof (induction n)
  case 0
  then show ?case using assms by simp
next
  case (Suc n)
  have "unat (m_superblock_index ((flush_one lib ^^ n) s)) < NUMBER_OF_SUPERBLOCKS"
    unfolding Suc by (simp add: layout_consts)
  then show ?case
    using flush_one_disk(1) [OF assms(1) flush_one_iter [OF assms(2), where n = n and lib = lib]] assms(3) Suc
    by (simp add: unat_next_index_eq mod_Suc_eq)
qed

lemma mod_slots_distinct:
  fixes i j b :: nat
  assumes "i \<le> j" "j < 16" "(b + i) mod 16 = (b + j) mod 16"
  shows "i = j"
proof -
  have "(j - i) mod 16 = 0"
    using assms by (metis add_diff_cancel_left diff_diff_left mod_eq_dvd_iff_nat nat_add_left_cancel_le dvd_imp_mod_0)
  then show ?thesis using assms by auto
qed

lemma overflow_slots:
  assumes ok: "mbedtls_ok lib" and sb: "m_superblock s = Some sb" and inv: "versions_upto lib s"
    and v: "sb_version sb + 1 = 0" and j: "j < 16"
  shows "\<forall>i\<le>j. \<exists>x. slot lib (m_keys s) (m_nand ((flush_one lib ^^ Suc j) s))
      ((unat (m_superblock_index s) + Suc i) mod NUMBER_OF_SUPERBLOCKS) = Some x \<and> sb_version x = of_nat i"
  using j
proof (induction j)
  case 0
  have i: "sb_wf sb" "sb_magic sb = SUPERBLOCK_MAGIC" "unat (m_superblock_index s) < NUMBER_OF_SUPERBLOCKS"
    using inv sb by (auto simp: versions_upto_def)
  show ?case
    using flush_one_slots [OF ok sb i(1,2)] v unat_next_index [of "m_superblock_index s"]
    by (simp add: unat_next_index_eq [OF i(3)] layout_consts)
next
  case (Suc j)
  have i: "sb_wf sb" "sb_magic sb = SUPERBLOCK_MAGIC" "unat (m_superblock_index s) < NUMBER_OF_SUPERBLOCKS"
    using inv sb by (auto simp: versions_upto_def)
  let ?t = "(flush_one lib ^^ Suc j) s"
  have t: "m_superblock ?t = Some ((bump_version ^^ Suc j) sb)" by (rule flush_one_iter [OF sb])
  have ti: "unat (m_superblock_index ?t) = (unat (m_superblock_index s) + Suc j) mod NUMBER_OF_SUPERBLOCKS"
    by (rule flush_iter_index [OF ok sb i(1,3)])
  have lt: "unat (m_superblock_index ?t) < NUMBER_OF_SUPERBLOCKS" unfolding ti by (simp add: layout_consts)
  have ni: "unat (next_index (m_superblock_index ?t)) = (unat (m_superblock_index s) + Suc (Suc j)) mod NUMBER_OF_SUPERBLOCKS"
    unfolding unat_next_index_eq [OF lt] ti by (simp add: mod_Suc_eq)
  have sl: "slot lib (m_keys s) (m_nand ((flush_one lib ^^ Suc (Suc j)) s)) k =
    (if k = unat (next_index (m_superblock_index ?t)) then Some ((bump_version ^^ Suc (Suc j)) sb)
     else slot lib (m_keys s) (m_nand ?t) k)" if "k < NUMBER_OF_SUPERBLOCKS" for k
    using flush_one_slots [OF ok t _ _ that] i by simp
  have v0: "sb_version ((bump_version ^^ Suc (Suc j)) sb) = of_nat (Suc j)"
    using v by (simp add: algebra_simps)
  show ?case
  proof (intro allI impI)
    fix m assume "m \<le> Suc j"
    have lm: "(unat (m_superblock_index s) + Suc m) mod NUMBER_OF_SUPERBLOCKS < NUMBER_OF_SUPERBLOCKS"
      by (simp add: layout_consts)
    show "\<exists>x. slot lib (m_keys s) (m_nand ((flush_one lib ^^ Suc (Suc j)) s))
      ((unat (m_superblock_index s) + Suc m) mod NUMBER_OF_SUPERBLOCKS) = Some x \<and> sb_version x = of_nat m"
    proof (cases "m = Suc j")
      case True
      then show ?thesis using sl [OF lm] ni v0 by simp
    next
      case False
      then have m: "m \<le> j" using \<open>m \<le> Suc j\<close> by simp
      have "(unat (m_superblock_index s) + Suc m) mod NUMBER_OF_SUPERBLOCKS
        \<noteq> (unat (m_superblock_index s) + Suc (Suc j)) mod NUMBER_OF_SUPERBLOCKS"
        using mod_slots_distinct [of m "Suc j" "Suc (unat (m_superblock_index s))"] m Suc.prems
        by (auto simp: layout_consts)
      then show ?thesis using sl [OF lm] ni Suc m by simp
    qed
  qed
qed

lemma overflow_newest:
  assumes ok: "mbedtls_ok lib" and sb: "m_superblock s = Some sb" and inv: "versions_upto lib s"
    and v: "sb_version sb + 1 = 0"
  shows "newest lib ((flush_one lib ^^ 16) s)"
proof -
  have i: "sb_wf sb" "sb_magic sb = SUPERBLOCK_MAGIC" "unat (m_superblock_index s) < NUMBER_OF_SUPERBLOCKS"
    using inv sb by (auto simp: versions_upto_def)
  let ?b = "unat (m_superblock_index s)" and ?t = "(flush_one lib ^^ 16) s" and ?p = "(flush_one lib ^^ 15) s"
  have t: "m_superblock ?t = Some ((bump_version ^^ 16) sb)" by (rule flush_one_iter [OF sb])
  have v15: "sb_version sb + 16 = 15" using v by (simp add: eq_neg_iff_add_eq_0 [symmetric])
  have ver: "sb_version ((bump_version ^^ 16) sb) = 15"
    using v15 by simp
  have ti: "unat (m_superblock_index ?t) = ?b"
    using flush_iter_index [OF ok sb i(1,3), of 16] i(3) by (simp add: layout_consts)
  have tp: "?t = flush_one lib ?p" by (simp add: eval_nat_numeral)
  have p: "m_superblock ?p = Some ((bump_version ^^ 15) sb)" by (rule flush_one_iter [OF sb])
  have "stored lib (m_keys s) (m_nand ?t) (m_superblock_index ?t) ((bump_version ^^ 16) sb)"
  proof -
    have "bump_version ((bump_version ^^ 15) sb) = (bump_version ^^ 16) sb" by (simp add: eval_nat_numeral)
    then show ?thesis
      using flush_one_disk(1,2) [OF ok p] i(1) by (simp add: tp)
  qed
  moreover have "sb_version sb' < sb_version ((bump_version ^^ 16) sb)"
    if k: "k < NUMBER_OF_SUPERBLOCKS" "k \<noteq> ?b" and sl: "slot lib (m_keys s) (m_nand ?t) k = Some sb'" for k sb'
  proof -
    have 16: "k < 16" "?b < 16" using k(1) i(3) by (simp_all add: layout_consts)
    obtain m where m: "m < 15" "(?b + Suc m) mod 16 = k"
    proof (cases "?b < k")
      case True
      then show ?thesis using 16 that [of "k - Suc ?b"] by simp
    next
      case False
      then have "?b + Suc (k + 15 - ?b) = k + 16" using 16 by simp
      then have "(?b + Suc (k + 15 - ?b)) mod 16 = k" using 16 by simp
      then show ?thesis using False k(2) 16 that [of "k + 15 - ?b"] by simp
    qed
    have S: "Suc 15 = (16 :: nat)" by simp
    have "\<forall>i\<le>15. \<exists>x. slot lib (m_keys s) (m_nand ?t) ((?b + Suc i) mod 16) = Some x \<and> sb_version x = of_nat i"
      by (rule overflow_slots [OF ok sb inv v, of 15, unfolded S NUMBER_OF_SUPERBLOCKS_def]) simp
    then obtain x where "slot lib (m_keys s) (m_nand ?t) k = Some x" "sb_version x = of_nat m"
      using m less_imp_le [OF m(1)] by metis
    then have "sb_version sb' = of_nat m" using sl by simp
    then show ?thesis unfolding ver using m(1) by (simp add: word_less_nat_alt unat_of_nat)
  qed
  ultimately show ?thesis
    using t ti i by (auto simp: newest_def)
qed

section \<open>The flush as the rest of the driver uses it\<close>

text \<open>
  \<open>flushed lib s\<close> is the state after a successful flush.
\<close>

definition flushed :: "('k, 'c) mbedtls \<Rightarrow> FileSystemImpl \<Rightarrow> FileSystemImpl" where
  "flushed lib s = (case m_superblock s of None \<Rightarrow> s | Some sb \<Rightarrow> (flush_one lib ^^ flush_count sb) s)"

lemma FlushSuperblock_eq:
  assumes "mbedtls_ok lib" "m_superblock s = Some sb" "sb_wf sb"
  shows "FlushSuperblock lib s = Some (Success, flushed lib s)"
  using FlushSuperblock_fuel_eq [OF assms, of 0] assms(2)
  by (simp add: FlushSuperblock_def flushed_def numeral_2_eq_2 del: FlushSuperblock_fuel.simps)

lemma FlushSuperblock_None: "m_superblock s = None \<Longrightarrow> FlushSuperblock lib s = Some (NotFound, s)"
  by (simp add: FlushSuperblock_def numeral_2_eq_2)

lemma FlushSuperblock_enough:
  assumes "mbedtls_ok lib" "\<And>sb. m_superblock s = Some sb \<Longrightarrow> sb_wf sb" "2 \<le> n"
  shows "FlushSuperblock_fuel n lib s = FlushSuperblock lib s"
proof -
  obtain k where n: "n = Suc (Suc k)" using assms(3) by (metis add_2_eq_Suc le_Suc_ex)
  show ?thesis
  proof (cases "m_superblock s")
    case None
    then show ?thesis by (simp add: n FlushSuperblock_None)
  next
    case (Some sb)
    then show ?thesis
      using FlushSuperblock_eq [OF assms(1) Some assms(2) [OF Some]]
        FlushSuperblock_fuel_eq [OF assms(1) Some assms(2) [OF Some]]
      by (simp add: n flushed_def del: FlushSuperblock_fuel.simps)
  qed
qed

lemma flushed_fields [simp]:
  "m_keys (flushed lib s) = m_keys s" "m_handles (flushed lib s) = m_handles s"
  "m_internal_handle (flushed lib s) = m_internal_handle s"
  "m_cache_handle (flushed lib s) = m_cache_handle s"
  "m_cache_chain_index (flushed lib s) = m_cache_chain_index s"
  "m_cache_data (flushed lib s) = m_cache_data s"
  "m_cache_for_write (flushed lib s) = m_cache_for_write s"
  by (simp_all add: flushed_def split: option.splits)

lemma flushed_superblock:
  "m_superblock s = Some sb \<Longrightarrow> \<exists>v. m_superblock (flushed lib s) = Some (sb\<lparr>sb_version := v\<rparr>)"
proof -
  have "\<exists>v. (bump_version ^^ n) sb = sb\<lparr>sb_version := v\<rparr>" for n
  proof (induction n)
    case 0
    show ?case by (rule exI [of _ "sb_version sb"]) simp
  next
    case (Suc n)
    then obtain v where "(bump_version ^^ n) sb = sb\<lparr>sb_version := v\<rparr>" ..
    then have "(bump_version ^^ Suc n) sb = sb\<lparr>sb_version := v + 1\<rparr>"
      by (simp add: bump_version_def)
    then show ?case ..
  qed
  then show "m_superblock s = Some sb \<Longrightarrow> ?thesis"
    by (simp add: flushed_def flush_one_iter)
qed

lemma flushed_newest:
  assumes ok: "mbedtls_ok lib" and sb: "m_superblock s = Some sb" and inv: "versions_upto lib s"
  shows "newest lib (flushed lib s)"
  using flush_one_newest [OF assms] overflow_newest [OF assms] sb
  by (cases "sb_version sb + 1 = 0") (simp_all add: flushed_def flush_count_def)

lemma newest_versions_upto: "newest lib s \<Longrightarrow> (\<And>sb. m_superblock s = Some sb \<Longrightarrow> sb_wf sb) \<Longrightarrow> versions_upto lib s"
proof -
  assume "newest lib s" and wf: "\<And>sb. m_superblock s = Some sb \<Longrightarrow> sb_wf sb"
  then obtain sb where sb: "m_superblock s = Some sb" "sb_magic sb = SUPERBLOCK_MAGIC"
      "unat (m_superblock_index s) < NUMBER_OF_SUPERBLOCKS"
    and st: "stored lib (m_keys s) (m_nand s) (m_superblock_index s) sb"
    and old: "\<And>k sb'. k < NUMBER_OF_SUPERBLOCKS \<Longrightarrow> k \<noteq> unat (m_superblock_index s) \<Longrightarrow>
      slot lib (m_keys s) (m_nand s) k = Some sb' \<Longrightarrow> sb_version sb' < sb_version sb"
    by (auto simp: newest_def)
  have "sb_version sb' \<le> sb_version sb"
    if "k < NUMBER_OF_SUPERBLOCKS" "slot lib (m_keys s) (m_nand s) k = Some sb'" for k sb'
  proof (cases "k = unat (m_superblock_index s)")
    case True
    then show ?thesis using st that(2) sb(2) by (simp add: stored_def slot_def)
  next
    case False
    then show ?thesis using old that by (simp add: less_imp_le)
  qed
  then show ?thesis using sb wf by (simp add: versions_upto_def)
qed

lemma sb_wf_version_upd: "sb_wf (sb\<lparr>sb_version := v\<rparr>) = sb_wf sb"
  by simp

lemma flushed_versions_upto:
  assumes ok: "mbedtls_ok lib" and inv: "versions_upto lib s"
  shows "versions_upto lib (flushed lib s)"
proof (cases "m_superblock s")
  case None
  then show ?thesis using inv by (simp add: flushed_def)
next
  case (Some sb)
  then have "sb_wf sb" using inv by (simp add: versions_upto_def)
  then show ?thesis
    using newest_versions_upto [OF flushed_newest [OF ok Some inv]] flushed_superblock [OF Some, of lib]
    by auto
qed

section \<open>Superblocks read from the image are well formed\<close>

lemma ReadCluster_length:
  assumes "ReadCluster lib keys nand c = Inr r" "SUPERBLOCK_START_CLUSTER \<le> c"
  shows "length (rr_data r) = CLUSTER_DATA_SIZE"
proof -
  have "length (concat (map (\<lambda>p. mem_read nand (page_addr c p) DATA_BYTES_PER_PAGE) xs)) = length xs * DATA_BYTES_PER_PAGE" for xs
    by (induction xs) simp_all
  then show ?thesis
    using assms by (auto simp: ReadCluster_def Let_def read_pages_fold CLUSTER_DATA_SIZE_def split: if_splits)
qed

lemma ReadSuperblock_loop_wf:
  assumes "ReadSuperblock_loop lib keys nand i is block = Inr sb"
    and "\<And>j. j \<in> set is \<Longrightarrow> SUPERBLOCK_START_CLUSTER \<le> (ucast (ucast (SuperblockCluster (ucast i)) + of_nat j :: u32) :: u16)"
    and "length block + length is * CLUSTER_DATA_SIZE = SUPERBLOCK_BYTES"
  shows "sb_wf sb"
  using assms
proof (induction "is" arbitrary: block)
  case Nil
  then show ?case using superblock.dec_ok by auto
next
  case (Cons j js)
  then show ?case
    by (auto split: sum.splits dest: ReadCluster_length simp: algebra_simps intro!: Cons.IH)
qed

lemma slot_wf:
  assumes "slot lib keys nand k = Some sb" "k < NUMBER_OF_SUPERBLOCKS"
  shows "sb_wf sb" and "sb_magic sb = SUPERBLOCK_MAGIC"
proof -
  have r: "ReadSuperblock lib keys nand (of_nat k) = Inr sb" and m: "sb_magic sb = SUPERBLOCK_MAGIC"
    using assms(1) by (auto simp: slot_def split: sum.splits if_splits)
  show "sb_magic sb = SUPERBLOCK_MAGIC" by (rule m)
  show "sb_wf sb"
  proof (rule ReadSuperblock_loop_wf [OF r [unfolded ReadSuperblock_def]])
    fix j assume "j \<in> set [0..<CLUSTERS_PER_SUPERBLOCK]"
    then have j: "j < CLUSTERS_PER_SUPERBLOCK" by simp
    show "SUPERBLOCK_START_CLUSTER \<le> (ucast (ucast (SuperblockCluster (ucast (of_nat k :: u16))) + of_nat j :: u32) :: u16)"
      unfolding ReadSuperblock_cluster [OF assms(2) j]
      by (simp add: word_le_nat_alt unat_sb_cluster [OF assms(2) j] SUPERBLOCK_START_CLUSTER_def)
  qed (simp add: SUPERBLOCK_BYTES_eq)
qed

text \<open>
  Whatever is on the image, the search leaves a state in which no slot is newer than the
  superblock in memory.
\<close>

lemma GetSuperblock_state:
  assumes "m_superblock s = None"
  shows "snd (GetSuperblock lib s) = snd (scan_upto lib s NUMBER_OF_SUPERBLOCKS)"
  using assms by (auto simp: GetSuperblock_def scan_upto_def Let_def split: option.splits sum.splits)

lemma GetSuperblock_versions_upto:
  assumes "versions_upto lib s"
  shows "versions_upto lib (snd (GetSuperblock lib s))"
proof (cases "m_superblock s")
  case None
  let ?t = "snd (scan_upto lib s NUMBER_OF_SUPERBLOCKS)"
  have "versions_upto lib ?t"
    unfolding versions_upto_def
  proof (intro allI impI)
    fix sb assume sb: "m_superblock ?t = Some sb"
    have inv: "unat (m_superblock_index ?t) < NUMBER_OF_SUPERBLOCKS"
      "slot lib (m_keys s) (m_nand s) (unat (m_superblock_index ?t)) = Some sb"
      "\<forall>k<NUMBER_OF_SUPERBLOCKS. \<forall>sb'. slot lib (m_keys s) (m_nand s) k = Some sb' \<longrightarrow> sb_version sb' \<le> sb_version sb"
      using scan_upto_inv [OF None order_refl, of lib] sb by auto
    then show "sb_wf sb \<and> sb_magic sb = SUPERBLOCK_MAGIC \<and> unat (m_superblock_index ?t) < NUMBER_OF_SUPERBLOCKS \<and>
     (\<forall>k<NUMBER_OF_SUPERBLOCKS. \<forall>sb'. slot lib (m_keys ?t) (m_nand ?t) k = Some sb' \<longrightarrow> sb_version sb' \<le> sb_version sb)"
      using slot_wf [OF inv(2,1)] by simp
  qed
  then show ?thesis by (simp add: GetSuperblock_state [OF None])
next
  case (Some sb)
  then show ?thesis using assms by (simp add: GetSuperblock_def)
qed

lemma GetSuperblock_cases:
  "GetSuperblock lib s = (Some sb, s') \<Longrightarrow> m_superblock s' = Some sb"
  by (auto simp: GetSuperblock_def Let_def split: option.splits sum.splits if_splits)

lemma GetSuperblock_loaded: "m_superblock s = Some sb \<Longrightarrow> GetSuperblock lib s = (Some sb, s)"
  by (simp add: GetSuperblock_def)

lemma GetSuperblock_wf:
  assumes "\<And>sb. m_superblock s = Some sb \<Longrightarrow> sb_wf sb" and "GetSuperblock lib s = (Some sb, s')"
  shows "sb_wf sb"
proof (cases "m_superblock s")
  case None
  let ?t = "snd (scan_upto lib s NUMBER_OF_SUPERBLOCKS)"
  have "m_superblock ?t = Some sb"
    using GetSuperblock_cases [OF assms(2)] GetSuperblock_state [OF None, of lib] assms(2) by simp
  then have "unat (m_superblock_index ?t) < NUMBER_OF_SUPERBLOCKS"
      "slot lib (m_keys s) (m_nand s) (unat (m_superblock_index ?t)) = Some sb"
    using scan_upto_inv [OF None order_refl, of lib] by simp_all
  then show ?thesis using slot_wf(1) by blast
qed (use assms in \<open>auto simp: GetSuperblock_loaded\<close>)

lemma GetSuperblock_update:
  "\<exists>a b. snd (GetSuperblock lib s) = s\<lparr>m_superblock_index := a, m_superblock := b\<rparr>"
proof (cases "m_superblock s")
  case None
  then show ?thesis using GetSuperblock_state scan_upto_fields by metis
next
  case (Some sb)
  then show ?thesis by (intro exI [of _ "m_superblock_index s"] exI [of _ "Some sb"]) (simp add: GetSuperblock_loaded)
qed

lemma GetSuperblock_handles [simp]:
  "m_handles (snd (GetSuperblock lib s)) = m_handles s"
  "m_internal_handle (snd (GetSuperblock lib s)) = m_internal_handle s"
  "m_cache_handle (snd (GetSuperblock lib s)) = m_cache_handle s"
  "m_cache_chain_index (snd (GetSuperblock lib s)) = m_cache_chain_index s"
  "m_cache_data (snd (GetSuperblock lib s)) = m_cache_data s"
  "m_cache_for_write (snd (GetSuperblock lib s)) = m_cache_for_write s"
  "m_nand (snd (GetSuperblock lib s)) = m_nand s"
  "m_keys (snd (GetSuperblock lib s)) = m_keys s"
  using GetSuperblock_update [of lib s] by auto

section \<open>A slot as raw bytes\<close>

text \<open>
  The data areas of the 128 pages of a slot: a page has 0x840 bytes, the first 0x800 of them
  data, and slot \<open>k\<close> starts at cluster \<open>0x7f00 + 16 k\<close>.
\<close>

definition raw_slot :: "memory \<Rightarrow> nat \<Rightarrow> u8 list" where
  "raw_slot nand k = concat (map (\<lambda>p. mem_read nand (((0x7f00 + 16 * k) * 8 + p) * 0x840) 0x800) [0..<128])"

lemma length_raw_slot: "length (raw_slot nand k) = SUPERBLOCK_BYTES"
proof -
  have "length (concat (map (\<lambda>p. mem_read nand (((0x7f00 + 16 * k) * 8 + p) * 0x840) 0x800) xs)) = length xs * 0x800" for xs
    by (induction xs) simp_all
  then have "length (raw_slot nand k) = length [0..<128] * 0x800" unfolding raw_slot_def .
  then show ?thesis by (simp add: SUPERBLOCK_BYTES_def FAT_SIZE_def FST_SIZE_def)
qed

lemma ReadCluster_raw:
  assumes "k < NUMBER_OF_SUPERBLOCKS" "i < CLUSTERS_PER_SUPERBLOCK"
  shows "\<exists>r. ReadCluster lib keys nand (sb_cluster k i) = Inr r \<and> rr_data r
    = concat (map (\<lambda>p. mem_read nand (((0x7f00 + 16 * k) * 8 + p) * 0x840) 0x800) [i * 8..<i * 8 + 8])"
proof -
  have c: "sb_cluster k i < 0x8000" "\<not> sb_cluster k i < SUPERBLOCK_START_CLUSTER"
    using sb_cluster_less [OF assms] by (simp_all add: word_less_nat_alt unat_sb_cluster [OF assms] SUPERBLOCK_START_CLUSTER_def)
  have "mem_read nand (page_addr (sb_cluster k i) p) DATA_BYTES_PER_PAGE
      = mem_read nand (((0x7f00 + 16 * k) * 8 + (i * 8 + p)) * 0x840) 0x800" if "p < PAGES_PER_CLUSTER" for p
    using that unat_sb_cluster [OF assms]
    by (simp add: page_addr_eq [OF c(1)] cluster_base_def layout_consts algebra_simps)
  then have "map (\<lambda>p. mem_read nand (page_addr (sb_cluster k i) p) DATA_BYTES_PER_PAGE) [0..<PAGES_PER_CLUSTER]
      = map (\<lambda>p. mem_read nand (((0x7f00 + 16 * k) * 8 + p) * 0x840) 0x800) (map (\<lambda>p. i * 8 + p) [0..<8])"
    by (simp add: PAGES_PER_CLUSTER_def)
  moreover have "map (\<lambda>p. i * 8 + p) [0..<8] = [i * 8..<i * 8 + 8]"
    using map_add_upt [of "i * 8" 8] by (simp add: add.commute)
  ultimately show ?thesis
    using c by (simp add: ReadCluster_def Let_def read_pages_fold not_le [symmetric] leD)
qed

lemma ReadSuperblock_raw:
  assumes "k < NUMBER_OF_SUPERBLOCKS"
  shows "ReadSuperblock lib keys nand (of_nat k) = Inr (Superblock_of_bytes (raw_slot nand k))"
proof -
  let ?page = "\<lambda>p. mem_read nand (((0x7f00 + 16 * k) * 8 + p) * 0x840) 0x800"
  have "\<forall>i \<in> {..<CLUSTERS_PER_SUPERBLOCK}. \<exists>r. ReadCluster lib keys nand (sb_cluster k i) = Inr r \<and>
      rr_data r = concat (map ?page [i * 8..<i * 8 + 8])"
    using ReadCluster_raw [OF assms] by blast
  then obtain r where r: "\<And>i. i < CLUSTERS_PER_SUPERBLOCK \<Longrightarrow> ReadCluster lib keys nand (sb_cluster k i) = Inr (r i)"
    "\<And>i. i < CLUSTERS_PER_SUPERBLOCK \<Longrightarrow> rr_data (r i) = concat (map ?page [i * 8..<i * 8 + 8])"
    by (metis lessThan_iff)
  have pages: "concat (map (\<lambda>i. concat (map ?page [i * 8..<i * 8 + 8])) [0..<n]) = concat (map ?page [0..<n * 8])" for n
  proof (induction n)
    case (Suc n)
    have "[0..<Suc n * 8] = [0..<n * 8] @ [n * 8..<n * 8 + 8]"
      using upt_add_eq_append [of 0 "n * 8" 8] by (simp add: add.commute)
    then show ?case using Suc by simp
  qed simp
  have "ReadSuperblock lib keys nand (of_nat k)
    = Inr (Superblock_of_bytes ([] @ concat (map (\<lambda>i. rr_data (r i)) [0..<CLUSTERS_PER_SUPERBLOCK])))"
    unfolding ReadSuperblock_def
    by (rule ReadSuperblock_loop_Inr) (simp add: ReadSuperblock_cluster [OF assms] r(1))
  also have "map (\<lambda>i. rr_data (r i)) [0..<CLUSTERS_PER_SUPERBLOCK]
    = map (\<lambda>i. concat (map ?page [i * 8..<i * 8 + 8])) [0..<CLUSTERS_PER_SUPERBLOCK]"
    by (rule map_cong) (simp_all add: r(2))
  finally show ?thesis unfolding pages by (simp add: raw_slot_def CLUSTERS_PER_SUPERBLOCK_def)
qed

lemma flushed_stored:
  assumes ok: "mbedtls_ok lib" and sb: "m_superblock s = Some sb" "sb_wf sb"
    and sb': "m_superblock (flushed lib s) = Some sb'"
  shows "stored lib (m_keys s) (m_nand (flushed lib s)) (m_superblock_index (flushed lib s)) sb'"
    and "unat (m_superblock_index (flushed lib s)) < NUMBER_OF_SUPERBLOCKS"
proof -
  obtain n where n: "flush_count sb = Suc n" by (cases "flush_count sb") (auto simp: flush_count_def split: if_splits)
  let ?u = "(flush_one lib ^^ n) s"
  have f: "flushed lib s = flush_one lib ?u" using sb n by (simp add: flushed_def)
  have u: "m_superblock ?u = Some ((bump_version ^^ n) sb)" "sb_wf ((bump_version ^^ n) sb)"
    using flush_one_iter [OF sb(1)] sb(2) by simp_all
  show "stored lib (m_keys s) (m_nand (flushed lib s)) (m_superblock_index (flushed lib s)) sb'"
    using flush_one_disk(2) [OF ok u] flush_one_disk(1) [OF ok u] sb' u(1) unfolding f by simp
  show "unat (m_superblock_index (flushed lib s)) < NUMBER_OF_SUPERBLOCKS"
    unfolding f flush_one_disk(1) [OF ok u] by (rule unat_next_index)
qed

section \<open>Properties\<close>

text \<open>
  C15 Persistence of the metadata. If no slot on the image is newer than the superblock in
  memory, a flush succeeds (also when the version number overflows and fifteen further
  versions are written), changes nothing of the superblock but its version, and a file
  system freshly created on the resulting image finds and verifies exactly this superblock.
\<close>

theorem flush_then_mount:
  assumes "mbedtls_ok lib" and "m_superblock s = Some sb" and "versions_upto lib s"
  shows "\<exists>s' v. FlushSuperblock lib s = Some (Success, s') \<and>
    m_superblock s' = Some (sb\<lparr>sb_version := v\<rparr>) \<and> m_keys s' = m_keys s \<and>
    fst (GetSuperblock lib (initial_fs (m_nand s') (m_keys s'))) = Some (sb\<lparr>sb_version := v\<rparr>)"
proof -
  obtain v where v: "m_superblock (flushed lib s) = Some (sb\<lparr>sb_version := v\<rparr>)"
    using flushed_superblock [OF assms(2)] by blast
  have wf: "sb_wf sb" using assms(2,3) by (simp add: versions_upto_def)
  have "GetSuperblock lib (initial_fs (m_nand (flushed lib s)) (m_keys (flushed lib s)))
    = (m_superblock (flushed lib s), (initial_fs (m_nand (flushed lib s)) (m_keys (flushed lib s)))
        \<lparr>m_superblock := m_superblock (flushed lib s), m_superblock_index := m_superblock_index (flushed lib s)\<rparr>)"
    by (rule GetSuperblock_newest [OF flushed_newest [OF assms]]) (simp_all add: initial_fs_def)
  then have "fst (GetSuperblock lib (initial_fs (m_nand (flushed lib s)) (m_keys (flushed lib s)))) = Some (sb\<lparr>sb_version := v\<rparr>)"
    unfolding v by simp
  then show ?thesis
    using FlushSuperblock_eq [OF assms(1,2) wf] v by (intro exI [of _ "flushed lib s"] exI [of _ v]) simp
qed

text \<open>
  A superblock whose version is the largest one: the next flush overflows.
\<close>

definition last_version_fs :: FileSystemImpl where
  "last_version_fs = (initial_fs (\<lambda>_. 0xff) \<lparr>key_hmac = replicate 20 1, key_aes = replicate 16 2\<rparr>)
     \<lparr>m_superblock := Some (zero_Superblock\<lparr>sb_magic := SUPERBLOCK_MAGIC, sb_version := - 1\<rparr>)\<rparr>"

lemma last_version_fs_upto: "versions_upto lib last_version_fs"
  using sb_wf_zero
  by (simp add: versions_upto_def last_version_fs_def initial_fs_def sb_wf_def SUPERBLOCK_MAGIC_def
      layout_consts word_order.extremum)

lemma flush_then_mount_witness:
  "\<exists>s'. FlushSuperblock demo_mbedtls last_version_fs = Some (Success, s') \<and>
    (\<exists>sb. fst (GetSuperblock demo_mbedtls (initial_fs (m_nand s') (m_keys s'))) = Some sb \<and>
      sb_fst sb = sb_fst zero_Superblock)"
  using flush_then_mount [OF demo_mbedtls_ok _ last_version_fs_upto,
      of "zero_Superblock\<lparr>sb_magic := SUPERBLOCK_MAGIC, sb_version := - 1\<rparr>"]
  by (fastforce simp: last_version_fs_def)

text \<open>
  C17 The recursion of \<^verbatim>\<open>FlushSuperblock\<close> is at most two levels deep: with any fuel of two or
  more it returns, with the same result, and that result is success for a superblock in
  memory and \<^verbatim>\<open>NotFound\<close> with an unchanged state when there is none.
\<close>

theorem flush_terminates:
  assumes "mbedtls_ok lib" and "\<And>sb. m_superblock s = Some sb \<Longrightarrow> sb_wf sb" and "2 \<le> n"
  shows "FlushSuperblock_fuel n lib s = FlushSuperblock lib s \<and>
    (\<exists>s'. FlushSuperblock lib s = Some (if m_superblock s = None then NotFound else Success, s') \<and>
       (m_superblock s = None \<longrightarrow> s' = s))"
proof (cases "m_superblock s")
  case None
  have "FlushSuperblock_fuel n lib s = FlushSuperblock lib s"
    by (rule FlushSuperblock_enough [OF assms(1) _ assms(3)]) (rule assms(2))
  then show ?thesis using None FlushSuperblock_None [OF None, of lib] by simp
next
  case (Some sb)
  have "FlushSuperblock_fuel n lib s = FlushSuperblock lib s"
    by (rule FlushSuperblock_enough [OF assms(1) _ assms(3)]) (rule assms(2))
  then show ?thesis
    using FlushSuperblock_eq [OF assms(1) Some assms(2) [OF Some]] Some by simp
qed

lemma flush_terminates_witness:
  "FlushSuperblock_fuel 7 demo_mbedtls last_version_fs = FlushSuperblock demo_mbedtls last_version_fs"
  using flush_terminates [OF demo_mbedtls_ok, of last_version_fs 7] last_version_fs_upto
  by (fastforce simp: versions_upto_def)

text \<open>
  C16 The superblock in use, on any image. One that is loaded is returned as it is, without a look
  at the image. When none is loaded, the search loads the valid superblock of the highest version,
  which is well formed and the content of the slot the index names, and returns it exactly when its
  code is one of the two stored copies; otherwise the call returns nothing, but the superblock stays
  loaded and the next call returns it. Nothing is loaded or returned when no slot is valid. Nothing
  but the superblock and its index changes.
\<close>

theorem mount_picks_newest:
  assumes "GetSuperblock lib s = (result, s')"
  shows "s' = s\<lparr>m_superblock := m_superblock s', m_superblock_index := m_superblock_index s'\<rparr> \<and>
    (case (m_superblock s, m_superblock s') of
       (Some sb, _) \<Rightarrow> result = Some sb \<and> s' = s
     | (None, None) \<Rightarrow> result = None \<and>
         (\<forall>k<NUMBER_OF_SUPERBLOCKS. \<forall>sb. ReadSuperblock lib (m_keys s) (m_nand s) (of_nat k) = Inr sb \<longrightarrow>
            sb_magic sb \<noteq> SUPERBLOCK_MAGIC)
     | (None, Some sb) \<Rightarrow> sb_wf sb \<and> sb_magic sb = SUPERBLOCK_MAGIC \<and>
         unat (m_superblock_index s') < NUMBER_OF_SUPERBLOCKS \<and>
         ReadSuperblock lib (m_keys s) (m_nand s) (of_nat (unat (m_superblock_index s'))) = Inr sb \<and>
         (\<forall>k<NUMBER_OF_SUPERBLOCKS. \<forall>sb'. ReadSuperblock lib (m_keys s) (m_nand s) (of_nat k) = Inr sb' \<longrightarrow>
            sb_magic sb' = SUPERBLOCK_MAGIC \<longrightarrow> sb_version sb' \<le> sb_version sb) \<and>
         result = (if \<exists>r. ReadCluster lib (m_keys s) (m_nand s) (sb_cluster (unat (m_superblock_index s')) 15) = Inr r \<and>
             GenerateHmacForSuperblock lib (m_keys s) sb (ucast (m_superblock_index s')) \<in> {rr_hmac1 r, rr_hmac2 r}
           then Some sb else None) \<and>
         GetSuperblock lib s' = (Some sb, s'))"
proof (cases "m_superblock s")
  case None
  let ?t = "snd (scan_upto lib s NUMBER_OF_SUPERBLOCKS)"
  have s': "s' = ?t" using GetSuperblock_state [OF None, of lib] assms by simp
  have frame: "s' = s\<lparr>m_superblock := m_superblock s', m_superblock_index := m_superblock_index s'\<rparr>"
    using scan_upto_fields [of lib s NUMBER_OF_SUPERBLOCKS] unfolding s' by auto
  note inv = scan_upto_inv [OF None order_refl, of lib]
  have slots: "slot lib (m_keys s) (m_nand s) k = Some sb \<longleftrightarrow>
      ReadSuperblock lib (m_keys s) (m_nand s) (of_nat k) = Inr sb \<and> sb_magic sb = SUPERBLOCK_MAGIC" for k sb
    by (auto simp: slot_def split: sum.splits)
  show ?thesis
  proof (cases "m_superblock ?t")
    case n: None
    then have "slot lib (m_keys s) (m_nand s) k \<noteq> Some sb" if "k < NUMBER_OF_SUPERBLOCKS" for k sb
      using inv that by simp
    moreover have "result = None"
      using assms None n by (simp add: GetSuperblock_def Let_def scan_upto_def [symmetric])
    ultimately show ?thesis using frame None n s' by (auto simp: slots)
  next
    case sb: (Some sb)
    have at: "unat (m_superblock_index ?t) < NUMBER_OF_SUPERBLOCKS"
        "slot lib (m_keys s) (m_nand s) (unat (m_superblock_index ?t)) = Some sb"
        "\<forall>k<NUMBER_OF_SUPERBLOCKS. \<forall>sb'. slot lib (m_keys s) (m_nand s) k = Some sb' \<longrightarrow> sb_version sb' \<le> sb_version sb"
      using inv sb by auto
    have c: "ucast (ucast (SuperblockCluster (m_superblock_index ?t)) + 15 :: u32)
        = sb_cluster (unat (m_superblock_index ?t)) 15"
      using SuperblockCluster_add [OF at(1), of 15] by (simp add: layout_consts)
    have "result = (if \<exists>r. ReadCluster lib (m_keys s) (m_nand s) (sb_cluster (unat (m_superblock_index ?t)) 15) = Inr r \<and>
        GenerateHmacForSuperblock lib (m_keys s) sb (ucast (m_superblock_index ?t)) \<in> {rr_hmac1 r, rr_hmac2 r}
      then Some sb else None)"
      using assms None sb c
      by (auto simp: GetSuperblock_def Let_def scan_upto_def [symmetric] split: sum.splits if_splits)
    then show ?thesis
      using slot_wf [OF at(2,1)] at frame None sb s' GetSuperblock_loaded [of s' sb lib] by (auto simp: slots)
  qed
next
  case (Some sb)
  then have "result = Some sb" "s' = s" using assms by (simp_all add: GetSuperblock_loaded)
  then show ?thesis using Some by simp
qed

definition mounted_again :: FileSystemImpl where
  "mounted_again = initial_fs (m_nand (flushed demo_mbedtls last_version_fs)) (m_keys last_version_fs)"

lemma mount_picks_newest_witness:
  "\<exists>sb s'. GetSuperblock demo_mbedtls mounted_again = (Some sb, s') \<and> sb_wf sb \<and> sb_magic sb = SUPERBLOCK_MAGIC"
proof -
  obtain sb where sb: "m_superblock last_version_fs = Some sb" by (simp add: last_version_fs_def)
  obtain v where v: "m_superblock (flushed demo_mbedtls last_version_fs) = Some (sb\<lparr>sb_version := v\<rparr>)"
    using flushed_superblock [OF sb] by blast
  have none: "m_superblock mounted_again = None" by (simp add: mounted_again_def initial_fs_def)
  have "fst (GetSuperblock demo_mbedtls mounted_again) = Some (sb\<lparr>sb_version := v\<rparr>)"
    using GetSuperblock_newest [OF flushed_newest [OF demo_mbedtls_ok sb last_version_fs_upto], of mounted_again] v none
    by (simp add: mounted_again_def initial_fs_def)
  then obtain s' where s': "GetSuperblock demo_mbedtls mounted_again = (Some (sb\<lparr>sb_version := v\<rparr>), s')"
    by (metis prod.collapse)
  then show ?thesis
    using mount_picks_newest [OF s'] none GetSuperblock_cases [OF s'] by auto
qed

text \<open>
  C39 The format of a superblock on the image. The clusters of a slot are not encrypted; the data
  areas of its 128 pages, in the order of their addresses, hold in every slot of any image the
  superblock that \<^verbatim>\<open>ReadSuperblock\<close> returns, and after a flush, in the slot that the index
  names, the superblock in memory: the magic, the version, 32768 big-endian FAT entries from
  byte 12 on, 6143 entries of 32 bytes from byte 0x1000c on, each with its fields big-endian at
  their offsets, and 20 bytes of padding.
\<close>

theorem superblock_format:
  assumes "mbedtls_ok lib"
  shows "(\<forall>k<16. \<exists>sb. ReadSuperblock lib keys nand (of_nat k) = Inr sb \<and> holds_superblock (raw_slot nand k) sb) \<and>
    (\<forall>sb. m_superblock s = Some sb \<longrightarrow> sb_wf sb \<longrightarrow>
      (\<exists>s' v. FlushSuperblock lib s = Some (Success, s') \<and> m_superblock s' = Some (sb\<lparr>sb_version := v\<rparr>) \<and>
        holds_superblock (raw_slot (m_nand s') (unat (m_superblock_index s'))) (sb\<lparr>sb_version := v\<rparr>)))"
proof (intro conjI allI impI)
  show "\<exists>sb. ReadSuperblock lib keys nand (of_nat k) = Inr sb \<and> holds_superblock (raw_slot nand k) sb" if "k < 16" for k
    using ReadSuperblock_raw [of k lib keys nand] that Superblock_of_bytes_holds [of "raw_slot nand k"]
    by (simp add: layout_consts length_raw_slot)
next
  fix sb assume sb: "m_superblock s = Some sb" and wf: "sb_wf sb"
  obtain v where v: "m_superblock (flushed lib s) = Some (sb\<lparr>sb_version := v\<rparr>)"
    using flushed_superblock [OF sb] by blast
  have st: "stored lib (m_keys s) (m_nand (flushed lib s)) (m_superblock_index (flushed lib s)) (sb\<lparr>sb_version := v\<rparr>)"
    and k: "unat (m_superblock_index (flushed lib s)) < NUMBER_OF_SUPERBLOCKS"
    using flushed_stored [OF assms sb wf v] by simp_all
  have "holds_superblock (raw_slot (m_nand (flushed lib s)) (unat (m_superblock_index (flushed lib s)))) (sb\<lparr>sb_version := v\<rparr>)"
    using st ReadSuperblock_raw [OF k, of lib "m_keys s" "m_nand (flushed lib s)"]
      Superblock_of_bytes_holds [OF length_raw_slot] by (simp add: stored_def)
  then show "\<exists>s' v. FlushSuperblock lib s = Some (Success, s') \<and> m_superblock s' = Some (sb\<lparr>sb_version := v\<rparr>) \<and>
      holds_superblock (raw_slot (m_nand s') (unat (m_superblock_index s'))) (sb\<lparr>sb_version := v\<rparr>)"
    using FlushSuperblock_eq [OF assms sb wf] v by blast
qed

lemma superblock_format_witness:
  "(\<exists>sb. ReadSuperblock demo_mbedtls (m_keys last_version_fs) (\<lambda>_. 0x53) 3 = Inr sb \<and> holds_superblock (raw_slot (\<lambda>_. 0x53) 3) sb) \<and>
   (\<exists>s' sb. FlushSuperblock demo_mbedtls last_version_fs = Some (Success, s') \<and>
      holds_superblock (raw_slot (m_nand s') (unat (m_superblock_index s'))) sb)"
proof -
  obtain sb where sb: "m_superblock last_version_fs = Some sb" "sb_wf sb"
    using last_version_fs_upto [of demo_mbedtls] by (simp add: versions_upto_def last_version_fs_def)
  note format = superblock_format [OF demo_mbedtls_ok, of "m_keys last_version_fs" "\<lambda>_. 0x53" last_version_fs]
  show ?thesis
    using format [THEN conjunct1, rule_format, of 3] format [THEN conjunct2, rule_format, OF sb] by auto
qed

end
