(* ===== verification/Chain.thy ===== *)
theory Chain
  imports Sffs
begin

text \<open>
  Linked lists in arrays. The FAT chains the clusters of a file and the FST chains the
  entries of a directory, both by storing the index of the next element; an index outside
  the array ends the list. The locale \<open>linked_store\<close> states what such a store guarantees;
  it is proved of the FAT and of the sibling links of the FST.
\<close>

section \<open>The list from a start index\<close>

fun chain :: "('i \<Rightarrow> 'i) \<Rightarrow> ('i \<Rightarrow> bool) \<Rightarrow> 'i \<Rightarrow> 'i list \<Rightarrow> bool" where
  "chain nxt valid i [] \<longleftrightarrow> \<not> valid i"
| "chain nxt valid i (x # xs) \<longleftrightarrow> i = x \<and> valid i \<and> chain nxt valid (nxt i) xs"

lemma chain_head: "chain nxt valid i xs \<Longrightarrow> valid i \<Longrightarrow> \<exists>ys. xs = i # ys \<and> chain nxt valid (nxt i) ys"
  by (cases xs) auto

lemma chain_end: "chain nxt valid i xs \<Longrightarrow> \<not> valid i \<Longrightarrow> xs = []"
  by (cases xs) auto

lemma chain_unique: "chain nxt valid i xs \<Longrightarrow> chain nxt valid i ys \<Longrightarrow> xs = ys"
proof (induction xs arbitrary: i ys)
  case Nil
  then show ?case by (cases ys) auto
next
  case (Cons x xs)
  then show ?case by (cases ys) auto
qed

lemma chain_valid: "chain nxt valid i xs \<Longrightarrow> x \<in> set xs \<Longrightarrow> valid x"
  by (induction xs arbitrary: i) auto

lemma chain_suffix: "chain nxt valid i (xs @ y # ys) \<Longrightarrow> chain nxt valid y (y # ys)"
  by (induction xs arbitrary: i) auto

lemma chain_next: "chain nxt valid i (xs @ y # ys) \<Longrightarrow> chain nxt valid (nxt y) ys"
  using chain_suffix [of nxt valid i xs y ys] by simp

lemma chain_distinct: "chain nxt valid i xs \<Longrightarrow> distinct xs"
proof (induction xs arbitrary: i)
  case Nil
  show ?case by simp
next
  case (Cons x xs)
  have "x \<notin> set xs"
  proof
    assume "x \<in> set xs"
    then obtain ys zs where xs: "xs = ys @ x # zs" by (auto dest: split_list)
    have "chain nxt valid (nxt x) xs" and c: "chain nxt valid x (x # xs)" using Cons.prems by auto
    then have "chain nxt valid x (x # zs)" using chain_suffix [of nxt valid "nxt x" ys x zs] xs by simp
    moreover note c
    ultimately have "x # zs = x # xs" by (rule chain_unique)
    then show False using xs by simp
  qed
  then show ?case using Cons by auto
qed

lemma chain_cong:
  "chain nxt valid i xs \<Longrightarrow> (\<And>x. x \<in> set xs \<Longrightarrow> nxt' x = nxt x) \<Longrightarrow> chain nxt' valid i xs"
  by (induction xs arbitrary: i) auto

lemma chain_splice:
  assumes "chain nxt valid i (xs @ p # ys)" and "\<And>x. x \<in> set xs \<Longrightarrow> nxt' x = nxt x"
    and "chain nxt' valid (nxt' p) zs"
  shows "chain nxt' valid i (xs @ p # zs)"
  using assms(1,2)
proof (induction xs arbitrary: i)
  case Nil
  then show ?case using assms(3) by auto
next
  case (Cons x xs)
  then show ?case by auto
qed

text \<open>Positions along a chain.\<close>

lemma chain_nth: "chain nxt valid i xs \<Longrightarrow> k < length xs \<Longrightarrow> (nxt ^^ k) i = xs ! k"
proof (induction k arbitrary: i xs)
  case 0
  then show ?case by (cases xs) auto
next
  case (Suc k)
  then obtain x ys where xs: "xs = x # ys" by (cases xs) auto
  then show ?case using Suc.IH [of "nxt i" ys] Suc.prems by (auto simp: funpow_swap1)
qed

lemma chain_nth_end: "chain nxt valid i xs \<Longrightarrow> \<not> valid ((nxt ^^ length xs) i)"
  by (induction xs arbitrary: i) (auto simp: funpow_swap1)

section \<open>The interface of a linked store\<close>

locale linked_store =
  fixes wf :: "'s \<Rightarrow> bool"
    and valid :: "'i \<Rightarrow> bool"
    and nxt :: "'s \<Rightarrow> 'i \<Rightarrow> 'i"
    and set_nxt :: "'i \<Rightarrow> 'i \<Rightarrow> 's \<Rightarrow> 's"
  assumes nxt_set: "wf s \<Longrightarrow> valid i \<Longrightarrow> nxt (set_nxt i v s) j = (if j = i then v else nxt s j)"
    and wf_set: "wf s \<Longrightarrow> valid i \<Longrightarrow> wf (set_nxt i v s)"
begin

lemma frame:
  "wf s \<Longrightarrow> valid j \<Longrightarrow> j \<notin> set xs \<Longrightarrow> chain (nxt s) valid i xs \<Longrightarrow> chain (nxt (set_nxt j v s)) valid i xs"
  by (rule chain_cong [of "nxt s"]) (auto simp: nxt_set)

lemma unlink:
  assumes "wf s" and "chain (nxt s) valid i (xs @ p # c # ys)"
  shows "chain (nxt (set_nxt p (nxt s c) s)) valid i (xs @ p # ys)"
proof -
  have d: "distinct (xs @ p # c # ys)" using assms(2) by (rule chain_distinct)
  have p: "valid p" using chain_valid [OF assms(2)] by simp
  have ys: "chain (nxt s) valid (nxt s c) ys" using chain_next [of "nxt s" valid i "xs @ [p]" c ys] assms(2) by simp
  have "chain (nxt (set_nxt p (nxt s c) s)) valid (nxt (set_nxt p (nxt s c) s) p) ys"
    using frame [OF assms(1) p _ ys] d by (simp add: nxt_set assms(1) p)
  moreover have "chain (nxt (set_nxt p (nxt s c) s)) valid i (xs @ p # ys)"
    if "chain (nxt (set_nxt p (nxt s c) s)) valid (nxt (set_nxt p (nxt s c) s) p) ys"
      "chain (nxt s) valid i (xs @ p # zs)" "p \<notin> set xs" for zs
    using that assms(1) p
  proof (induction xs arbitrary: i)
    case Nil
    then show ?case by simp
  next
    case (Cons x xs)
    then show ?case by (auto simp: nxt_set)
  qed
  ultimately show ?thesis using assms(2) d by simp
qed

lemma push_front:
  "wf s \<Longrightarrow> valid j \<Longrightarrow> j \<notin> set xs \<Longrightarrow> chain (nxt s) valid i xs \<Longrightarrow> chain (nxt (set_nxt j i s)) valid j (j # xs)"
  using frame [of s j xs i i] by (simp add: nxt_set)

lemma replace_tail:
  assumes "wf s" and "chain (nxt s) valid i (xs @ p # ys)" and "chain (nxt s) valid c zs" and "p \<notin> set zs"
  shows "chain (nxt (set_nxt p c s)) valid i (xs @ p # zs)"
proof -
  have d: "p \<notin> set xs" using chain_distinct [OF assms(2)] by simp
  have p: "valid p" using chain_valid [OF assms(2)] by simp
  have zs: "chain (nxt (set_nxt p c s)) valid c zs" by (rule frame [OF assms(1) p assms(4,3)])
  show ?thesis
    using assms(2) d
  proof (induction xs arbitrary: i)
    case Nil
    then show ?case using zs nxt_set [OF assms(1) p, of c p] by auto
  next
    case (Cons x xs)
    then show ?case by (auto simp: nxt_set assms(1) p)
  qed
qed

end

section \<open>The two linked stores of a superblock\<close>

definition next_sib :: "Superblock \<Rightarrow> u16 \<Rightarrow> u16" where
  "next_sib sb i = e_sib (fst_at sb i)"

definition set_sib :: "u16 \<Rightarrow> u16 \<Rightarrow> Superblock \<Rightarrow> Superblock" where
  "set_sib i v = upd_fst i (\<lambda>e. e\<lparr>e_sib := v\<rparr>)"

interpretation fat: linked_store sb_wf in_fat fat_at set_fat
  by unfold_locales (auto simp: fat_at_set_fat sb_wf_def in_fat_def)

interpretation sib: linked_store sb_wf in_fst next_sib set_sib
proof unfold_locales
  fix s i v j
  assume "sb_wf s" "in_fst i"
  then show "next_sib (set_sib i v s) j = (if j = i then v else next_sib s j)" and "sb_wf (set_sib i v s)"
    using entry_wf_fst_at [of s i]
    by (auto simp: next_sib_def set_sib_def fst_at_upd_fst sb_wf_def in_fst_def intro!: sb_wf_upd_fst)
      (auto simp: sb_wf_def in_fst_def fst_at_def upd_fst_def dest!: in_set_takeD set_update_subset_insert [THEN subsetD])
qed

text \<open>The children of a directory, and the clusters of a file.\<close>

definition children :: "Superblock \<Rightarrow> u16 \<Rightarrow> u16 list \<Rightarrow> bool" where
  "children sb d xs \<longleftrightarrow> chain (next_sib sb) in_fst (e_sub (fst_at sb d)) xs"

definition clusters :: "Superblock \<Rightarrow> u16 \<Rightarrow> u16 list \<Rightarrow> bool" where
  "clusters sb f cs \<longleftrightarrow> chain (fat_at sb) in_fat (e_sub (fst_at sb f)) cs"

end
