(* ===== verification/StringUtil.thy ===== *)
theory StringUtil
  imports Prelude
begin

text \<open>
  The string helpers: \<^verbatim>\<open>SplitString\<close> of \<^verbatim>\<open>common/string_util.cpp\<close> with the
  \<^verbatim>\<open>std::getline\<close> of the standard library it loops on, and the path functions of
  \<^verbatim>\<open>driver/util.cpp\<close>.
\<close>

section \<open>Splitting at a delimiter\<close>

text \<open>
  The state of an \<^verbatim>\<open>istringstream\<close> is the unread text and its end-of-file flag.
  \<^verbatim>\<open>getline\<close> fails when the flag is set or no character can be extracted; it discards
  the delimiter it stops at, and sets the flag when it stops at the end of the text.
\<close>

definition getline :: "string \<times> bool \<Rightarrow> char \<Rightarrow> (string \<times> (string \<times> bool)) option" where
  "getline iss delim = (case iss of (rest, eof) \<Rightarrow>
     if eof \<or> rest = [] then None
     else (case dropWhile (\<lambda>c. c \<noteq> delim) rest of
             [] \<Rightarrow> Some (rest, ([], True))
           | _ # rest' \<Rightarrow> Some (takeWhile (\<lambda>c. c \<noteq> delim) rest, (rest', False))))"

lemma getline_length:
  assumes "getline iss delim = Some (line, iss')"
  shows "length (fst iss') < length (fst iss)"
proof -
  obtain rest eof where iss: "iss = (rest, eof)" by (cases iss)
  have rest: "\<not> eof" "rest \<noteq> []" using assms by (auto simp: getline_def iss split: if_splits)
  show ?thesis
  proof (cases "dropWhile (\<lambda>c. c \<noteq> delim) rest")
    case Nil
    then show ?thesis using assms rest by (auto simp: getline_def iss simp del: dropWhile_eq_Nil_conv)
  next
    case (Cons c r)
    then have "Suc (length r) \<le> length rest"
      using length_dropWhile_le [of "\<lambda>c. c \<noteq> delim" rest] by simp
    then show ?thesis using assms rest Cons by (auto simp: getline_def iss)
  qed
qed

function SplitString_loop :: "string \<times> bool \<Rightarrow> char \<Rightarrow> string list \<Rightarrow> string list" where
  "SplitString_loop iss delim out = (case getline iss delim of
     None \<Rightarrow> butlast out
   | Some (line, iss') \<Rightarrow> SplitString_loop iss' delim (out[length out - 1 := line] @ [''''] ))"
  by pat_completeness auto
termination
proof (relation "measure (\<lambda>((rest, eof), delim, out). length rest)")
  show "wf (measure (\<lambda>((rest, eof), delim, out). length rest))" by simp
next
  fix iss :: "string \<times> bool" and delim out x line iss'
  assume g: "getline iss delim = Some x" and x: "(line, iss') = x"
  have "length (fst iss') < length (fst iss)"
    using g x getline_length by (metis)
  then show "((iss', delim, out[length out - 1 := line] @ [[]]), (iss, delim, out))
    \<in> measure (\<lambda>((rest, eof), delim, out). length rest)"
    by (simp add: case_prod_beta)
qed

declare SplitString_loop.simps [simp del]

definition SplitString :: "string \<Rightarrow> char \<Rightarrow> string list" where
  "SplitString str delim = SplitString_loop (str, False) delim ['''']"

section \<open>Paths\<close>

definition IsValidNonRootPath :: "string \<Rightarrow> bool" where
  "IsValidNonRootPath path \<longleftrightarrow>
     length path > 1 \<and> length path \<le> 64 \<and> path ! 0 = CHR ''/'' \<and> last path \<noteq> CHR ''/''"

record SplitPathResult =
  parent :: string
  file_name :: string

definition find_last_of :: "string \<Rightarrow> char \<Rightarrow> nat option" where
  "find_last_of s c = (if c \<in> set s then Some (length s - 1 - length (takeWhile (\<lambda>x. x \<noteq> c) (rev s)))
                       else None)"

text \<open>\<^verbatim>\<open>npos + 1\<close> wraps to 0, so a path without a separator is all file name.\<close>

definition SplitPath :: "string \<Rightarrow> SplitPathResult" where
  "SplitPath path = (let n = (case find_last_of path (CHR ''/'') of None \<Rightarrow> 0 | Some k \<Rightarrow> k + 1)
     in \<lparr>parent = take n path, file_name = drop n path\<rparr>)"

section \<open>Facts about splitting\<close>

fun split_ref :: "char \<Rightarrow> string \<Rightarrow> string \<Rightarrow> string list" where
  "split_ref d acc [] = (if acc = [] then [] else [acc])"
| "split_ref d acc (c # cs) = (if c = d then acc # split_ref d [] cs else split_ref d (acc @ [c]) cs)"

lemma split_ref_line:
  "split_ref d acc s = (case dropWhile (\<lambda>c. c \<noteq> d) s of
     [] \<Rightarrow> (if acc @ s = [] then [] else [acc @ s])
   | _ # r \<Rightarrow> (acc @ takeWhile (\<lambda>c. c \<noteq> d) s) # split_ref d [] r)"
proof (induction s arbitrary: acc)
  case Nil
  then show ?case by simp
next
  case (Cons c s)
  have IH: "split_ref d (acc @ [c]) s = (case dropWhile (\<lambda>c. c \<noteq> d) s of
     [] \<Rightarrow> (if (acc @ [c]) @ s = [] then [] else [(acc @ [c]) @ s])
   | _ # r \<Rightarrow> ((acc @ [c]) @ takeWhile (\<lambda>c. c \<noteq> d) s) # split_ref d [] r)" by (rule Cons)
  show ?case
  proof (cases "c = d")
    case True
    then show ?thesis by simp
  next
    case False
    then show ?thesis by (cases "dropWhile (\<lambda>c. c \<noteq> d) s") (simp_all add: IH del: dropWhile_eq_Nil_conv)
  qed
qed

lemma SplitString_loop_eq:
  "SplitString_loop (s, e) d (out @ [x]) = out @ (if e then [] else split_ref d [] s)"
proof (induction "(s, e)" d "out @ [x]" arbitrary: s e out x rule: SplitString_loop.induct)
  case (1 d s e out x)
  show ?case
  proof (cases "getline (s, e) d")
    case None
    then show ?thesis
      by (subst SplitString_loop.simps) (auto simp: getline_def split: if_splits list.splits)
  next
    case (Some r)
    then obtain l s' e' where r: "r = (l, (s', e'))" by (cases r) auto
    have "SplitString_loop (s, e) d (out @ [x]) = SplitString_loop (s', e') d ((out @ [l]) @ [[]])"
      using Some r by (subst SplitString_loop.simps) simp
    also have "\<dots> = (out @ [l]) @ (if e' then [] else split_ref d [] s')"
      by (rule 1) (use Some r in auto)
    also have "\<dots> = out @ (if e then [] else split_ref d [] s)"
      using Some r split_ref_line [of d "[]" s]
      by (auto simp: getline_def simp del: dropWhile_eq_Nil_conv split: if_splits list.splits)
    finally show ?thesis .
  qed
qed

lemma SplitString_ref: "SplitString s d = split_ref d [] s"
  using SplitString_loop_eq [of s False d "[]" "[]"] by (simp add: SplitString_def)

lemma split_ref_append: "split_ref d acc (xs @ d # ys) = split_ref d acc (xs @ [d]) @ split_ref d [] ys"
  by (induction xs arbitrary: acc) auto

lemma SplitString_append: "SplitString (xs @ d # ys) d = SplitString (xs @ [d]) d @ SplitString ys d"
  unfolding SplitString_ref by (rule split_ref_append)

lemma split_ref_no_delim: "d \<notin> set s \<Longrightarrow> split_ref d acc s = (if acc @ s = [] then [] else [acc @ s])"
  by (induction s arbitrary: acc) auto

lemma SplitString_no_delim: "d \<notin> set s \<Longrightarrow> SplitString s d = (if s = [] then [] else [s])"
  by (simp add: SplitString_ref split_ref_no_delim)

lemma split_ref_concat:
  "concat (map (\<lambda>c. c @ [d]) (split_ref d acc s))
     = (if acc @ s = [] then [] else if s \<noteq> [] \<and> last s = d then acc @ s else acc @ s @ [d])"
  by (induction s arbitrary: acc) auto

lemma split_ref_components: "d \<notin> set acc \<Longrightarrow> c \<in> set (split_ref d acc s) \<Longrightarrow> d \<notin> set c"
proof (induction s arbitrary: acc)
  case Nil
  then show ?case by (auto split: if_splits)
next
  case (Cons x s)
  then show ?case using Cons.IH [of "[]"] Cons.IH [of "acc @ [x]"] by (auto split: if_splits)
qed

section \<open>Facts about paths\<close>

lemma find_last_of_Some:
  assumes "c \<in> set s"
  obtains xs ys where "s = xs @ c # ys" "c \<notin> set ys" "find_last_of s c = Some (length xs)"
proof -
  obtain xs ys where s: "s = xs @ c # ys" and ys: "c \<notin> set ys"
    using split_list_last [OF assms] by blast
  have "\<And>x. x \<in> set (rev ys) \<Longrightarrow> x \<noteq> c" using ys by auto
  then have "takeWhile (\<lambda>x. x \<noteq> c) (rev ys @ c # rev xs) = rev ys"
    by (subst takeWhile_append2) auto
  then have "takeWhile (\<lambda>x. x \<noteq> c) (rev s) = rev ys" by (simp add: s)
  then have "find_last_of s c = Some (length xs)"
    using assms by (simp add: find_last_of_def s)
  with s ys show thesis by (rule that)
qed

lemma SplitPath_valid:
  assumes "IsValidNonRootPath path"
  obtains xs name where "path = xs @ CHR ''/'' # name" "CHR ''/'' \<notin> set name" "name \<noteq> []"
    "SplitPath path = \<lparr>parent = xs @ ''/'', file_name = name\<rparr>"
proof -
  have "CHR ''/'' \<in> set path"
    using assms by (metis IsValidNonRootPath_def gr_implies_not0 length_0_conv neq0_conv nth_mem)
  then obtain xs ys where p: "path = xs @ CHR ''/'' # ys" "CHR ''/'' \<notin> set ys"
    and f: "find_last_of path (CHR ''/'') = Some (length xs)"
    by (rule find_last_of_Some)
  have "ys \<noteq> []" using assms p by (auto simp: IsValidNonRootPath_def)
  moreover have "SplitPath path = \<lparr>parent = xs @ ''/'', file_name = ys\<rparr>"
    using f by (simp add: SplitPath_def p)
  ultimately show thesis using p that by blast
qed

lemma SplitString_path:
  assumes "IsValidNonRootPath path"
  shows "SplitString (tl path) (CHR ''/'')
    = SplitString (tl (parent (SplitPath path))) (CHR ''/'') @ [file_name (SplitPath path)]"
proof -
  obtain xs name where p: "path = xs @ CHR ''/'' # name" "CHR ''/'' \<notin> set name" "name \<noteq> []"
    "SplitPath path = \<lparr>parent = xs @ ''/'', file_name = name\<rparr>"
    using SplitPath_valid [OF assms] .
  have name: "SplitString name (CHR ''/'') = [name]" using p by (simp add: SplitString_no_delim)
  show ?thesis
  proof (cases xs)
    case Nil
    then show ?thesis using p name by (simp add: SplitString_no_delim)
  next
    case (Cons x ys)
    then show ?thesis using p name SplitString_append [of ys "CHR ''/''" name] by (simp del: append.simps)
  qed
qed

section \<open>Properties\<close>

text \<open>
  Splitting is lossless: putting the delimiter behind every component gives the string
  back, up to one delimiter added at the end when the string does not end in one; and no
  component contains the delimiter.
\<close>

theorem split_string_lossless:
  "concat (map (\<lambda>c. c @ [d]) (SplitString s d)) = (if s = [] \<or> last s = d then s else s @ [d]) \<and>
   (\<forall>c. c \<in> set (SplitString s d) \<longrightarrow> d \<notin> set c)"
  using split_ref_concat [of d "[]" s] split_ref_components [of d "[]" _ s] by (auto simp: SplitString_ref)

lemma split_string_lossless_witness:
  "CHR ''/'' \<notin> set ''sys''"
  using split_string_lossless [of "CHR ''/''" "''shared2/sys''"]
  by (simp add: SplitString_ref)

text \<open>
  A valid path falls into its parent and its file name: they recombine to the path, the
  file name is a nonempty component, and the components \<^verbatim>\<open>GetFstIndex\<close> walks for the path are
  those it walks for the parent followed by the file name.
\<close>

theorem split_path_components:
  assumes "IsValidNonRootPath path"
  shows "parent (SplitPath path) @ file_name (SplitPath path) = path \<and>
    file_name (SplitPath path) \<noteq> [] \<and> CHR ''/'' \<notin> set (file_name (SplitPath path)) \<and>
    last (parent (SplitPath path)) = CHR ''/'' \<and>
    SplitString (tl path) (CHR ''/'')
      = SplitString (tl (parent (SplitPath path))) (CHR ''/'') @ [file_name (SplitPath path)]"
proof -
  obtain xs name where "path = xs @ CHR ''/'' # name" "CHR ''/'' \<notin> set name" "name \<noteq> []"
    "SplitPath path = \<lparr>parent = xs @ ''/'', file_name = name\<rparr>"
    using SplitPath_valid [OF assms] .
  then show ?thesis using SplitString_path [OF assms] by simp
qed

lemma split_path_components_witness:
  "SplitString ''shared2/sys/SYSCONF'' (CHR ''/'')
     = SplitString ''shared2/sys/'' (CHR ''/'') @ [''SYSCONF'']"
  using split_path_components [of "''/shared2/sys/SYSCONF''"]
  by (simp add: IsValidNonRootPath_def SplitPath_def find_last_of_def)

text \<open>
  C35 The parent part keeps its trailing separator, unlike the comment on the structure
  (\<^verbatim>\<open>"/shared2/sys"\<close>) says.
\<close>

theorem split_path_keeps_separator:
  "SplitPath ''/shared2/sys/SYSCONF'' = \<lparr>parent = ''/shared2/sys/'', file_name = ''SYSCONF''\<rparr>"
  by (simp add: SplitPath_def find_last_of_def)

end
