(* ===== verification/Lookup.thy ===== *)
theory Lookup
  imports Chain StringUtil
begin

text \<open>
  Finding entries in the FST: the two overloads of \<^verbatim>\<open>GetFstIndex\<close> and \<^verbatim>\<open>GetUnusedFstIndex\<close>
  of \<^verbatim>\<open>driver/low_level.cpp\<close>. The walk over the siblings does not end on a cyclic chain,
  so the lookups have option type; on chains that end the result is given by \<open>find\<close>.
\<close>

section \<open>The operations\<close>

partial_function (option) find_child :: "Superblock \<Rightarrow> string \<Rightarrow> u16 \<Rightarrow> u16 Result option" where
  "find_child superblock file index =
     (if GetName (fst_at superblock index) = file then Some (Inr index)
      else let index' = e_sib (fst_at superblock index) in
           if in_fst index' then find_child superblock file index' else Some (Inl Invalid))"

definition GetFstIndex_child :: "Superblock \<Rightarrow> u16 \<Rightarrow> string \<Rightarrow> u16 Result option" where
  "GetFstIndex_child superblock parent_index file =
     (if \<not> in_fst parent_index \<or> length file > 12 then Some (Inl Invalid)
      else let index = e_sub (fst_at superblock parent_index) in
           if \<not> in_fst index then Some (Inl Invalid) else find_child superblock file index)"

fun walk_path :: "Superblock \<Rightarrow> u16 \<Rightarrow> string list \<Rightarrow> u16 Result option" where
  "walk_path superblock fst_index [] = Some (Inr fst_index)"
| "walk_path superblock fst_index (component # cs) =
     (case GetFstIndex_child superblock fst_index component of
        None \<Rightarrow> None
      | Some (Inl _) \<Rightarrow> Some (Inl Invalid)
      | Some (Inr result) \<Rightarrow>
          if \<not> in_fst result then Some (Inl Invalid) else walk_path superblock result cs)"

definition GetFstIndex :: "Superblock \<Rightarrow> string \<Rightarrow> u16 Result option" where
  "GetFstIndex superblock path =
     (if path = ''/'' \<or> path = [] then Some (Inr 0)
      else walk_path superblock 0 (SplitString (tl path) (CHR ''/'')))"

definition GetUnusedFstIndex :: "Superblock \<Rightarrow> u16 Result" where
  "GetUnusedFstIndex superblock =
     (let it = find_if (\<lambda>entry. e_mode entry AND 3 = 0) (sb_fst superblock) in
      if it = FST_SIZE then Inl FstFull else Inr (of_nat it))"

section \<open>Lookup in a directory\<close>

lemma find_child_chain:
  assumes "chain (next_sib sb) in_fst i (x # xs)"
  shows "find_child sb n i = Some (case find (\<lambda>j. GetName (fst_at sb j) = n) (x # xs) of
     None \<Rightarrow> Inl Invalid | Some j \<Rightarrow> Inr j)"
  using assms
proof (induction xs arbitrary: i x)
  case Nil
  then show ?case by (subst find_child.simps) (auto simp: next_sib_def Let_def)
next
  case (Cons y ys)
  have c: "i = x" "chain (next_sib sb) in_fst y (y # ys)" "next_sib sb x = y" "in_fst y"
    using Cons.prems by auto
  show ?case
    using Cons.IH [OF c(2)] c by (subst find_child.simps) (simp add: next_sib_def Let_def)
qed

text \<open>
  A lookup in a directory returns its first child with the name, if the child list is
  finite and the name fits.
\<close>

lemma GetFstIndex_child_find:
  assumes "in_fst d" and "children sb d xs" and "length n \<le> 12"
  shows "GetFstIndex_child sb d n = Some (case find (\<lambda>j. GetName (fst_at sb j) = n) xs of
     None \<Rightarrow> Inl Invalid | Some j \<Rightarrow> Inr j)"
proof (cases xs)
  case Nil
  then show ?thesis using assms by (simp add: GetFstIndex_child_def children_def)
next
  case (Cons x ys)
  then have c: "chain (next_sib sb) in_fst (e_sub (fst_at sb d)) (x # ys)" "in_fst (e_sub (fst_at sb d))"
    using assms(2) by (auto simp: children_def)
  show ?thesis
    using find_child_chain [OF c(1), of n] assms(1,3) c(2) Cons
    by (simp add: GetFstIndex_child_def Let_def del: chain.simps find.simps)
qed

lemma GetFstIndex_child_long: "length n > 12 \<Longrightarrow> GetFstIndex_child sb d n = Some (Inl Invalid)"
  by (simp add: GetFstIndex_child_def)

text \<open>Whatever the image holds, an index that is found is a valid one.\<close>

lemma find_child_valid:
  "find_child sb n i = Some r \<Longrightarrow> in_fst i \<Longrightarrow> r = Inr j \<Longrightarrow> in_fst j \<and> GetName (fst_at sb j) = n"
proof (induction arbitrary: j rule: find_child.raw_induct [rotated, consumes 1])
  case (1 find_child sb n i r)
  then show ?case by (auto simp: Let_def split: if_splits)
qed

lemma GetFstIndex_child_valid:
  "GetFstIndex_child sb d n = Some (Inr j) \<Longrightarrow> in_fst d \<and> in_fst j \<and> length n \<le> 12 \<and> GetName (fst_at sb j) = n"
  using find_child_valid [of sb n "e_sub (fst_at sb d)" "Inr j" j]
  by (auto simp: GetFstIndex_child_def Let_def not_less split: if_splits)

lemma walk_path_valid: "walk_path sb i cs = Some (Inr j) \<Longrightarrow> in_fst i \<Longrightarrow> in_fst j"
  by (induction sb i cs rule: walk_path.induct) (auto split: option.splits sum.splits if_splits)

lemma GetFstIndex_valid: "GetFstIndex sb path = Some (Inr j) \<Longrightarrow> in_fst j"
  using walk_path_valid [of sb 0 _ j]
  by (auto simp: GetFstIndex_def in_fst_def FST_SIZE_def split: if_splits)

lemma walk_path_error: "walk_path sb i cs = Some (Inl e) \<Longrightarrow> e = Invalid"
  by (induction sb i cs rule: walk_path.induct) (auto split: option.splits sum.splits if_splits)

lemma GetFstIndex_error: "GetFstIndex sb path = Some (Inl e) \<Longrightarrow> e = Invalid"
  using walk_path_error by (auto simp: GetFstIndex_def split: if_splits)

lemma walk_path_append:
  "walk_path sb i (cs @ ds) = (case walk_path sb i cs of
     None \<Rightarrow> None | Some (Inl e) \<Rightarrow> Some (Inl e) | Some (Inr j) \<Rightarrow> walk_path sb j ds)"
  by (induction sb i cs rule: walk_path.induct) (auto split: option.splits sum.splits)

text \<open>
  Looking up a path is looking up its parent and then the file name in it.
\<close>

lemma GetFstIndex_split:
  assumes "IsValidNonRootPath path"
  shows "GetFstIndex sb path = (case GetFstIndex sb (parent (SplitPath path)) of
      None \<Rightarrow> None
    | Some (Inl e) \<Rightarrow> Some (Inl e)
    | Some (Inr d) \<Rightarrow> map_option (\<lambda>r. case r of Inl _ \<Rightarrow> Inl Invalid | Inr j \<Rightarrow> Inr j)
         (GetFstIndex_child sb d (file_name (SplitPath path))))"
proof -
  let ?p = "parent (SplitPath path)" and ?n = "file_name (SplitPath path)"
  have path: "path \<noteq> ''/''" "path \<noteq> []"
    using assms by (auto simp: IsValidNonRootPath_def)
  have "GetFstIndex sb ?p = walk_path sb 0 (SplitString (tl ?p) (CHR ''/''))"
    by (auto simp: GetFstIndex_def SplitString_ref)
  moreover have "walk_path sb d [?n] = map_option (\<lambda>r. case r of Inl _ \<Rightarrow> Inl Invalid | Inr j \<Rightarrow> Inr j)
      (GetFstIndex_child sb d ?n)" for d
    using GetFstIndex_child_valid [of sb d ?n]
    by (auto split: option.splits sum.splits)
  ultimately show ?thesis
    using path SplitString_path [OF assms]
    by (auto simp: GetFstIndex_def walk_path_append split: option.splits sum.splits)
qed

section \<open>Free entries\<close>

lemma GetUnusedFstIndex_cases:
  assumes "sb_wf sb"
  shows "GetUnusedFstIndex sb = Inl FstFull \<and> (\<forall>i. in_fst i \<longrightarrow> e_mode (fst_at sb i) AND 3 \<noteq> 0) \<or>
    (\<exists>i. GetUnusedFstIndex sb = Inr i \<and> in_fst i \<and> e_mode (fst_at sb i) AND 3 = 0)"
proof (cases "find_if (\<lambda>entry. e_mode entry AND 3 = 0) (sb_fst sb) = FST_SIZE")
  case True
  then have "\<forall>e \<in> set (sb_fst sb). e_mode e AND 3 \<noteq> 0"
    using assms find_if_end [of "\<lambda>entry. e_mode entry AND 3 = 0" "sb_fst sb"] by (simp add: sb_wf_def)
  then show ?thesis using True fst_at_mem [OF assms] by (simp add: GetUnusedFstIndex_def)
next
  case False
  let ?k = "find_if (\<lambda>entry. e_mode entry AND 3 = 0) (sb_fst sb)"
  have k: "?k < length (sb_fst sb)" using False find_if_le [of _ "sb_fst sb"] assms
    by (metis le_neq_implies_less sb_wf_def)
  then have u: "unat (of_nat ?k :: u16) = ?k" using assms by (simp add: unat_of_nat sb_wf_def FST_SIZE_def)
  show ?thesis
    using find_if_sat [OF k] k u False assms
    by (simp add: GetUnusedFstIndex_def in_fst_def fst_at_def sb_wf_def)
qed

end
