(* ===== verification/Demo.thy ===== *)
theory Demo
  imports Persist Lookup
begin

text \<open>
  One concrete file system, used to apply the theorems of the other theories at a point: a
  root directory with an empty file \<open>a\<close> and a directory \<open>d\<close> that holds a file \<open>b\<close> of one
  cluster. Its version is the largest one, so the next flush overflows.
\<close>

definition demo_entry :: "string \<Rightarrow> u8 \<Rightarrow> u16 \<Rightarrow> u16 \<Rightarrow> u32 \<Rightarrow> FstEntry" where
  "demo_entry name mode sub sib len = SetName name
     \<lparr>e_name = [], e_mode = mode, e_attr = 0, e_sub = sub, e_sib = sib, e_size = len, e_uid = 0, e_gid = 0, e_x3 = 0\<rparr>"

definition demo_entries :: "FstEntry list" where
  "demo_entries = [demo_entry ''/'' 0x16 1 0xffff 0, demo_entry ''a'' 0xfd CLUSTER_LAST_IN_CHAIN 2 0,
     demo_entry ''d'' 0xfe 3 0xffff 0, demo_entry ''b'' 0xfd 64 0xffff 5]"

definition demo_sb :: Superblock where
  "demo_sb = zero_Superblock\<lparr>sb_magic := SUPERBLOCK_MAGIC, sb_version := - 1,
     sb_fat := (map (\<lambda>i. if i < 64 \<or> i \<ge> unat SUPERBLOCK_START_CLUSTER then CLUSTER_RESERVED else CLUSTER_UNUSED)
       [0..<FAT_SIZE])[64 := CLUSTER_LAST_IN_CHAIN],
     sb_fst := demo_entries @ replicate (FST_SIZE - 4) zero_FstEntry\<rparr>"

definition demo_fs :: FileSystemImpl where
  "demo_fs = (initial_fs (\<lambda>_. 0xff) \<lparr>key_hmac = replicate 20 1, key_aes = replicate 16 2\<rparr>)\<lparr>m_superblock := Some demo_sb\<rparr>"

lemma demo_fst [simp]:
  "fst_at demo_sb 0 = demo_entry ''/'' 0x16 1 0xffff 0"
  "fst_at demo_sb 1 = demo_entry ''a'' 0xfd CLUSTER_LAST_IN_CHAIN 2 0"
  "fst_at demo_sb 2 = demo_entry ''d'' 0xfe 3 0xffff 0"
  "fst_at demo_sb 3 = demo_entry ''b'' 0xfd 64 0xffff 5"
  by (simp_all add: fst_at_def demo_sb_def demo_entries_def nth_append)

lemma demo_free_entry: "in_fst i \<Longrightarrow> 4 \<le> i \<Longrightarrow> fst_at demo_sb i = zero_FstEntry"
  by (simp add: fst_at_def demo_sb_def demo_entries_def nth_append in_fst_def word_le_nat_alt)

lemma demo_entry_fields [simp]:
  "e_mode (demo_entry n m a b z) = m" "e_sub (demo_entry n m a b z) = a" "e_sib (demo_entry n m a b z) = b"
  "e_size (demo_entry n m a b z) = z"
  by (simp_all add: demo_entry_def SetName_def)

lemma demo_names [simp]:
  "GetName (demo_entry ''/'' m a b z) = ''/''" "GetName (demo_entry ''a'' m a b z) = ''a''"
  "GetName (demo_entry ''d'' m a b z) = ''d''" "GetName (demo_entry ''b'' m a b z) = ''b''"
  by (simp_all add: demo_entry_def SetName_def GetName_def copy_into_def eval_nat_numeral)

lemma sb_wf_demo: "sb_wf demo_sb"
  using sb_wf_zero
  by (auto simp: sb_wf_def demo_sb_def demo_entries_def entry_wf_def demo_entry_def SetName_def SUPERBLOCK_MAGIC_def
      zero_FstEntry_def copy_into_def FST_SIZE_def)

lemma demo_fat: "in_fat c \<Longrightarrow> fat_at demo_sb c = (if c = 64 then CLUSTER_LAST_IN_CHAIN
    else if c < 64 \<or> SUPERBLOCK_START_CLUSTER \<le> c then CLUSTER_RESERVED else CLUSTER_UNUSED)"
proof -
  assume c: "in_fat c"
  have "(unat c = 64) = (c = 64)" by (simp add: word_unat_eq_iff)
  then show ?thesis
    using c by (auto simp: fat_at_def demo_sb_def in_fat_def nth_list_update word_less_nat_alt word_le_nat_alt)
qed

lemma demo_children: "children demo_sb 0 [1, 2]" "children demo_sb 2 [3]"
  by (simp_all add: children_def next_sib_def in_fst_def FST_SIZE_def)

lemma demo_lookup: "GetFstIndex demo_sb ''/a'' = Some (Inr 1)" "GetFstIndex demo_sb ''/d'' = Some (Inr 2)"
  "GetFstIndex demo_sb ''/d/b'' = Some (Inr 3)"
proof -
  have v: "in_fst 0" "in_fst 1" "in_fst 2" "in_fst 3" by (simp_all add: in_fst_def FST_SIZE_def)
  have r: "GetFstIndex_child demo_sb 0 ''a'' = Some (Inr 1)" "GetFstIndex_child demo_sb 0 ''d'' = Some (Inr 2)"
    "GetFstIndex_child demo_sb 2 ''b'' = Some (Inr 3)"
    using GetFstIndex_child_find [OF v(1) demo_children(1)] GetFstIndex_child_find [OF v(3) demo_children(2)] by simp_all
  have s: "SplitString ''a'' (CHR ''/'') = [''a'']" "SplitString ''d'' (CHR ''/'') = [''d'']"
    "SplitString ''d/b'' (CHR ''/'') = [''d'', ''b'']"
    by code_simp+
  show "GetFstIndex demo_sb ''/a'' = Some (Inr 1)" "GetFstIndex demo_sb ''/d'' = Some (Inr 2)"
    "GetFstIndex demo_sb ''/d/b'' = Some (Inr 3)"
    by (simp_all add: GetFstIndex_def s r v)
qed

lemma demo_paths: "IsValidNonRootPath ''/a''" "IsValidNonRootPath ''/d''" "IsValidNonRootPath ''/d/b''"
  by code_simp+

lemma demo_fs_upto: "versions_upto lib demo_fs"
  using sb_wf_demo
  by (simp add: versions_upto_def demo_fs_def initial_fs_def demo_sb_def layout_consts word_order.extremum)

lemma demo_fs_fields [simp]:
  "m_superblock demo_fs = Some demo_sb" "m_handles demo_fs = replicate NUM_HANDLES new_Handle" "m_cache_handle demo_fs = None"
  "m_cache_for_write demo_fs = False"
  by (simp_all add: demo_fs_def initial_fs_def)

end
