(* ===== verification/FileData.thy ===== *)
theory FileData
  imports Demo
begin

text \<open>
  The data of a file, cluster by cluster: \<^verbatim>\<open>GetClusterForFile\<close>, \<^verbatim>\<open>WriteFileData\<close> and
  \<^verbatim>\<open>ReadFileData\<close> of \<^verbatim>\<open>driver/low_level.cpp\<close>.
\<close>

section \<open>The operations\<close>

fun GetClusterForFile :: "Superblock \<Rightarrow> u16 \<Rightarrow> nat \<Rightarrow> u16 option" where
  "GetClusterForFile superblock cluster 0 = (if \<not> in_fat cluster then None else Some cluster)"
| "GetClusterForFile superblock cluster (Suc n) =
     (if \<not> in_fat cluster then None else GetClusterForFile superblock (fat_at superblock cluster) n)"

text \<open>
  The changes \<^verbatim>\<open>WriteFileData\<close> makes to the superblock once the data is in the new cluster.
\<close>

definition link_cluster :: "u16 \<Rightarrow> u16 \<Rightarrow> u32 \<Rightarrow> u16 \<Rightarrow> Superblock \<Rightarrow> Superblock option" where
  "link_cluster fst_index chain_index new_size cluster superblock =
     (let entry = fst_at superblock fst_index;
          old_cluster = GetClusterForFile superblock (e_sub entry) (unat chain_index);
          relinked = (if chain_index = 0 then Some (upd_fst fst_index (\<lambda>e. e\<lparr>e_sub := cluster\<rparr>) superblock)
                      else (case GetClusterForFile superblock (e_sub entry) (unat chain_index - 1) of
                              None \<Rightarrow> None
                            | Some prev \<Rightarrow> Some (set_fat prev cluster superblock)))
      in case relinked of
           None \<Rightarrow> None
         | Some sb1 \<Rightarrow>
             let sb2 = (case old_cluster of
                          Some old \<Rightarrow> set_fat cluster (fat_at sb1 old) sb1
                        | None \<Rightarrow> set_fat cluster CLUSTER_LAST_IN_CHAIN sb1);
                 sb3 = (case old_cluster of Some old \<Rightarrow> set_fat old CLUSTER_UNUSED sb2 | None \<Rightarrow> sb2)
             in Some (upd_fst fst_index (\<lambda>e. e\<lparr>e_size := new_size\<rparr>) sb3))"

definition WriteFileData ::
  "('k, 'c) mbedtls \<Rightarrow> u16 \<Rightarrow> u8 list \<Rightarrow> u16 \<Rightarrow> u32 \<Rightarrow> FileSystemImpl \<Rightarrow> ResultCode \<times> FileSystemImpl" where
  "WriteFileData lib fst_index source chain_index new_size s =
     (if \<not> in_fst fst_index then (Invalid, s)
      else (case GetSuperblock lib s of
        (None, s1) \<Rightarrow> (SuperblockInitFailed, s1)
      | (Some superblock, s1) \<Rightarrow>
          let entry = fst_at superblock fst_index in
          if \<not> IsFile entry \<or> new_size \<le> e_size entry then (Invalid, s1)
          else
            let it = find_if (\<lambda>c. c = CLUSTER_UNUSED) (sb_fat superblock) in
            if it = FAT_SIZE then (NoFreeSpace, s1)
            else
              let cluster = of_nat it;
                  hash = GenerateHmacForData lib (m_keys s1) superblock source fst_index chain_index
              in (case WriteCluster lib (m_keys s1) (m_nand s1) cluster source hash of
                (write_result, nand') \<Rightarrow>
                  let s2 = s1\<lparr>m_nand := nand'\<rparr> in
                  if write_result \<noteq> Success then (write_result, s2)
                  else (case link_cluster fst_index chain_index new_size cluster superblock of
                          None \<Rightarrow> (Invalid, s2)
                        | Some sb' \<Rightarrow> (Success, s2\<lparr>m_superblock := Some sb'\<rparr>)))))"

text \<open>
  \<^verbatim>\<open>*GetClusterForFile(...)\<close> of an empty optional is undefined, hence \<open>None\<close>.
\<close>

definition ReadFileData ::
  "('k, 'c) mbedtls \<Rightarrow> u16 \<Rightarrow> u16 \<Rightarrow> (u8 list Result) fs_op" where
  "ReadFileData lib fst_index chain_index s =
     (if \<not> in_fst fst_index then Some (Inl Invalid, s)
      else (case GetSuperblock lib s of
        (None, s1) \<Rightarrow> Some (Inl SuperblockInitFailed, s1)
      | (Some superblock, s1) \<Rightarrow>
          let entry = fst_at superblock fst_index in
          if \<not> IsFile entry \<or> e_size entry \<le> ucast chain_index * of_nat CLUSTER_DATA_SIZE
          then Some (Inl Invalid, s1)
          else (case GetClusterForFile superblock (e_sub entry) (unat chain_index) of
            None \<Rightarrow> None
          | Some cluster \<Rightarrow>
              (case ReadCluster lib (m_keys s1) (m_nand s1) cluster of
                 Inl e \<Rightarrow> Some (Inl e, s1)
               | Inr result \<Rightarrow>
                   let hash = GenerateHmacForData lib (m_keys s1) superblock (rr_data result) fst_index chain_index in
                   if hash \<noteq> rr_hmac1 result \<and> hash \<noteq> rr_hmac2 result then Some (Inl CheckFailed, s1)
                   else Some (Inr (rr_data result), s1)))))"

section \<open>The clusters of a file\<close>

lemma GetClusterForFile_chain:
  assumes "chain (fat_at sb) in_fat c cs"
  shows "GetClusterForFile sb c k = (if k < length cs then Some (cs ! k) else None)"
  using assms
proof (induction k arbitrary: c cs)
  case 0
  then show ?case by (cases cs) auto
next
  case (Suc k)
  then show ?case by (cases cs) auto
qed

lemma GetClusterForFile_in_fat: "GetClusterForFile sb c k = Some r \<Longrightarrow> in_fat r"
  by (induction sb c k rule: GetClusterForFile.induct) (auto split: if_splits)

text \<open>
  \<open>file_clusters sb f cs\<close>: the cluster list of \<open>f\<close> ends, and none of its clusters is
  marked unused in the FAT.
\<close>

definition file_clusters :: "Superblock \<Rightarrow> u16 \<Rightarrow> u16 list \<Rightarrow> bool" where
  "file_clusters sb f cs \<longleftrightarrow> clusters sb f cs \<and> (\<forall>c\<in>set cs. fat_at sb c \<noteq> CLUSTER_UNUSED)"

lemma mark_not_in_fat [simp]:
  "\<not> in_fat CLUSTER_LAST_IN_CHAIN" "\<not> in_fat CLUSTER_UNUSED" "\<not> in_fat CLUSTER_RESERVED" "\<not> in_fat CLUSTER_BAD_BLOCK"
  by (simp_all add: in_fat_def FAT_SIZE_def cluster_marks)

lemma free_cluster:
  assumes "sb_wf sb" and "find_if (\<lambda>c. c = CLUSTER_UNUSED) (sb_fat sb) \<noteq> FAT_SIZE"
  defines "c \<equiv> of_nat (find_if (\<lambda>c. c = CLUSTER_UNUSED) (sb_fat sb)) :: u16"
  shows "in_fat c" and "fat_at sb c = CLUSTER_UNUSED" and "c < 0x8000"
proof -
  let ?k = "find_if (\<lambda>c. c = CLUSTER_UNUSED) (sb_fat sb)"
  have len: "length (sb_fat sb) = FAT_SIZE" using assms(1) by (simp add: sb_wf_def)
  have k: "?k < length (sb_fat sb)"
    using assms(2) find_if_le [of "\<lambda>c. c = CLUSTER_UNUSED" "sb_fat sb"] len by linarith
  have u: "unat c = ?k" using k len by (simp add: c_def unat_of_nat FAT_SIZE_def)
  show "in_fat c" using k len u by (simp add: in_fat_def)
  show "fat_at sb c = CLUSTER_UNUSED" using find_if_sat [OF k] u by (simp add: fat_at_def)
  show "c < 0x8000" using k len u by (simp add: word_less_nat_alt FAT_SIZE_def)
qed

text \<open>
  The abstract effect of linking: the new cluster replaces the one at the position, or is
  appended; the replaced cluster becomes unused.
\<close>

definition put_at :: "nat \<Rightarrow> 'a \<Rightarrow> 'a list \<Rightarrow> 'a list" where
  "put_at k x xs = (if k < length xs then xs[k := x] else xs @ [x])"

lemma fat_updates:
  assumes "sb_wf sb" "in_fat i"
  shows "fat_at (set_fat i v sb) j = (if j = i then v else fat_at sb j)"
  using assms by (rule fat.nxt_set)

lemma put_at_split: "k \<le> length xs \<Longrightarrow> put_at k x xs = take k xs @ x # drop (Suc k) xs"
  by (auto simp: put_at_def upd_conv_take_nth_drop)

lemma nth_put_at: "k \<le> length xs \<Longrightarrow> j < length (put_at k x xs) \<Longrightarrow>
  put_at k x xs ! j = (if j = k then x else xs ! j)"
  by (auto simp: put_at_def nth_append less_Suc_eq)

lemma length_put_at: "k \<le> length xs \<Longrightarrow> length (put_at k x xs) = max (length xs) (Suc k)"
  by (auto simp: put_at_def)

lemma set_put_at: "set (put_at k x xs) \<subseteq> insert x (set xs)"
  using set_update_subset_insert [of xs k x] by (auto simp: put_at_def)

lemma link_cluster_result:
  assumes wf: "sb_wf sb" and f: "in_fst f" and cs: "file_clusters sb f cs"
    and k: "k = unat chain_index" "k \<le> length cs" and c: "in_fat c" "fat_at sb c = CLUSTER_UNUSED"
  shows "\<exists>sb'. link_cluster f chain_index z c sb = Some sb' \<and> sb_wf sb' \<and>
     sb_version sb' = sb_version sb \<and> sb_magic sb' = sb_magic sb \<and>
     (\<forall>j. fat_at sb' j = (if k < length cs \<and> j = cs ! k then CLUSTER_UNUSED
        else if j = c then (if k < length cs then fat_at sb (cs ! k) else CLUSTER_LAST_IN_CHAIN)
        else if 0 < k \<and> j = cs ! (k - 1) then c else fat_at sb j)) \<and>
     (\<forall>g. fst_at sb' g = (if g = f then (fst_at sb f)\<lparr>e_sub := if k = 0 then c else e_sub (fst_at sb f), e_size := z\<rparr>
        else fst_at sb g))"
proof -
  have ch: "chain (fat_at sb) in_fat (e_sub (fst_at sb f)) cs"
    using cs by (simp add: file_clusters_def clusters_def)
  note get = GetClusterForFile_chain [OF ch]
  have len: "length (sb_fst sb) = FST_SIZE" "length (sb_fat sb) = FAT_SIZE" using wf by (simp_all add: sb_wf_def)
  have ew: "entry_wf (fst_at sb f)" by (rule entry_wf_fst_at [OF wf f])
  have z: "chain_index = 0 \<longleftrightarrow> k = 0" using k by (simp add: unat_eq_0)
  have fresh: "c \<notin> set cs" using cs c by (auto simp: file_clusters_def)
  have neq: "0 < k \<Longrightarrow> k < length cs \<Longrightarrow> cs ! (k - 1) \<noteq> cs ! k"
    "0 < k \<Longrightarrow> cs ! (k - 1) \<noteq> c" "k < length cs \<Longrightarrow> cs ! k \<noteq> c"
    using fresh chain_distinct [OF ch] k by (auto simp: nth_eq_iff_index_eq)
  have v: "0 < k \<Longrightarrow> in_fat (cs ! (k - 1))" "k < length cs \<Longrightarrow> in_fat (cs ! k)"
    using chain_valid [OF ch] k by simp_all
  note upd = fat_at_set_fat fst_at_upd_fst len in_fst_def [symmetric] in_fat_def [symmetric] f c(1)
  show ?thesis
    using neq v k(2) z
    by (cases "k = 0"; cases "k < length cs")
      (auto simp: link_cluster_def Let_def get k(1) [symmetric] upd ew
        simp del: GetClusterForFile.simps intro!: sb_wf_upd_fst wf)
qed

text \<open>
  The links after the cluster at position \<open>k\<close> of the chain \<open>cs\<close> is replaced by \<open>c\<close>, or \<open>c\<close> is
  put behind the last one.
\<close>

definition put_link :: "(u16 \<Rightarrow> u16) \<Rightarrow> u16 list \<Rightarrow> nat \<Rightarrow> u16 \<Rightarrow> u16 \<Rightarrow> u16" where
  "put_link fat cs k c j =
     (if k < length cs \<and> j = cs ! k then CLUSTER_UNUSED
      else if j = c then (if k < length cs then fat (cs ! k) else CLUSTER_LAST_IN_CHAIN)
      else if 0 < k \<and> j = cs ! (k - 1) then c else fat j)"

lemma put_link_same:
  "j \<noteq> c \<Longrightarrow> (k < length cs \<Longrightarrow> j \<noteq> cs ! k) \<Longrightarrow> (0 < k \<Longrightarrow> j \<noteq> cs ! (k - 1)) \<Longrightarrow> put_link fat cs k c j = fat j"
  by (auto simp: put_link_def)

lemma chain_put_tail:
  assumes ch: "chain fat in_fat h cs" and fresh: "c \<notin> set cs" "in_fat c" and k: "k \<le> length cs"
  shows "chain (put_link fat cs k c) in_fat c (c # drop (Suc k) cs)"
proof (cases "k < length cs")
  case True
  have d: "distinct cs" by (rule chain_distinct [OF ch])
  have old: "cs ! k \<noteq> c" using True fresh(1) by (metis nth_mem)
  have split: "cs = take k cs @ cs ! k # drop (Suc k) cs" using id_take_nth_drop [OF True] .
  have "chain fat in_fat (fat (cs ! k)) (drop (Suc k) cs)"
    using chain_next [of fat in_fat _ "take k cs" "cs ! k" "drop (Suc k) cs"] ch split by metis
  moreover have "put_link fat cs k c x = fat x" if x: "x \<in> set (drop (Suc k) cs)" for x
  proof (rule put_link_same)
    obtain m where m: "x = cs ! m" "Suc k \<le> m" "m < length cs"
      using x by (auto simp: in_set_conv_nth)
    show "x \<noteq> c" using m fresh(1) by (metis nth_mem)
    show "x \<noteq> cs ! k" using m d True by (auto simp: nth_eq_iff_index_eq)
    show "x \<noteq> cs ! (k - 1)" if "0 < k" using m d True that by (auto simp: nth_eq_iff_index_eq)
  qed
  ultimately have "chain (put_link fat cs k c) in_fat (fat (cs ! k)) (drop (Suc k) cs)"
    by (rule chain_cong)
  then show ?thesis using True fresh(2) old by (simp add: put_link_def)
next
  case False
  then show ?thesis using k fresh(2) by (simp add: put_link_def)
qed

lemma chain_put:
  assumes ch: "chain fat in_fat h cs" and fresh: "c \<notin> set cs" "in_fat c" and k: "k \<le> length cs"
  shows "chain (put_link fat cs k c) in_fat (if k = 0 then c else h) (put_at k c cs)"
proof (cases "k = 0")
  case True
  then show ?thesis using chain_put_tail [OF assms] by (simp add: put_at_split)
next
  case False
  have d: "distinct cs" by (rule chain_distinct [OF ch])
  have k1: "k - 1 < length cs" using k False by simp
  have p: "cs ! (k - 1) \<noteq> c" "k < length cs \<Longrightarrow> cs ! (k - 1) \<noteq> cs ! k"
    using k1 fresh(1) d False by (metis nth_mem, auto simp: nth_eq_iff_index_eq)
  have split: "cs = take (k - 1) cs @ cs ! (k - 1) # drop k cs"
    using id_take_nth_drop [OF k1] False by simp
  have tk: "take k cs = take (k - 1) cs @ [cs ! (k - 1)]"
    using take_Suc_conv_app_nth [OF k1] False by simp
  have "chain (put_link fat cs k c) in_fat h (take (k - 1) cs @ cs ! (k - 1) # c # drop (Suc k) cs)"
  proof (rule chain_splice)
    show "chain fat in_fat h (take (k - 1) cs @ cs ! (k - 1) # drop k cs)" using ch split by metis
    have "put_link fat cs k c (cs ! (k - 1)) = c" using p False by (auto simp: put_link_def)
    then show "chain (put_link fat cs k c) in_fat (put_link fat cs k c (cs ! (k - 1))) (c # drop (Suc k) cs)"
      using chain_put_tail [OF assms] by simp
    show "put_link fat cs k c x = fat x" if x: "x \<in> set (take (k - 1) cs)" for x
    proof (rule put_link_same)
      obtain m where m: "x = cs ! m" "m < k - 1" "m < length cs"
        using x k1 by (auto simp: in_set_conv_nth)
      show "x \<noteq> c" using m fresh(1) by (metis nth_mem)
      show "x \<noteq> cs ! k" if "k < length cs" using m d that by (auto simp: nth_eq_iff_index_eq)
      show "x \<noteq> cs ! (k - 1)" using m d k1 by (auto simp: nth_eq_iff_index_eq)
    qed
  qed
  then show ?thesis using False k by (simp add: put_at_split tk)
qed

lemma link_cluster_clusters:
  assumes wf: "sb_wf sb" and f: "in_fst f" and cs: "file_clusters sb f cs"
    and k: "k = unat chain_index" "k \<le> length cs" and c: "in_fat c" "fat_at sb c = CLUSTER_UNUSED"
    and link: "link_cluster f chain_index z c sb = Some sb'"
  shows "file_clusters sb' f (put_at k c cs)"
    and "g \<noteq> f \<Longrightarrow> file_clusters sb g ds \<Longrightarrow> set ds \<inter> set cs = {} \<Longrightarrow> file_clusters sb' g ds"
    and "k < length cs \<Longrightarrow> fat_at sb' (cs ! k) = CLUSTER_UNUSED"
proof -
  obtain put: "\<And>j. fat_at sb' j = put_link (fat_at sb) cs k c j"
    and fst': "\<And>g. fst_at sb' g = (if g = f then (fst_at sb f)\<lparr>e_sub := if k = 0 then c else e_sub (fst_at sb f), e_size := z\<rparr>
        else fst_at sb g)"
    using link_cluster_result [OF wf f cs k c, of z] link unfolding put_link_def by fastforce
  note fat' = put [unfolded put_link_def] and same = put_link_same [of _ c k cs "fat_at sb", folded put]
  have ch: "chain (fat_at sb) in_fat (e_sub (fst_at sb f)) cs" and used: "\<And>x. x \<in> set cs \<Longrightarrow> fat_at sb x \<noteq> CLUSTER_UNUSED"
    using cs by (simp_all add: file_clusters_def clusters_def)
  have d: "distinct cs" by (rule chain_distinct [OF ch])
  have fresh: "c \<notin> set cs" using used c by auto
  have "fat_at sb' = put_link (fat_at sb) cs k c" using put by (rule ext)
  then have "chain (fat_at sb') in_fat (e_sub (fst_at sb' f)) (put_at k c cs)"
    using chain_put [OF ch fresh c(1) k(2)] by (simp add: fst')
  moreover have "fat_at sb' x \<noteq> CLUSTER_UNUSED" if x: "x \<in> set (put_at k c cs)" for x
  proof -
    have nk: "x \<noteq> cs ! k" if "k < length cs"
      using x that fresh d nth_mem [OF that]
      by (auto simp: put_at_def in_set_conv_nth nth_list_update nth_eq_iff_index_eq split: if_splits)
    have old: "x \<in> set cs \<Longrightarrow> fat_at sb x \<noteq> CLUSTER_UNUSED" "fat_at sb' c \<noteq> CLUSTER_UNUSED" "c \<noteq> CLUSTER_UNUSED"
      using used c(1) nth_mem [of k cs] fresh by (auto simp: fat' cluster_marks in_fat_def FAT_SIZE_def)
    then show ?thesis
      using x nk set_put_at [of k c cs] by (cases "x = c") (auto simp: fat')
  qed
  ultimately show "file_clusters sb' f (put_at k c cs)" by (simp add: file_clusters_def clusters_def)
  show "k < length cs \<Longrightarrow> fat_at sb' (cs ! k) = CLUSTER_UNUSED" by (simp add: fat')
  assume g: "g \<noteq> f" "file_clusters sb g ds" "set ds \<inter> set cs = {}"
  have "fat_at sb' x = fat_at sb x" if x: "x \<in> set ds" for x
    using x g k c by (intro same) (auto simp: file_clusters_def)
  then show "file_clusters sb' g ds"
    using g chain_cong [of "fat_at sb" in_fat "e_sub (fst_at sb g)" ds "fat_at sb'"]
    by (auto simp: file_clusters_def clusters_def fst')
qed

section \<open>Writing\<close>

lemma WriteCluster_Success:
  assumes "mbedtls_ok lib" "c < 0x8000" "length data = CLUSTER_DATA_SIZE" "length hmac = 20"
  shows "\<exists>nand'. WriteCluster lib keys nand c data hmac = (Success, nand') \<and>
    ReadCluster lib keys nand' c = Inr \<lparr>rr_data = data, rr_hmac1 = hmac, rr_hmac2 = hmac\<rparr> \<and>
    (\<forall>c'. c' \<noteq> c \<longrightarrow> ReadCluster lib keys nand' c' = ReadCluster lib keys nand c')"
  using WriteCluster_image [OF assms, of keys nand] ReadCluster_WriteCluster [OF assms, of keys nand]
    WriteCluster_frame [OF assms, of _ keys keys nand] by auto

lemma WriteFileData_steps:
  assumes ok: "mbedtls_ok lib" and sb: "m_superblock s = Some sb" and wf: "sb_wf sb" and f: "in_fst f"
    and cs: "file_clusters sb f cs" and k: "unat i \<le> length cs" and len: "length data = CLUSTER_DATA_SIZE"
    and fl: "IsFile (fst_at sb f)" "e_size (fst_at sb f) < z" and free: "CLUSTER_UNUSED \<in> set (sb_fat sb)"
  shows "\<exists>c sb' nand'. WriteFileData lib f data i z s = (Success, s\<lparr>m_nand := nand', m_superblock := Some sb'\<rparr>) \<and>
    in_fat c \<and> fat_at sb c = CLUSTER_UNUSED \<and> link_cluster f i z c sb = Some sb' \<and>
    ReadCluster lib (m_keys s) nand' c = Inr \<lparr>rr_data = data,
      rr_hmac1 = GenerateHmacForData lib (m_keys s) sb data f i, rr_hmac2 = GenerateHmacForData lib (m_keys s) sb data f i\<rparr> \<and>
    (\<forall>c'. c' \<noteq> c \<longrightarrow> ReadCluster lib (m_keys s) nand' c' = ReadCluster lib (m_keys s) (m_nand s) c')"
proof -
  define c where "c = (of_nat (find_if (\<lambda>c. c = CLUSTER_UNUSED) (sb_fat sb)) :: u16)"
  have n: "find_if (\<lambda>c. c = CLUSTER_UNUSED) (sb_fat sb) \<noteq> FAT_SIZE"
    using free find_if_end [of "\<lambda>c. c = CLUSTER_UNUSED" "sb_fat sb"] wf by (auto simp: sb_wf_def)
  have c: "in_fat c" "fat_at sb c = CLUSTER_UNUSED" "c < 0x8000"
    unfolding c_def by (rule free_cluster [OF wf n])+
  obtain sb' where sb': "link_cluster f i z c sb = Some sb'"
    using link_cluster_result [OF wf f cs refl k c(1,2), of z] by blast
  obtain nand' where w: "WriteCluster lib (m_keys s) (m_nand s) c data (GenerateHmacForData lib (m_keys s) sb data f i) = (Success, nand')"
    and r: "ReadCluster lib (m_keys s) nand' c = Inr \<lparr>rr_data = data,
      rr_hmac1 = GenerateHmacForData lib (m_keys s) sb data f i, rr_hmac2 = GenerateHmacForData lib (m_keys s) sb data f i\<rparr>"
      "\<forall>c'. c' \<noteq> c \<longrightarrow> ReadCluster lib (m_keys s) nand' c' = ReadCluster lib (m_keys s) (m_nand s) c'"
    using WriteCluster_Success [OF ok c(3) len length_GenerateHmacForData [OF ok], of "m_keys s" "m_nand s" "m_keys s" sb data f i]
    by blast
  have "WriteFileData lib f data i z s = (Success, s\<lparr>m_nand := nand', m_superblock := Some sb'\<rparr>)"
    using f fl n w sb' by (simp add: WriteFileData_def GetSuperblock_loaded [OF sb] Let_def c_def [symmetric])
  then show ?thesis using c(1,2) sb' r by blast
qed

text \<open>The ways \<^verbatim>\<open>WriteFileData\<close> fails once a superblock is loaded.\<close>

lemma WriteFileData_errors:
  assumes "m_superblock s = Some sb"
  shows "\<not> in_fst f \<Longrightarrow> WriteFileData lib f data i z s = (Invalid, s)"
    and "in_fst f \<Longrightarrow> \<not> IsFile (fst_at sb f) \<or> z \<le> e_size (fst_at sb f) \<Longrightarrow> WriteFileData lib f data i z s = (Invalid, s)"
    and "in_fst f \<Longrightarrow> IsFile (fst_at sb f) \<Longrightarrow> e_size (fst_at sb f) < z \<Longrightarrow> sb_wf sb \<Longrightarrow> CLUSTER_UNUSED \<notin> set (sb_fat sb) \<Longrightarrow>
      WriteFileData lib f data i z s = (NoFreeSpace, s)"
  using assms find_if_end [of "\<lambda>c. c = CLUSTER_UNUSED" "sb_fat sb"]
  by (auto simp: WriteFileData_def GetSuperblock_loaded Let_def sb_wf_def)

lemma WriteFileData_Success:
  assumes "WriteFileData lib f data i z s = (Success, s')" "m_superblock s = Some sb" "sb_wf sb"
  shows "in_fst f" "IsFile (fst_at sb f)" "e_size (fst_at sb f) < z" "CLUSTER_UNUSED \<in> set (sb_fat sb)"
  using assms WriteFileData_errors [OF assms(2), where f = f and lib = lib and data = data and i = i and z = z]
  by (metis ResultCode.distinct(1) ResultCode.distinct(15) fst_conv not_less)+

section \<open>Reading\<close>

lemma GenerateHmacForData_cong:
  assumes "e_uid (fst_at sb' f) = e_uid (fst_at sb f)" "e_name (fst_at sb' f) = e_name (fst_at sb f)"
    "e_x3 (fst_at sb' f) = e_x3 (fst_at sb f)"
  shows "GenerateHmacForData lib keys sb' data f i = GenerateHmacForData lib keys sb data f i"
  using assms by (simp add: GenerateHmacForData_def DataSalt_for_def)

lemma ReadFileData_eq:
  assumes "m_superblock s = Some sb" "in_fst g" "IsFile (fst_at sb g)" "ucast i * of_nat CLUSTER_DATA_SIZE < e_size (fst_at sb g)"
    "clusters sb g ds" "unat i < length ds"
  shows "ReadFileData lib g i s = (case ReadCluster lib (m_keys s) (m_nand s) (ds ! unat i) of
      Inl e \<Rightarrow> Some (Inl e, s)
    | Inr r \<Rightarrow> if GenerateHmacForData lib (m_keys s) sb (rr_data r) g i \<in> {rr_hmac1 r, rr_hmac2 r}
        then Some (Inr (rr_data r), s) else Some (Inl CheckFailed, s))"
  using assms GetClusterForFile_chain [of sb "e_sub (fst_at sb g)" ds "unat i"]
  by (auto simp: ReadFileData_def GetSuperblock_loaded Let_def clusters_def not_le split: sum.splits)

lemma ReadFileData_Some:
  assumes "ReadFileData lib g i s = Some (Inr d, s1)" "m_superblock s = Some sb" "clusters sb g ds"
  shows "in_fst g" "IsFile (fst_at sb g)" "ucast i * of_nat CLUSTER_DATA_SIZE < e_size (fst_at sb g)" "unat i < length ds" "s1 = s"
  using assms GetClusterForFile_chain [of sb "e_sub (fst_at sb g)" ds "unat i"]
  by (auto simp: ReadFileData_def GetSuperblock_loaded Let_def clusters_def not_le
      split: if_splits option.splits sum.splits)

section \<open>Reading after writing\<close>

text \<open>What a successful write does, in terms of the cluster lists and the entries.\<close>

lemma WriteFileData_effect:
  assumes ok: "mbedtls_ok lib" and sb: "m_superblock s = Some sb" and wf: "sb_wf sb"
    and cs: "file_clusters sb f cs" and k: "unat i \<le> length cs" and len: "length data = CLUSTER_DATA_SIZE"
    and wr: "WriteFileData lib f data i z s = (Success, s')"
  obtains c sb' where "m_superblock s' = Some sb'" "sb_wf sb'" "in_fat c" "fat_at sb c = CLUSTER_UNUSED"
    "file_clusters sb' f (put_at (unat i) c cs)"
    "\<And>g ds. g \<noteq> f \<Longrightarrow> file_clusters sb g ds \<Longrightarrow> set ds \<inter> set cs = {} \<Longrightarrow> file_clusters sb' g ds"
    "unat i < length cs \<Longrightarrow> fat_at sb' (cs ! unat i) = CLUSTER_UNUSED"
    "\<And>g. fst_at sb' g = (if g = f then (fst_at sb f)\<lparr>e_sub := if i = 0 then c else e_sub (fst_at sb f), e_size := z\<rparr>
        else fst_at sb g)"
    "m_keys s' = m_keys s"
    "ReadCluster lib (m_keys s) (m_nand s') c = Inr \<lparr>rr_data = data,
      rr_hmac1 = GenerateHmacForData lib (m_keys s) sb data f i, rr_hmac2 = GenerateHmacForData lib (m_keys s) sb data f i\<rparr>"
    "\<And>c'. c' \<noteq> c \<Longrightarrow> ReadCluster lib (m_keys s) (m_nand s') c' = ReadCluster lib (m_keys s) (m_nand s) c'"
    "s' = s\<lparr>m_nand := m_nand s', m_superblock := Some sb'\<rparr>"
proof -
  have f: "in_fst f" "IsFile (fst_at sb f)" "e_size (fst_at sb f) < z" "CLUSTER_UNUSED \<in> set (sb_fat sb)"
    using WriteFileData_Success [OF wr sb wf] by blast+
  obtain c sb' nand' where r: "WriteFileData lib f data i z s = (Success, s\<lparr>m_nand := nand', m_superblock := Some sb'\<rparr>)"
    and c: "in_fat c" "fat_at sb c = CLUSTER_UNUSED" and l: "link_cluster f i z c sb = Some sb'"
    and rd: "ReadCluster lib (m_keys s) nand' c = Inr \<lparr>rr_data = data,
      rr_hmac1 = GenerateHmacForData lib (m_keys s) sb data f i, rr_hmac2 = GenerateHmacForData lib (m_keys s) sb data f i\<rparr>"
      "\<forall>c'. c' \<noteq> c \<longrightarrow> ReadCluster lib (m_keys s) nand' c' = ReadCluster lib (m_keys s) (m_nand s) c'"
    using WriteFileData_steps [OF ok sb wf f(1) cs k len f(2,3,4)] by blast
  have s': "s' = s\<lparr>m_nand := nand', m_superblock := Some sb'\<rparr>" using r wr by simp
  have i0: "(unat i = 0) = (i = 0)" by (simp add: unat_eq_0)
  have e: "sb_wf sb'" "\<And>g. fst_at sb' g = (if g = f then (fst_at sb f)\<lparr>e_sub := if i = 0 then c else e_sub (fst_at sb f), e_size := z\<rparr>
        else fst_at sb g)"
    using link_cluster_result [OF wf f(1) cs refl k c, of z] l by (auto simp: i0)
  show thesis
    by (rule that [of sb' c])
      (use e c rd link_cluster_clusters [OF wf f(1) cs refl k c l] s' in simp_all)
qed

lemma read_after_write:
  assumes ok: "mbedtls_ok lib" and sb: "m_superblock s = Some sb" and wf: "sb_wf sb"
    and cs: "file_clusters sb f cs" and k: "unat i \<le> length cs" and len: "length data = CLUSTER_DATA_SIZE"
    and wr: "WriteFileData lib f data i z s = (Success, s')"
    and fits: "ucast i * of_nat CLUSTER_DATA_SIZE < z"
  shows "ReadFileData lib f i s' = Some (Inr data, s')"
proof -
  have f: "in_fst f" "IsFile (fst_at sb f)" using WriteFileData_Success [OF wr sb wf] by blast+
  obtain c sb' where sb': "m_superblock s' = Some sb'" "file_clusters sb' f (put_at (unat i) c cs)" "m_keys s' = m_keys s"
    "\<And>g. fst_at sb' g = (if g = f then (fst_at sb f)\<lparr>e_sub := if i = 0 then c else e_sub (fst_at sb f), e_size := z\<rparr>
        else fst_at sb g)"
    and rd: "ReadCluster lib (m_keys s) (m_nand s') c = Inr \<lparr>rr_data = data,
      rr_hmac1 = GenerateHmacForData lib (m_keys s) sb data f i, rr_hmac2 = GenerateHmacForData lib (m_keys s) sb data f i\<rparr>"
    using WriteFileData_effect [OF ok sb wf cs k len wr] by metis
  have h: "GenerateHmacForData lib (m_keys s) sb' data f i = GenerateHmacForData lib (m_keys s) sb data f i"
    by (rule GenerateHmacForData_cong) (simp_all add: sb'(4))
  have pa: "put_at (unat i) c cs ! unat i = c" "unat i < length (put_at (unat i) c cs)"
    using k by (auto simp: put_at_def)
  show ?thesis
    using ReadFileData_eq [OF sb'(1) f(1), of i "put_at (unat i) c cs" lib] f(2) fits sb' pa rd h
    by (simp add: file_clusters_def IsFile_def)
qed

lemma read_other_after_write:
  assumes ok: "mbedtls_ok lib" and sb: "m_superblock s = Some sb" and wf: "sb_wf sb"
    and cs: "file_clusters sb f cs" and k: "unat i \<le> length cs" and len: "length data = CLUSTER_DATA_SIZE"
    and wr: "WriteFileData lib f data i z s = (Success, s')"
    and ds: "file_clusters sb g ds" and dis: "g \<noteq> f \<Longrightarrow> set ds \<inter> set cs = {}"
    and ne: "g = f \<Longrightarrow> j \<noteq> i" and read: "ReadFileData lib g j s = Some (Inr d, s)"
  shows "ReadFileData lib g j s' = Some (Inr d, s')"
proof -
  have dcl: "clusters sb g ds" using ds by (simp add: file_clusters_def)
  note g = ReadFileData_Some [OF read sb dcl]
  have f: "in_fst f" "IsFile (fst_at sb f)" "e_size (fst_at sb f) < z" using WriteFileData_Success [OF wr sb wf] by blast+
  obtain c sb' where sb': "m_superblock s' = Some sb'" "fat_at sb c = CLUSTER_UNUSED" "file_clusters sb' f (put_at (unat i) c cs)"
    "\<And>g ds. g \<noteq> f \<Longrightarrow> file_clusters sb g ds \<Longrightarrow> set ds \<inter> set cs = {} \<Longrightarrow> file_clusters sb' g ds" "m_keys s' = m_keys s"
    "\<And>g. fst_at sb' g = (if g = f then (fst_at sb f)\<lparr>e_sub := if i = 0 then c else e_sub (fst_at sb f), e_size := z\<rparr>
        else fst_at sb g)"
    and rd: "\<And>c'. c' \<noteq> c \<Longrightarrow> ReadCluster lib (m_keys s) (m_nand s') c' = ReadCluster lib (m_keys s) (m_nand s) c'"
    by (rule WriteFileData_effect [OF ok sb wf cs k len wr], rule that, (assumption | blast)+)
  have h: "GenerateHmacForData lib (m_keys s) sb' d' g j = GenerateHmacForData lib (m_keys s) sb d' g j" for d'
    by (rule GenerateHmacForData_cong) (simp_all add: sb'(6))
  have n: "ds ! unat j \<noteq> c" using ds g(4) sb'(2) by (auto simp: file_clusters_def)
  obtain ds' where d': "clusters sb' g ds'" "unat j < length ds'" "ds' ! unat j = ds ! unat j"
  proof (cases "g = f")
    case True
    have "ds = cs" using ds cs True chain_unique by (auto simp: file_clusters_def clusters_def)
    moreover have "unat j \<noteq> unat i" using ne [OF True] by (metis word_unat_eq_iff)
    ultimately show ?thesis using that [of "put_at (unat i) c cs"] sb'(3) g(4) k True
      by (simp add: file_clusters_def length_put_at nth_put_at)
  next
    case False
    then show ?thesis using that [of ds] sb'(4) [OF False ds dis [OF False]] g(4) by (simp add: file_clusters_def)
  qed
  have v: "IsFile (fst_at sb' g)" "ucast j * of_nat CLUSTER_DATA_SIZE < e_size (fst_at sb' g)"
    using g f(3) by (auto simp: sb'(6) IsFile_def)
  have r: "ReadCluster lib (m_keys s) (m_nand s') (ds ! unat j) = ReadCluster lib (m_keys s) (m_nand s) (ds ! unat j)"
    by (rule rd [OF n])
  show ?thesis
    using read unfolding ReadFileData_eq [OF sb'(1) g(1) v d'(1,2)] ReadFileData_eq [OF sb g(1,2,3) dcl g(4)]
    unfolding d'(3) sb'(5) r h
    by (cases "ReadCluster lib (m_keys s) (m_nand s) (ds ! unat j)") (auto split: if_splits)
qed

section \<open>Free clusters\<close>

definition free_count :: "Superblock \<Rightarrow> nat" where
  "free_count sb = card {c. in_fat c \<and> fat_at sb c = CLUSTER_UNUSED}"

lemma free_count_pos:
  assumes "0 < free_count sb" "sb_wf sb"
  shows "CLUSTER_UNUSED \<in> set (sb_fat sb)"
proof -
  obtain c where "in_fat c" "fat_at sb c = CLUSTER_UNUSED"
    using assms(1) unfolding free_count_def by (metis (mono_tags, lifting) card.empty empty_Collect_eq less_numeral_extra(3))
  then show ?thesis using assms(2) by (metis fat_at_def in_fat_def nth_mem sb_wf_def)
qed

text \<open>The free clusters and those of the file together stay as many as they are.\<close>

lemma link_cluster_free_count:
  assumes wf: "sb_wf sb" and f: "in_fst f" and cs: "file_clusters sb f cs"
    and k: "unat i \<le> length cs" and c: "in_fat c" "fat_at sb c = CLUSTER_UNUSED"
    and link: "link_cluster f i z c sb = Some sb'"
  shows "free_count sb' + length (put_at (unat i) c cs) = free_count sb + length cs"
proof -
  let ?k = "unat i"
  let ?F = "{j. in_fat j \<and> fat_at sb j = CLUSTER_UNUSED}"
  have fat': "fat_at sb' j = (if ?k < length cs \<and> j = cs ! ?k then CLUSTER_UNUSED
      else if j = c then (if ?k < length cs then fat_at sb (cs ! ?k) else CLUSTER_LAST_IN_CHAIN)
      else if 0 < ?k \<and> j = cs ! (?k - 1) then c else fat_at sb j)" for j
    using link_cluster_result [OF wf f cs refl k c, of z] link by auto
  have used: "fat_at sb (cs ! m) \<noteq> CLUSTER_UNUSED" if "m < length cs" for m
    using cs nth_mem [OF that] by (simp add: file_clusters_def)
  have cu: "c \<noteq> CLUSTER_UNUSED" using c(1) by auto
  have prev: "0 < ?k \<Longrightarrow> fat_at sb (cs ! (?k - 1)) \<noteq> CLUSTER_UNUSED" using k by (intro used) simp
  have fin: "finite ?F" "c \<in> ?F" using c by auto
  show ?thesis
  proof (cases "?k < length cs")
    case True
    have v: "in_fat (cs ! ?k)" using cs nth_mem [OF True] chain_valid [of "fat_at sb" in_fat] by (auto simp: file_clusters_def clusters_def)
    have "fat_at sb' j = CLUSTER_UNUSED \<longleftrightarrow> j = cs ! ?k \<or> (j \<noteq> c \<and> fat_at sb j = CLUSTER_UNUSED)" for j
    proof (cases "0 < ?k \<and> j = cs ! (?k - 1)")
      case prv: True
      then have "fat_at sb j \<noteq> CLUSTER_UNUSED" "j \<noteq> c" using prev c(2) by auto
      then show ?thesis unfolding fat' using True prv cu by simp
    next
      case False
      then show ?thesis unfolding fat' using True used [OF True] by auto
    qed
    then have "{j. in_fat j \<and> fat_at sb' j = CLUSTER_UNUSED} = insert (cs ! ?k) (?F - {c})" using v by blast
    moreover have "cs ! ?k \<notin> ?F - {c}" using used [OF True] by simp
    ultimately have "free_count sb' = Suc (card (?F - {c}))" using fin by (simp add: free_count_def)
    then show ?thesis using card_Suc_Diff1 [OF fin] True by (simp add: free_count_def put_at_def)
  next
    case False
    then have "{j. in_fat j \<and> fat_at sb' j = CLUSTER_UNUSED} = ?F - {c}"
      using prev cu by (auto simp: fat' cluster_marks)
    then show ?thesis using card_Suc_Diff1 [OF fin] False by (simp add: free_count_def put_at_def)
  qed
qed

text \<open>
  The clusters of the superblocks are not free, so file data never goes there.
\<close>

definition area_reserved :: "Superblock \<Rightarrow> bool" where
  "area_reserved sb \<longleftrightarrow> (\<forall>c. in_fat c \<longrightarrow> SUPERBLOCK_START_CLUSTER \<le> c \<longrightarrow> fat_at sb c \<noteq> CLUSTER_UNUSED)"

text \<open>\<open>grown f sb sb'\<close>: only the first cluster and the size of \<open>f\<close> differ in the FST.\<close>

definition grown :: "u16 \<Rightarrow> Superblock \<Rightarrow> Superblock \<Rightarrow> bool" where
  "grown f sb sb' \<longleftrightarrow> (\<forall>g. g \<noteq> f \<longrightarrow> fst_at sb' g = fst_at sb g) \<and>
     (\<exists>a z. fst_at sb' f = (fst_at sb f)\<lparr>e_sub := a, e_size := z\<rparr>)"

lemma grown_refl: "grown f sb sb"
  unfolding grown_def by (intro conjI exI [of _ "e_sub (fst_at sb f)"] exI [of _ "e_size (fst_at sb f)"]) simp_all

lemma grown_trans: "grown f sb sb' \<Longrightarrow> grown f sb' sb'' \<Longrightarrow> grown f sb sb''"
  unfolding grown_def
proof (elim conjE exE, intro conjI allI impI)
  fix a z a' z'
  assume "fst_at sb' f = (fst_at sb f)\<lparr>e_sub := a, e_size := z\<rparr>" "fst_at sb'' f = (fst_at sb' f)\<lparr>e_sub := a', e_size := z'\<rparr>"
  then have "fst_at sb'' f = (fst_at sb f)\<lparr>e_sub := a', e_size := z'\<rparr>" by simp
  then show "\<exists>a z. fst_at sb'' f = (fst_at sb f)\<lparr>e_sub := a, e_size := z\<rparr>" by blast
qed simp

lemma link_cluster_area:
  assumes wf: "sb_wf sb" and f: "in_fst f" and cs: "file_clusters sb f cs"
    and k: "unat i \<le> length cs" and c: "in_fat c" "fat_at sb c = CLUSTER_UNUSED"
    and link: "link_cluster f i z c sb = Some sb'" and area: "area_reserved sb" "\<forall>c\<in>set cs. c < SUPERBLOCK_START_CLUSTER"
  shows "area_reserved sb'" "c < SUPERBLOCK_START_CLUSTER"
proof -
  show new: "c < SUPERBLOCK_START_CLUSTER" using area c by (auto simp: area_reserved_def not_le [symmetric])
  have "fat_at sb' j = fat_at sb j" if j: "SUPERBLOCK_START_CLUSTER \<le> j" for j
  proof -
    have jc: "j \<noteq> c" "j \<notin> set cs" using j new area(2) by auto
    have nth: "unat i < length cs \<Longrightarrow> j \<noteq> cs ! unat i" "0 < unat i \<Longrightarrow> j \<noteq> cs ! (unat i - 1)"
      using jc(2) k nth_mem [of "unat i" cs] nth_mem [of "unat i - 1" cs] by fastforce+
    then show ?thesis
      using link_cluster_result [OF wf f cs refl k c, of z] link jc(1) by force
  qed
  then show "area_reserved sb'" using area(1) by (simp add: area_reserved_def)
qed

lemma versions_upto_write:
  assumes up: "versions_upto lib s" and sb: "m_superblock s = Some sb"
    and sb': "sb_wf sb'" "sb_version sb' = sb_version sb" "sb_magic sb' = sb_magic sb"
    and same: "\<And>c. SUPERBLOCK_START_CLUSTER \<le> c \<Longrightarrow> ReadCluster lib (m_keys s) nand' c = ReadCluster lib (m_keys s) (m_nand s) c"
  shows "versions_upto lib (s\<lparr>m_nand := nand', m_superblock := Some sb'\<rparr>)"
proof -
  have "slot lib (m_keys s) nand' k = slot lib (m_keys s) (m_nand s) k" if k: "k < NUMBER_OF_SUPERBLOCKS" for k
  proof -
    have "ReadCluster lib (m_keys s) nand' (sb_cluster k i) = ReadCluster lib (m_keys s) (m_nand s) (sb_cluster k i)"
      if "i < CLUSTERS_PER_SUPERBLOCK" for i
      by (rule same) (simp add: word_le_nat_alt unat_sb_cluster [OF k that], simp add: layout_consts)
    then show ?thesis using ReadSuperblock_cong [OF k, of lib "m_keys s" nand' "m_nand s"] by (simp add: slot_def)
  qed
  then show ?thesis using up sb sb' by (simp add: versions_upto_def)
qed

lemma WriteFileData_put:
  assumes ok: "mbedtls_ok lib" and sb: "m_superblock s = Some sb" and wf: "sb_wf sb" and f: "in_fst f"
    and cs: "file_clusters sb f cs" and k: "unat i \<le> length cs" and len: "length data = CLUSTER_DATA_SIZE"
    and fl: "IsFile (fst_at sb f)" "e_size (fst_at sb f) < z" and free: "0 < free_count sb"
    and area: "area_reserved sb" "\<forall>c\<in>set cs. c < SUPERBLOCK_START_CLUSTER" and up: "versions_upto lib s"
  obtains s' sb' c where "WriteFileData lib f data i z s = (Success, s')" "m_superblock s' = Some sb'" "sb_wf sb'"
    "file_clusters sb' f (put_at (unat i) c cs)" "IsFile (fst_at sb' f)" "e_size (fst_at sb' f) = z"
    "free_count sb' + length (put_at (unat i) c cs) = free_count sb + length cs"
    "m_keys s' = m_keys s" "s' = s\<lparr>m_nand := m_nand s', m_superblock := Some sb'\<rparr>"
    "grown f sb sb'" "area_reserved sb'" "\<forall>c\<in>set (put_at (unat i) c cs). c < SUPERBLOCK_START_CLUSTER" "versions_upto lib s'"
proof -
  obtain c sb' nand' where r: "WriteFileData lib f data i z s = (Success, s\<lparr>m_nand := nand', m_superblock := Some sb'\<rparr>)"
    and c: "in_fat c" "fat_at sb c = CLUSTER_UNUSED" "link_cluster f i z c sb = Some sb'"
    and rd: "\<forall>c'. c' \<noteq> c \<longrightarrow> ReadCluster lib (m_keys s) nand' c' = ReadCluster lib (m_keys s) (m_nand s) c'"
    using WriteFileData_steps [OF ok sb wf f cs k len fl free_count_pos [OF free wf]] by auto
  obtain w: "sb_wf sb'" and fst': "fst_at sb' f = (fst_at sb f)\<lparr>e_sub := if unat i = 0 then c else e_sub (fst_at sb f), e_size := z\<rparr>"
    and v: "sb_version sb' = sb_version sb" "sb_magic sb' = sb_magic sb"
    and others: "\<And>g. g \<noteq> f \<Longrightarrow> fst_at sb' g = fst_at sb g"
    using link_cluster_result [OF wf f cs refl k c(1,2), of z] c(3) by auto
  have gr: "grown f sb sb'"
    unfolding grown_def by (intro conjI allI impI others exI) (assumption | rule fst')+
  note ar = link_cluster_area [OF wf f cs k c area]
  have up': "versions_upto lib (s\<lparr>m_nand := nand', m_superblock := Some sb'\<rparr>)"
  proof (rule versions_upto_write [OF up sb w v])
    fix c' :: u16
    assume "SUPERBLOCK_START_CLUSTER \<le> c'"
    then have "c' \<noteq> c" using ar(2) by auto
    then show "ReadCluster lib (m_keys s) nand' c' = ReadCluster lib (m_keys s) (m_nand s) c'" using rd by blast
  qed
  have low: "\<forall>c\<in>set (put_at (unat i) c cs). c < SUPERBLOCK_START_CLUSTER" using set_put_at [of "unat i" c cs] ar(2) area(2) by auto
  note fc = link_cluster_clusters(1) [OF wf f cs refl k c(1,2,3)]
  show thesis
    by (rule that [OF r _ w fc]) (use fst' fl(1) gr ar low up' link_cluster_free_count [OF wf f cs k c] in \<open>simp_all add: IsFile_def\<close>)
qed

section \<open>Properties\<close>

text \<open>
  C28 The outcome of \<^verbatim>\<open>WriteFileData\<close> in every state and for every position. An index outside the
  table gives \<^verbatim>\<open>Invalid\<close> and changes nothing. Otherwise the superblock is fetched, which leaves the
  image alone, and these errors leave the state as it is then: \<^verbatim>\<open>SuperblockInitFailed\<close> without one,
  \<^verbatim>\<open>Invalid\<close> for an entry that is not a file or a size that does not grow, \<^verbatim>\<open>NoFreeSpace\<close> without
  a free cluster. In all other cases the data is in a formerly free cluster and no other cluster
  reads differently: when the position is not the first and the chain ends before the position in
  front of it, the call still returns \<^verbatim>\<open>Invalid\<close> with the superblock as it was, the only error
  that changes the image; otherwise it succeeds.
\<close>

theorem write_file_data_outcome:
  assumes "mbedtls_ok lib" and "\<And>sb. m_superblock s = Some sb \<Longrightarrow> sb_wf sb" and "length data = CLUSTER_DATA_SIZE"
    and "GetSuperblock lib s = (superblock, s1)" and "WriteFileData lib f data i z s = (result, s')"
  shows "m_nand s1 = m_nand s \<and>
    (if \<not> in_fst f then result = Invalid \<and> s' = s
     else case superblock of None \<Rightarrow> result = SuperblockInitFailed \<and> s' = s1
     | Some sb \<Rightarrow>
         if \<not> IsFile (fst_at sb f) \<or> z \<le> e_size (fst_at sb f) then result = Invalid \<and> s' = s1
         else if CLUSTER_UNUSED \<notin> set (sb_fat sb) then result = NoFreeSpace \<and> s' = s1
         else (\<exists>c hash. in_fat c \<and> fat_at sb c = CLUSTER_UNUSED \<and>
           ReadCluster lib (m_keys s) (m_nand s') c = Inr \<lparr>rr_data = data, rr_hmac1 = hash, rr_hmac2 = hash\<rparr> \<and>
           (\<forall>c'. c' \<noteq> c \<longrightarrow> ReadCluster lib (m_keys s) (m_nand s') c' = ReadCluster lib (m_keys s) (m_nand s) c') \<and>
           (if i \<noteq> 0 \<and> GetClusterForFile sb (e_sub (fst_at sb f)) (unat i - 1) = None
            then result = Invalid \<and> s' = s1\<lparr>m_nand := m_nand s'\<rparr>
            else result = Success \<and> (\<exists>sb'. link_cluster f i z c sb = Some sb' \<and>
              s' = s1\<lparr>m_nand := m_nand s', m_superblock := Some sb'\<rparr>))))"
proof -
  have same: "m_nand s1 = m_nand s" "m_keys s1 = m_keys s" using GetSuperblock_handles(7,8) [of lib s] assms(4) by simp_all
  show ?thesis
  proof (cases "\<exists>sb. superblock = Some sb \<and> in_fst f \<and> IsFile (fst_at sb f) \<and> e_size (fst_at sb f) < z \<and> CLUSTER_UNUSED \<in> set (sb_fat sb)")
    case False
    have "find_if (\<lambda>c. c = CLUSTER_UNUSED) (sb_fat sb) = FAT_SIZE" if "superblock = Some sb" "CLUSTER_UNUSED \<notin> set (sb_fat sb)" for sb
      using that assms(4) GetSuperblock_wf [OF assms(2), of s lib] find_if_end [of "\<lambda>c. c = CLUSTER_UNUSED" "sb_fat sb"]
      by (auto simp: sb_wf_def)
    then show ?thesis
      using False assms(4,5) same by (auto simp: WriteFileData_def Let_def not_le [symmetric] split: option.splits)
  next
    case True
    then obtain sb where sb: "superblock = Some sb" "in_fst f" "IsFile (fst_at sb f)" "e_size (fst_at sb f) < z"
      "CLUSTER_UNUSED \<in> set (sb_fat sb)" by blast
    have wf: "sb_wf sb" using GetSuperblock_wf [OF assms(2)] assms(4) sb(1) by blast
    define c where "c = (of_nat (find_if (\<lambda>c. c = CLUSTER_UNUSED) (sb_fat sb)) :: u16)"
    have n: "find_if (\<lambda>c. c = CLUSTER_UNUSED) (sb_fat sb) \<noteq> FAT_SIZE"
      using sb(5) find_if_end [of "\<lambda>c. c = CLUSTER_UNUSED" "sb_fat sb"] wf by (auto simp: sb_wf_def)
    have c: "in_fat c" "fat_at sb c = CLUSTER_UNUSED" "c < 0x8000" unfolding c_def by (rule free_cluster [OF wf n])+
    let ?hash = "GenerateHmacForData lib (m_keys s) sb data f i"
    obtain nand' where w: "WriteCluster lib (m_keys s) (m_nand s) c data ?hash = (Success, nand')"
      and rd: "ReadCluster lib (m_keys s) nand' c = Inr \<lparr>rr_data = data, rr_hmac1 = ?hash, rr_hmac2 = ?hash\<rparr>"
        "\<forall>c'. c' \<noteq> c \<longrightarrow> ReadCluster lib (m_keys s) nand' c' = ReadCluster lib (m_keys s) (m_nand s) c'"
      using WriteCluster_Success [OF assms(1) c(3) assms(3) length_GenerateHmacForData [OF assms(1)]] by blast
    have z: "(z \<le> e_size (fst_at sb f)) = False" using sb(4) by simp
    have go: "WriteFileData lib f data i z s = (case link_cluster f i z c sb of
        None \<Rightarrow> (Invalid, s1\<lparr>m_nand := nand'\<rparr>) | Some sb' \<Rightarrow> (Success, s1\<lparr>m_nand := nand', m_superblock := Some sb'\<rparr>))"
      using assms(4) sb(1-3) n w same by (simp add: WriteFileData_def Let_def c_def [symmetric] z)
    have "link_cluster f i z c sb = None \<longleftrightarrow> i \<noteq> 0 \<and> GetClusterForFile sb (e_sub (fst_at sb f)) (unat i - 1) = None"
      by (auto simp: link_cluster_def Let_def split: option.splits)
    then show ?thesis
      using go assms(5) sb c(1,2) rd same(1) by (cases "link_cluster f i z c sb") (auto simp: z intro!: exI [of _ c])
  qed
qed

lemma demo_file_b: "file_clusters demo_sb 3 [64]"
  by (simp add: file_clusters_def clusters_def demo_fat in_fat_def FAT_SIZE_def cluster_marks)

lemma demo_free: "0 < free_count demo_sb"
proof -
  have "in_fat 65 \<and> fat_at demo_sb 65 = CLUSTER_UNUSED" by (simp add: demo_fat in_fat_def FAT_SIZE_def layout_consts)
  then have "{c. in_fat c \<and> fat_at demo_sb c = CLUSTER_UNUSED} \<noteq> {}" by blast
  then show ?thesis by (simp add: free_count_def card_gt_0_iff)
qed

text \<open>The demonstration image after a write to the file \<open>/d/b\<close>.\<close>

lemma demo_write:
  "\<exists>s'. WriteFileData demo_mbedtls 3 (replicate CLUSTER_DATA_SIZE 7) 0 6 demo_fs = (Success, s')"
  using WriteFileData_steps [OF demo_mbedtls_ok demo_fs_fields(1) sb_wf_demo _ demo_file_b, of 0 "replicate CLUSTER_DATA_SIZE 7" 6]
    free_count_pos [OF demo_free sb_wf_demo]
  by (auto simp: in_fst_def FST_SIZE_def IsFile_def)

text \<open>The chain of \<open>/d/b\<close> has one cluster: a write at position 2 reaches the image and is then refused.\<close>

lemma write_file_data_outcome_witness:
  "\<exists>s' c hash. WriteFileData demo_mbedtls 3 (replicate CLUSTER_DATA_SIZE 7) 2 6 demo_fs = (Invalid, s') \<and>
    m_superblock s' = m_superblock demo_fs \<and> fat_at demo_sb c = CLUSTER_UNUSED \<and> ReadCluster demo_mbedtls (m_keys demo_fs) (m_nand s') c
      = Inr \<lparr>rr_data = replicate CLUSTER_DATA_SIZE 7, rr_hmac1 = hash, rr_hmac2 = hash\<rparr>"
proof -
  obtain r s' where w: "WriteFileData demo_mbedtls 3 (replicate CLUSTER_DATA_SIZE 7) 2 6 demo_fs = (r, s')" by fastforce
  have wf: "sb_wf sb" if "m_superblock demo_fs = Some sb" for sb using that sb_wf_demo demo_fs_fields(1) by simp
  have e: "in_fst (3 :: u16)" "IsFile (fst_at demo_sb 3)" "\<not> (6 :: u32) \<le> e_size (fst_at demo_sb 3)"
    "CLUSTER_UNUSED \<in> set (sb_fat demo_sb)" "GetClusterForFile demo_sb (e_sub (fst_at demo_sb 3)) (unat (2 :: u16) - 1) = None"
    using GetClusterForFile_chain [OF demo_file_b [unfolded file_clusters_def clusters_def, THEN conjunct1], of 1]
      free_count_pos [OF demo_free sb_wf_demo] by (simp_all add: in_fst_def FST_SIZE_def IsFile_def)
  obtain c hash where c: "fat_at demo_sb c = CLUSTER_UNUSED" "r = Invalid" "s' = demo_fs\<lparr>m_nand := m_nand s'\<rparr>"
    "ReadCluster demo_mbedtls (m_keys demo_fs) (m_nand s') c
      = Inr \<lparr>rr_data = replicate CLUSTER_DATA_SIZE 7, rr_hmac1 = hash, rr_hmac2 = hash\<rparr>"
    using write_file_data_outcome [OF demo_mbedtls_ok wf _ GetSuperblock_loaded [OF demo_fs_fields(1)] w] e by auto
  moreover have "m_superblock s' = m_superblock demo_fs" using arg_cong [OF c(3), of m_superblock] by simp
  ultimately show ?thesis using w by blast
qed

text \<open>
  C27 Writing one cluster of a file. After a success, reading that cluster gives the data
  back; every other cluster of the file and every cluster of a file with disjoint clusters
  reads as before; the file's cluster list has a formerly unused cluster at the position,
  the cluster it replaces is free again, and the entry has the new size.
\<close>

theorem write_file_data_spec:
  assumes "mbedtls_ok lib" and "m_superblock s = Some sb" and "sb_wf sb" and "file_clusters sb f cs"
    and "unat i \<le> length cs" and "length data = CLUSTER_DATA_SIZE"
    and "WriteFileData lib f data i z s = (Success, s')" and "ucast i * of_nat CLUSTER_DATA_SIZE < z"
  shows "ReadFileData lib f i s' = Some (Inr data, s') \<and>
    (\<forall>g ds j d. file_clusters sb g ds \<longrightarrow> (g = f \<longrightarrow> j \<noteq> i) \<longrightarrow> (g \<noteq> f \<longrightarrow> set ds \<inter> set cs = {}) \<longrightarrow>
       ReadFileData lib g j s = Some (Inr d, s) \<longrightarrow> ReadFileData lib g j s' = Some (Inr d, s')) \<and>
    (\<exists>sb' c. m_superblock s' = Some sb' \<and> fat_at sb c = CLUSTER_UNUSED \<and> file_clusters sb' f (put_at (unat i) c cs) \<and>
       (unat i < length cs \<longrightarrow> fat_at sb' (cs ! unat i) = CLUSTER_UNUSED) \<and> e_size (fst_at sb' f) = z)"
proof (intro conjI allI impI)
  show "ReadFileData lib f i s' = Some (Inr data, s')" by (rule read_after_write [OF assms])
  show "ReadFileData lib g j s' = Some (Inr d, s')"
    if "file_clusters sb g ds" "g = f \<longrightarrow> j \<noteq> i" "g \<noteq> f \<longrightarrow> set ds \<inter> set cs = {}" "ReadFileData lib g j s = Some (Inr d, s)" for g ds j d
    by (rule read_other_after_write [OF assms(1-7) that(1) _ _ that(4)]) (use that(2,3) in blast)+
  show "\<exists>sb' c. m_superblock s' = Some sb' \<and> fat_at sb c = CLUSTER_UNUSED \<and> file_clusters sb' f (put_at (unat i) c cs) \<and>
       (unat i < length cs \<longrightarrow> fat_at sb' (cs ! unat i) = CLUSTER_UNUSED) \<and> e_size (fst_at sb' f) = z"
    by (rule WriteFileData_effect [OF assms(1-7)]) auto
qed

lemma write_file_data_spec_witness:
  "\<exists>s'. WriteFileData demo_mbedtls 3 (replicate CLUSTER_DATA_SIZE 7) 0 6 demo_fs = (Success, s') \<and>
    ReadFileData demo_mbedtls 3 0 s' = Some (Inr (replicate CLUSTER_DATA_SIZE 7), s')"
proof -
  obtain s' where s': "WriteFileData demo_mbedtls 3 (replicate CLUSTER_DATA_SIZE 7) 0 6 demo_fs = (Success, s')"
    using demo_write by blast
  then show ?thesis
    using write_file_data_spec [OF demo_mbedtls_ok demo_fs_fields(1) sb_wf_demo demo_file_b _ _ s'] by simp
qed

text \<open>
  C29 Integrity of file data: whatever the image holds, data that \<^verbatim>\<open>ReadFileData\<close> returns is the
  content of the cluster the FAT names for the position, and one of the codes stored with it
  is the code of exactly this data for this file and position.
\<close>

theorem read_file_data_verified:
  assumes "ReadFileData lib f i s = Some (Inr d, s')"
  shows "\<exists>sb c r. m_superblock s' = Some sb \<and> IsFile (fst_at sb f) \<and>
    GetClusterForFile sb (e_sub (fst_at sb f)) (unat i) = Some c \<and>
    ReadCluster lib (m_keys s) (m_nand s) c = Inr r \<and> d = rr_data r \<and>
    GenerateHmacForData lib (m_keys s) sb d f i \<in> {rr_hmac1 r, rr_hmac2 r}"
proof -
  obtain g s1 where g: "GetSuperblock lib s = (g, s1)" by (cases "GetSuperblock lib s")
  obtain sb where sb: "g = Some sb" "m_superblock s1 = Some sb"
    using assms g GetSuperblock_cases [of lib s] by (cases g) (auto simp: ReadFileData_def split: if_splits)
  have k: "m_keys s1 = m_keys s" "m_nand s1 = m_nand s" using GetSuperblock_handles(7,8) [of lib s] g by simp_all
  show ?thesis
    using assms g sb k by (auto simp: ReadFileData_def Let_def split: if_splits option.splits sum.splits)
qed

lemma read_file_data_verified_witness:
  "\<exists>(s' :: FileSystemImpl) sb c r. m_superblock s' = Some sb \<and> ReadCluster demo_mbedtls (m_keys s') (m_nand s') c = Inr r \<and>
     rr_data r = replicate CLUSTER_DATA_SIZE 7 \<and>
     GenerateHmacForData demo_mbedtls (m_keys s') sb (rr_data r) 3 0 \<in> {rr_hmac1 r, rr_hmac2 r}"
proof -
  obtain s' where w: "WriteFileData demo_mbedtls 3 (replicate CLUSTER_DATA_SIZE 7) 0 6 demo_fs = (Success, s')"
    using demo_write by blast
  have r: "ReadFileData demo_mbedtls 3 0 s' = Some (Inr (replicate CLUSTER_DATA_SIZE 7), s')"
    using read_after_write [OF demo_mbedtls_ok demo_fs_fields(1) sb_wf_demo demo_file_b _ _ w] by simp
  obtain sb c rr where x: "m_superblock s' = Some sb" "ReadCluster demo_mbedtls (m_keys s') (m_nand s') c = Inr rr"
    "replicate CLUSTER_DATA_SIZE 7 = rr_data rr"
    "GenerateHmacForData demo_mbedtls (m_keys s') sb (replicate CLUSTER_DATA_SIZE 7) 3 0 \<in> {rr_hmac1 rr, rr_hmac2 rr}"
    using read_file_data_verified [OF r] by blast
  show ?thesis
    by (intro exI [of _ s'] exI [of _ sb] exI [of _ c] exI [of _ rr] conjI) (use x in simp_all)
qed

end
