(* ===== verification/FstOps.thy ===== *)
theory FstOps
  imports FileData
begin

text \<open>
  The static functions of \<^verbatim>\<open>driver/fs.cpp\<close> on the in-memory superblock: freeing the clusters
  of a file, deleting a directory's contents, unlinking an entry from its directory, and
  counting a directory's usage. Walks over cyclic chains and reads outside the tables have
  no result (\<open>None\<close>).
\<close>

section \<open>The operations\<close>

partial_function (option) free_chain :: "u16 \<Rightarrow> Superblock \<Rightarrow> Superblock option" where
  "free_chain i superblock =
     (if \<not> in_fat i then Some superblock
      else let next_cluster = fat_at superblock i in
           free_chain next_cluster (set_fat i CLUSTER_UNUSED superblock))"

definition DeleteFile :: "Superblock \<Rightarrow> u16 \<Rightarrow> Superblock option" where
  "DeleteFile superblock fst_index = do {
     sb1 \<leftarrow> free_chain (e_sub (fst_at superblock fst_index)) superblock;
     Some (upd_fst fst_index (\<lambda>e. e\<lparr>e_mode := 0\<rparr>) sb1)
   }"

text \<open>The loop of \<^verbatim>\<open>DeleteDirectoryContents\<close> from the given child on.\<close>

partial_function (option) delete_from :: "u16 \<Rightarrow> Superblock \<Rightarrow> Superblock option" where
  "delete_from child superblock =
     (if \<not> in_fst child then Some superblock
      else do {
        sb1 \<leftarrow> (if IsDirectory (fst_at superblock child)
                then delete_from (e_sub (fst_at superblock child)) superblock
                else DeleteFile superblock child);
        delete_from (e_sib (fst_at sb1 child)) sb1
      })"

definition DeleteDirectoryContents :: "Superblock \<Rightarrow> u16 \<Rightarrow> Superblock option" where
  "DeleteDirectoryContents superblock directory = delete_from (e_sub (fst_at superblock directory)) superblock"

text \<open>The search of \<^verbatim>\<open>RemoveFstEntryFromChain\<close> among the siblings.\<close>

partial_function (option) unlink_from :: "Superblock \<Rightarrow> u16 \<Rightarrow> u16 \<Rightarrow> u16 \<Rightarrow> (ResultCode \<times> Superblock) option" where
  "unlink_from superblock child previous index =
     (if \<not> in_fst index then Some (NotFound, superblock)
      else if index = child then
        Some (Success, upd_fst child (\<lambda>e. e\<lparr>e_mode := 0\<rparr>)
          (set_sib previous (e_sib (fst_at superblock child)) superblock))
      else unlink_from superblock child index (e_sib (fst_at superblock index)))"

definition RemoveFstEntryFromChain :: "Superblock \<Rightarrow> u16 \<Rightarrow> u16 \<Rightarrow> (ResultCode \<times> Superblock) option" where
  "RemoveFstEntryFromChain superblock parent_index child =
     (if e_sub (fst_at superblock parent_index) = child then
        let sb1 = upd_fst parent_index (\<lambda>e. e\<lparr>e_sub := e_sib (fst_at superblock child)\<rparr>) superblock
        in Some (Success, upd_fst child (\<lambda>e. e\<lparr>e_mode := 0\<rparr>) sb1)
      else
        let previous = e_sub (fst_at superblock parent_index) in
        if \<not> in_fst previous then None
        else unlink_from superblock child previous (e_sib (fst_at superblock previous)))"

text \<open>The loop of \<^verbatim>\<open>CountDirectoryRecursively\<close> with its two counters.\<close>

partial_function (option) count_from :: "Superblock \<Rightarrow> u16 \<Rightarrow> u32 \<Rightarrow> u32 \<Rightarrow> (u32 \<times> u32) option" where
  "count_from superblock child uc ui =
     (if \<not> in_fst child then Some (uc, ui)
      else if IsFile (fst_at superblock child) then
        count_from superblock (e_sib (fst_at superblock child))
          (uc + (e_size (fst_at superblock child) + 0x3fff) div 0x4000) (ui + 1)
      else do {
        (stats_clusters, stats_inodes) \<leftarrow> count_from superblock (e_sub (fst_at superblock child)) 0 1;
        count_from superblock (e_sib (fst_at superblock child))
          (uc + stats_clusters) (ui + stats_inodes)
      })"

definition CountDirectoryRecursively :: "Superblock \<Rightarrow> u16 \<Rightarrow> DirectoryStats option" where
  "CountDirectoryRecursively superblock directory = do {
     (uc, ui) \<leftarrow> count_from superblock (e_sub (fst_at superblock directory)) 0 1;
     Some \<lparr>ds_used_clusters = uc, ds_used_inodes = ui\<rparr>
   }"

section \<open>Freeing clusters\<close>

text \<open>
  The walk of \<^verbatim>\<open>DeleteFile\<close> ends on every FAT, also on a cyclic one: each visited entry is
  overwritten by a mark that is not an index.
\<close>

definition links :: "Superblock \<Rightarrow> nat" where
  "links sb = length (filter in_fat (sb_fat sb))"

lemma links_set_fat:
  assumes "sb_wf sb" "in_fat i" "in_fat (fat_at sb i)"
  shows "links (set_fat i CLUSTER_UNUSED sb) < links sb"
proof -
  have i: "unat i < length (sb_fat sb)" using assms by (simp add: sb_wf_def in_fat_def)
  then have "sb_fat sb = take (unat i) (sb_fat sb) @ fat_at sb i # drop (Suc (unat i)) (sb_fat sb)"
    unfolding fat_at_def by (rule id_take_nth_drop)
  then have "filter in_fat (sb_fat sb) = filter in_fat (take (unat i) (sb_fat sb))
      @ filter in_fat (fat_at sb i # drop (Suc (unat i)) (sb_fat sb))"
    by (metis filter_append)
  then have "links sb = length (filter in_fat (take (unat i) (sb_fat sb))) + 1 + length (filter in_fat (drop (Suc (unat i)) (sb_fat sb)))"
    using assms(3) by (simp add: links_def)
  moreover have "links (set_fat i CLUSTER_UNUSED sb)
    = length (filter in_fat (take (unat i) (sb_fat sb))) + length (filter in_fat (drop (Suc (unat i)) (sb_fat sb)))"
    using i by (simp add: links_def set_fat_def upd_conv_take_nth_drop)
  ultimately show ?thesis by simp
qed

lemma free_chain_returns: "sb_wf sb \<Longrightarrow> \<exists>sb'. free_chain i sb = Some sb'"
proof (induction "links sb" arbitrary: i sb rule: less_induct)
  case less
  show ?case
  proof (cases "in_fat i \<and> in_fat (fat_at sb i)")
    case True
    then have "\<exists>sb'. free_chain (fat_at sb i) (set_fat i CLUSTER_UNUSED sb) = Some sb'"
      using less links_set_fat [OF less.prems] by simp
    then show ?thesis using True by (subst free_chain.simps) (simp add: Let_def)
  next
    case False
    have stop: "free_chain j sb1 = Some sb1" if "\<not> in_fat j" for j sb1
      using that by (subst free_chain.simps) simp
    show ?thesis using False stop by (cases "in_fat i") (auto simp: Let_def free_chain.simps [of i])
  qed
qed

lemma free_chain_wf: "free_chain i sb = Some sb' \<Longrightarrow> sb_wf sb' = sb_wf sb"
  and free_chain_fst: "free_chain i sb = Some sb' \<Longrightarrow> sb_fst sb' = sb_fst sb \<and> sb_magic sb' = sb_magic sb \<and> sb_version sb' = sb_version sb"
  by (induction rule: free_chain.raw_induct [rotated, consumes 1]) (auto simp: Let_def split: if_splits)

lemma free_chain_chain:
  assumes "sb_wf sb" "chain (fat_at sb) in_fat i cs"
  shows "\<exists>sb'. free_chain i sb = Some sb' \<and> (\<forall>j. fat_at sb' j = (if j \<in> set cs then CLUSTER_UNUSED else fat_at sb j))"
  using assms
proof (induction cs arbitrary: i sb)
  case Nil
  then show ?case by (subst free_chain.simps) simp
next
  case (Cons c cs)
  have c: "i = c" "in_fat c" "c \<notin> set cs" "chain (fat_at sb) in_fat (fat_at sb c) cs"
    using Cons.prems chain_distinct [OF Cons.prems(2)] by auto
  have "chain (fat_at (set_fat c CLUSTER_UNUSED sb)) in_fat (fat_at sb c) cs"
    by (rule fat.frame [OF Cons.prems(1) c(2,3,4)])
  then obtain sb' where "free_chain (fat_at sb c) (set_fat c CLUSTER_UNUSED sb) = Some sb'"
    "\<forall>j. fat_at sb' j = (if j \<in> set cs then CLUSTER_UNUSED else fat_at (set_fat c CLUSTER_UNUSED sb) j)"
    using Cons.IH [of "set_fat c CLUSTER_UNUSED sb" "fat_at sb c"] Cons.prems(1) by auto
  then show ?case
    using c by (subst free_chain.simps) (auto simp: Let_def fat_updates [OF Cons.prems(1) c(2)])
qed

lemma DeleteFile_returns: "sb_wf sb \<Longrightarrow> \<exists>sb'. DeleteFile sb f = Some sb'"
  using free_chain_returns [of sb "e_sub (fst_at sb f)"] by (auto simp: DeleteFile_def)

lemma DeleteFile_fst:
  assumes "DeleteFile sb f = Some sb'" "sb_wf sb"
  shows "sb_wf sb'" "fst_at sb' g = (if g = f \<and> in_fst f then (fst_at sb g)\<lparr>e_mode := 0\<rparr> else fst_at sb g)"
    "sb_magic sb' = sb_magic sb" "sb_version sb' = sb_version sb"
proof -
  obtain sb1 where sb1: "free_chain (e_sub (fst_at sb f)) sb = Some sb1" "sb' = upd_fst f (\<lambda>e. e\<lparr>e_mode := 0\<rparr>) sb1"
    using assms(1) by (auto simp: DeleteFile_def bind_eq_Some_conv)
  have s: "sb_wf sb1" "sb_fst sb1 = sb_fst sb" "sb_magic sb1 = sb_magic sb" "sb_version sb1 = sb_version sb"
    using free_chain_wf [OF sb1(1)] free_chain_fst [OF sb1(1)] assms(2) by auto
  then have f: "fst_at sb1 g = fst_at sb g" for g by (simp add: fst_at_def)
  show "sb_wf sb'" using sb1(2) s(1) entry_wf_fst_at [OF s(1)] by (auto intro!: sb_wf_upd_fst)
  show "fst_at sb' g = (if g = f \<and> in_fst f then (fst_at sb g)\<lparr>e_mode := 0\<rparr> else fst_at sb g)"
    using sb1(2) s(2) f assms(2) by (auto simp: fst_at_upd_fst in_fst_def sb_wf_def)
  show "sb_magic sb' = sb_magic sb" "sb_version sb' = sb_version sb" using sb1(2) s by simp_all
qed

lemma DeleteFile_clusters:
  assumes "sb_wf sb" "clusters sb f cs"
  shows "\<exists>sb'. DeleteFile sb f = Some sb' \<and>
    (\<forall>j. fat_at sb' j = (if j \<in> set cs then CLUSTER_UNUSED else fat_at sb j))"
  using free_chain_chain [OF assms(1)] assms(2) by (fastforce simp: DeleteFile_def clusters_def)

section \<open>Unlinking an entry\<close>

lemma unlink_from_chain:
  assumes "chain (next_sib sb) in_fst i (xs @ c # ys)" "xs \<noteq> []"
  shows "unlink_from sb c (hd xs) (next_sib sb (hd xs)) = Some (Success,
    upd_fst c (\<lambda>e. e\<lparr>e_mode := 0\<rparr>) (set_sib (last xs) (next_sib sb c) sb))"
  using assms
proof (induction xs arbitrary: i)
  case Nil
  then show ?case by simp
next
  case (Cons x xs)
  have ch: "chain (next_sib sb) in_fst (next_sib sb x) (xs @ c # ys)" using Cons.prems by auto
  show ?case
  proof (cases xs)
    case Nil
    then show ?thesis using ch by (subst unlink_from.simps) (auto simp: next_sib_def)
  next
    case (Cons y zs)
    have "y \<noteq> c" using chain_distinct [OF ch] Cons by auto
    moreover have "next_sib sb x = y" "in_fst y" using ch Cons by auto
    moreover have "unlink_from sb c y (next_sib sb y) = Some (Success,
        upd_fst c (\<lambda>e. e\<lparr>e_mode := 0\<rparr>) (set_sib (last xs) (next_sib sb c) sb))"
      using Cons.IH [OF ch] Cons by simp
    ultimately show ?thesis using Cons by (subst unlink_from.simps) (simp add: next_sib_def)
  qed
qed

lemma unlink_from_missing:
  assumes "chain (next_sib sb) in_fst i xs" "c \<notin> set xs"
  shows "unlink_from sb c p i = Some (NotFound, sb)"
  using assms
proof (induction xs arbitrary: i p)
  case Nil
  then show ?case by (subst unlink_from.simps) simp
next
  case (Cons x xs)
  then show ?case by (subst unlink_from.simps) (auto simp: next_sib_def)
qed

lemma fst_at_upd: "sb_wf sb \<Longrightarrow> in_fst i \<Longrightarrow> fst_at (upd_fst i f sb) j = (if j = i then f (fst_at sb i) else fst_at sb j)"
  by (auto simp: fst_at_upd_fst sb_wf_def in_fst_def)

lemma sb_wf_upd_same: "sb_wf sb \<Longrightarrow> (\<And>e. entry_wf (f e) = entry_wf e) \<Longrightarrow> sb_wf (upd_fst i f sb)"
  by (rule sb_wf_upd_fst) (simp_all add: entry_wf_fst_at)

lemma children_cong:
  assumes "children sb q zs" "e_sub (fst_at sb' q) = e_sub (fst_at sb q)" "\<And>z. z \<in> set zs \<Longrightarrow> e_sib (fst_at sb' z) = e_sib (fst_at sb z)"
  shows "children sb' q zs"
  using assms chain_cong [of "next_sib sb" in_fst "e_sub (fst_at sb q)" zs "next_sib sb'"]
  by (simp add: children_def next_sib_def)

text \<open>
  Removing a child takes it out of the child list of its parent, marks its entry unused and
  changes nothing else.
\<close>

lemma RemoveFstEntryFromChain_removes:
  assumes wf: "sb_wf sb" and p: "in_fst p" and ch: "children sb p (xs @ c # ys)"
  obtains sb' where "RemoveFstEntryFromChain sb p c = Some (Success, sb')" "sb_wf sb'"
    "children sb' p (xs @ ys)" "sb_fat sb' = sb_fat sb" "sb_magic sb' = sb_magic sb" "sb_version sb' = sb_version sb"
    "\<And>g. fst_at sb' g = (fst_at sb g)\<lparr>e_mode := if g = c then 0 else e_mode (fst_at sb g),
        e_sub := if g = p \<and> xs = [] then e_sib (fst_at sb c) else e_sub (fst_at sb g),
        e_sib := if xs \<noteq> [] \<and> g = last xs then e_sib (fst_at sb c) else e_sib (fst_at sb g)\<rparr>"
proof (cases xs)
  case Nil
  let ?sb1 = "upd_fst p (\<lambda>e. e\<lparr>e_sub := e_sib (fst_at sb c)\<rparr>) sb"
  let ?sb' = "upd_fst c (\<lambda>e. e\<lparr>e_mode := 0\<rparr>) ?sb1"
  have c: "e_sub (fst_at sb p) = c" "in_fst c" "chain (next_sib sb) in_fst (next_sib sb c) ys"
    using ch Nil by (auto simp: children_def)
  have wf1: "sb_wf ?sb1" by (rule sb_wf_upd_same [OF wf]) simp
  have f: "fst_at ?sb' g = (fst_at sb g)\<lparr>e_mode := if g = c then 0 else e_mode (fst_at sb g),
      e_sub := if g = p then e_sib (fst_at sb c) else e_sub (fst_at sb g)\<rparr>" for g
    by (simp add: fst_at_upd [OF wf1 c(2)] fst_at_upd [OF wf p])
  have "children ?sb' p ys"
    using chain_cong [OF c(3), of "next_sib ?sb'"] by (simp add: children_def f next_sib_def)
  moreover have "sb_wf ?sb'" by (rule sb_wf_upd_same [OF wf1]) simp
  moreover have "RemoveFstEntryFromChain sb p c = Some (Success, ?sb')"
    using c(1) by (simp add: RemoveFstEntryFromChain_def Let_def)
  ultimately show thesis using that [of ?sb'] Nil f by simp
next
  case (Cons x zs)
  obtain us l where xs: "xs = us @ [l]" using Cons by (metis list.distinct(1) rev_exhaust)
  let ?sb1 = "set_sib l (next_sib sb c) sb"
  let ?sb' = "upd_fst c (\<lambda>e. e\<lparr>e_mode := 0\<rparr>) ?sb1"
  have ch': "chain (next_sib sb) in_fst (e_sub (fst_at sb p)) (us @ l # c # ys)" using ch xs by (simp add: children_def)
  have ch2: "chain (next_sib sb) in_fst (e_sub (fst_at sb p)) (xs @ c # ys)" using ch by (simp add: children_def)
  have d: "distinct (xs @ c # ys)" by (rule chain_distinct [OF ch2])
  have l: "in_fst l" "in_fst c" using chain_valid [OF ch'] by auto
  have hd: "e_sub (fst_at sb p) = hd xs" "in_fst (hd xs)" "hd xs \<noteq> c" using ch2 Cons d by auto
  have wf1: "sb_wf ?sb1" by (rule sib.wf_set [OF wf l(1)])
  have f1: "fst_at ?sb1 g = (fst_at sb g)\<lparr>e_sib := if g = l then e_sib (fst_at sb c) else e_sib (fst_at sb g)\<rparr>" for g
    by (simp add: set_sib_def next_sib_def fst_at_upd [OF wf l(1)])
  have f: "fst_at ?sb' g = (fst_at sb g)\<lparr>e_mode := if g = c then 0 else e_mode (fst_at sb g),
      e_sib := if g = l then e_sib (fst_at sb c) else e_sib (fst_at sb g)\<rparr>" for g
    by (simp add: fst_at_upd [OF wf1 l(2)] f1)
  have "next_sib ?sb' g = next_sib ?sb1 g" for g
    unfolding next_sib_def [of ?sb' g] next_sib_def [of ?sb1 g] f f1 by simp
  then have n: "next_sib ?sb' = next_sib ?sb1" by (rule ext)
  have "chain (next_sib ?sb1) in_fst (e_sub (fst_at sb p)) (us @ l # ys)"
    by (rule sib.unlink [OF wf ch'])
  then have "children ?sb' p (xs @ ys)" by (simp add: children_def f n xs)
  moreover have "sb_wf ?sb'" by (rule sb_wf_upd_same [OF wf1]) simp
  moreover have "RemoveFstEntryFromChain sb p c = Some (Success, ?sb')"
    using unlink_from_chain [OF ch2] hd xs by (simp add: RemoveFstEntryFromChain_def Let_def next_sib_def)
  ultimately show thesis using that [of ?sb'] f xs
    by (simp add: set_sib_def)
qed

lemma DeleteFile_free_count:
  assumes "file_clusters sb f cs" "\<forall>j. fat_at sb' j = (if j \<in> set cs then CLUSTER_UNUSED else fat_at sb j)"
  shows "free_count sb' = free_count sb + length cs"
proof -
  have ch: "chain (fat_at sb) in_fat (e_sub (fst_at sb f)) cs" and used: "\<forall>c\<in>set cs. fat_at sb c \<noteq> CLUSTER_UNUSED"
    using assms(1) by (simp_all add: file_clusters_def clusters_def)
  have "{c. in_fat c \<and> fat_at sb' c = CLUSTER_UNUSED} = {c. in_fat c \<and> fat_at sb c = CLUSTER_UNUSED} \<union> set cs"
    using chain_valid [OF ch] assms(2) by auto
  moreover have "{c. in_fat c \<and> fat_at sb c = CLUSTER_UNUSED} \<inter> set cs = {}" using used by auto
  moreover have "card (set cs) = length cs" using chain_distinct [OF ch] by (rule distinct_card)
  ultimately show ?thesis by (simp add: free_count_def card_Un_disjoint)
qed

section \<open>Properties\<close>

text \<open>
  C31 Deleting a file always returns, also on a FAT with cycles. Exactly its entry is marked
  unused; if its clusters form a list that ends, exactly these become free, so the number of
  free clusters grows by the length of the list.
\<close>

theorem delete_file_spec:
  assumes "sb_wf sb" and "in_fst f"
  shows "\<exists>sb'. DeleteFile sb f = Some sb' \<and> sb_wf sb' \<and>
    (\<forall>g. fst_at sb' g = (if g = f then (fst_at sb g)\<lparr>e_mode := 0\<rparr> else fst_at sb g)) \<and>
    (\<forall>cs. file_clusters sb f cs \<longrightarrow>
       (\<forall>j. fat_at sb' j = (if j \<in> set cs then CLUSTER_UNUSED else fat_at sb j)) \<and>
       free_count sb' = free_count sb + length cs)"
proof -
  obtain sb' where sb': "DeleteFile sb f = Some sb'" using DeleteFile_returns [OF assms(1)] by blast
  have cl: "(\<forall>j. fat_at sb' j = (if j \<in> set cs then CLUSTER_UNUSED else fat_at sb j)) \<and> free_count sb' = free_count sb + length cs"
    if "file_clusters sb f cs" for cs
  proof -
    have "\<forall>j. fat_at sb' j = (if j \<in> set cs then CLUSTER_UNUSED else fat_at sb j)"
      using DeleteFile_clusters [OF assms(1), of f cs] that sb' by (auto simp: file_clusters_def)
    then show ?thesis using DeleteFile_free_count [OF that] by blast
  qed
  show ?thesis
    using sb' DeleteFile_fst [OF sb' assms(1)] assms(2) cl by (intro exI [of _ sb']) simp
qed

lemma delete_file_spec_witness:
  "\<exists>sb'. DeleteFile demo_sb 3 = Some sb' \<and> free_count sb' = free_count demo_sb + 1"
  using delete_file_spec [OF sb_wf_demo, of 3] demo_file_b by (auto simp: in_fst_def FST_SIZE_def)

text \<open>
  C32 Unlinking. In a directory with a finite, non-empty child list, \<^verbatim>\<open>RemoveFstEntryFromChain\<close>
  of a child succeeds: the child list loses exactly that child, its entry is marked unused,
  and the child lists of all other directories and the FAT stay. Of an entry that is not a
  child it returns \<^verbatim>\<open>NotFound\<close> and changes nothing.
\<close>

theorem remove_entry_spec:
  assumes "sb_wf sb" and "in_fst p" and "children sb p xs" and "xs \<noteq> []"
  shows "if c \<in> set xs then \<exists>sb'. RemoveFstEntryFromChain sb p c = Some (Success, sb') \<and> sb_wf sb' \<and>
      children sb' p (remove1 c xs) \<and> e_mode (fst_at sb' c) = 0 \<and> sb_fat sb' = sb_fat sb \<and>
      (\<forall>q zs. q \<noteq> p \<longrightarrow> children sb q zs \<longrightarrow> set zs \<inter> set xs = {} \<longrightarrow> children sb' q zs)
    else RemoveFstEntryFromChain sb p c = Some (NotFound, sb)"
proof (cases "c \<in> set xs")
  case True
  then obtain us ys where xs: "xs = us @ c # ys" "c \<notin> set us" by (meson split_list_first)
  obtain sb' where sb': "RemoveFstEntryFromChain sb p c = Some (Success, sb')" "sb_wf sb'"
    "children sb' p (us @ ys)" "sb_fat sb' = sb_fat sb"
    and f: "\<And>g. fst_at sb' g = (fst_at sb g)\<lparr>e_mode := if g = c then 0 else e_mode (fst_at sb g),
        e_sub := if g = p \<and> us = [] then e_sib (fst_at sb c) else e_sub (fst_at sb g),
        e_sib := if us \<noteq> [] \<and> g = last us then e_sib (fst_at sb c) else e_sib (fst_at sb g)\<rparr>"
    using RemoveFstEntryFromChain_removes [OF assms(1,2), of us c ys] assms(3) xs(1) by metis
  have "remove1 c xs = us @ ys" using xs by (simp add: remove1_append)
  moreover have "children sb' q zs" if "q \<noteq> p" "children sb q zs" "set zs \<inter> set xs = {}" for q zs
    by (rule children_cong [OF that(2)]) (use that(1,3) xs in \<open>auto simp: f\<close>)
  ultimately show ?thesis using True sb' f [of c] by auto
next
  case False
  obtain x ys where xs: "xs = x # ys" using assms(4) by (cases xs) auto
  have ch: "e_sub (fst_at sb p) = x" "in_fst x" "chain (next_sib sb) in_fst (next_sib sb x) ys"
    using assms(3) xs by (auto simp: children_def)
  then show ?thesis
    using False unlink_from_missing [OF ch(3), of c x] xs
    by (auto simp: RemoveFstEntryFromChain_def Let_def next_sib_def)
qed

lemma remove_entry_spec_witness:
  "\<exists>sb'. RemoveFstEntryFromChain demo_sb 0 2 = Some (Success, sb') \<and> children sb' 0 [1]"
  using remove_entry_spec [OF sb_wf_demo _ demo_children(1), of 2] by (auto simp: in_fst_def FST_SIZE_def)

end
