(* ===== verification/Handles.thy ===== *)
theory Handles
  imports Demo
begin

text \<open>
  The handle table and the operations of \<^verbatim>\<open>driver/file.cpp\<close> that do not touch file data:
  assigning and finding handles, the in-use checks, opening, seeking and the file status.
\<close>

section \<open>The handle table\<close>

text \<open>
  \<^verbatim>\<open>AssignFreeHandle\<close> returns a pointer into the table: a slot number here. Its difference to
  the start of the table is the descriptor.
\<close>

definition AssignFreeHandle :: "Uid \<Rightarrow> Gid \<Rightarrow> FileSystemImpl \<Rightarrow> nat option \<times> FileSystemImpl" where
  "AssignFreeHandle uid gid s =
     (let it = find_if (\<lambda>handle. \<not> h_opened handle) (m_handles s) in
      if it = NUM_HANDLES then (None, s)
      else (Some it, s\<lparr>m_handles := (m_handles s)[it := new_Handle\<lparr>h_opened := True, h_uid := uid, h_gid := gid\<rparr>]\<rparr>))"

definition GetHandleFromFd :: "Fd \<Rightarrow> FileSystemImpl \<Rightarrow> HandleRef option" where
  "GetHandleFromFd fd s =
     (if fd = INTERNAL_FD then Some Internal
      else if unat fd \<ge> NUM_HANDLES \<or> \<not> h_opened (m_handles s ! unat fd) then None
      else Some (Slot (unat fd)))"

definition ConvertHandleToFd :: "nat \<Rightarrow> Fd" where
  "ConvertHandleToFd i = of_nat i"

definition IsFileOpened :: "FileSystemImpl \<Rightarrow> u16 \<Rightarrow> bool" where
  "IsFileOpened s fst_index \<longleftrightarrow> list_ex (\<lambda>handle. h_opened handle \<and> h_fst_index handle = fst_index) (m_handles s)"

text \<open>
  The loop over the children of a directory and the recursion into them, as one function of
  the current child; it has no result on a cyclic FST.
\<close>

partial_function (option) in_use_from :: "Superblock \<Rightarrow> FileSystemImpl \<Rightarrow> u16 \<Rightarrow> bool option" where
  "in_use_from superblock s child =
     (if \<not> in_fst child then Some False
      else if IsFile (fst_at superblock child) then
        (if IsFileOpened s child then Some True
         else in_use_from superblock s (e_sib (fst_at superblock child)))
      else do {
        in_use \<leftarrow> in_use_from superblock s (e_sub (fst_at superblock child));
        if in_use then Some True else in_use_from superblock s (e_sib (fst_at superblock child))
      })"

definition IsDirectoryInUse :: "Superblock \<Rightarrow> FileSystemImpl \<Rightarrow> u16 \<Rightarrow> bool option" where
  "IsDirectoryInUse superblock s directory = in_use_from superblock s (e_sub (fst_at superblock directory))"

section \<open>Opening\<close>

definition OpenFs :: "Uid \<Rightarrow> Gid \<Rightarrow> FileSystemImpl \<Rightarrow> Fd Result \<times> FileSystemImpl" where
  "OpenFs uid gid s = (case AssignFreeHandle uid gid s of
     (None, s1) \<Rightarrow> (Inl NoFreeHandle, s1)
   | (Some i, s1) \<Rightarrow> (Inr (ConvertHandleToFd i), s1))"

definition OpenFile :: "('k, 'c) mbedtls \<Rightarrow> Uid \<Rightarrow> Gid \<Rightarrow> string \<Rightarrow> FileMode \<Rightarrow> (Fd Result) fs_op" where
  "OpenFile lib uid gid path mode s =
     (if \<not> IsValidNonRootPath path then Some (Inl Invalid, s)
      else (case GetSuperblock lib s of
        (None, s1) \<Rightarrow> Some (Inl SuperblockInitFailed, s1)
      | (Some superblock, s1) \<Rightarrow>
          (case GetFstIndex superblock path of
             None \<Rightarrow> None
           | Some (Inl _) \<Rightarrow> Some (Inl NotFound, s1)
           | Some (Inr index) \<Rightarrow>
               if \<not> IsFile (fst_at superblock index) then Some (Inl Invalid, s1)
               else if \<not> HasPermission (fst_at superblock index) uid gid mode then Some (Inl AccessDenied, s1)
               else (case AssignFreeHandle uid gid s1 of
                 (None, s2) \<Rightarrow> Some (Inl NoFreeHandle, s2)
               | (Some i, s2) \<Rightarrow>
                   Some (Inr (ConvertHandleToFd i),
                     upd_handle (Slot i) (\<lambda>h. h\<lparr>h_fst_index := index, h_mode := mode, h_file_offset := 0,
                       h_file_size := e_size (fst_at superblock index)\<rparr>) s2)))))"

section \<open>Seeking and status\<close>

definition SeekFile :: "Fd \<Rightarrow> u32 \<Rightarrow> SeekMode \<Rightarrow> FileSystemImpl \<Rightarrow> u32 Result \<times> FileSystemImpl" where
  "SeekFile fd offset mode s = (case GetHandleFromFd fd s of
     None \<Rightarrow> (Inl Invalid, s)
   | Some h \<Rightarrow>
       let handle = handle_at s h in
       if \<not> in_fst (h_fst_index handle) then (Inl Invalid, s)
       else (case (if mode = SeekMode_Set then Some offset
                   else if mode = SeekMode_Current then Some (h_file_offset handle + offset)
                   else if mode = SeekMode_End then Some (h_file_size handle + offset)
                   else None) of
               None \<Rightarrow> (Inl Invalid, s)
             | Some new_position \<Rightarrow>
                 if h_file_size handle < new_position then (Inl Invalid, s)
                 else (Inr new_position, upd_handle h (\<lambda>x. x\<lparr>h_file_offset := new_position\<rparr>) s)))"

definition GetFileStatus :: "Fd \<Rightarrow> FileSystemImpl \<Rightarrow> FileStatus Result" where
  "GetFileStatus fd s = (case GetHandleFromFd fd s of
     None \<Rightarrow> Inl Invalid
   | Some h \<Rightarrow>
       let handle = handle_at s h in
       if \<not> in_fst (h_fst_index handle) then Inl Invalid
       else if FileMode_and (h_mode handle) FileMode_Read = 0 then Inl AccessDenied
       else Inr \<lparr>fstat_offset = h_file_offset handle, fstat_size = h_file_size handle\<rparr>)"

section \<open>The table as a whole\<close>

text \<open>
  \<open>handles_ok\<close>: the table has its sixteen slots and no position lies behind the end of
  its file, also not that of the internal handle, which never refers to a file.
\<close>

definition handles_ok :: "FileSystemImpl \<Rightarrow> bool" where
  "handles_ok s \<longleftrightarrow> length (m_handles s) = NUM_HANDLES \<and>
     (\<forall>h. valid_ref h \<longrightarrow> h_file_offset (handle_at s h) \<le> h_file_size (handle_at s h)) \<and>
     h_fst_index (m_internal_handle s) = 0xffff"

lemma GetHandleFromFd_valid: "GetHandleFromFd fd s = Some h \<Longrightarrow> valid_ref h"
  by (auto simp: GetHandleFromFd_def valid_ref_def split: if_splits)

lemma unat_ConvertHandleToFd: "i < NUM_HANDLES \<Longrightarrow> unat (ConvertHandleToFd i) = i \<and> ConvertHandleToFd i \<noteq> INTERNAL_FD"
proof -
  assume i: "i < NUM_HANDLES"
  then have "unat (ConvertHandleToFd i) = i" by (simp add: ConvertHandleToFd_def NUM_HANDLES_def unat_of_nat)
  moreover have "unat INTERNAL_FD = 0xffffff00" by (simp add: INTERNAL_FD_def)
  ultimately show ?thesis using i by (auto simp: NUM_HANDLES_def)
qed

lemma AssignFreeHandle_cases:
  assumes "length (m_handles s) = NUM_HANDLES"
  shows "(\<forall>h \<in> set (m_handles s). h_opened h) \<and> AssignFreeHandle uid gid s = (None, s) \<or>
    (\<exists>i<NUM_HANDLES. \<not> h_opened (m_handles s ! i) \<and> AssignFreeHandle uid gid s =
       (Some i, upd_handle (Slot i) (\<lambda>_. new_Handle\<lparr>h_opened := True, h_uid := uid, h_gid := gid\<rparr>) s))"
proof (cases "find_if (\<lambda>handle. \<not> h_opened handle) (m_handles s) = NUM_HANDLES")
  case True
  then show ?thesis
    using assms find_if_end [of "\<lambda>handle. \<not> h_opened handle" "m_handles s"] by (simp add: AssignFreeHandle_def)
next
  case False
  then have "find_if (\<lambda>handle. \<not> h_opened handle) (m_handles s) < length (m_handles s)"
    using assms find_if_le [of "\<lambda>handle. \<not> h_opened handle" "m_handles s"] by simp
  then show ?thesis
    using False assms find_if_sat [of "\<lambda>handle. \<not> h_opened handle" "m_handles s"]
    by (intro disjI2 exI [of _ "find_if (\<lambda>handle. \<not> h_opened handle) (m_handles s)"])
      (simp add: AssignFreeHandle_def upd_handle_def Let_def)
qed

lemma handles_ok_upd:
  assumes "handles_ok s" "valid_ref h" "h_file_offset (f (handle_at s h)) \<le> h_file_size (f (handle_at s h))"
    "h = Internal \<Longrightarrow> h_fst_index (f (handle_at s h)) = 0xffff"
  shows "handles_ok (upd_handle h f s)"
  using assms
  by (cases h) (auto simp: handles_ok_def handle_at_upd_handle, auto simp: upd_handle_def handle_at_def)

lemma handles_ok_cong:
  "m_handles s' = m_handles s \<Longrightarrow> m_internal_handle s' = m_internal_handle s \<Longrightarrow> handles_ok s' = handles_ok s"
  by (auto simp: handles_ok_def handle_at_def split: HandleRef.splits)

lemma handles_ok_initial: "handles_ok (initial_fs nand keys)"
  by (auto simp: handles_ok_def initial_fs_def handle_at_def valid_ref_def new_Handle_def split: HandleRef.splits)

section \<open>Opening and seeking keep the table in order\<close>

lemma AssignFreeHandle_ok:
  assumes "handles_ok s"
  shows "handles_ok (snd (AssignFreeHandle uid gid s))"
  using AssignFreeHandle_cases [of s uid gid] assms handles_ok_upd [OF assms, of "Slot _"]
  by (auto simp: handles_ok_def valid_ref_def new_Handle_def)

lemma OpenFs_handles_ok: "handles_ok s \<Longrightarrow> handles_ok (snd (OpenFs uid gid s))"
  using AssignFreeHandle_ok [of s uid gid]
  by (auto simp: OpenFs_def split: prod.splits option.splits)

lemma OpenFile_Some:
  assumes "OpenFile lib uid gid path mode s = Some (r, s')"
  obtains (fail) e where "r = Inl e" "s' = s \<or> s' = snd (GetSuperblock lib s)"
  | (opened) sb s1 index i where "GetSuperblock lib s = (Some sb, s1)" "GetFstIndex sb path = Some (Inr index)"
    "IsFile (fst_at sb index)" "HasPermission (fst_at sb index) uid gid mode"
    "AssignFreeHandle uid gid s1 = (Some i, snd (AssignFreeHandle uid gid s1))" "r = Inr (ConvertHandleToFd i)"
    "s' = upd_handle (Slot i) (\<lambda>h. h\<lparr>h_fst_index := index, h_mode := mode, h_file_offset := 0,
       h_file_size := e_size (fst_at sb index)\<rparr>) (snd (AssignFreeHandle uid gid s1))"
proof (cases "IsValidNonRootPath path")
  case False
  then show thesis using assms fail by (auto simp: OpenFile_def)
next
  case True
  obtain o1 s1 where g: "GetSuperblock lib s = (o1, s1)" by (cases "GetSuperblock lib s")
  show thesis
  proof (cases o1)
    case None
    then show thesis using assms True g fail by (auto simp: OpenFile_def)
  next
    case (Some sb)
    obtain a s2 where a: "AssignFreeHandle uid gid s1 = (a, s2)" by (cases "AssignFreeHandle uid gid s1")
    show thesis
      using assms True g Some fail opened a
      by (auto simp: OpenFile_def AssignFreeHandle_def Let_def split: option.splits sum.splits if_splits)
  qed
qed

lemma OpenFile_handles_ok:
  assumes "handles_ok s" "OpenFile lib uid gid path mode s = Some (r, s')"
  shows "handles_ok s'"
  using assms(2)
proof (cases rule: OpenFile_Some)
  case (fail e)
  then show ?thesis using assms(1) handles_ok_cong [of "snd (GetSuperblock lib s)" s] by auto
next
  case (opened sb s1 index i)
  have s1: "handles_ok s1" using assms(1) handles_ok_cong [of s1 s] opened(1) GetSuperblock_handles [of lib s] by simp
  have i: "i < NUM_HANDLES"
    using AssignFreeHandle_cases [of s1 uid gid] s1 opened(5) by (auto simp: handles_ok_def)
  show ?thesis
    unfolding opened(7) by (rule handles_ok_upd [OF AssignFreeHandle_ok [OF s1]]) (use i in \<open>simp_all add: valid_ref_def\<close>)
qed

lemma SeekFile_cases:
  "(\<exists>e. SeekFile fd offset mode s = (Inl e, s)) \<or>
   (\<exists>h p. GetHandleFromFd fd s = Some h \<and> p \<le> h_file_size (handle_at s h) \<and>
      SeekFile fd offset mode s = (Inr p, upd_handle h (\<lambda>x. x\<lparr>h_file_offset := p\<rparr>) s))"
  by (simp add: SeekFile_def Let_def not_less split: option.splits)

lemma SeekFile_handles_ok:
  assumes "handles_ok s"
  shows "handles_ok (snd (SeekFile fd offset mode s))"
  using SeekFile_cases [of fd offset mode s]
proof (elim disjE exE conjE)
  fix h p
  assume h: "GetHandleFromFd fd s = Some h" "p \<le> h_file_size (handle_at s h)"
    and r: "SeekFile fd offset mode s = (Inr p, upd_handle h (\<lambda>x. x\<lparr>h_file_offset := p\<rparr>) s)"
  have "handles_ok (upd_handle h (\<lambda>x. x\<lparr>h_file_offset := p\<rparr>) s)"
    by (rule handles_ok_upd [OF assms GetHandleFromFd_valid [OF h(1)]])
      (use h assms in \<open>simp_all add: handles_ok_def handle_at_def\<close>)
  then show ?thesis by (simp add: r)
qed (simp add: assms)

text \<open>A new handle is in a slot that was free; all other handles stay.\<close>

lemma AssignFreeHandle_Some:
  assumes "handles_ok s" "AssignFreeHandle uid gid s = (Some i, s')"
  shows "i < NUM_HANDLES" "\<not> h_opened (m_handles s ! i)"
    "s' = upd_handle (Slot i) (\<lambda>_. new_Handle\<lparr>h_opened := True, h_uid := uid, h_gid := gid\<rparr>) s"
  using AssignFreeHandle_cases [of s uid gid] assms by (auto simp: handles_ok_def)

lemma GetHandleFromFd_slot:
  "i < NUM_HANDLES \<Longrightarrow> GetHandleFromFd (ConvertHandleToFd i) s = (if h_opened (m_handles s ! i) then Some (Slot i) else None)"
  using unat_ConvertHandleToFd [of i] by (simp add: GetHandleFromFd_def)

lemma GetHandleFromFd_still: "h_opened (handle_at s' h) \<Longrightarrow> GetHandleFromFd fd s = Some h \<Longrightarrow> GetHandleFromFd fd s' = Some h"
  by (auto simp: GetHandleFromFd_def handle_at_def split: if_splits)

definition FileMode_ReadWrite :: FileMode where
  "FileMode_ReadWrite = FileMode_or FileMode_Read FileMode_Write"

lemma ReadWrite_bits:
  "FileMode_and FileMode_ReadWrite FileMode_Read \<noteq> 0" "FileMode_and FileMode_ReadWrite FileMode_Write \<noteq> 0"
  by (simp_all add: FileMode_ReadWrite_def mode_defs)
lemma OpenFile_opens:
  assumes path: "IsValidNonRootPath path" and g: "GetSuperblock lib s = (Some sb, s1)" and f: "GetFstIndex sb path = Some (Inr f)"
    and e: "IsFile (fst_at sb f)" "HasPermission (fst_at sb f) uid gid mode"
    and len: "length (m_handles s1) = NUM_HANDLES" and slot: "j < NUM_HANDLES" "\<not> h_opened (m_handles s1 ! j)"
  obtains i where "i < NUM_HANDLES" "\<not> h_opened (m_handles s1 ! i)"
    "OpenFile lib uid gid path mode s = Some (Inr (ConvertHandleToFd i), upd_handle (Slot i) (\<lambda>_.
      \<lparr>h_opened = True, h_fst_index = f, h_gid = gid, h_uid = uid, h_mode = mode, h_file_offset = 0,
        h_file_size = e_size (fst_at sb f), h_superblock_flush_needed = False\<rparr>) s1)"
proof -
  have "\<not> (\<forall>h \<in> set (m_handles s1). h_opened h)" using len slot by (metis nth_mem)
  then obtain i where i: "i < NUM_HANDLES" "\<not> h_opened (m_handles s1 ! i)"
    and a: "AssignFreeHandle uid gid s1 = (Some i, upd_handle (Slot i) (\<lambda>_. new_Handle\<lparr>h_opened := True, h_uid := uid, h_gid := gid\<rparr>) s1)"
    using AssignFreeHandle_cases [OF len, of uid gid] by blast
  show thesis
    by (rule that [OF i]) (use path g f e a i len in
      \<open>simp add: OpenFile_def upd_handle_def new_Handle_def\<close>)
qed

lemma GetHandleFromFd_opened:
  "i < NUM_HANDLES \<Longrightarrow> length (m_handles s) = NUM_HANDLES \<Longrightarrow> h_opened (f (m_handles s ! i)) \<Longrightarrow>
   GetHandleFromFd (ConvertHandleToFd i) (upd_handle (Slot i) f s) = Some (Slot i)"
  by (simp add: GetHandleFromFd_slot upd_handle_def)

lemma demo_open:
  "\<exists>fd s'. OpenFile lib 0 0 ''/a'' FileMode_ReadWrite demo_fs = Some (Inr fd, s')"
proof -
  have "0 < NUM_HANDLES" "\<not> h_opened (m_handles demo_fs ! 0)" "IsFile (fst_at demo_sb 1)"
    by (simp_all add: NUM_HANDLES_def new_Handle_def IsFile_def)
  then show ?thesis
    using OpenFile_opens [OF demo_paths(1) GetSuperblock_loaded [OF demo_fs_fields(1)] demo_lookup(1),
        where uid = 0 and gid = 0 and mode = FileMode_ReadWrite and j = 0 and lib = lib]
    by (simp add: HasPermission_def) blast
qed

lemma demo_handles_ok: "handles_ok demo_fs"
  unfolding demo_fs_def using handles_ok_cong [OF _ _, of "_\<lparr>m_superblock := _\<rparr>"] handles_ok_initial by simp

section \<open>Properties\<close>

text \<open>
  Opening a file. When \<^verbatim>\<open>OpenFile\<close> succeeds, the path resolves to a file the user may
  access in the requested mode; the returned descriptor belongs to a slot that was free and
  now denotes an open handle at offset zero with the size of the entry; every other handle,
  the superblock and the image are as before.
\<close>

theorem open_file_spec:
  assumes "handles_ok s" and "m_superblock s = Some sb" and "OpenFile lib uid gid path mode s = Some (Inr fd, s')"
  shows "\<exists>index i. GetFstIndex sb path = Some (Inr index) \<and> IsFile (fst_at sb index) \<and>
    HasPermission (fst_at sb index) uid gid mode \<and> GetHandleFromFd fd s = None \<and> GetHandleFromFd fd s' = Some (Slot i) \<and>
    handle_at s' (Slot i) = \<lparr>h_opened = True, h_fst_index = index, h_gid = gid, h_uid = uid, h_mode = mode,
      h_file_offset = 0, h_file_size = e_size (fst_at sb index), h_superblock_flush_needed = False\<rparr> \<and>
    (\<forall>h. h \<noteq> Slot i \<longrightarrow> handle_at s' h = handle_at s h) \<and>
    m_superblock s' = m_superblock s \<and> m_nand s' = m_nand s"
  using assms(3)
proof (cases rule: OpenFile_Some)
  case (opened sb' s1 index i)
  have s1: "s1 = s" "sb' = sb" using opened(1) GetSuperblock_loaded [OF assms(2), of lib] by simp_all
  note a = AssignFreeHandle_Some [OF assms(1), OF opened(5) [unfolded s1]]
  have len: "length (m_handles s) = NUM_HANDLES" using assms(1) by (simp add: handles_ok_def)
  have upd: "s' = upd_handle (Slot i) (\<lambda>h. h\<lparr>h_fst_index := index, h_mode := mode, h_file_offset := 0,
       h_file_size := e_size (fst_at sb index)\<rparr>)
     (upd_handle (Slot i) (\<lambda>_. new_Handle\<lparr>h_opened := True, h_uid := uid, h_gid := gid\<rparr>) s)"
    using opened(7) a(3) s1 by simp
  have v: "valid_ref (Slot i)" using a(1) by (simp add: valid_ref_def)
  have at: "handle_at s' h = (if h = Slot i then \<lparr>h_opened = True, h_fst_index = index, h_gid = gid, h_uid = uid, h_mode = mode,
      h_file_offset = 0, h_file_size = e_size (fst_at sb index), h_superblock_flush_needed = False\<rparr> else handle_at s h)" for h
    unfolding upd using len v by (simp add: handle_at_upd_handle new_Handle_def)
  have "h_opened (m_handles s' ! i)" using at [of "Slot i"] by (simp add: handle_at_def)
  then show ?thesis
    using opened(2-4,6) s1 a(1,2) at GetHandleFromFd_slot [OF a(1)] upd
    by (intro exI [of _ index] exI [of _ i]) simp
qed simp

lemma open_file_spec_witness:
  "\<exists>fd s' i. OpenFile demo_mbedtls 0 0 ''/a'' FileMode_ReadWrite demo_fs = Some (Inr fd, s') \<and>
    GetHandleFromFd fd s' = Some (Slot i) \<and> h_fst_index (handle_at s' (Slot i)) = 1"
proof -
  obtain fd s' where o: "OpenFile demo_mbedtls 0 0 ''/a'' FileMode_ReadWrite demo_fs = Some (Inr fd, s')"
    using demo_open by blast
  show ?thesis using open_file_spec [OF demo_handles_ok _ o] o demo_lookup(1) by fastforce
qed

text \<open>
  C34 Seeking. A seek either fails and changes nothing, or moves the position of the one
  handle to the requested place, which is not behind the end of the file; so positions stay
  within their files.
\<close>

theorem seek_spec:
  assumes "handles_ok s" and "GetHandleFromFd fd s = Some h" and "SeekFile fd offset mode s = (r, s')"
  shows "handles_ok s' \<and> (case r of
      Inl e \<Rightarrow> e = Invalid \<and> s' = s
    | Inr p \<Rightarrow> p \<le> h_file_size (handle_at s h) \<and> s' = upd_handle h (\<lambda>x. x\<lparr>h_file_offset := p\<rparr>) s \<and>
        (mode = SeekMode_Set \<and> p = offset \<or> mode = SeekMode_Current \<and> p = h_file_offset (handle_at s h) + offset \<or>
         mode = SeekMode_End \<and> p = h_file_size (handle_at s h) + offset))"
  using SeekFile_handles_ok [OF assms(1), of fd offset mode] assms(2,3)
  by (auto simp: SeekFile_def Let_def not_less split: if_splits option.splits)

definition demo_opened :: FileSystemImpl where
  "demo_opened = upd_handle (Slot 0) (\<lambda>_. \<lparr>h_opened = True, h_fst_index = 3, h_gid = 0, h_uid = 0, h_mode = FileMode_Read,
     h_file_offset = 0, h_file_size = 5, h_superblock_flush_needed = False\<rparr>) demo_fs"

lemma seek_spec_witness:
  "SeekFile 0 4 SeekMode_Set demo_opened
    = (Inr 4, upd_handle (Slot 0) (\<lambda>x. x\<lparr>h_file_offset := 4\<rparr>) demo_opened) \<and>
   handles_ok (upd_handle (Slot 0) (\<lambda>x. x\<lparr>h_file_offset := 4\<rparr>) demo_opened)"
proof -
  have v: "valid_ref (Slot 0)" by (simp add: valid_ref_def NUM_HANDLES_def)
  have ok: "handles_ok demo_opened" unfolding demo_opened_def by (rule handles_ok_upd [OF demo_handles_ok v]) simp_all
  have at: "handle_at demo_opened (Slot 0) = \<lparr>h_opened = True, h_fst_index = 3, h_gid = 0, h_uid = 0, h_mode = FileMode_Read,
     h_file_offset = 0, h_file_size = 5, h_superblock_flush_needed = False\<rparr>"
    unfolding demo_opened_def by (subst handle_at_upd_handle) (simp_all add: v)
  have h: "GetHandleFromFd 0 demo_opened = Some (Slot 0)"
    using at by (simp add: GetHandleFromFd_def handle_at_def NUM_HANDLES_def INTERNAL_FD_def)
  have r: "SeekFile 0 4 SeekMode_Set demo_opened = (Inr 4, upd_handle (Slot 0) (\<lambda>x. x\<lparr>h_file_offset := 4\<rparr>) demo_opened)"
    using at h by (simp add: SeekFile_def in_fst_def FST_SIZE_def)
  show ?thesis using seek_spec [OF ok h r] r by simp
qed

end
