(* ===== verification/Forest.thy ===== *)
theory Forest
  imports FstOps Handles
begin

text \<open>
  The part of the FST below a directory as a forest, and the recursive functions of the
  driver on it: the in-use check, the usage count and the deletion of a directory's
  contents. A finite forest is what makes these recursions end.
\<close>

section \<open>Forests\<close>

datatype fst_tree = Entry u16 "fst_tree list"

text \<open>
  \<open>forest sb i ts\<close>: the sibling chain from \<open>i\<close> with everything below it is \<open>ts\<close>; every entry
  is a file, which has no children, or a directory.
\<close>

fun forest :: "Superblock \<Rightarrow> u16 \<Rightarrow> fst_tree list \<Rightarrow> bool" where
  "forest sb i [] \<longleftrightarrow> \<not> in_fst i"
| "forest sb i (Entry j ts # rs) \<longleftrightarrow> i = j \<and> in_fst j \<and>
     (if IsFile (fst_at sb j) then ts = [] else IsDirectory (fst_at sb j) \<and> forest sb (e_sub (fst_at sb j)) ts) \<and>
     forest sb (e_sib (fst_at sb j)) rs"

fun nodes :: "fst_tree list \<Rightarrow> u16 list" where
  "nodes [] = []"
| "nodes (Entry j ts # rs) = j # nodes ts @ nodes rs"

definition files :: "Superblock \<Rightarrow> fst_tree list \<Rightarrow> u16 list" where
  "files sb ts = filter (\<lambda>j. IsFile (fst_at sb j)) (nodes ts)"

lemma files_simps [simp]:
  "files sb [] = []"
  "files sb (Entry j ts # rs) = (if IsFile (fst_at sb j) then [j] else []) @ files sb ts @ files sb rs"
  by (simp_all add: files_def)

lemma files_cong: "(\<And>g. g \<in> set (nodes ts) \<Longrightarrow> IsFile (fst_at sb' g) = IsFile (fst_at sb g)) \<Longrightarrow> files sb' ts = files sb ts"
  unfolding files_def by (rule filter_cong) auto

lemma forest_cong:
  "forest sb i ts \<Longrightarrow> (\<And>g. g \<in> set (nodes ts) \<Longrightarrow> e_sub (fst_at sb' g) = e_sub (fst_at sb g) \<and>
     e_sib (fst_at sb' g) = e_sib (fst_at sb g) \<and> e_mode (fst_at sb' g) = e_mode (fst_at sb g)) \<Longrightarrow>
   forest sb' i ts"
  by (induction sb i ts rule: forest.induct) (auto simp: IsFile_def IsDirectory_def)

lemma forest_children: "forest sb i ts \<Longrightarrow> chain (next_sib sb) in_fst i (map (\<lambda>t. case t of Entry j _ \<Rightarrow> j) ts)"
  by (induction sb i ts rule: forest.induct) (auto simp: next_sib_def)

lemma forest_nodes_valid: "forest sb i ts \<Longrightarrow> g \<in> set (nodes ts) \<Longrightarrow> in_fst g \<and> (IsFile (fst_at sb g) \<or> IsDirectory (fst_at sb g))"
  by (induction sb i ts rule: forest.induct) (auto split: if_splits)

section \<open>The in-use check\<close>

lemma in_use_from_forest:
  "forest sb i ts \<Longrightarrow> in_use_from sb s i = Some (\<exists>f \<in> set (files sb ts). IsFileOpened s f)"
proof (induction sb i ts rule: forest.induct)
  case (1 sb i)
  then show ?case by (subst in_use_from.simps) simp
next
  case (2 sb i j ts rs)
  show ?case
  proof (cases "IsFile (fst_at sb j)")
    case True
    then show ?thesis using 2 by (subst in_use_from.simps) auto
  next
    case False
    then have "in_use_from sb s (e_sub (fst_at sb j)) = Some (\<exists>f \<in> set (files sb ts). IsFileOpened s f)"
      "in_use_from sb s (e_sib (fst_at sb j)) = Some (\<exists>f \<in> set (files sb rs). IsFileOpened s f)"
      using 2 by auto
    then show ?thesis using 2(3) False by (subst in_use_from.simps) auto
  qed
qed

section \<open>Counting\<close>

definition size_clusters :: "FstEntry \<Rightarrow> u32" where
  "size_clusters e = (e_size e + 0x3fff) div 0x4000"

lemma count_from_forest:
  "forest sb i ts \<Longrightarrow> count_from sb i uc ui =
     Some (uc + sum_list (map (\<lambda>f. size_clusters (fst_at sb f)) (files sb ts)), ui + of_nat (length (nodes ts)))"
proof (induction sb i ts arbitrary: uc ui rule: forest.induct)
  case (1 sb i)
  then show ?case by (subst count_from.simps) simp
next
  case (2 sb i j ts rs)
  show ?case
  proof (cases "IsFile (fst_at sb j)")
    case True
    then show ?thesis using 2 by (subst count_from.simps) (auto simp: size_clusters_def algebra_simps)
  next
    case False
    then show ?thesis using 2(1) [of 0 1] 2(2,3) by (subst count_from.simps) (auto simp: algebra_simps)
  qed
qed

section \<open>Deleting the contents of a directory\<close>

lemma delete_from_forest:
  assumes "sb_wf sb" "forest sb i ts" "distinct (nodes ts)"
  shows "\<exists>sb'. delete_from i sb = Some sb' \<and> sb_wf sb' \<and> sb_magic sb' = sb_magic sb \<and> sb_version sb' = sb_version sb \<and>
    (\<forall>g. fst_at sb' g = (if g \<in> set (files sb ts) then (fst_at sb g)\<lparr>e_mode := 0\<rparr> else fst_at sb g))"
  using assms
proof (induction ts arbitrary: i sb rule: nodes.induct)
  case 1
  then show ?case by (subst delete_from.simps) simp
next
  case (2 j ts rs)
  have j: "i = j" "in_fst j" "forest sb (e_sib (fst_at sb j)) rs"
    "if IsFile (fst_at sb j) then ts = [] else IsDirectory (fst_at sb j) \<and> forest sb (e_sub (fst_at sb j)) ts"
    and d: "j \<notin> set (nodes ts)" "j \<notin> set (nodes rs)" "distinct (nodes ts)" "distinct (nodes rs)"
      "set (nodes ts) \<inter> set (nodes rs) = {}"
    using 2(4,5) by auto
  define first where "first = (if IsDirectory (fst_at sb j) then delete_from (e_sub (fst_at sb j)) sb else DeleteFile sb j)"
  define gone where "gone = (if IsFile (fst_at sb j) then {j} else set (files sb ts))"
  have "\<exists>sb1. first = Some sb1 \<and> sb_wf sb1 \<and> sb_magic sb1 = sb_magic sb \<and> sb_version sb1 = sb_version sb \<and>
    (\<forall>g. fst_at sb1 g = (if g \<in> gone then (fst_at sb g)\<lparr>e_mode := 0\<rparr> else fst_at sb g))"
  proof (cases "IsFile (fst_at sb j)")
    case True
    then have "\<not> IsDirectory (fst_at sb j)" by (simp add: IsFile_def IsDirectory_def)
    moreover obtain sb1 where "DeleteFile sb j = Some sb1" using DeleteFile_returns [OF 2(3)] by blast
    ultimately show ?thesis
      using DeleteFile_fst [of sb j sb1] 2(3) True j(2) by (auto simp: first_def gone_def)
  next
    case False
    then show ?thesis using 2(1) [OF 2(3) _ d(3), of "e_sub (fst_at sb j)"] j(4) by (auto simp: first_def gone_def)
  qed
  then obtain sb1 where sb1: "first = Some sb1" "sb_wf sb1" "sb_magic sb1 = sb_magic sb" "sb_version sb1 = sb_version sb"
    and f1: "\<And>g. fst_at sb1 g = (if g \<in> gone then (fst_at sb g)\<lparr>e_mode := 0\<rparr> else fst_at sb g)"
    by blast
  have g: "gone \<inter> set (nodes rs) = {}" "gone \<subseteq> insert j (set (nodes ts))"
    using d by (auto simp: gone_def files_def split: if_splits)
  have "forest sb1 (e_sib (fst_at sb j)) rs"
    by (rule forest_cong [OF j(3)]) (use g in \<open>auto simp: f1\<close>)
  then obtain sb' where sb': "delete_from (e_sib (fst_at sb j)) sb1 = Some sb'" "sb_wf sb'"
      "sb_magic sb' = sb_magic sb1" "sb_version sb' = sb_version sb1"
    and f': "\<And>g. fst_at sb' g = (if g \<in> set (files sb1 rs) then (fst_at sb1 g)\<lparr>e_mode := 0\<rparr> else fst_at sb1 g)"
    using 2(2) [OF sb1(2) _ d(4)] by blast
  have fs: "files sb1 rs = files sb rs"
    by (rule files_cong) (use g in \<open>auto simp: f1\<close>)
  have sib: "e_sib (fst_at sb1 j) = e_sib (fst_at sb j)" by (simp add: f1)
  have "delete_from i sb = Some sb'"
    using sb1(1) sb'(1) j(1,2) sib by (subst delete_from.simps) (auto simp: first_def split: if_splits)
  moreover have "set (files sb (Entry j ts # rs)) = gone \<union> set (files sb rs)"
    using j(4) by (auto simp: gone_def)
  ultimately show ?case
    using sb' sb1 f' f1 fs by auto
qed

text \<open>
  A directory in the forest keeps its entry, mode included: the function clears the type of
  the files it deletes only.
\<close>

lemma delete_from_keeps_directories:
  assumes "sb_wf sb" "forest sb i ts" "distinct (nodes ts)" "g \<in> set (nodes ts)" "IsDirectory (fst_at sb g)"
    and "delete_from i sb = Some sb'"
  shows "fst_at sb' g = fst_at sb g"
proof -
  have "g \<notin> set (files sb ts)" using assms(5) by (auto simp: files_def IsFile_def IsDirectory_def)
  then show ?thesis using delete_from_forest [OF assms(1-3)] assms(6) by auto
qed

section \<open>The clusters that a deletion frees\<close>

text \<open>
  \<open>separate sb fs cl\<close>: the cluster lists \<open>cl\<close> of the files \<open>fs\<close> are pairwise disjoint.
\<close>

definition separate :: "Superblock \<Rightarrow> u16 list \<Rightarrow> (u16 \<Rightarrow> u16 list) \<Rightarrow> bool" where
  "separate sb fs cl \<longleftrightarrow> (\<forall>f\<in>set fs. clusters sb f (cl f)) \<and>
     (\<forall>f\<in>set fs. \<forall>g\<in>set fs. f \<noteq> g \<longrightarrow> set (cl f) \<inter> set (cl g) = {})"

lemma separate_step:
  assumes "separate sb fs cl" "\<And>f. f \<in> set fs' \<Longrightarrow> f \<in> set fs"
    and "\<And>f. e_sub (fst_at sb' f) = e_sub (fst_at sb f)"
    and "\<And>j. j \<in> (\<Union>f\<in>set fs'. set (cl f)) \<Longrightarrow> fat_at sb' j = fat_at sb j"
  shows "separate sb' fs' cl"
proof -
  have "clusters sb' f (cl f)" if f: "f \<in> set fs'" for f
    using assms(1,2) f assms(3) [of f]
      chain_cong [of "fat_at sb" in_fat "e_sub (fst_at sb f)" "cl f" "fat_at sb'"] assms(4)
    by (fastforce simp: separate_def clusters_def)
  then show ?thesis using assms(1,2) by (auto simp: separate_def)
qed

lemma delete_from_clusters:
  assumes "sb_wf sb" "forest sb i ts" "distinct (nodes ts)" "separate sb (files sb ts) cl"
  shows "\<exists>sb'. delete_from i sb = Some sb' \<and>
    (\<forall>j. fat_at sb' j = (if j \<in> (\<Union>f\<in>set (files sb ts). set (cl f)) then CLUSTER_UNUSED else fat_at sb j))"
  using assms
proof (induction ts arbitrary: i sb rule: nodes.induct)
  case 1
  then show ?case by (subst delete_from.simps) simp
next
  case (2 j ts rs)
  have j: "i = j" "in_fst j" "forest sb (e_sib (fst_at sb j)) rs"
    "if IsFile (fst_at sb j) then ts = [] else IsDirectory (fst_at sb j) \<and> forest sb (e_sub (fst_at sb j)) ts"
    and d: "j \<notin> set (nodes ts)" "j \<notin> set (nodes rs)" "distinct (nodes ts)" "distinct (nodes rs)"
      "set (nodes ts) \<inter> set (nodes rs) = {}"
    using 2(4,5) by auto
  define first where "first = (if IsDirectory (fst_at sb j) then delete_from (e_sub (fst_at sb j)) sb else DeleteFile sb j)"
  define gone where "gone = (if IsFile (fst_at sb j) then [j] else files sb ts)"
  have "\<exists>sb1. first = Some sb1 \<and> sb_wf sb1 \<and>
    (\<forall>k. fat_at sb1 k = (if k \<in> (\<Union>f\<in>set gone. set (cl f)) then CLUSTER_UNUSED else fat_at sb k)) \<and>
    (\<forall>g. fst_at sb1 g = (if g \<in> set gone then (fst_at sb g)\<lparr>e_mode := 0\<rparr> else fst_at sb g))"
  proof (cases "IsFile (fst_at sb j)")
    case True
    then have "\<not> IsDirectory (fst_at sb j)" by (simp add: IsFile_def IsDirectory_def)
    moreover obtain sb1 where "DeleteFile sb j = Some sb1"
      "\<forall>k. fat_at sb1 k = (if k \<in> set (cl j) then CLUSTER_UNUSED else fat_at sb k)"
      using DeleteFile_clusters [OF 2(3), of j "cl j"] 2(6) True by (auto simp: separate_def)
    ultimately show ?thesis
      using DeleteFile_fst [of sb j sb1] 2(3) True j(2) by (auto simp: first_def gone_def)
  next
    case False
    moreover have "separate sb (files sb ts) cl"
      using 2(6) by (rule separate_step) simp_all
    ultimately show ?thesis
      using 2(1) [OF 2(3) _ d(3), of "e_sub (fst_at sb j)"] delete_from_forest [OF 2(3) _ d(3), of "e_sub (fst_at sb j)"] j(4)
      by (fastforce simp: first_def gone_def)
  qed
  then obtain sb1 where sb1: "first = Some sb1" "sb_wf sb1"
    and t1: "\<And>k. fat_at sb1 k = (if k \<in> (\<Union>f\<in>set gone. set (cl f)) then CLUSTER_UNUSED else fat_at sb k)"
    and f1: "\<And>g. fst_at sb1 g = (if g \<in> set gone then (fst_at sb g)\<lparr>e_mode := 0\<rparr> else fst_at sb g)"
    by blast
  have all: "set (files sb (Entry j ts # rs)) = set gone \<union> set (files sb rs)"
    using j(4) by (auto simp: gone_def)
  have g: "set gone \<inter> set (nodes rs) = {}" using d by (auto simp: gone_def files_def split: if_splits)
  have f: "forest sb1 (e_sib (fst_at sb j)) rs"
    by (rule forest_cong [OF j(3)]) (use g in \<open>auto simp: f1\<close>)
  have fs: "files sb1 rs = files sb rs"
    by (rule files_cong) (use g in \<open>auto simp: f1\<close>)
  have s: "separate sb1 (files sb1 rs) cl"
  proof (rule separate_step [OF 2(6)])
    show "h \<in> set (files sb (Entry j ts # rs))" if "h \<in> set (files sb1 rs)" for h using that fs all by auto
    show "e_sub (fst_at sb1 h) = e_sub (fst_at sb h)" for h by (simp add: f1)
    fix k assume "k \<in> (\<Union>h\<in>set (files sb1 rs). set (cl h))"
    then obtain h where h: "h \<in> set (files sb rs)" "k \<in> set (cl h)" using fs by auto
    then have "h \<notin> set gone" using g by (auto simp: files_def)
    have "k \<notin> set (cl f)" if "f \<in> set gone" for f
    proof -
      have "f \<noteq> h" "f \<in> set (files sb (Entry j ts # rs))" "h \<in> set (files sb (Entry j ts # rs))"
        using that h(1) \<open>h \<notin> set gone\<close> unfolding all by auto
      then have "set (cl f) \<inter> set (cl h) = {}" using 2(6) unfolding separate_def by blast
      then show ?thesis using h(2) by blast
    qed
    then have "k \<notin> (\<Union>f\<in>set gone. set (cl f))" by blast
    then show "fat_at sb1 k = fat_at sb k" by (simp add: t1)
  qed
  obtain sb' where sb': "delete_from (e_sib (fst_at sb j)) sb1 = Some sb'"
    and t': "\<And>k. fat_at sb' k = (if k \<in> (\<Union>f\<in>set (files sb rs). set (cl f)) then CLUSTER_UNUSED else fat_at sb1 k)"
    using 2(2) [OF sb1(2) f d(4) s] fs by auto
  have sib: "e_sib (fst_at sb1 j) = e_sib (fst_at sb j)" by (simp add: f1)
  have "delete_from i sb = Some sb'"
    using sb1(1) sb' j(1,2) sib by (subst delete_from.simps) (auto simp: first_def split: if_splits)
  then show ?case
    unfolding all using t' t1 by auto
qed

lemma CountDirectoryRecursively_forest:
  assumes "forest sb (e_sub (fst_at sb d)) ts"
  shows "CountDirectoryRecursively sb d = Some
    \<lparr>ds_used_clusters = sum_list (map (\<lambda>f. size_clusters (fst_at sb f)) (files sb ts)), ds_used_inodes = 1 + of_nat (length (nodes ts))\<rparr>"
  using count_from_forest [OF assms, of 0 1] by (simp add: CountDirectoryRecursively_def)

section \<open>Properties\<close>

text \<open>The demonstration image: the root holds \<open>a\<close> and \<open>d\<close>, and \<open>d\<close> holds \<open>b\<close>.\<close>

lemma demo_forest: "forest demo_sb 1 [Entry 1 [], Entry 2 [Entry 3 []]]" "forest demo_sb 3 [Entry 3 []]"
  by (simp_all add: in_fst_def FST_SIZE_def IsFile_def IsDirectory_def)

text \<open>
  The in-use check. On a directory whose contents form a finite forest it returns, and
  answers whether some file at any depth below the directory is open in a handle.
\<close>

theorem directory_in_use_spec:
  assumes "forest sb (e_sub (fst_at sb d)) ts"
  shows "IsDirectoryInUse sb s d = Some (\<exists>f. f \<in> set (nodes ts) \<and> IsFile (fst_at sb f) \<and>
    (\<exists>h \<in> set (m_handles s). h_opened h \<and> h_fst_index h = f))"
  using in_use_from_forest [OF assms, of s]
  by (auto simp: IsDirectoryInUse_def files_def IsFileOpened_def list_ex_iff)

lemma directory_in_use_spec_witness: "IsDirectoryInUse demo_sb demo_opened 0 = Some True"
proof -
  have 0: "m_handles demo_opened ! 0 \<in> set (m_handles demo_opened)"
    by (rule nth_mem) (simp add: demo_opened_def upd_handle_def NUM_HANDLES_def)
  have "h_opened (m_handles demo_opened ! 0)" "h_fst_index (m_handles demo_opened ! 0) = 3"
    by (simp_all add: demo_opened_def upd_handle_def NUM_HANDLES_def)
  then have open3: "\<exists>h \<in> set (m_handles demo_opened). h_opened h \<and> h_fst_index h = 3" using 0 by blast
  have f: "forest demo_sb (e_sub (fst_at demo_sb 0)) [Entry 1 [], Entry 2 [Entry 3 []]]"
    unfolding demo_fst demo_entry_fields by (rule demo_forest(1))
  have three: "3 \<in> set (nodes [Entry 1 [], Entry 2 [Entry 3 []]]) \<and> IsFile (fst_at demo_sb 3)" by (simp add: IsFile_def)
  show ?thesis unfolding directory_in_use_spec [OF f] using open3 three by blast
qed

text \<open>
  C30 Deleting the contents of a directory. On a finite forest without sharing it returns.
  Exactly the files at any depth below the directory are marked unused and exactly their
  clusters become free; so an entry of a directory below it stays as it was, still marked as
  a directory.
\<close>

theorem delete_contents_spec:
  assumes "sb_wf sb" and "forest sb (e_sub (fst_at sb d)) ts" and "distinct (nodes ts)"
    and "separate sb (filter (\<lambda>f. IsFile (fst_at sb f)) (nodes ts)) cl"
  shows "\<exists>sb'. DeleteDirectoryContents sb d = Some sb' \<and> sb_wf sb' \<and>
    (\<forall>g. fst_at sb' g = (if g \<in> set (nodes ts) \<and> IsFile (fst_at sb g) then (fst_at sb g)\<lparr>e_mode := 0\<rparr> else fst_at sb g)) \<and>
    (\<forall>j. fat_at sb' j = (if \<exists>f. f \<in> set (nodes ts) \<and> IsFile (fst_at sb f) \<and> j \<in> set (cl f) then CLUSTER_UNUSED else fat_at sb j))"
proof -
  obtain sb' where sb': "delete_from (e_sub (fst_at sb d)) sb = Some sb'" "sb_wf sb'"
    "\<And>g. fst_at sb' g = (if g \<in> set (files sb ts) then (fst_at sb g)\<lparr>e_mode := 0\<rparr> else fst_at sb g)"
    using delete_from_forest [OF assms(1-3)] by blast
  moreover have "separate sb (files sb ts) cl" using assms(4) by (simp add: files_def)
  then have "fat_at sb' j = (if j \<in> (\<Union>f\<in>set (files sb ts). set (cl f)) then CLUSTER_UNUSED else fat_at sb j)" for j
    using delete_from_clusters [OF assms(1-3), of cl] sb'(1) by auto
  ultimately show ?thesis
    by (intro exI [of _ sb']) (auto simp: DeleteDirectoryContents_def files_def)
qed

lemma delete_contents_spec_witness:
  "\<exists>sb'. DeleteDirectoryContents demo_sb 0 = Some sb' \<and> IsDirectory (fst_at sb' 2) \<and> e_mode (fst_at sb' 3) = 0 \<and>
    fat_at sb' 64 = CLUSTER_UNUSED"
proof -
  have "separate demo_sb [1, 3] (\<lambda>f. if f = 3 then [64] else [])"
    using demo_file_b by (simp add: separate_def file_clusters_def clusters_def)
  then show ?thesis
    using delete_contents_spec [OF sb_wf_demo, of 0 "[Entry 1 [], Entry 2 [Entry 3 []]]" "\<lambda>f. if f = 3 then [64] else []"]
      demo_forest(1)
    by (auto simp: IsFile_def IsDirectory_def)
qed

end
