(* ===== verification/FileIO.thy ===== *)
theory FileIO
  imports Handles FileData
begin

text \<open>
  The file cache and the operations of \<^verbatim>\<open>driver/file.cpp\<close> that move file data: filling and
  flushing the cache, closing, reading and writing. The loops of \<^verbatim>\<open>ReadFile\<close> and
  \<^verbatim>\<open>WriteFile\<close> are partial functions: a run that reads outside the cache or never ends is
  the value \<open>None\<close>.
\<close>

section \<open>The cache\<close>

definition FlushFileCache :: "('k, 'c) mbedtls \<Rightarrow> FileSystemImpl \<Rightarrow> ResultCode \<times> FileSystemImpl" where
  "FlushFileCache lib s = (case m_cache_handle s of
     None \<Rightarrow> (Success, s)
   | Some h \<Rightarrow>
       if \<not> m_cache_for_write s \<or> length (m_cache_data s) \<noteq> CLUSTER_DATA_SIZE then (Success, s)
       else (case WriteFileData lib (h_fst_index (handle_at s h)) (m_cache_data s) (m_cache_chain_index s)
                    (h_file_size (handle_at s h)) s of
               (result, s1) \<Rightarrow>
                 if result = Success
                 then (result, upd_handle h (\<lambda>x. x\<lparr>h_superblock_flush_needed := True\<rparr>) s1)
                 else (result, s1)))"

definition PopulateFileCache ::
  "('k, 'c) mbedtls \<Rightarrow> HandleRef \<Rightarrow> u32 \<Rightarrow> bool \<Rightarrow> ResultCode fs_op" where
  "PopulateFileCache lib handle offset for_write s =
     (let chain_index = (ucast (offset div of_nat CLUSTER_DATA_SIZE) :: u16) in
      if m_cache_handle s = Some handle \<and> m_cache_chain_index s = chain_index then Some (Success, s)
      else (case FlushFileCache lib s of
        (flush_result, s1) \<Rightarrow>
          if flush_result \<noteq> Success then Some (flush_result, s1)
          else
            let s2 = s1\<lparr>m_cache_handle := Some handle, m_cache_chain_index := chain_index,
                       m_cache_for_write := for_write\<rparr>
            in if offset mod of_nat CLUSTER_DATA_SIZE = 0 \<and> offset = h_file_size (handle_at s2 handle)
               then Some (Success, s2\<lparr>m_cache_data := replicate CLUSTER_DATA_SIZE 0\<rparr>)
               else do {
                 (data, s3) \<leftarrow> ReadFileData lib (h_fst_index (handle_at s2 handle)) chain_index s2;
                 Some (case data of
                   Inl e \<Rightarrow> (e, s3)
                 | Inr bytes \<Rightarrow> (Success, s3\<lparr>m_cache_data := bytes\<rparr>))
               }))"

section \<open>Closing\<close>

definition close_handle :: "('k, 'c) mbedtls \<Rightarrow> HandleRef \<Rightarrow> ResultCode fs_op" where
  "close_handle lib h s =
     (if h_superblock_flush_needed (handle_at s h)
      then do {
        (result, s1) \<leftarrow> FlushSuperblock lib s;
        Some (if result \<noteq> Success then (result, s1) else (Success, upd_handle h (\<lambda>_. new_Handle) s1))
      }
      else Some (Success, upd_handle h (\<lambda>_. new_Handle) s))"

definition Close :: "('k, 'c) mbedtls \<Rightarrow> Fd \<Rightarrow> ResultCode fs_op" where
  "Close lib fd s = (case GetHandleFromFd fd s of
     None \<Rightarrow> Some (Invalid, s)
   | Some h \<Rightarrow>
       if m_cache_handle s = Some h then
         (case FlushFileCache lib s of
            (flush_result, s1) \<Rightarrow>
              if flush_result \<noteq> Success then Some (flush_result, s1)
              else close_handle lib h (s1\<lparr>m_cache_handle := None, m_cache_data := []\<rparr>))
       else close_handle lib h s)"

section \<open>Reading\<close>

text \<open>
  The position in the cache of the next byte, and the number of bytes the next step copies.
  The iterator \<^verbatim>\<open>start\<close> must not lie behind the end of the cache.
\<close>

definition cache_start :: "FileSystemImpl \<Rightarrow> HandleRef \<Rightarrow> nat" where
  "cache_start s h = unat (h_file_offset (handle_at s h)
     - ucast (m_cache_chain_index s) * of_nat CLUSTER_DATA_SIZE :: u32)"

definition copy_length :: "FileSystemImpl \<Rightarrow> HandleRef \<Rightarrow> u32 \<Rightarrow> nat" where
  "copy_length s h remaining = min (length (m_cache_data s) - cache_start s h) (unat remaining)"

text \<open>
  \<open>ptr\<close> is the caller's buffer; the result says how many bytes were read, the buffer holds
  them from its start.
\<close>

partial_function (option) read_loop ::
  "('k, 'c) mbedtls \<Rightarrow> HandleRef \<Rightarrow> u32 \<Rightarrow> u32 \<Rightarrow> u8 list \<Rightarrow> (u32 Result \<times> u8 list) fs_op" where
  "read_loop lib h count processed_count ptr s =
     (if processed_count = count then Some ((Inr count, ptr), s)
      else do {
        (result, s1) \<leftarrow> PopulateFileCache lib h (h_file_offset (handle_at s h)) False s;
        if result \<noteq> Success then Some ((Inl result, ptr), s1)
        else
          let start = cache_start s1 h; n = copy_length s1 h (count - processed_count) in
          if start > length (m_cache_data s1) then None
          else read_loop lib h count (processed_count + of_nat n)
                 (copy_into ptr (unat processed_count) (slice start n (m_cache_data s1)))
                 (upd_handle h (\<lambda>x. x\<lparr>h_file_offset := h_file_offset x + of_nat n\<rparr>) s1)
      })"

definition ReadFile ::
  "('k, 'c) mbedtls \<Rightarrow> Fd \<Rightarrow> u8 list \<Rightarrow> u32 \<Rightarrow> (u32 Result \<times> u8 list) fs_op" where
  "ReadFile lib fd ptr count s = (case GetHandleFromFd fd s of
     None \<Rightarrow> Some ((Inl Invalid, ptr), s)
   | Some h \<Rightarrow>
       let handle = handle_at s h in
       if \<not> in_fst (h_fst_index handle) then Some ((Inl Invalid, ptr), s)
       else if FileMode_and (h_mode handle) FileMode_Read = 0 then Some ((Inl AccessDenied, ptr), s)
       else
         let count' = (if count + h_file_offset handle > h_file_size handle
                       then h_file_size handle - h_file_offset handle else count)
         in read_loop lib h count' 0 ptr s)"

section \<open>Writing\<close>

partial_function (option) write_loop ::
  "('k, 'c) mbedtls \<Rightarrow> HandleRef \<Rightarrow> u8 list \<Rightarrow> u32 \<Rightarrow> u32 \<Rightarrow> (u32 Result) fs_op" where
  "write_loop lib h ptr count processed_count s =
     (if processed_count = count then Some (Inr count, s)
      else do {
        (result, s1) \<leftarrow> PopulateFileCache lib h (h_file_offset (handle_at s h)) True s;
        if result \<noteq> Success then Some (Inl result, s1)
        else
          let start = cache_start s1 h; n = copy_length s1 h (count - processed_count) in
          if start > length (m_cache_data s1) then None
          else
            let s2 = s1\<lparr>m_cache_data := copy_into (m_cache_data s1) start (slice (unat processed_count) n ptr)\<rparr>;
                s3 = upd_handle h (\<lambda>x. x\<lparr>h_file_offset := h_file_offset x + of_nat n\<rparr>) s2;
                s4 = upd_handle h (\<lambda>x. x\<lparr>h_file_size := max (h_file_offset x) (h_file_size x)\<rparr>) s3
            in write_loop lib h ptr count (processed_count + of_nat n) s4
      })"

definition WriteFile ::
  "('k, 'c) mbedtls \<Rightarrow> Fd \<Rightarrow> u8 list \<Rightarrow> u32 \<Rightarrow> (u32 Result) fs_op" where
  "WriteFile lib fd ptr count s = (case GetHandleFromFd fd s of
     None \<Rightarrow> Some (Inl Invalid, s)
   | Some h \<Rightarrow>
       let handle = handle_at s h in
       if \<not> in_fst (h_fst_index handle) then Some (Inl Invalid, s)
       else if FileMode_and (h_mode handle) FileMode_Write = 0 then Some (Inl AccessDenied, s)
       else write_loop lib h ptr count 0 s)"

section \<open>What the cache operations leave alone\<close>

lemma WriteFileData_update:
  "\<exists>a b n. snd (WriteFileData lib f d i z s) = s\<lparr>m_superblock_index := a, m_superblock := b, m_nand := n\<rparr>"
proof -
  define Q where "Q t \<longleftrightarrow> (\<exists>a b n. t = s\<lparr>m_superblock_index := a, m_superblock := b, m_nand := n\<rparr>)" for t
  obtain r s1 where g: "GetSuperblock lib s = (r, s1)" by (cases "GetSuperblock lib s")
  obtain a b where s1: "s1 = s\<lparr>m_superblock_index := a, m_superblock := b\<rparr>"
    using GetSuperblock_update [of lib s] g by auto
  have "Q s" unfolding Q_def
    by (intro exI [of _ "m_superblock_index s"] exI [of _ "m_superblock s"] exI [of _ "m_nand s"]) simp
  moreover have "Q s1" unfolding Q_def s1
    by (intro exI [of _ a] exI [of _ b] exI [of _ "m_nand s"]) simp
  moreover have "Q (s1\<lparr>m_nand := n\<rparr>)" for n
    unfolding Q_def s1 by (intro exI [of _ a] exI [of _ b] exI [of _ n]) simp
  moreover have "Q (s1\<lparr>m_nand := n, m_superblock := x\<rparr>)" for n x
    unfolding Q_def s1 by (intro exI [of _ a] exI [of _ x] exI [of _ n]) simp
  ultimately have "Q (snd (WriteFileData lib f d i z s))"
    by (simp add: WriteFileData_def g Let_def split: option.split prod.split)
  then show ?thesis by (simp add: Q_def)
qed

lemma WriteFileData_handles [simp]:
  "m_handles (snd (WriteFileData lib f d i z s)) = m_handles s"
  "m_internal_handle (snd (WriteFileData lib f d i z s)) = m_internal_handle s"
  "m_cache_handle (snd (WriteFileData lib f d i z s)) = m_cache_handle s"
  "m_cache_chain_index (snd (WriteFileData lib f d i z s)) = m_cache_chain_index s"
  "m_cache_data (snd (WriteFileData lib f d i z s)) = m_cache_data s"
  "m_cache_for_write (snd (WriteFileData lib f d i z s)) = m_cache_for_write s"
  "m_keys (snd (WriteFileData lib f d i z s)) = m_keys s"
  using WriteFileData_update [of lib f d i z s] by auto

lemma ReadFileData_state:
  "ReadFileData lib f i s = Some (r, s') \<Longrightarrow> s' = s \<or> s' = snd (GetSuperblock lib s)"
  by (cases "GetSuperblock lib s")
    (auto simp: ReadFileData_def Let_def split: prod.splits option.splits sum.splits if_splits)

text \<open>
  \<open>same_positions s s'\<close>: the handles are the same up to the flag that a flush is needed.
\<close>

definition same_positions :: "FileSystemImpl \<Rightarrow> FileSystemImpl \<Rightarrow> bool" where
  "same_positions s s' \<longleftrightarrow> length (m_handles s') = length (m_handles s) \<and>
     (\<forall>h. valid_ref h \<longrightarrow> (\<exists>b. handle_at s' h = (handle_at s h)\<lparr>h_superblock_flush_needed := b\<rparr>))"

lemma same_positions_refl: "same_positions s s"
  unfolding same_positions_def
proof (intro conjI allI impI)
  fix h
  show "\<exists>b. handle_at s h = (handle_at s h)\<lparr>h_superblock_flush_needed := b\<rparr>"
    by (rule exI [of _ "h_superblock_flush_needed (handle_at s h)"]) simp
qed simp

lemma same_positions_cong:
  "m_handles s' = m_handles s \<Longrightarrow> m_internal_handle s' = m_internal_handle s \<Longrightarrow> same_positions s s'"
  using same_positions_refl [of s] by (auto simp: same_positions_def handle_at_def split: HandleRef.splits)

lemma same_positions_trans:
  assumes "same_positions s s'" "same_positions s' s''"
  shows "same_positions s s''"
  unfolding same_positions_def
proof (intro conjI allI impI)
  show "length (m_handles s'') = length (m_handles s)" using assms by (simp add: same_positions_def)
  fix h assume "valid_ref h"
  then obtain b c where "handle_at s' h = (handle_at s h)\<lparr>h_superblock_flush_needed := b\<rparr>"
    "handle_at s'' h = (handle_at s' h)\<lparr>h_superblock_flush_needed := c\<rparr>"
    using assms unfolding same_positions_def by blast
  then show "\<exists>b. handle_at s'' h = (handle_at s h)\<lparr>h_superblock_flush_needed := b\<rparr>" by auto
qed

lemma same_positions_flag:
  assumes "length (m_handles s) = NUM_HANDLES" "valid_ref h"
  shows "same_positions s (upd_handle h (\<lambda>x. x\<lparr>h_superblock_flush_needed := b\<rparr>) s)"
  using same_positions_refl [of s] assms by (auto simp: same_positions_def handle_at_upd_handle)

lemma same_positions_ok: "same_positions s s' \<Longrightarrow> handles_ok s \<Longrightarrow> handles_ok s'"
  unfolding handles_ok_def same_positions_def
proof (intro conjI allI impI; elim conjE)
  assume p: "\<forall>h. valid_ref h \<longrightarrow> (\<exists>b. handle_at s' h = (handle_at s h)\<lparr>h_superblock_flush_needed := b\<rparr>)"
    and o: "\<forall>h. valid_ref h \<longrightarrow> h_file_offset (handle_at s h) \<le> h_file_size (handle_at s h)"
    and i: "h_fst_index (m_internal_handle s) = 0xffff"
  have "valid_ref Internal" by (simp add: valid_ref_def)
  then obtain b where "handle_at s' Internal = (handle_at s Internal)\<lparr>h_superblock_flush_needed := b\<rparr>" using p by blast
  then show "h_fst_index (m_internal_handle s') = 0xffff" using i by (simp add: handle_at_def)
  fix h assume "valid_ref h"
  then obtain b where "handle_at s' h = (handle_at s h)\<lparr>h_superblock_flush_needed := b\<rparr>" using p by blast
  then show "h_file_offset (handle_at s' h) \<le> h_file_size (handle_at s' h)" using o \<open>valid_ref h\<close> by simp
qed simp

text \<open>
  \<open>cache_ok\<close>: the handle of the cache is one of the table or the internal one.
\<close>

definition cache_ok :: "FileSystemImpl \<Rightarrow> bool" where
  "cache_ok s \<longleftrightarrow> (\<forall>h. m_cache_handle s = Some h \<longrightarrow> valid_ref h)"

lemma FlushFileCache_positions:
  assumes "handles_ok s" "cache_ok s"
  shows "same_positions s (snd (FlushFileCache lib s))" "m_cache_handle (snd (FlushFileCache lib s)) = m_cache_handle s"
proof -
  have "same_positions s (snd (FlushFileCache lib s)) \<and> m_cache_handle (snd (FlushFileCache lib s)) = m_cache_handle s"
  proof (cases "m_cache_handle s")
    case None
    then show ?thesis using same_positions_refl by (simp add: FlushFileCache_def)
  next
    case (Some h)
    define w where "w = WriteFileData lib (h_fst_index (handle_at s h)) (m_cache_data s) (m_cache_chain_index s)
      (h_file_size (handle_at s h)) s"
    have s1: "same_positions s (snd w)" unfolding w_def by (rule same_positions_cong) simp_all
    have h: "valid_ref h" "length (m_handles (snd w)) = NUM_HANDLES"
      using assms Some by (auto simp: cache_ok_def handles_ok_def w_def)
    have c: "m_cache_handle (snd w) = Some h" by (simp add: w_def Some)
    show ?thesis
      using s1 c same_positions_trans [OF s1 same_positions_flag [OF h(2,1), of True]] same_positions_refl [of s] Some
      by (auto simp: FlushFileCache_def w_def [symmetric] split: prod.splits)
  qed
  then show "same_positions s (snd (FlushFileCache lib s))" "m_cache_handle (snd (FlushFileCache lib s)) = m_cache_handle s"
    by simp_all
qed

lemma PopulateFileCache_positions:
  assumes ok: "handles_ok s" "cache_ok s" "valid_ref h" and r: "PopulateFileCache lib h off w s = Some (r, s')"
  shows "same_positions s s'" "cache_ok s'"
proof -
  obtain res s1 where f: "FlushFileCache lib s = (res, s1)" by (cases "FlushFileCache lib s")
  have s1: "same_positions s s1" "cache_ok s1"
    using FlushFileCache_positions [OF ok(1,2), of lib] f ok(2) by (auto simp: cache_ok_def)
  define s2 where "s2 = s1\<lparr>m_cache_handle := Some h, m_cache_chain_index := ucast (off div of_nat CLUSTER_DATA_SIZE), m_cache_for_write := w\<rparr>"
  have s2: "same_positions s1 s2" unfolding s2_def by (rule same_positions_cong) simp_all
  have s12: "same_positions s s2" by (rule same_positions_trans [OF s1(1) s2])
  have rd: "same_positions s s3 \<and> cache_ok s3" if "ReadFileData lib g i s2 = Some (d, s3)" for g i d s3
    using ReadFileData_state [OF that] same_positions_trans [OF s12 same_positions_cong [of s3 s2]] ok(3)
    by (auto simp: s2_def cache_ok_def)
  have upd: "same_positions s (t\<lparr>m_cache_data := d\<rparr>) \<and> cache_ok (t\<lparr>m_cache_data := d\<rparr>)"
    if "same_positions s t" "cache_ok t" for t d
    using same_positions_trans [OF that(1) same_positions_cong [of "t\<lparr>m_cache_data := d\<rparr>" t]] that(2)
    by (simp add: cache_ok_def)
  have c2: "cache_ok s2" using ok(3) by (simp add: s2_def cache_ok_def)
  define done_cond where "done_cond \<longleftrightarrow> off mod of_nat CLUSTER_DATA_SIZE = 0 \<and> off = h_file_size (handle_at s2 h)"
  have "PopulateFileCache lib h off w s =
    (if m_cache_handle s = Some h \<and> m_cache_chain_index s = ucast (off div of_nat CLUSTER_DATA_SIZE) then Some (Success, s)
     else if res \<noteq> Success then Some (res, s1)
     else if done_cond then Some (Success, s2\<lparr>m_cache_data := replicate CLUSTER_DATA_SIZE 0\<rparr>)
     else ReadFileData lib (h_fst_index (handle_at s2 h)) (ucast (off div of_nat CLUSTER_DATA_SIZE)) s2 \<bind>
       (\<lambda>(data, s3). Some (case data of Inl e \<Rightarrow> (e, s3) | Inr bytes \<Rightarrow> (Success, s3\<lparr>m_cache_data := bytes\<rparr>))))"
    unfolding PopulateFileCache_def Let_def f prod.case s2_def done_cond_def by (rule refl)
  note eq = trans [OF this [symmetric] r]
  have "same_positions s s' \<and> cache_ok s'"
  proof (cases "m_cache_handle s = Some h \<and> m_cache_chain_index s = ucast (off div of_nat CLUSTER_DATA_SIZE) \<or> res \<noteq> Success \<or> done_cond")
    case True
    then have "s' = s \<or> s' = s1 \<or> s' = s2\<lparr>m_cache_data := replicate CLUSTER_DATA_SIZE 0\<rparr>"
      using eq by (auto split: if_split_asm)
    then show ?thesis using same_positions_refl ok(2) s1 upd [OF s12 c2] by blast
  next
    case False
    then obtain d s3 where d: "ReadFileData lib (h_fst_index (handle_at s2 h)) (ucast (off div of_nat CLUSTER_DATA_SIZE)) s2 = Some (d, s3)"
      "(case d of Inl e \<Rightarrow> (e, s3) | Inr bytes \<Rightarrow> (Success, s3\<lparr>m_cache_data := bytes\<rparr>)) = (r, s')"
      using eq by (auto simp: bind_eq_Some_conv)
    then show ?thesis using rd [OF d(1)] upd [of s3] by (cases d) auto
  qed
  then show "same_positions s s'" "cache_ok s'" by simp_all
qed

end
