(* ===== verification/FsOps.thy ===== *)
theory FsOps
  imports FileIO FstOps
begin

text \<open>
  The public operations of \<^verbatim>\<open>driver/fs.cpp\<close>: construction, formatting, creating, deleting and
  renaming entries, reading directories and metadata, and the statistics.
\<close>

section \<open>Construction and formatting\<close>

definition Create :: "('k, 'c) mbedtls \<Rightarrow> memory \<Rightarrow> FileSystemKeys \<Rightarrow> FileSystemImpl" where
  "Create lib nand_bytes keys = (case GetSuperblock lib (initial_fs nand_bytes keys) of
     (None, s) \<Rightarrow> s
   | (Some superblock, s) \<Rightarrow>
       s\<lparr>m_superblock := Some (superblock\<lparr>sb_fat :=
         map (\<lambda>cluster. if cluster = 0xffff then CLUSTER_UNUSED else cluster) (sb_fat superblock)\<rparr>)\<rparr>)"

definition format_root :: FstEntry where
  "format_root = (SetName ''/'' zero_FstEntry)\<lparr>e_mode := 0x16, e_sub := 0xffff, e_sib := 0xffff\<rparr>"

definition format_superblock :: "Superblock \<Rightarrow> Superblock" where
  "format_superblock superblock =
     superblock\<lparr>sb_magic := SUPERBLOCK_MAGIC,
       sb_fat := map (\<lambda>i. if i < 64 \<or> i \<ge> unat SUPERBLOCK_START_CLUSTER then CLUSTER_RESERVED else CLUSTER_UNUSED)
         [0..<length (sb_fat superblock)],
       sb_fst := (replicate (length (sb_fst superblock)) zero_FstEntry)[0 := format_root]\<rparr>"

definition Format :: "('k, 'c) mbedtls \<Rightarrow> Uid \<Rightarrow> ResultCode fs_op" where
  "Format lib uid s =
     (if uid \<noteq> 0 then Some (AccessDenied, s)
      else (case GetSuperblock lib s of
        (superblock, s1) \<Rightarrow>
          let base = (case superblock of None \<Rightarrow> zero_Superblock | Some sb \<Rightarrow> sb) in
          FlushSuperblock lib (s1\<lparr>m_superblock := Some (format_superblock base),
            m_handles := map (\<lambda>handle. handle\<lparr>h_opened := False\<rparr>) (m_handles s1)\<rparr>)))"

section \<open>Creating\<close>

text \<open>
  \<^verbatim>\<open>c - ' ' > 0x5e\<close> on a \<^verbatim>\<open>char\<close>, which is signed on the targets of the build.
\<close>

definition bad_char :: "char \<Rightarrow> bool" where
  "bad_char c \<longleftrightarrow> sint (u8_of_char c) - 0x20 > 0x5e"

text \<open>The entry that is written into the free slot, and the links of the slot and its parent.\<close>

definition init_child :: "Handle \<Rightarrow> string \<Rightarrow> FileAttribute \<Rightarrow> FileMode \<Rightarrow> FileMode \<Rightarrow> FileMode \<Rightarrow> bool \<Rightarrow>
    FstEntry \<Rightarrow> FstEntry" where
  "init_child handle name attribute owner_mode group_mode other_mode is_file e =
     (let e1 = (SetName name e)\<lparr>e_mode := if is_file then 1 else 2\<rparr>;
          e2 = SetAccessMode owner_mode group_mode other_mode e1
      in e2\<lparr>e_uid := h_uid handle, e_gid := h_gid handle, e_size := 0, e_x3 := 0, e_attr := attribute,
            e_sub := if is_file then CLUSTER_LAST_IN_CHAIN else 0xffff\<rparr>)"

definition add_child :: "Handle \<Rightarrow> string \<Rightarrow> FileAttribute \<Rightarrow> FileMode \<Rightarrow> FileMode \<Rightarrow> FileMode \<Rightarrow> bool \<Rightarrow> u16 \<Rightarrow> u16 \<Rightarrow>
    Superblock \<Rightarrow> Superblock" where
  "add_child handle name attribute owner_mode group_mode other_mode is_file parent_idx child_idx superblock =
     (let sb1 = upd_fst child_idx (init_child handle name attribute owner_mode group_mode other_mode is_file) superblock;
          sb2 = set_sib child_idx (e_sub (fst_at sb1 parent_idx)) sb1
      in upd_fst parent_idx (\<lambda>e. e\<lparr>e_sub := child_idx\<rparr>) sb2)"

definition CreateFileOrDirectory :: "('k, 'c) mbedtls \<Rightarrow> HandleRef \<Rightarrow> string \<Rightarrow> FileAttribute \<Rightarrow>
    FileMode \<Rightarrow> FileMode \<Rightarrow> FileMode \<Rightarrow> bool \<Rightarrow> ResultCode fs_op" where
  "CreateFileOrDirectory lib h path attribute owner_mode group_mode other_mode is_file s =
     (if \<not> IsValidNonRootPath path \<or> list_ex bad_char path then Some (Invalid, s)
      else if \<not> is_file \<and> count_list path (CHR ''/'') > 8 then Some (TooManyPathComponents, s)
      else (case GetSuperblock lib s of
        (None, s1) \<Rightarrow> Some (SuperblockInitFailed, s1)
      | (Some superblock, s1) \<Rightarrow>
          let split_path = SplitPath path; handle = handle_at s1 h in do {
            parent_result \<leftarrow> GetFstIndex superblock (parent split_path);
            (case parent_result of
              Inl _ \<Rightarrow> Some (NotFound, s1)
            | Inr parent_idx \<Rightarrow>
                if \<not> HasPermission (fst_at superblock parent_idx) (h_uid handle) (h_gid handle) FileMode_Write
                then Some (AccessDenied, s1)
                else do {
                  existing \<leftarrow> GetFstIndex_child superblock parent_idx (file_name split_path);
                  if Succeeded existing then Some (AlreadyExists, s1)
                  else (case GetUnusedFstIndex superblock of
                    Inl _ \<Rightarrow> Some (FstFull, s1)
                  | Inr child_idx \<Rightarrow>
                      FlushSuperblock lib (s1\<lparr>m_superblock := Some (add_child handle (file_name split_path)
                        attribute owner_mode group_mode other_mode is_file parent_idx child_idx superblock)\<rparr>))
                })
          }))"

definition CreateFile :: "('k, 'c) mbedtls \<Rightarrow> Fd \<Rightarrow> string \<Rightarrow> FileAttribute \<Rightarrow>
    FileMode \<Rightarrow> FileMode \<Rightarrow> FileMode \<Rightarrow> ResultCode fs_op" where
  "CreateFile lib fd path attribute owner_mode group_mode other_mode s = (case GetHandleFromFd fd s of
     None \<Rightarrow> Some (Invalid, s)
   | Some h \<Rightarrow> CreateFileOrDirectory lib h path attribute owner_mode group_mode other_mode True s)"

definition CreateDirectory :: "('k, 'c) mbedtls \<Rightarrow> Fd \<Rightarrow> string \<Rightarrow> FileAttribute \<Rightarrow>
    FileMode \<Rightarrow> FileMode \<Rightarrow> FileMode \<Rightarrow> ResultCode fs_op" where
  "CreateDirectory lib fd path attribute owner_mode group_mode other_mode s = (case GetHandleFromFd fd s of
     None \<Rightarrow> Some (Invalid, s)
   | Some h \<Rightarrow> CreateFileOrDirectory lib h path attribute owner_mode group_mode other_mode False s)"

section \<open>Deleting and renaming\<close>

text \<open>
  The choice both operations make for an entry that is to go: a directory not in use loses
  its contents, a file that is not open its clusters; otherwise the entry is in use
  (\<open>Some None\<close>).
\<close>

definition delete_target :: "FileSystemImpl \<Rightarrow> Superblock \<Rightarrow> u16 \<Rightarrow> Superblock option option" where
  "delete_target s superblock index =
     (let entry = fst_at superblock index in do {
        free_dir \<leftarrow> (if IsDirectory entry then map_option Not (IsDirectoryInUse superblock s index) else Some False);
        if free_dir then map_option Some (DeleteDirectoryContents superblock index)
        else if IsFile entry \<and> \<not> IsFileOpened s index then map_option Some (DeleteFile superblock index)
        else Some None
      })"

definition Delete :: "('k, 'c) mbedtls \<Rightarrow> Fd \<Rightarrow> string \<Rightarrow> ResultCode fs_op" where
  "Delete lib fd path s = (case GetHandleFromFd fd s of
     None \<Rightarrow> Some (Invalid, s)
   | Some h \<Rightarrow>
       if \<not> IsValidNonRootPath path then Some (Invalid, s)
       else (case GetSuperblock lib s of
         (None, s1) \<Rightarrow> Some (SuperblockInitFailed, s1)
       | (Some superblock, s1) \<Rightarrow>
           let split_path = SplitPath path; handle = handle_at s1 h in do {
             parent_result \<leftarrow> GetFstIndex superblock (parent split_path);
             (case parent_result of
               Inl _ \<Rightarrow> Some (NotFound, s1)
             | Inr parent_idx \<Rightarrow>
                 if \<not> HasPermission (fst_at superblock parent_idx) (h_uid handle) (h_gid handle) FileMode_Write
                 then Some (AccessDenied, s1)
                 else do {
                   index_result \<leftarrow> GetFstIndex_child superblock parent_idx (file_name split_path);
                   (case index_result of
                     Inl _ \<Rightarrow> Some (NotFound, s1)
                   | Inr index \<Rightarrow> do {
                       target \<leftarrow> delete_target s1 superblock index;
                       (case target of
                         None \<Rightarrow> Some (InUse, s1)
                       | Some sb1 \<Rightarrow> do {
                           (result, sb2) \<leftarrow> RemoveFstEntryFromChain sb1 parent_idx index;
                           (let s2 = s1\<lparr>m_superblock := Some sb2\<rparr> in
                            if result \<noteq> Success then Some (result, s2) else FlushSuperblock lib s2)
                         })
                     })
                 })
           }))"

text \<open>The last part of \<^verbatim>\<open>Rename\<close>: the entry is unlinked and put into its new directory.\<close>

definition move_entry :: "('k, 'c) mbedtls \<Rightarrow> FileSystemImpl \<Rightarrow> Superblock \<Rightarrow> u16 \<Rightarrow> u16 \<Rightarrow> u16 \<Rightarrow> string \<Rightarrow>
    (ResultCode \<times> FileSystemImpl) option" where
  "move_entry lib s superblock old_parent new_parent index new_name = do {
     let saved_mode = e_mode (fst_at superblock index);
     (remove_result, sb1) \<leftarrow> RemoveFstEntryFromChain superblock old_parent index;
     (if remove_result \<noteq> Success then Some (remove_result, s\<lparr>m_superblock := Some sb1\<rparr>)
      else
        let sb2 = upd_fst index (\<lambda>e. SetName new_name (e\<lparr>e_mode := saved_mode\<rparr>)) sb1;
            sb3 = set_sib index (e_sub (fst_at sb2 new_parent)) sb2;
            sb4 = upd_fst new_parent (\<lambda>e. e\<lparr>e_sub := index\<rparr>) sb3
        in FlushSuperblock lib (s\<lparr>m_superblock := Some sb4\<rparr>))
   }"

definition Rename :: "('k, 'c) mbedtls \<Rightarrow> Fd \<Rightarrow> string \<Rightarrow> string \<Rightarrow> ResultCode fs_op" where
  "Rename lib fd old_path new_path s = (case GetHandleFromFd fd s of
     None \<Rightarrow> Some (Invalid, s)
   | Some h \<Rightarrow>
       if \<not> IsValidNonRootPath old_path \<or> \<not> IsValidNonRootPath new_path then Some (Invalid, s)
       else (case GetSuperblock lib s of
         (None, s1) \<Rightarrow> Some (SuperblockInitFailed, s1)
       | (Some superblock, s1) \<Rightarrow>
           let split_old_path = SplitPath old_path; split_new_path = SplitPath new_path; handle = handle_at s1 h in do {
             old_result \<leftarrow> GetFstIndex superblock (parent split_old_path);
             new_result \<leftarrow> GetFstIndex superblock (parent split_new_path);
             (case (old_result, new_result) of
               (Inr old_parent, Inr new_parent) \<Rightarrow>
                 if \<not> HasPermission (fst_at superblock old_parent) (h_uid handle) (h_gid handle) FileMode_Write \<or>
                    \<not> HasPermission (fst_at superblock new_parent) (h_uid handle) (h_gid handle) FileMode_Write
                 then Some (AccessDenied, s1)
                 else do {
                   index_result \<leftarrow> GetFstIndex_child superblock old_parent (file_name split_old_path);
                   (case index_result of
                     Inl _ \<Rightarrow> Some (NotFound, s1)
                   | Inr index \<Rightarrow>
                       let entry = fst_at superblock index in
                       if IsFile entry \<and> take 12 (file_name split_old_path) = take 12 (file_name split_new_path)
                       then Some (Invalid, s1)
                       else do {
                         dir_in_use \<leftarrow> (if IsDirectory entry then IsDirectoryInUse superblock s1 index else Some False);
                         if dir_in_use \<or> (IsFile entry \<and> IsFileOpened s1 index) then Some (InUse, s1)
                         else do {
                           new_index_result \<leftarrow> GetFstIndex_child superblock new_parent (file_name split_new_path);
                           (case new_index_result of
                             Inl _ \<Rightarrow> move_entry lib s1 superblock old_parent new_parent index (file_name split_new_path)
                           | Inr new_index \<Rightarrow>
                               if e_mode (fst_at superblock new_index) AND 3 \<noteq> e_mode entry AND 3 \<or> new_index = index
                               then Some (Invalid, s1)
                               else do {
                                 target \<leftarrow> delete_target s1 superblock new_index;
                                 (case target of
                                   None \<Rightarrow> Some (InUse, s1)
                                 | Some sb1 \<Rightarrow> do {
                                     (remove_result, sb2) \<leftarrow> RemoveFstEntryFromChain sb1 new_parent new_index;
                                     (if remove_result \<noteq> Success then Some (remove_result, s1\<lparr>m_superblock := Some sb2\<rparr>)
                                      else move_entry lib s1 sb2 old_parent new_parent index (file_name split_new_path))
                                   })
                               })
                         }
                       })
                 }
             | _ \<Rightarrow> Some (NotFound, s1))
           }))"

end
