(* ===== verification/FsTree.thy ===== *)
theory FsTree
  imports Forest FsOps
begin

text \<open>
  The FST as one tree from the root directory: the map from paths to entries it stands for,
  and what replacing the children of one directory does to it. The operations of the driver
  that create, delete and move entries are instances of such a replacement.
\<close>

section \<open>Trees and their nodes\<close>

fun root :: "fst_tree \<Rightarrow> u16" where
  "root (Entry j us) = j"

fun kids :: "u16 \<Rightarrow> fst_tree list \<Rightarrow> fst_tree list option" where
  "kids p [] = None"
| "kids p (Entry j us # rs) = (if j = p then Some us else case kids p us of None \<Rightarrow> kids p rs | Some ks \<Rightarrow> Some ks)"

fun put_kids :: "u16 \<Rightarrow> fst_tree list \<Rightarrow> fst_tree list \<Rightarrow> fst_tree list" where
  "put_kids p ks [] = []"
| "put_kids p ks (Entry j us # rs) = (if j = p then Entry j ks # rs else Entry j (put_kids p ks us) # put_kids p ks rs)"

lemma kids_None: "kids p ts = None \<longleftrightarrow> p \<notin> set (nodes ts)"
  by (induction ts rule: nodes.induct) (auto split: option.splits)

lemma kids_Some_node: "kids p ts = Some us \<Longrightarrow> p \<in> set (nodes ts)"
  using kids_None [of p ts] by auto

lemma put_kids_other: "p \<notin> set (nodes ts) \<Longrightarrow> put_kids p ks ts = ts"
  by (induction ts rule: nodes.induct) auto

lemma nodes_append [simp]: "nodes (ts @ us) = nodes ts @ nodes us"
  by (induction ts rule: nodes.induct) simp_all

lemma root_in_nodes: "t \<in> set ts \<Longrightarrow> root t \<in> set (nodes ts)"
  by (induction ts rule: nodes.induct) auto

text \<open>The nodes below \<open>p\<close> are one contiguous part of the list of all nodes.\<close>

lemma kids_split:
  assumes "distinct (nodes ts)" "kids p ts = Some us"
  shows "\<exists>A B. nodes ts = A @ nodes us @ B \<and> p \<in> set A \<and> (\<forall>ks. nodes (put_kids p ks ts) = A @ nodes ks @ B)"
  using assms
proof (induction ts rule: nodes.induct)
  case 1
  then show ?case by simp
next
  case (2 j ws rs)
  have d: "distinct (nodes ws)" "distinct (nodes rs)" "set (nodes ws) \<inter> set (nodes rs) = {}" "j \<notin> set (nodes ws)" "j \<notin> set (nodes rs)"
    using 2(3) by auto
  consider (here) "j = p" | (below) "j \<noteq> p" "kids p ws = Some us" | (behind) "j \<noteq> p" "kids p ws = None" "kids p rs = Some us"
    using 2(4) by (auto split: if_splits option.splits)
  then show ?case
  proof cases
    case here
    then show ?thesis using 2(4) by (intro exI [of _ "[j]"] exI [of _ "nodes rs"]) simp
  next
    case below
    then obtain A B where ab: "nodes ws = A @ nodes us @ B" "p \<in> set A" "\<And>ks. nodes (put_kids p ks ws) = A @ nodes ks @ B"
      using 2(1) [OF d(1)] by blast
    have "p \<notin> set (nodes rs)" using kids_Some_node [OF below(2)] d(3) by auto
    then show ?thesis using below ab by (intro exI [of _ "j # A"] exI [of _ "B @ nodes rs"]) (simp add: put_kids_other)
  next
    case behind
    then obtain A B where ab: "nodes rs = A @ nodes us @ B" "p \<in> set A" "\<And>ks. nodes (put_kids p ks rs) = A @ nodes ks @ B"
      using 2(2) [OF d(2)] by blast
    have "p \<notin> set (nodes ws)" using kids_None behind(2) by blast
    then show ?thesis using behind ab by (intro exI [of _ "j # nodes ws @ A"] exI [of _ B]) (simp add: put_kids_other)
  qed
qed

lemma kids_put_kids:
  "distinct (nodes ts) \<Longrightarrow> kids p ts = Some us \<Longrightarrow> kids p (put_kids p ks ts) = Some ks"
proof (induction ts rule: nodes.induct)
  case (2 j ws rs)
  then show ?case
    using kids_None [of p ws] by (auto simp: put_kids_other split: option.splits)
qed simp

section \<open>Replacing the children of a directory\<close>

lemma kids_forest:
  "forest sb i ts \<Longrightarrow> kids p ts = Some us \<Longrightarrow> IsDirectory (fst_at sb p) \<Longrightarrow> forest sb (e_sub (fst_at sb p)) us"
  by (induction sb i ts rule: forest.induct) (auto simp: IsFile_def IsDirectory_def split: if_splits option.splits)

lemma forest_put_kids:
  assumes "forest sb i ts" "distinct (nodes ts)" "kids p ts = Some us"
    and "forest sb' (e_sub (fst_at sb' p)) ks" "IsDirectory (fst_at sb' p)" "e_sib (fst_at sb' p) = e_sib (fst_at sb p)"
    and "\<And>g. g \<in> set (nodes ts) - set (nodes us) - {p} \<Longrightarrow> e_sub (fst_at sb' g) = e_sub (fst_at sb g) \<and>
      e_sib (fst_at sb' g) = e_sib (fst_at sb g) \<and> e_mode (fst_at sb' g) = e_mode (fst_at sb g)"
  shows "forest sb' i (put_kids p ks ts)"
  using assms(1-3,7)
proof (induction ts arbitrary: i rule: nodes.induct)
  case 1
  then show ?case by simp
next
  case (2 j ws rs)
  have d: "distinct (nodes ws)" "distinct (nodes rs)" "set (nodes ws) \<inter> set (nodes rs) = {}" "j \<notin> set (nodes ws)" "j \<notin> set (nodes rs)"
    using 2(4) by auto
  have f: "i = j" "in_fst j" "forest sb (e_sib (fst_at sb j)) rs"
    "if IsFile (fst_at sb j) then ws = [] else IsDirectory (fst_at sb j) \<and> forest sb (e_sub (fst_at sb j)) ws"
    using 2(3) by auto
  note frame = 2(6)
  consider (here) "j = p" "ws = us" | (below) "j \<noteq> p" "kids p ws = Some us" | (behind) "j \<noteq> p" "kids p ws = None" "kids p rs = Some us"
    using 2(5) by (auto split: if_splits option.splits)
  then show ?case
  proof cases
    case here
    have "forest sb' (e_sib (fst_at sb j)) rs"
      by (rule forest_cong [OF f(3)]) (use frame d here in auto)
    then show ?thesis using here assms(4-6) f(1,2) by (simp add: IsFile_def IsDirectory_def)
  next
    case below
    have sub: "set (nodes us) \<subseteq> set (nodes ws)" using kids_split [OF d(1) below(2)] by auto
    have p: "p \<in> set (nodes ws)" by (rule kids_Some_node [OF below(2)])
    then have dir: "\<not> IsFile (fst_at sb j)" using f(4) by auto
    have j': "e_sub (fst_at sb' j) = e_sub (fst_at sb j)" "e_sib (fst_at sb' j) = e_sib (fst_at sb j)" "e_mode (fst_at sb' j) = e_mode (fst_at sb j)"
      using frame [of j] below(1) d(4) sub by auto
    have "forest sb' (e_sib (fst_at sb j)) rs"
      by (rule forest_cong [OF f(3)]) (use frame d p sub in auto)
    moreover have "forest sb' (e_sub (fst_at sb j)) (put_kids p ks ws)"
    proof (rule 2(1))
      show "forest sb (e_sub (fst_at sb j)) ws" using f(4) dir by simp
    qed (use d below frame in auto)
    moreover have "put_kids p ks rs = rs" by (rule put_kids_other) (use p d(3) in auto)
    ultimately show ?thesis
      using below f dir j' by (auto simp: IsFile_def IsDirectory_def)
  next
    case behind
    have sub: "set (nodes us) \<subseteq> set (nodes rs)" using kids_split [OF d(2) behind(3)] by auto
    have p: "p \<in> set (nodes rs)" by (rule kids_Some_node [OF behind(3)])
    have j': "e_sub (fst_at sb' j) = e_sub (fst_at sb j)" "e_sib (fst_at sb' j) = e_sib (fst_at sb j)" "e_mode (fst_at sb' j) = e_mode (fst_at sb j)"
      using frame [of j] behind(1) d(5) sub by auto
    have "forest sb' (e_sib (fst_at sb j)) (put_kids p ks rs)"
      by (rule 2(2)) (use f d behind frame in auto)
    moreover have "forest sb' (e_sub (fst_at sb j)) ws" if "\<not> IsFile (fst_at sb j)"
      by (rule forest_cong [of sb]) (use f(4) that frame d p sub in auto)
    moreover have "put_kids p ks ws = ws" by (rule put_kids_other) (use p d(3) in auto)
    ultimately show ?thesis
      using behind f j' by (auto simp: IsFile_def IsDirectory_def split: if_splits)
  qed
qed

section \<open>Paths\<close>

text \<open>
  \<open>kid_roots q T\<close> are the entries in directory \<open>q\<close>; \<open>resolve\<close> walks a path of names
  through them. As a function of the path it is the abstract file system: a map from paths to
  entries.
\<close>

definition kid_roots :: "u16 \<Rightarrow> fst_tree list \<Rightarrow> u16 list option" where
  "kid_roots q T = map_option (map root) (kids q T)"

definition named :: "Superblock \<Rightarrow> string \<Rightarrow> u16 \<Rightarrow> bool" where
  "named sb n k \<longleftrightarrow> GetName (fst_at sb k) = n"

fun resolve :: "Superblock \<Rightarrow> fst_tree list \<Rightarrow> u16 \<Rightarrow> string list \<Rightarrow> u16 option" where
  "resolve sb T j [] = Some j"
| "resolve sb T j (n # ns) = (case kid_roots j T of
     None \<Rightarrow> None
   | Some ks \<Rightarrow> (case find (named sb n) ks of None \<Rightarrow> None | Some k \<Rightarrow> resolve sb T k ns))"

definition components :: "string \<Rightarrow> string list" where
  "components path = SplitString (tl path) (CHR ''/'')"

lemma GetFstIndex_components: "GetFstIndex sb path = walk_path sb 0 (components path)"
  by (auto simp: GetFstIndex_def components_def SplitString_ref)

lemma roots_put_kids [simp]: "map root (put_kids p ks ts) = map root ts"
  by (induction ts rule: nodes.induct) auto

lemma kid_roots_put_other:
  assumes "distinct (nodes ts)" "kids p ts = Some us" "q \<noteq> p" "q \<notin> set (nodes us)" "q \<notin> set (nodes ks)"
  shows "kid_roots q (put_kids p ks ts) = kid_roots q ts"
  using assms(1-2)
proof (induction ts rule: nodes.induct)
  case (2 j ws rs)
  have ks: "kids q ks = None" "kids q us = None" using assms(4,5) kids_None by blast+
  have d: "distinct (nodes ws)" "distinct (nodes rs)" "set (nodes ws) \<inter> set (nodes rs) = {}" using 2(3) by auto
  show ?case
  proof (cases "j = p \<or> j = q")
    case True
    then show ?thesis using 2(4) ks assms(3) by (auto simp: kid_roots_def)
  next
    case False
    have ws: "kid_roots q (put_kids p ks ws) = kid_roots q ws"
      using 2(1) [OF d(1)] kids_None [of p ws] 2(4) False by (cases "kids p ws") (auto simp: put_kids_other)
    have rs: "kid_roots q (put_kids p ks rs) = kid_roots q rs"
    proof (cases "kids p ws")
      case None
      then show ?thesis using 2(2) [OF d(2)] 2(4) False by simp
    next
      case (Some x)
      then have "p \<notin> set (nodes rs)" using kids_Some_node [OF Some] d(3) by auto
      then show ?thesis by (simp add: put_kids_other)
    qed
    have "kids q (put_kids p ks ws) = None \<longleftrightarrow> kids q ws = None" using ws by (auto simp: kid_roots_def map_option_is_None [symmetric] simp del: map_option_is_None)
    then show ?thesis using ws rs False by (auto simp: kid_roots_def split: option.splits)
  qed
qed simp

lemma kids_in_subtree:
  assumes "distinct (nodes ts)" "kids p ts = Some us" "q \<in> set (nodes us)"
  shows "kids q ts = kids q us"
  using assms(1,2)
proof (induction ts rule: nodes.induct)
  case (2 j ws rs)
  have d: "distinct (nodes ws)" "distinct (nodes rs)" "set (nodes ws) \<inter> set (nodes rs) = {}" "j \<notin> set (nodes ws)" "j \<notin> set (nodes rs)"
    using 2(3) by auto
  obtain u where u: "kids q us = Some u" using assms(3) kids_None by (metis option.exhaust)
  consider (here) "j = p" "ws = us" | (below) "j \<noteq> p" "kids p ws = Some us" | (behind) "j \<noteq> p" "kids p ws = None" "kids p rs = Some us"
    using 2(4) by (auto split: if_splits option.splits)
  then show ?case
  proof cases
    case here
    then show ?thesis using assms(3) u d(4) by auto
  next
    case below
    have "q \<in> set (nodes ws)" using kids_split [OF d(1) below(2)] assms(3) by auto
    then show ?thesis using 2(1) [OF d(1) below(2)] u d(4) by auto
  next
    case behind
    have "q \<in> set (nodes rs)" using kids_split [OF d(2) behind(3)] assms(3) by auto
    then have "q \<noteq> j" "kids q ws = None" using d kids_None by auto
    then show ?thesis using 2(2) [OF d(2) behind(3)] u by simp
  qed
qed simp

text \<open>A resolved path is one that the driver's walk finds.\<close>

lemma kid_roots_children:
  assumes "forest sb i T" "kid_roots j T = Some ks" "ks \<noteq> []"
  shows "IsDirectory (fst_at sb j)" "children sb j ks" "in_fst j"
proof -
  obtain us where us: "kids j T = Some us" "ks = map root us" using assms(2) by (auto simp: kid_roots_def)
  have "us \<noteq> []" using assms(3) us(2) by auto
  with assms(1) us(1) show d: "IsDirectory (fst_at sb j)"
    by (induction sb i T rule: forest.induct) (auto split: if_splits option.splits)
  have "(\<lambda>t. case t of Entry k _ \<Rightarrow> k) = root" by (rule ext) (simp split: fst_tree.split)
  then show "children sb j ks"
    using forest_children [OF kids_forest [OF assms(1) us(1) d]] us(2) by (simp add: children_def)
  show "in_fst j" using forest_nodes_valid [OF assms(1) kids_Some_node [OF us(1)]] by blast
qed

lemma find_named:
  assumes "find (named sb n) ks = Some k"
  shows "k \<in> set ks" "GetName (fst_at sb k) = n" "ks \<noteq> []"
  using assms by (auto simp: find_Some_iff named_def)

lemma walk_resolve:
  assumes "sb_wf sb" "forest sb i T"
  shows "resolve sb T j ns = Some k \<Longrightarrow> walk_path sb j ns = Some (Inr k)"
proof (induction ns arbitrary: j)
  case Nil
  then show ?case by simp
next
  case (Cons n ns)
  obtain ks c where ks: "kid_roots j T = Some ks" and c: "find (named sb n) ks = Some c" and r: "resolve sb T c ns = Some k"
    using Cons.prems by (auto split: option.splits)
  note f = find_named [OF c] and dir = kid_roots_children [OF assms(2) ks find_named(3) [OF c]]
  have cv: "in_fst c" using chain_valid [of "next_sib sb" in_fst "e_sub (fst_at sb j)" ks c] dir(2) f(1) by (simp add: children_def)
  have "length n \<le> 12" using GetName_length [OF entry_wf_fst_at [OF assms(1) cv]] f(2) by simp
  then have "GetFstIndex_child sb j n = Some (Inr c)"
    using GetFstIndex_child_find [OF dir(3,2)] c by (simp add: named_def [abs_def])
  then show ?case using Cons.IH [OF r] cv by simp
qed

lemma kid_roots_node:
  assumes "kid_roots j T = Some ks" "k \<in> set ks"
  shows "k \<in> set (nodes T)"
proof -
  obtain us where us: "kids j T = Some us" "k \<in> set (map root us)" using assms by (auto simp: kid_roots_def)
  have "set (nodes us) \<subseteq> set (nodes T)"
    using us(1) by (induction T rule: nodes.induct) (auto split: if_splits option.splits)
  then show ?thesis using us(2) root_in_nodes by auto
qed

lemma resolve_node: "resolve sb T j ns = Some k \<Longrightarrow> j \<in> set (nodes T) \<Longrightarrow> k \<in> set (nodes T)"
proof (induction ns arbitrary: j)
  case (Cons n ns)
  then show ?case using kid_roots_node find_named(1) by (fastforce split: option.splits)
qed simp

text \<open>Where the tree of the source has no entry, its walk fails, unless it walks through a file.\<close>

lemma walk_resolve_None:
  assumes wf: "sb_wf sb" "forest sb i T"
  shows "resolve sb T j ns = None \<Longrightarrow> j \<in> set (nodes T) \<Longrightarrow>
    (\<And>ms m ls f. ns = ms @ m # ls \<Longrightarrow> resolve sb T j ms = Some f \<Longrightarrow> IsDirectory (fst_at sb f)) \<Longrightarrow>
    walk_path sb j ns = Some (Inl Invalid)"
proof (induction ns arbitrary: j)
  case (Cons n ns)
  obtain us where us: "kids j T = Some us" using Cons.prems(2) kids_None by (metis option.exhaust)
  have d: "IsDirectory (fst_at sb j)" using Cons.prems(3) [of "[]" n ns j] by simp
  have v: "in_fst j" using forest_nodes_valid [OF wf(2) Cons.prems(2)] by blast
  have roots: "(\<lambda>t. case t of Entry k _ \<Rightarrow> k) = root" by (rule ext) (simp split: fst_tree.split)
  have ch: "children sb j (map root us)"
    using forest_children [OF kids_forest [OF wf(2) us d]] by (simp add: children_def roots)
  have look: "GetFstIndex_child sb j n = Some (case find (named sb n) (map root us) of None \<Rightarrow> Inl Invalid | Some k \<Rightarrow> Inr k)"
    if "length n \<le> 12" using GetFstIndex_child_find [OF v ch that] by (simp add: named_def [abs_def])
  show ?case
  proof (cases "length n \<le> 12")
    case False
    then show ?thesis by (simp add: GetFstIndex_child_long)
  next
    case True
    show ?thesis
    proof (cases "find (named sb n) (map root us)")
      case None
      then show ?thesis using look [OF True] by simp
    next
      case (Some k)
      have kr: "kid_roots j T = Some (map root us)" using us by (simp add: kid_roots_def)
      have k: "k \<in> set (nodes T)" using kid_roots_node [OF kr find_named(1) [OF Some]] .
      have "walk_path sb k ns = Some (Inl Invalid)"
      proof (rule Cons.IH [OF _ k])
        show "resolve sb T k ns = None" using Cons.prems(1) kr Some by simp
        show "IsDirectory (fst_at sb f)" if "ns = ms @ m # ls" "resolve sb T k ms = Some f" for ms m ls f
          by (rule Cons.prems(3) [of "n # ms" m ls f]) (use that kr Some in simp_all)
      qed
      then show ?thesis using look [OF True] Some forest_nodes_valid [OF wf(2) k] by simp
    qed
  qed
qed simp

section \<open>Every entry has one path\<close>

lemma kids_member:
  "distinct (nodes us) \<Longrightarrow> Entry x vs \<in> set us \<Longrightarrow> kids x us = Some vs"
proof (induction us rule: nodes.induct)
  case (2 j ws rs)
  show ?case
  proof (cases "Entry x vs = Entry j ws")
    case False
    then have r: "Entry x vs \<in> set rs" using 2(4) by auto
    then have "x \<in> set (nodes rs)" using root_in_nodes [OF r] by simp
    then have "x \<noteq> j" "kids x ws = None" using 2(3) kids_None by auto
    then show ?thesis using 2(2) 2(3) r by simp
  qed simp
qed simp

lemma nodes_member_subset: "Entry x vs \<in> set us \<Longrightarrow> set (x # nodes vs) \<subseteq> set (nodes us)"
  by (induction us rule: nodes.induct) auto

lemma nodes_members_disjoint:
  "distinct (nodes us) \<Longrightarrow> Entry x vs \<in> set us \<Longrightarrow> Entry y ws \<in> set us \<Longrightarrow> x \<noteq> y \<Longrightarrow>
   set (x # nodes vs) \<inter> set (y # nodes ws) = {}"
proof (induction us rule: nodes.induct)
  case (2 j us rs)
  have d: "distinct (nodes rs)" "j \<notin> set (nodes us)" "j \<notin> set (nodes rs)" "set (nodes us) \<inter> set (nodes rs) = {}"
    using 2(3) by auto
  consider "Entry x vs = Entry j us" "Entry y ws \<in> set rs" | "Entry x vs \<in> set rs" "Entry y ws = Entry j us"
    | "Entry x vs \<in> set rs" "Entry y ws \<in> set rs" using 2(4-6) by auto
  then show ?case
  proof cases
    case 1
    then show ?thesis using nodes_member_subset [of y ws rs] d by auto
  next
    case 2
    then show ?thesis using nodes_member_subset [of x vs rs] d by auto
  next
    case 3
    then show ?thesis using 2(2) [OF d(1)] 2(6) by blast
  qed
qed simp

lemma resolve_step:
  assumes d: "distinct (nodes T)" and us: "kids j T = Some us" and r: "resolve sb T j (n # ns) = Some k"
  obtains x vs where "Entry x vs \<in> set us" "GetName (fst_at sb x) = n" "kids x T = Some vs" "resolve sb T x ns = Some k"
proof -
  obtain x where x: "find (named sb n) (map root us) = Some x" "resolve sb T x ns = Some k"
    using r us by (auto simp: kid_roots_def split: option.splits)
  obtain vs where vs: "Entry x vs \<in> set us" using find_named(1) [OF x(1)] by auto (metis fst_tree.exhaust root.simps)
  have du: "distinct (nodes us)" using kids_split [OF d us] d by auto
  have "x \<in> set (nodes us)" using root_in_nodes [OF vs] by simp
  then have "kids x T = Some vs" using kids_in_subtree [OF d us] kids_member [OF du vs] by simp
  then show thesis using that vs find_named(2) [OF x(1)] x(2) by blast
qed

lemma resolve_below:
  assumes d: "distinct (nodes T)"
  shows "kids j T = Some us \<Longrightarrow> resolve sb T j ns = Some k \<Longrightarrow> k \<in> set (j # nodes us) \<and> (ns \<noteq> [] \<longrightarrow> k \<in> set (nodes us))"
proof (induction ns arbitrary: j us)
  case (Cons n ns)
  obtain x vs where x: "Entry x vs \<in> set us" "kids x T = Some vs" "resolve sb T x ns = Some k"
    by (rule resolve_step [OF d Cons.prems])
  then show ?case using Cons.IH [OF x(2,3)] nodes_member_subset [OF x(1)] by auto
qed simp

lemma resolve_inj:
  assumes d: "distinct (nodes T)"
  shows "kids j T = Some us \<Longrightarrow> resolve sb T j ns = Some k \<Longrightarrow> resolve sb T j ms = Some k \<Longrightarrow> ns = ms"
proof (induction ns arbitrary: j us ms)
  case Nil
  have "j \<notin> set (nodes us)"
    using kids_split [OF d Nil.prems(1)] d by auto
  then show ?case using resolve_below [OF d Nil.prems(1,3)] Nil.prems(2) by auto
next
  case (Cons n ns)
  obtain x vs where x: "Entry x vs \<in> set us" "GetName (fst_at sb x) = n" "kids x T = Some vs" "resolve sb T x ns = Some k"
    by (rule resolve_step [OF d Cons.prems(1,2)])
  have j: "j \<notin> set (nodes us)" "distinct (nodes us)" using kids_split [OF d Cons.prems(1)] d by auto
  show ?case
  proof (cases ms)
    case Nil
    then show ?thesis using resolve_below [OF d Cons.prems(1,2)] Cons.prems(3) j by auto
  next
    case ms: (Cons m ls)
    obtain y ws where y: "Entry y ws \<in> set us" "GetName (fst_at sb y) = m" "kids y T = Some ws" "resolve sb T y ls = Some k"
      by (rule resolve_step [OF d Cons.prems(1)]) (use Cons.prems(3) ms in auto)
    have "k \<in> set (x # nodes vs)" "k \<in> set (y # nodes ws)"
      using resolve_below [OF d x(3,4)] resolve_below [OF d y(3,4)] by auto
    then have "x = y" using nodes_members_disjoint [OF j(2) x(1) y(1)] by blast
    then show ?thesis using Cons.IH [OF x(3,4)] x(2) y(2,4) ms by auto
  qed
qed

section \<open>Adding and removing an entry\<close>

lemma kids_append: "kids q (xs @ ys) = (case kids q xs of None \<Rightarrow> kids q ys | Some us \<Rightarrow> Some us)"
  by (induction xs rule: nodes.induct) (auto split: option.splits)

text \<open>
  A new entry \<open>c\<close> in front of the children \<open>us\<close> of \<open>p\<close>, with a subtree \<open>ws\<close> of its own.
\<close>

definition fresh_tree :: "fst_tree list \<Rightarrow> u16 \<Rightarrow> fst_tree list \<Rightarrow> bool" where
  "fresh_tree T c ws \<longleftrightarrow> distinct (c # nodes ws) \<and> set (c # nodes ws) \<inter> set (nodes T) = {}"

lemma kid_roots_add:
  assumes d: "distinct (nodes T)" and us: "kids p T = Some us" and c: "fresh_tree T c ws"
  defines "T' \<equiv> put_kids p (Entry c ws # us) T"
  shows "distinct (nodes T')" "set (nodes T') = set (c # nodes ws) \<union> set (nodes T)"
    "kid_roots p T' = Some (c # map root us)"
    "q \<in> set (c # nodes ws) \<Longrightarrow> kid_roots q T' = kid_roots q [Entry c ws]"
    "q \<in> set (nodes T) \<Longrightarrow> q \<noteq> p \<Longrightarrow> kid_roots q T' = kid_roots q T"
proof -
  obtain A B where ab: "nodes T = A @ nodes us @ B" "p \<in> set A" "\<And>ks. nodes (put_kids p ks T) = A @ nodes ks @ B"
    using kids_split [OF d us] by blast
  have n: "nodes T' = A @ (c # nodes ws @ nodes us) @ B" unfolding T'_def ab(3) by simp
  show d': "distinct (nodes T')" using d c unfolding n fresh_tree_def ab(1) by auto
  show "set (nodes T') = set (c # nodes ws) \<union> set (nodes T)" unfolding n ab(1) by auto
  have p': "kids p T' = Some (Entry c ws # us)" unfolding T'_def by (rule kids_put_kids [OF d us])
  show "kid_roots p T' = Some (c # map root us)" using p' by (simp add: kid_roots_def)
  show "kid_roots q T' = kid_roots q [Entry c ws]" if q: "q \<in> set (c # nodes ws)"
  proof -
    have "kids q us = None" using q c ab(1) kids_None [of q us] by (auto simp: fresh_tree_def)
    then have "kids q (Entry c ws # us) = kids q [Entry c ws]" by (simp split: option.split)
    then show ?thesis using kids_in_subtree [OF d' p', of q] q by (auto simp: kid_roots_def)
  qed
  show "kid_roots q T' = kid_roots q T" if q: "q \<in> set (nodes T)" "q \<noteq> p"
  proof (cases "q \<in> set (nodes us)")
    case True
    have out: "q \<noteq> c" "kids q ws = None" using q(1) c kids_None [of q ws] by (auto simp: fresh_tree_def)
    then have "kids q (Entry c ws # us) = kids q us" by auto
    then show ?thesis
      using kids_in_subtree [OF d' p', of q] kids_in_subtree [OF d us True] True by (simp add: kid_roots_def)
  next
    case False
    have "q \<noteq> c" "q \<notin> set (nodes ws)" using q(1) c by (auto simp: fresh_tree_def)
    then show ?thesis unfolding T'_def by (intro kid_roots_put_other [OF d us q(2) False]) (use False in simp)
  qed
qed

text \<open>
  In the map of paths, what lies behind the paths of \<open>p\<close> followed by the name of \<open>c\<close> is
  now the subtree of \<open>c\<close>; nothing else changes.
\<close>

lemma resolve_add:
  assumes d: "distinct (nodes T)" and us: "kids p T = Some us" and c: "fresh_tree T c ws"
    and same: "\<forall>g\<in>set (nodes T). GetName (fst_at sb' g) = GetName (fst_at sb g)"
    and n: "GetName (fst_at sb' c) = n" "\<forall>k\<in>set (map root us). GetName (fst_at sb k) \<noteq> n"
  defines "T' \<equiv> put_kids p (Entry c ws # us) T"
  shows "j \<in> set (nodes T) \<Longrightarrow> resolve sb T j ns = Some k \<Longrightarrow> resolve sb' T' j ns = Some k"
    and "j \<in> set (nodes T) \<Longrightarrow> resolve sb T j pre = Some p \<Longrightarrow> resolve sb' T' j (pre @ n # suf) = resolve sb' [Entry c ws] c suf"
    and "j \<in> set (nodes T) \<Longrightarrow> resolve sb T j ns = None \<Longrightarrow> (\<And>pre suf. ns = pre @ n # suf \<Longrightarrow> resolve sb T j pre \<noteq> Some p) \<Longrightarrow>
      resolve sb' T' j ns = None"
proof -
  note kr = kid_roots_add [OF d us c, folded T'_def]
  have inner: "q \<in> set (c # nodes ws) \<Longrightarrow> resolve sb' T' q ls = resolve sb' [Entry c ws] q ls" for q ls
  proof (induction ls arbitrary: q)
    case (Cons l ls)
    have "k \<in> set (c # nodes ws)" if "kid_roots q [Entry c ws] = Some ks" "k \<in> set ks" for k ks
      using kid_roots_node [OF that] by simp
    then show ?case
      using Cons.IH kr(4) [OF Cons.prems] find_named(1) [of sb' l] by (auto split: option.splits)
  qed simp
  have find': "find (named sb' m) ks = find (named sb m) ks" if "\<And>k. k \<in> set ks \<Longrightarrow> k \<in> set (nodes T)" for m ks
    by (rule find_cong [OF refl]) (use same that in \<open>auto simp: named_def\<close>)
  have here: "resolve sb' T' p (m # ls) = (if m = n then resolve sb' [Entry c ws] c ls
      else case find (named sb m) (map root us) of None \<Rightarrow> None | Some k \<Rightarrow> resolve sb' T' k ls)" for m ls
  proof -
    have krp: "kid_roots p T = Some (map root us)" using us by (simp add: kid_roots_def)
    have "find (named sb' m) (map root us) = find (named sb m) (map root us)"
      by (rule find') (rule kid_roots_node [OF krp])
    then show ?thesis using kr(3) n(1) inner [of c ls] by (auto simp: named_def)
  qed
  have there: "resolve sb' T' j (m # ls) = (case kid_roots j T of None \<Rightarrow> None | Some ks \<Rightarrow>
      (case find (named sb m) ks of None \<Rightarrow> None | Some k \<Rightarrow> resolve sb' T' k ls))"
    if "j \<in> set (nodes T)" "j \<noteq> p" for j m ls
    using kr(5) [OF that] find' [OF kid_roots_node [of j T]] by (auto split: option.splits)
  have krp: "kid_roots p T = Some (map root us)" using us by (simp add: kid_roots_def)
  have nofind: "find (named sb n) (map root us) = None" using n(2) by (auto simp: find_None_iff named_def)
  show "j \<in> set (nodes T) \<Longrightarrow> resolve sb T j ns = Some k \<Longrightarrow> resolve sb' T' j ns = Some k"
  proof (induction ns arbitrary: j)
    case (Cons m ls)
    obtain ks x where ks: "kid_roots j T = Some ks" "find (named sb m) ks = Some x" "resolve sb T x ls = Some k"
      using Cons.prems(2) by (auto split: option.splits)
    have "resolve sb' T' x ls = Some k" using Cons.IH kid_roots_node [OF ks(1) find_named(1) [OF ks(2)]] ks(3) by blast
    then show ?case
      using here there [OF Cons.prems(1)] ks krp nofind by (cases "j = p") auto
  qed simp
  show "j \<in> set (nodes T) \<Longrightarrow> resolve sb T j pre = Some p \<Longrightarrow> resolve sb' T' j (pre @ n # suf) = resolve sb' [Entry c ws] c suf"
  proof (induction pre arbitrary: j)
    case Nil
    then show ?case using here [of n suf] by simp
  next
    case (Cons m ls)
    obtain ks x where ks: "kid_roots j T = Some ks" "find (named sb m) ks = Some x" "resolve sb T x ls = Some p"
      using Cons.prems(2) by (auto split: option.splits)
    have "resolve sb' T' x (ls @ n # suf) = resolve sb' [Entry c ws] c suf"
      using Cons.IH kid_roots_node [OF ks(1) find_named(1) [OF ks(2)]] ks(3) by blast
    then show ?case
      using here there [OF Cons.prems(1)] ks krp nofind by (cases "j = p") auto
  qed
  show "j \<in> set (nodes T) \<Longrightarrow> resolve sb T j ns = None \<Longrightarrow> (\<And>pre suf. ns = pre @ n # suf \<Longrightarrow> resolve sb T j pre \<noteq> Some p) \<Longrightarrow>
      resolve sb' T' j ns = None"
  proof (induction ns arbitrary: j)
    case (Cons m ls)
    have rec: "resolve sb' T' x ls = None" if "kid_roots j T = Some ks" "find (named sb m) ks = Some x" for ks x
    proof (rule Cons.IH [OF kid_roots_node [OF that(1) find_named(1) [OF that(2)]]])
      show "resolve sb T x ls = None" using Cons.prems(2) that by simp
      show "resolve sb T x pre \<noteq> Some p" if "ls = pre @ n # suf" for pre suf
        using Cons.prems(3) [of "m # pre" suf] that \<open>kid_roots j T = Some ks\<close> \<open>find (named sb m) ks = Some x\<close> by simp
    qed
    show ?case
    proof (cases "j = p")
      case True
      then have "m \<noteq> n" using Cons.prems(3) [of "[]" ls] by auto
      then show ?thesis using True here [of m ls] rec krp by (auto split: option.splits)
    next
      case False
      then show ?thesis using there [OF Cons.prems(1) False] rec by (auto split: option.splits)
    qed
  qed simp
qed

lemma kid_roots_remove:
  assumes d: "distinct (nodes T)" and us: "kids p T = Some (xs @ Entry c ws # ys)"
  defines "T' \<equiv> put_kids p (xs @ ys) T"
  shows "distinct (nodes T')" "set (nodes T') = set (nodes T) - insert c (set (nodes ws))" "p \<in> set (nodes T')"
    "kid_roots p T' = Some (map root xs @ map root ys)"
    "q \<in> set (nodes T') \<Longrightarrow> q \<noteq> p \<Longrightarrow> kid_roots q T' = kid_roots q T"
proof -
  obtain A B where ab: "nodes T = A @ nodes (xs @ Entry c ws # ys) @ B" "p \<in> set A" "\<And>ks. nodes (put_kids p ks T) = A @ nodes ks @ B"
    using kids_split [OF d us] by blast
  have n: "nodes T' = A @ nodes (xs @ ys) @ B" unfolding T'_def by (rule ab(3))
  show d': "distinct (nodes T')" using d unfolding n ab(1) by auto
  show set': "set (nodes T') = set (nodes T) - insert c (set (nodes ws))" using d unfolding n ab(1) by auto
  show "p \<in> set (nodes T')" using ab(2) unfolding n by simp
  have p': "kids p T' = Some (xs @ ys)" unfolding T'_def by (rule kids_put_kids [OF d us])
  show "kid_roots p T' = Some (map root xs @ map root ys)" using p' by (simp add: kid_roots_def)
  show "kid_roots q T' = kid_roots q T" if q: "q \<in> set (nodes T')" "q \<noteq> p"
  proof (cases "q \<in> set (nodes (xs @ ys))")
    case True
    have out: "q \<noteq> c" "q \<notin> set (nodes ws)" using q(1) set' by auto
    then have "kids q ws = None" using kids_None by blast
    then have "kids q (Entry c ws # ys) = kids q ys" using out by auto
    then have "kids q (xs @ Entry c ws # ys) = kids q (xs @ ys)" unfolding kids_append by (rule arg_cong)
    moreover have "q \<in> set (nodes (xs @ Entry c ws # ys))" using True by auto
    ultimately show ?thesis
      using kids_in_subtree [OF d' p' True] kids_in_subtree [OF d us, of q] by (simp add: kid_roots_def)
  next
    case False
    have "q \<notin> set (nodes (xs @ Entry c ws # ys))" using q(1) False set' by auto
    then show ?thesis unfolding T'_def by (rule kid_roots_put_other [OF d us q(2)]) (rule False)
  qed
qed

text \<open>
  Taking the entry named \<open>n\<close> out of \<open>p\<close> restricts the map of paths: what led through it
  is gone, everything else resolves as before.
\<close>

lemma resolve_remove:
  assumes d: "distinct (nodes T)" and us: "kids p T = Some (xs @ Entry c ws # ys)"
    and same: "\<forall>g\<in>set (nodes (put_kids p (xs @ ys) T)). GetName (fst_at sb' g) = GetName (fst_at sb g)"
    and n: "GetName (fst_at sb c) = n" "\<forall>t\<in>set (xs @ ys). GetName (fst_at sb (root t)) \<noteq> n"
  shows "j \<in> set (nodes (put_kids p (xs @ ys) T)) \<Longrightarrow> resolve sb' (put_kids p (xs @ ys) T) j ns =
    (if \<exists>pre suf. ns = pre @ n # suf \<and> resolve sb T j pre = Some p then None else resolve sb T j ns)"
proof (induction ns arbitrary: j)
  case Nil
  then show ?case by simp
next
  case (Cons m ns)
  let ?T = "put_kids p (xs @ ys) T"
  note kr = kid_roots_remove [OF d us]
  have split: "(\<exists>pre suf. m # ns = pre @ n # suf \<and> resolve sb T j pre = Some p) \<longleftrightarrow>
    (m = n \<and> j = p) \<or> (\<exists>pre suf. ns = pre @ n # suf \<and> resolve sb T j (m # pre) = Some p)"
    by (auto simp: Cons_eq_append_conv simp del: resolve.simps(2))
  have step: "(case find (named sb m) ks of None \<Rightarrow> None | Some k \<Rightarrow> resolve sb' ?T k ns) =
    (if \<exists>pre suf. ns = pre @ n # suf \<and> (case find (named sb m) ks of None \<Rightarrow> None | Some k \<Rightarrow> resolve sb T k pre) = Some p
     then None else case find (named sb m) ks of None \<Rightarrow> None | Some k \<Rightarrow> resolve sb T k ns)"
    if "kid_roots j ?T = Some ks" for ks
    using Cons.IH kid_roots_node [OF that find_named(1)] by (cases "find (named sb m) ks") auto
  have find': "find (named sb' m) ks = find (named sb m) ks" if "kid_roots j ?T = Some ks" for ks
    by (rule find_cong [OF refl]) (use same kid_roots_node [OF that] in \<open>auto simp: named_def\<close>)
  show ?case
  proof (cases "j = p")
    case True
    have krp: "kid_roots p T = Some (map root xs @ c # map root ys)" using us by (simp add: kid_roots_def)
    have krj: "kid_roots j ?T = Some (map root xs @ map root ys)" using kr(4) True by simp
    show ?thesis
    proof (cases "m = n")
      case eq: True
      have "find (named sb m) (map root xs @ map root ys) = None"
        using n(2) eq by (fastforce simp: find_None_iff named_def)
      then have "resolve sb' ?T j (m # ns) = None" using krj find' [OF krj] by simp
      then show ?thesis using split eq True by auto
    next
      case False
      have "named sb m c = False" using n(1) False by (auto simp: named_def)
      then have fe: "find (named sb m) (map root xs @ c # map root ys) = find (named sb m) (map root xs @ map root ys)"
        by (induction xs) simp_all
      show ?thesis
        using step [OF krj] krj krp find' [OF krj] False True unfolding split
        by (cases "find (named sb m) (map root xs @ map root ys)") (auto simp: fe)
    qed
  next
    case False
    obtain ks where ks: "kid_roots j T = Some ks"
      using Cons.prems kr(2) kids_None by (fastforce simp: kid_roots_def)
    have krj: "kid_roots j ?T = Some ks" using kr(5) [OF Cons.prems False] ks by simp
    show ?thesis
      using step [OF krj] krj ks find' [OF krj] False unfolding split
      by (cases "find (named sb m) ks") auto
  qed
qed

end
