(* ===== verification/Directory.thy ===== *)
theory Directory
  imports FsTree
begin

text \<open>
  Creating, deleting and moving entries on the in-memory superblock, as operations on the
  tree and on the map from paths to entries, and the invariant they keep.
\<close>

section \<open>The invariant\<close>

text \<open>Names are distinct within a directory; \<open>tree_inv sb T\<close>: the FST from the root is the tree \<open>T\<close>.\<close>

definition names_ok :: "Superblock \<Rightarrow> fst_tree list \<Rightarrow> bool" where
  "names_ok sb T \<longleftrightarrow> (\<forall>q ks. kid_roots q T = Some ks \<longrightarrow> distinct (map (\<lambda>k. GetName (fst_at sb k)) ks))"

definition tree_inv :: "Superblock \<Rightarrow> fst_tree list \<Rightarrow> bool" where
  "tree_inv sb T \<longleftrightarrow> sb_wf sb \<and> forest sb 0 T \<and> distinct (nodes T) \<and> names_ok sb T"

text \<open>A name that fits an entry and is read back as it is.\<close>

definition good_name :: "string \<Rightarrow> bool" where
  "good_name n \<longleftrightarrow> length n \<le> 12 \<and> CHR 0x00 \<notin> set n"

lemma names_ok_cong:
  assumes "names_ok sb T" "\<And>g. g \<in> set (nodes T) \<Longrightarrow> GetName (fst_at sb' g) = GetName (fst_at sb g)"
  shows "names_ok sb' T"
  unfolding names_ok_def
proof (intro allI impI)
  fix q ks assume k: "kid_roots q T = Some ks"
  have "map (\<lambda>k. GetName (fst_at sb' k)) ks = map (\<lambda>k. GetName (fst_at sb k)) ks"
    by (rule map_cong [OF refl]) (rule assms(2), rule kid_roots_node [OF k])
  then show "distinct (map (\<lambda>k. GetName (fst_at sb' k)) ks)" using assms(1) k unfolding names_ok_def by metis
qed

lemma tree_inv_root: "tree_inv sb T \<Longrightarrow> 0 \<in> set (nodes T)"
  by (cases T rule: nodes.cases) (auto simp: tree_inv_def in_fst_def FST_SIZE_def)

lemma tree_inv_node: "tree_inv sb T \<Longrightarrow> g \<in> set (nodes T) \<Longrightarrow> in_fst g \<and> e_mode (fst_at sb g) AND 3 \<noteq> 0"
  using forest_nodes_valid [of sb 0 T g] by (auto simp: tree_inv_def IsFile_def IsDirectory_def)

section \<open>Adding an entry\<close>

lemma init_child_fields [simp]:
  "e_sub (init_child h n a om gm tm f e) = (if f then CLUSTER_LAST_IN_CHAIN else 0xffff)"
  "e_size (init_child h n a om gm tm f e) = 0" "e_uid (init_child h n a om gm tm f e) = h_uid h"
  "e_gid (init_child h n a om gm tm f e) = h_gid h" "e_attr (init_child h n a om gm tm f e) = a"
  "entry_wf (init_child h n a om gm tm f e)"
  by (simp_all add: init_child_def Let_def)

lemma init_child_type:
  "IsFile (init_child h n a om gm tm f e) = f" "IsDirectory (init_child h n a om gm tm f e) = (\<not> f)"
proof -
  have "e_mode (init_child h n a om gm tm f e) AND 3 = (if f then 1 else 2)"
    using SetAccessMode_type [of om gm tm "(SetName n e)\<lparr>e_mode := if f then 1 else 2\<rparr>"] by (simp add: init_child_def Let_def)
  then show "IsFile (init_child h n a om gm tm f e) = f" "IsDirectory (init_child h n a om gm tm f e) = (\<not> f)"
    by (simp_all add: IsFile_def IsDirectory_def)
qed

lemma init_child_name: "good_name n \<Longrightarrow> GetName (init_child h n a om gm tm f e) = n"
  by (simp add: init_child_def Let_def GetName_SetName good_name_def)

lemma type_cong [simp]:
  "IsFile (e\<lparr>e_sib := x\<rparr>) = IsFile e" "IsDirectory (e\<lparr>e_sib := x\<rparr>) = IsDirectory e"
  "IsFile (e\<lparr>e_sub := x\<rparr>) = IsFile e" "IsDirectory (e\<lparr>e_sub := x\<rparr>) = IsDirectory e"
  by (simp_all add: IsFile_def IsDirectory_def)

lemma add_child_at:
  assumes wf: "sb_wf sb" and v: "in_fst p" "in_fst c" "p \<noteq> c"
    and sb'_def: "sb' = add_child h n a om gm tm f p c sb"
  shows "sb_wf sb'" "sb_fat sb' = sb_fat sb" "sb_magic sb' = sb_magic sb" "sb_version sb' = sb_version sb"
    "fst_at sb' g = (if g = c then (init_child h n a om gm tm f (fst_at sb c))\<lparr>e_sib := e_sub (fst_at sb p)\<rparr>
       else if g = p then (fst_at sb p)\<lparr>e_sub := c\<rparr> else fst_at sb g)"
proof -
  define sb1 where "sb1 = upd_fst c (init_child h n a om gm tm f) sb"
  define sb2 where "sb2 = set_sib c (e_sub (fst_at sb1 p)) sb1"
  have sb': "sb' = upd_fst p (\<lambda>e. e\<lparr>e_sub := c\<rparr>) sb2" by (simp add: sb'_def add_child_def Let_def sb1_def sb2_def)
  have w1: "sb_wf sb1" unfolding sb1_def by (rule sb_wf_upd_fst [OF wf]) simp
  have w2: "sb_wf sb2" unfolding sb2_def by (rule sib.wf_set [OF w1 v(2)])
  have f1: "fst_at sb1 g = (if g = c then init_child h n a om gm tm f (fst_at sb c) else fst_at sb g)" for g
    unfolding sb1_def by (rule fst_at_upd [OF wf v(2)])
  have f2: "fst_at sb2 g = (if g = c then (fst_at sb1 c)\<lparr>e_sib := e_sub (fst_at sb1 p)\<rparr> else fst_at sb1 g)" for g
    unfolding sb2_def set_sib_def by (rule fst_at_upd [OF w1 v(2)])
  show "sb_wf sb'" unfolding sb' by (rule sb_wf_upd_same [OF w2]) simp
  show "sb_fat sb' = sb_fat sb" "sb_magic sb' = sb_magic sb" "sb_version sb' = sb_version sb"
    by (simp_all add: sb' sb2_def sb1_def set_sib_def)
  show "fst_at sb' g = (if g = c then (init_child h n a om gm tm f (fst_at sb c))\<lparr>e_sib := e_sub (fst_at sb p)\<rparr>
       else if g = p then (fst_at sb p)\<lparr>e_sub := c\<rparr> else fst_at sb g)"
    using fst_at_upd [OF w2 v(1), of "\<lambda>e. e\<lparr>e_sub := c\<rparr>" g] f2 f1 v(3) by (simp add: sb')
qed

text \<open>
  A new node in front of the children of \<open>p\<close>, with what is below it; \<open>sb'\<close> is any superblock
  that differs as \<^verbatim>\<open>CreateFileOrDirectory\<close> and \<^verbatim>\<open>Rename\<close> leave it.
\<close>

lemma tree_add:
  assumes inv: "tree_inv sb T" and us: "kids p T = Some us" and p: "IsDirectory (fst_at sb p)" and c: "fresh_tree T c ws"
    and wf': "sb_wf sb'" and new: "forest sb' c (Entry c ws # us)"
    and p': "fst_at sb' p = (fst_at sb p)\<lparr>e_sub := c\<rparr>"
    and frame: "\<forall>g\<in>set (nodes T). g \<noteq> p \<longrightarrow> fst_at sb' g = fst_at sb g"
    and names: "\<forall>k\<in>set (map root us). GetName (fst_at sb k) \<noteq> GetName (fst_at sb' c)" "names_ok sb' [Entry c ws]"
  shows "tree_inv sb' (put_kids p (Entry c ws # us) T)"
proof -
  have d: "distinct (nodes T)" and f: "forest sb 0 T" and n: "names_ok sb T" using inv by (simp_all add: tree_inv_def)
  note kr = kid_roots_add [OF d us c]
  have same: "GetName (fst_at sb' g) = GetName (fst_at sb g)" if "g \<in> set (nodes T)" for g
    using frame that p' by (cases "g = p") simp_all
  have "forest sb' 0 (put_kids p (Entry c ws # us) T)"
    by (rule forest_put_kids [OF f d us]) (use new p p' frame in auto)
  moreover have "names_ok sb' (put_kids p (Entry c ws # us) T)"
    unfolding names_ok_def
  proof (intro allI impI)
    fix q ks assume k: "kid_roots q (put_kids p (Entry c ws # us) T) = Some ks"
    then obtain x where "kids q (put_kids p (Entry c ws # us) T) = Some x" by (auto simp: kid_roots_def)
    then have "q \<in> set (nodes (put_kids p (Entry c ws # us) T))" by (rule kids_Some_node)
    then consider (p) "q = p" | (new) "q \<in> set (c # nodes ws)" | (old) "q \<in> set (nodes T)" "q \<noteq> p" using kr(2) by auto
    then show "distinct (map (\<lambda>k. GetName (fst_at sb' k)) ks)"
    proof cases
      case p
      have krp: "kid_roots p T = Some (map root us)" using us by (simp add: kid_roots_def)
      have "map (\<lambda>k. GetName (fst_at sb' k)) (map root us) = map (\<lambda>k. GetName (fst_at sb k)) (map root us)"
        by (rule map_cong [OF refl]) (rule same, rule kid_roots_node [OF krp])
      moreover have "distinct (map (\<lambda>k. GetName (fst_at sb k)) (map root us))" using n krp unfolding names_ok_def by metis
      moreover have "GetName (fst_at sb' c) \<notin> set (map (\<lambda>k. GetName (fst_at sb k)) (map root us))"
        using names(1) by (metis (no_types, lifting) imageE list.set_map)
      ultimately have "distinct (map (\<lambda>k. GetName (fst_at sb' k)) (c # map root us))" by (simp only: list.map distinct.simps) simp
      moreover have "ks = c # map root us" using k kr(3) p by simp
      ultimately show ?thesis by simp
    next
      case new
      then show ?thesis using kr(4) [OF new] k names(2) unfolding names_ok_def by metis
    next
      case old
      then have kq: "kid_roots q T = Some ks" using kr(5) k by simp
      have "map (\<lambda>k. GetName (fst_at sb' k)) ks = map (\<lambda>k. GetName (fst_at sb k)) ks"
        by (rule map_cong [OF refl]) (rule same, rule kid_roots_node [OF kq])
      then show ?thesis using n kq unfolding names_ok_def by metis
    qed
  qed
  ultimately show ?thesis using wf' kr(1) by (simp add: tree_inv_def)
qed

text \<open>The children of \<open>p\<close> in the tree are untouched by changes elsewhere.\<close>

lemma kids_frame:
  assumes inv: "tree_inv sb T" and us: "kids p T = Some us" and p: "IsDirectory (fst_at sb p)"
    and frame: "\<And>g. g \<in> set (nodes us) \<Longrightarrow> e_sub (fst_at sb' g) = e_sub (fst_at sb g) \<and>
     e_sib (fst_at sb' g) = e_sib (fst_at sb g) \<and> e_mode (fst_at sb' g) = e_mode (fst_at sb g)"
  shows "forest sb' (e_sub (fst_at sb p)) us"
proof -
  have "forest sb 0 T" using inv by (simp add: tree_inv_def)
  then show ?thesis by (intro forest_cong [OF kids_forest [OF _ us p] frame])
qed

lemma kids_below:
  assumes "tree_inv sb T" "kids p T = Some us"
  shows "p \<notin> set (nodes us)" "set (nodes us) \<subseteq> set (nodes T)"
proof -
  have d: "distinct (nodes T)" using assms(1) by (simp add: tree_inv_def)
  obtain A B where "nodes T = A @ nodes us @ B" "p \<in> set A" using kids_split [OF d assms(2)] by blast
  then show "p \<notin> set (nodes us)" "set (nodes us) \<subseteq> set (nodes T)" using d by auto
qed

lemma create_tree:
  assumes inv: "tree_inv sb T" and us: "kids p T = Some us" and p: "IsDirectory (fst_at sb p)"
    and c: "in_fst c" "c \<notin> set (nodes T)" and n: "good_name n" "\<forall>k\<in>set (map root us). GetName (fst_at sb k) \<noteq> n"
    and sb': "sb' = add_child h n a om gm tm f p c sb"
  shows "tree_inv sb' (put_kids p (Entry c [] # us) T)" "fresh_tree T c []" "GetName (fst_at sb' c) = n"
    "\<forall>g\<in>set (nodes T). GetName (fst_at sb' g) = GetName (fst_at sb g)"
proof -
  have pn: "p \<in> set (nodes T)" by (rule kids_Some_node [OF us])
  then have v: "in_fst p" "p \<noteq> c" using tree_inv_node [OF inv] c by auto
  have wf: "sb_wf sb" using inv by (simp add: tree_inv_def)
  note at = add_child_at [OF wf v(1) c(1) v(2) sb']
  show fr: "fresh_tree T c []" using c by (simp add: fresh_tree_def)
  show nm: "GetName (fst_at sb' c) = n" unfolding at(5) using init_child_name [OF n(1)] by simp
  have "forest sb' (e_sub (fst_at sb p)) us"
    by (rule kids_frame [OF inv us p]) (use kids_below [OF inv us] c in \<open>auto simp: at(5)\<close>)
  then have "forest sb' c (Entry c [] # us)"
    using c(1) by (simp add: at(5) init_child_type in_fst_def FST_SIZE_def)
  then show "tree_inv sb' (put_kids p (Entry c [] # us) T)"
    by (rule tree_add [OF inv us p fr at(1)])
      (use c v n nm in \<open>auto simp: at(5) names_ok_def kid_roots_def split: if_splits\<close>)
  show "\<forall>g\<in>set (nodes T). GetName (fst_at sb' g) = GetName (fst_at sb g)"
    using c by (auto simp: at(5))
qed

section \<open>The file system as a map from paths\<close>

text \<open>
  The abstract file system: the entry a path of names leads to from the root.
\<close>

definition entries :: "Superblock \<Rightarrow> fst_tree list \<Rightarrow> string list \<Rightarrow> u16 option" where
  "entries sb T = resolve sb T 0"

lemma resolve_fst: "sb_fst sb' = sb_fst sb \<Longrightarrow> resolve sb' T j ns = resolve sb T j ns"
proof (induction ns arbitrary: j)
  case (Cons n ns)
  have "named sb' n = named sb n" using Cons.prems by (simp add: named_def fun_eq_iff fst_at_def)
  then show ?case using Cons by (simp cong: option.case_cong)
qed simp

lemma entries_fst: "sb_fst sb' = sb_fst sb \<Longrightarrow> entries sb' T = entries sb T"
  unfolding entries_def by (rule ext) (rule resolve_fst)

lemma forest_fst: "sb_fst sb' = sb_fst sb \<Longrightarrow> forest sb i T \<Longrightarrow> forest sb' i T"
  by (rule forest_cong) (auto simp: fst_at_def)

lemma tree_inv_fst: "sb_fst sb' = sb_fst sb \<Longrightarrow> sb_wf sb' \<Longrightarrow> tree_inv sb T \<Longrightarrow> tree_inv sb' T"
proof -
  assume f: "sb_fst sb' = sb_fst sb" and w: "sb_wf sb'" and i: "tree_inv sb T"
  have "fst_at sb' = fst_at sb" using f by (simp add: fst_at_def fun_eq_iff)
  then have "names_ok sb' T = names_ok sb T" by (simp only: names_ok_def)
  then show ?thesis using forest_fst [OF f] w i by (simp add: tree_inv_def)
qed

lemma components_split:
  "IsValidNonRootPath path \<Longrightarrow> components path = components (parent (SplitPath path)) @ [file_name (SplitPath path)]"
  by (simp add: components_def SplitString_path)

lemma tree_inv_kids: "tree_inv sb T \<Longrightarrow> \<exists>us. kids 0 T = Some us"
  using tree_inv_root kids_None by (metis option.exhaust)

lemma entries_inj: "tree_inv sb T \<Longrightarrow> entries sb T ns = Some k \<Longrightarrow> entries sb T ms = Some k \<Longrightarrow> ns = ms"
  using tree_inv_kids [of sb T] resolve_inj by (auto simp: tree_inv_def entries_def)

lemma entries_node: "tree_inv sb T \<Longrightarrow> entries sb T ns = Some k \<Longrightarrow> k \<in> set (nodes T)"
  using resolve_node tree_inv_root by (fastforce simp: entries_def)

lemma entries_lookup: "tree_inv sb T \<Longrightarrow> entries sb T (components path) = Some k \<Longrightarrow> GetFstIndex sb path = Some (Inr k)"
  unfolding GetFstIndex_components entries_def tree_inv_def by (blast intro: walk_resolve)

text \<open>A name is free in a directory when the path through it leads nowhere.\<close>

lemma entries_snoc:
  assumes "entries sb T ps = Some p" "kid_roots p T = Some ks"
  shows "entries sb T (ps @ [n]) = find (named sb n) ks"
proof -
  have "resolve sb T j ps = Some p \<Longrightarrow> resolve sb T j (ps @ [n]) = find (named sb n) ks" for j
    using assms(2) by (induction ps arbitrary: j) (auto split: option.splits)
  then show ?thesis using assms(1) by (simp add: entries_def)
qed

lemma create_entries:
  assumes inv: "tree_inv sb T" and p: "entries sb T ps = Some p" "IsDirectory (fst_at sb p)"
    and c: "in_fst c" "c \<notin> set (nodes T)" and n: "good_name n" "entries sb T (ps @ [n]) = None"
    and sb': "sb' = add_child h n a om gm tm f p c sb"
  shows "\<exists>T'. tree_inv sb' T' \<and> entries sb' T' = (entries sb T)(ps @ [n] \<mapsto> c) \<and> set (nodes T') = insert c (set (nodes T))"
proof -
  obtain us where us: "kids p T = Some us" using entries_node [OF inv p(1)] kids_None by (metis option.exhaust)
  have "find (named sb n) (map root us) = None"
    using entries_snoc [OF p(1), of "map root us" n] us n(2) by (simp add: kid_roots_def)
  then have free: "\<forall>k\<in>set (map root us). GetName (fst_at sb k) \<noteq> n" by (auto simp: find_None_iff named_def)
  note ct = create_tree [OF inv us p(2) c n(1) free sb']
  define T' where "T' = put_kids p (Entry c [] # us) T"
  have d: "distinct (nodes T)" using inv by (simp add: tree_inv_def)
  note ra = resolve_add [OF d us ct(2,4) ct(3) free, folded T'_def]
  have "entries sb' T' ns = ((entries sb T)(ps @ [n] \<mapsto> c)) ns" for ns
  proof (cases "entries sb T ns")
    case (Some k)
    then have "ns \<noteq> ps @ [n]" using n(2) by auto
    then show ?thesis using ra(1) [OF tree_inv_root [OF inv]] Some by (simp add: entries_def)
  next
    case None
    show ?thesis
    proof (cases "\<exists>pre suf. ns = pre @ n # suf \<and> resolve sb T 0 pre = Some p")
      case True
      then obtain suf where suf: "ns = ps @ n # suf" using entries_inj [OF inv _ p(1)] by (auto simp: entries_def)
      have "resolve sb' T' 0 ns = resolve sb' [Entry c []] c suf"
        unfolding suf using ra(2) [OF tree_inv_root [OF inv]] p(1) by (simp add: entries_def)
      also have "\<dots> = (if suf = [] then Some c else None)" by (cases suf) (simp_all add: kid_roots_def)
      finally show ?thesis using None suf by (simp add: entries_def)
    next
      case False
      then have "ns \<noteq> ps @ [n]" using p(1) by (auto simp: entries_def)
      moreover have "resolve sb' T' 0 ns = None"
        by (rule ra(3) [OF tree_inv_root [OF inv]]) (use None False in \<open>auto simp: entries_def\<close>)
      ultimately show ?thesis using None by (simp add: entries_def)
    qed
  qed
  then have "entries sb' T' = (entries sb T)(ps @ [n] \<mapsto> c)" by (rule ext)
  moreover have "set (nodes T') = insert c (set (nodes T))"
    using kid_roots_add(2) [OF d us ct(2)] by (simp add: T'_def)
  ultimately show ?thesis using ct(1) by (auto simp: T'_def)
qed

section \<open>Removing an entry\<close>

lemma forest_unlink:
  assumes "forest sb i (xs @ Entry c ws # ys)" "distinct (nodes (xs @ Entry c ws # ys))"
    and "\<forall>g\<in>set (nodes (xs @ ys)). e_sub (fst_at sb' g) = e_sub (fst_at sb g) \<and> e_mode (fst_at sb' g) = e_mode (fst_at sb g) \<and>
      e_sib (fst_at sb' g) = (if xs \<noteq> [] \<and> g = root (last xs) then e_sib (fst_at sb c) else e_sib (fst_at sb g))"
  shows "forest sb' (if xs = [] then e_sib (fst_at sb c) else i) (xs @ ys)"
  using assms
proof (induction xs arbitrary: i)
  case Nil
  then have "forest sb (e_sib (fst_at sb c)) ys" by simp
  then show ?case using Nil(3) by (auto intro: forest_cong)
next
  case (Cons t xs)
  obtain j us where t: "t = Entry j us" by (cases t)
  have f: "i = j" "in_fst j" "if IsFile (fst_at sb j) then us = [] else IsDirectory (fst_at sb j) \<and> forest sb (e_sub (fst_at sb j)) us"
    "forest sb (e_sib (fst_at sb j)) (xs @ Entry c ws # ys)"
    using Cons.prems(1) t by auto
  have d: "distinct (nodes (xs @ Entry c ws # ys))" "j \<notin> set (nodes us)" "j \<notin> set (nodes (xs @ ys))"
    "set (nodes us) \<inter> set (nodes (xs @ ys)) = {}"
    using Cons.prems(2) t by auto
  have lastin: "xs \<noteq> [] \<Longrightarrow> root (last xs) \<in> set (nodes xs)" by (intro root_in_nodes) simp
  note fr = Cons.prems(3) [unfolded t]
  have us: "forest sb' (e_sub (fst_at sb j)) us" if "\<not> IsFile (fst_at sb j)"
    by (rule forest_cong [of sb]) (use f(3) that fr d lastin in \<open>auto split: if_splits\<close>)
  have j': "e_sub (fst_at sb' j) = e_sub (fst_at sb j)" "e_mode (fst_at sb' j) = e_mode (fst_at sb j)"
    "e_sib (fst_at sb' j) = (if xs = [] then e_sib (fst_at sb c) else e_sib (fst_at sb j))"
    using fr d(3) lastin by (auto split: if_splits)
  have "forest sb' (if xs = [] then e_sib (fst_at sb c) else e_sib (fst_at sb j)) (xs @ ys)"
    by (rule Cons.IH [OF f(4) d(1)]) (use fr d in \<open>auto split: if_splits\<close>)
  then show ?case using f j' us t by (auto simp: IsFile_def IsDirectory_def split: if_splits)
qed

lemma tree_remove:
  assumes inv: "tree_inv sb T" and us: "kids p T = Some (xs @ Entry c ws # ys)" and p: "IsDirectory (fst_at sb p)"
    and wf': "sb_wf sb'" and new: "forest sb' (e_sub (fst_at sb' p)) (xs @ ys)"
    and p': "e_sib (fst_at sb' p) = e_sib (fst_at sb p)" "e_mode (fst_at sb' p) = e_mode (fst_at sb p)"
    and frame: "\<forall>g\<in>set (nodes T) - set (nodes (xs @ Entry c ws # ys)) - {p}. fst_at sb' g = fst_at sb g"
    and same: "\<forall>g\<in>set (nodes T). GetName (fst_at sb' g) = GetName (fst_at sb g)"
    and ps: "entries sb T ps = Some p"
  defines "T' \<equiv> put_kids p (xs @ ys) T"
  shows "tree_inv sb' T'" "entries sb' T' ns = (if \<exists>suf. ns = ps @ GetName (fst_at sb c) # suf then None else entries sb T ns)"
proof -
  have d: "distinct (nodes T)" and f: "forest sb 0 T" and n: "names_ok sb T" using inv by (simp_all add: tree_inv_def)
  note kr = kid_roots_remove [OF d us, folded T'_def]
  have krp: "kid_roots p T = Some (map root xs @ c # map root ys)" using us by (simp add: kid_roots_def)
  have dn: "distinct (map (\<lambda>k. GetName (fst_at sb k)) (map root xs @ c # map root ys))" using n krp unfolding names_ok_def by metis
  have "forest sb' 0 T'"
    unfolding T'_def by (rule forest_put_kids [OF f d us new]) (use p p' frame in \<open>auto simp: IsDirectory_def\<close>)
  moreover have "names_ok sb' T'"
    unfolding names_ok_def
  proof (intro allI impI)
    fix q ks assume k: "kid_roots q T' = Some ks"
    then obtain x where "kids q T' = Some x" by (auto simp: kid_roots_def)
    then have q: "q \<in> set (nodes T')" by (rule kids_Some_node)
    have sub: "map (\<lambda>k. GetName (fst_at sb' k)) ks = map (\<lambda>k. GetName (fst_at sb k)) ks"
      by (rule map_cong [OF refl]) (use same kid_roots_node [OF k] kr(2) in auto)
    show "distinct (map (\<lambda>k. GetName (fst_at sb' k)) ks)"
    proof (cases "q = p")
      case True
      then have "ks = map root xs @ map root ys" using k kr(4) by simp
      then show ?thesis using dn unfolding sub by auto
    next
      case False
      then show ?thesis using n kr(5) [OF q False] k unfolding sub names_ok_def by metis
    qed
  qed
  ultimately show "tree_inv sb' T'" using wf' kr(1) by (simp add: tree_inv_def)
  have free: "\<forall>t\<in>set (xs @ ys). GetName (fst_at sb (root t)) \<noteq> GetName (fst_at sb c)"
  proof
    fix t assume "t \<in> set (xs @ ys)"
    then have "GetName (fst_at sb (root t)) \<in> set (map (\<lambda>k. GetName (fst_at sb k)) (map root xs @ map root ys))" by auto
    moreover have "GetName (fst_at sb c) \<notin> set (map (\<lambda>k. GetName (fst_at sb k)) (map root xs @ map root ys))" using dn by simp
    ultimately show "GetName (fst_at sb (root t)) \<noteq> GetName (fst_at sb c)" by metis
  qed
  have same': "\<forall>g\<in>set (nodes T'). GetName (fst_at sb' g) = GetName (fst_at sb g)" using same kr(2) by auto
  have root': "0 \<in> set (nodes T')" using tree_inv_root [OF \<open>tree_inv sb' T'\<close>] .
  have eq: "(\<exists>pre suf. ns = pre @ GetName (fst_at sb c) # suf \<and> resolve sb T 0 pre = Some p) \<longleftrightarrow> (\<exists>suf. ns = ps @ GetName (fst_at sb c) # suf)"
    using ps entries_inj [OF inv _ ps] unfolding entries_def by metis
  show "entries sb' T' ns = (if \<exists>suf. ns = ps @ GetName (fst_at sb c) # suf then None else entries sb T ns)"
    using resolve_remove [OF d us same' [unfolded T'_def] refl free root' [unfolded T'_def], of ns]
    unfolding eq entries_def T'_def .
qed

end
