(* ===== verification/FsQuery.thy ===== *)
theory FsQuery
  imports FsOps
begin

text \<open>
  The operations of \<^verbatim>\<open>driver/fs.cpp\<close> on directories, metadata and usage statistics.
\<close>

section \<open>Directories\<close>

text \<open>
  The loop ends at the index \<^verbatim>\<open>0xffff\<close> only; any other index outside the table is a read
  out of bounds.
\<close>

partial_function (option) list_names :: "Superblock \<Rightarrow> u16 \<Rightarrow> string list \<Rightarrow> string list option" where
  "list_names superblock i names =
     (if i = 0xffff then Some names
      else if \<not> in_fst i then None
      else list_names superblock (e_sib (fst_at superblock i)) (names @ [GetName (fst_at superblock i)]))"

definition ReadDirectory :: "('k, 'c) mbedtls \<Rightarrow> Fd \<Rightarrow> string \<Rightarrow> (string list Result) fs_op" where
  "ReadDirectory lib fd path s = (case GetHandleFromFd fd s of
     None \<Rightarrow> Some (Inl Invalid, s)
   | Some h \<Rightarrow>
       if path = [] \<or> length path > 64 \<or> path ! 0 \<noteq> CHR ''/'' then Some (Inl Invalid, s)
       else (case GetSuperblock lib s of
         (None, s1) \<Rightarrow> Some (Inl SuperblockInitFailed, s1)
       | (Some superblock, s1) \<Rightarrow>
           let handle = handle_at s1 h in do {
             index_result \<leftarrow> GetFstIndex superblock path;
             (case index_result of
               Inl _ \<Rightarrow> Some (Inl NotFound, s1)
             | Inr index \<Rightarrow>
                 if \<not> HasPermission (fst_at superblock index) (h_uid handle) (h_gid handle) FileMode_Read
                 then Some (Inl AccessDenied, s1)
                 else if \<not> IsDirectory (fst_at superblock index) then Some (Inl Invalid, s1)
                 else do {
                   children_names \<leftarrow> list_names superblock (e_sub (fst_at superblock index)) [];
                   Some (Inr children_names, s1)
                 })
           }))"

section \<open>Metadata\<close>

definition metadata_of :: "Superblock \<Rightarrow> u16 \<Rightarrow> Metadata" where
  "metadata_of superblock index =
     (let e = fst_at superblock index in
      \<lparr>md_uid = e_uid e, md_gid = e_gid e, md_attribute = e_attr e, md_owner_mode = GetOwnerMode e,
       md_group_mode = GetGroupMode e, md_other_mode = GetOtherMode e, md_is_file = IsFile e,
       md_size = e_size e, md_fst_index = index\<rparr>)"

definition GetMetadata :: "('k, 'c) mbedtls \<Rightarrow> Fd \<Rightarrow> string \<Rightarrow> (Metadata Result) fs_op" where
  "GetMetadata lib fd path s = (case GetHandleFromFd fd s of
     None \<Rightarrow> Some (Inl Invalid, s)
   | Some h \<Rightarrow>
       if path = [] then Some (Inl Invalid, s)
       else (case GetSuperblock lib s of
         (None, s1) \<Rightarrow> Some (Inl SuperblockInitFailed, s1)
       | (Some superblock, s1) \<Rightarrow>
           let handle = handle_at s1 h in
           if path = ''/'' then Some (Inr (metadata_of superblock 0), s1)
           else if IsValidNonRootPath path then
             let split_path = SplitPath path in do {
               parent_result \<leftarrow> GetFstIndex superblock (parent split_path);
               (case parent_result of
                 Inl _ \<Rightarrow> Some (Inl NotFound, s1)
               | Inr parent_idx \<Rightarrow>
                   if \<not> HasPermission (fst_at superblock parent_idx) (h_uid handle) (h_gid handle) FileMode_Read
                   then Some (Inl AccessDenied, s1)
                   else do {
                     child \<leftarrow> GetFstIndex_child superblock parent_idx (file_name split_path);
                     Some (case child of
                       Inl _ \<Rightarrow> (Inl NotFound, s1)
                     | Inr index \<Rightarrow> (Inr (metadata_of superblock index), s1))
                   })
             }
           else Some (Inl Invalid, s1)))"

definition SetMetadata :: "('k, 'c) mbedtls \<Rightarrow> Fd \<Rightarrow> string \<Rightarrow> Uid \<Rightarrow> Gid \<Rightarrow> FileAttribute \<Rightarrow>
    FileMode \<Rightarrow> FileMode \<Rightarrow> FileMode \<Rightarrow> ResultCode fs_op" where
  "SetMetadata lib fd path uid gid attribute owner_mode group_mode other_mode s = (case GetHandleFromFd fd s of
     None \<Rightarrow> Some (Invalid, s)
   | Some h \<Rightarrow>
       if path = [] \<or> length path > 64 \<or> path ! 0 \<noteq> CHR ''/'' then Some (Invalid, s)
       else (case GetSuperblock lib s of
         (None, s1) \<Rightarrow> Some (SuperblockInitFailed, s1)
       | (Some superblock, s1) \<Rightarrow>
           let handle = handle_at s1 h in do {
             index_result \<leftarrow> GetFstIndex superblock path;
             (case index_result of
               Inl _ \<Rightarrow> Some (NotFound, s1)
             | Inr index \<Rightarrow>
                 let current_entry = fst_at superblock index in
                 if h_uid handle \<noteq> 0 \<and> h_uid handle \<noteq> e_uid current_entry then Some (AccessDenied, s1)
                 else if h_uid handle \<noteq> 0 \<and> e_uid current_entry \<noteq> uid then Some (AccessDenied, s1)
                 else if IsFile current_entry \<and> e_size current_entry \<noteq> 0 then Some (FileNotEmpty, s1)
                 else FlushSuperblock lib (s1\<lparr>m_superblock := Some (upd_fst index
                   (\<lambda>e. SetAccessMode owner_mode group_mode other_mode
                     (e\<lparr>e_gid := gid, e_uid := uid, e_attr := attribute\<rparr>)) superblock)\<rparr>))
           }))"

section \<open>Statistics\<close>

definition count_cluster :: "u16 \<Rightarrow> NandStats \<Rightarrow> NandStats" where
  "count_cluster cluster stats =
     (if cluster = CLUSTER_UNUSED \<or> cluster = 0xffff then stats\<lparr>free_clusters := free_clusters stats + 1\<rparr>
      else if cluster = CLUSTER_RESERVED then stats\<lparr>reserved_clusters := reserved_clusters stats + 1\<rparr>
      else if cluster = CLUSTER_BAD_BLOCK then stats\<lparr>bad_clusters := bad_clusters stats + 1\<rparr>
      else stats\<lparr>used_clusters := used_clusters stats + 1\<rparr>)"

definition count_inode :: "FstEntry \<Rightarrow> NandStats \<Rightarrow> NandStats" where
  "count_inode entry stats =
     (if e_mode entry AND 3 \<noteq> 0 then stats\<lparr>used_inodes := used_inodes stats + 1\<rparr>
      else stats\<lparr>free_inodes := free_inodes stats + 1\<rparr>)"

definition nand_stats :: "Superblock \<Rightarrow> NandStats" where
  "nand_stats superblock =
     (let stats = \<lparr>cluster_size = of_nat CLUSTER_DATA_SIZE, free_clusters = 0, used_clusters = 0, bad_clusters = 0,
            reserved_clusters = 0, free_inodes = 0, used_inodes = 0\<rparr>
      in fold count_inode (sb_fst superblock) (fold count_cluster (sb_fat superblock) stats))"

definition GetNandStats :: "('k, 'c) mbedtls \<Rightarrow> Fd \<Rightarrow> FileSystemImpl \<Rightarrow> NandStats Result \<times> FileSystemImpl" where
  "GetNandStats lib fd s = (case GetHandleFromFd fd s of
     None \<Rightarrow> (Inl Invalid, s)
   | Some h \<Rightarrow> (case GetSuperblock lib s of
       (None, s1) \<Rightarrow> (Inl SuperblockInitFailed, s1)
     | (Some superblock, s1) \<Rightarrow> (Inr (nand_stats superblock), s1)))"

definition GetDirectoryStats :: "('k, 'c) mbedtls \<Rightarrow> Fd \<Rightarrow> string \<Rightarrow> (DirectoryStats Result) fs_op" where
  "GetDirectoryStats lib fd path s = (case GetHandleFromFd fd s of
     None \<Rightarrow> Some (Inl Invalid, s)
   | Some h \<Rightarrow> (case GetSuperblock lib s of
       (None, s1) \<Rightarrow> Some (Inl SuperblockInitFailed, s1)
     | (Some superblock, s1) \<Rightarrow>
         if path = [] \<or> path ! 0 \<noteq> CHR ''/'' \<or> length path > 64 then Some (Inl SuperblockInitFailed, s1)
         else do {
           index_result \<leftarrow> GetFstIndex superblock path;
           (case index_result of
             Inl _ \<Rightarrow> Some (Inl NotFound, s1)
           | Inr index \<Rightarrow>
               if \<not> IsDirectory (fst_at superblock index) then Some (Inl Invalid, s1)
               else do {
                 stats \<leftarrow> CountDirectoryRecursively superblock index;
                 Some (Inr stats, s1)
               })
         }))"

end
