(* ===== verification/Allocation.thy ===== *)
theory Allocation
  imports Forest
begin

text \<open>
  How files share the clusters of the image: no two files have a cluster in common, and all
  clusters of files lie in the data area. What an operation has to leave alone so that this
  stays true and the other files keep their data.
\<close>

section \<open>The allocation of clusters\<close>

text \<open>The clusters between boot data and superblocks; the two marks that make a cluster free.\<close>

definition data_area :: "u16 \<Rightarrow> bool" where
  "data_area c \<longleftrightarrow> 64 \<le> c \<and> c < SUPERBLOCK_START_CLUSTER"

definition unused_mark :: "u16 \<Rightarrow> bool" where
  "unused_mark c \<longleftrightarrow> c = CLUSTER_UNUSED \<or> c = 0xffff"

definition file_at :: "Superblock \<Rightarrow> u16 \<Rightarrow> bool" where
  "file_at sb f \<longleftrightarrow> in_fst f \<and> IsFile (fst_at sb f)"

definition alloc :: "Superblock \<Rightarrow> (u16 \<Rightarrow> u16 list) \<Rightarrow> bool" where
  "alloc sb cl \<longleftrightarrow>
     (\<forall>f. file_at sb f \<longrightarrow> clusters sb f (cl f) \<and> (\<forall>c\<in>set (cl f). data_area c \<and> \<not> unused_mark (fat_at sb c))) \<and>
     (\<forall>f g. file_at sb f \<longrightarrow> file_at sb g \<longrightarrow> f \<noteq> g \<longrightarrow> set (cl f) \<inter> set (cl g) = {}) \<and>
     (\<forall>c. in_fat c \<longrightarrow> \<not> data_area c \<longrightarrow> \<not> unused_mark (fat_at sb c))"

definition files_ok :: "Superblock \<Rightarrow> bool" where
  "files_ok sb \<longleftrightarrow> (\<exists>cl. alloc sb cl)"

text \<open>No cluster is lost: one that is not free belongs to a file.\<close>

definition no_loss :: "Superblock \<Rightarrow> (u16 \<Rightarrow> u16 list) \<Rightarrow> bool" where
  "no_loss sb cl \<longleftrightarrow> (\<forall>c. data_area c \<longrightarrow> fat_at sb c \<noteq> CLUSTER_UNUSED \<longrightarrow> (\<exists>f. file_at sb f \<and> c \<in> set (cl f)))"

definition tight :: "FileSystemImpl \<Rightarrow> bool" where
  "tight s \<longleftrightarrow> (\<exists>sb cl. m_superblock s = Some sb \<and> alloc sb cl \<and> no_loss sb cl)"

definition free_space :: "FileSystemImpl \<Rightarrow> nat" where
  "free_space s = (case m_superblock s of None \<Rightarrow> 0 | Some sb \<Rightarrow> free_count sb)"

lemma data_area_in_fat: "data_area c \<Longrightarrow> in_fat c"
  by (simp add: data_area_def in_fat_def FAT_SIZE_def SUPERBLOCK_START_CLUSTER_def word_less_nat_alt)

lemma alloc_file:
  assumes "alloc sb cl" "file_at sb f"
  shows "clusters sb f (cl f)" "c \<in> set (cl f) \<Longrightarrow> data_area c" "c \<in> set (cl f) \<Longrightarrow> \<not> unused_mark (fat_at sb c)"
  using assms by (auto simp: alloc_def)

lemma alloc_disjoint: "alloc sb cl \<Longrightarrow> file_at sb f \<Longrightarrow> file_at sb g \<Longrightarrow> f \<noteq> g \<Longrightarrow> c \<in> set (cl f) \<Longrightarrow> c \<notin> set (cl g)"
  unfolding alloc_def by (metis disjoint_iff)

lemma alloc_unique: "alloc sb cl \<Longrightarrow> alloc sb cl' \<Longrightarrow> file_at sb f \<Longrightarrow> cl f = cl' f"
  using alloc_file(1) [of sb cl f] alloc_file(1) [of sb cl' f] by (auto simp: clusters_def dest: chain_unique)

lemma alloc_file_clusters: "alloc sb cl \<Longrightarrow> file_at sb f \<Longrightarrow> file_clusters sb f (cl f)"
  using alloc_file [of sb cl f] by (auto simp: file_clusters_def unused_mark_def)

text \<open>
  \<open>refiles X sb sb'\<close>: the new superblock has files of the old one, unchanged up to the name if
  they are in \<open>X\<close>, and new empty files; the FAT differs only in clusters of neither, which are
  now free, as are all clusters of the files that are gone.
\<close>

definition same_data :: "u16 set \<Rightarrow> u16 \<Rightarrow> FstEntry \<Rightarrow> FstEntry \<Rightarrow> bool" where
  "same_data X f e e' \<longleftrightarrow> e_sub e' = e_sub e \<and> e_size e' = e_size e \<and>
     (e_size e = 0 \<or> e_uid e' = e_uid e \<and> e_x3 e' = e_x3 e \<and> (f \<in> X \<or> e_name e' = e_name e))"

definition refiles :: "u16 set \<Rightarrow> Superblock \<Rightarrow> Superblock \<Rightarrow> bool" where
  "refiles X sb sb' \<longleftrightarrow>
     (\<forall>f. file_at sb' f \<longrightarrow> (if file_at sb f then same_data X f (fst_at sb f) (fst_at sb' f)
        else e_size (fst_at sb' f) = 0 \<and> \<not> in_fat (e_sub (fst_at sb' f)))) \<and>
     (\<forall>cl c. alloc sb cl \<longrightarrow> in_fat c \<longrightarrow> fat_at sb' c \<noteq> fat_at sb c \<longrightarrow>
        data_area c \<and> fat_at sb' c = CLUSTER_UNUSED \<and> (\<forall>f. file_at sb f \<longrightarrow> file_at sb' f \<longrightarrow> c \<notin> set (cl f))) \<and>
     (\<forall>cl f c. alloc sb cl \<longrightarrow> file_at sb f \<longrightarrow> \<not> file_at sb' f \<longrightarrow> c \<in> set (cl f) \<longrightarrow> fat_at sb' c = CLUSTER_UNUSED)"

lemma refiles_file:
  assumes "refiles X sb sb'" "file_at sb' f"
  shows "file_at sb f \<Longrightarrow> same_data X f (fst_at sb f) (fst_at sb' f)"
    "\<not> file_at sb f \<Longrightarrow> e_size (fst_at sb' f) = 0 \<and> \<not> in_fat (e_sub (fst_at sb' f))"
  using assms by (simp_all add: refiles_def)

lemma refiles_fat:
  assumes "refiles X sb sb'" "alloc sb cl" "in_fat c" "fat_at sb' c \<noteq> fat_at sb c"
  shows "data_area c" "file_at sb f \<Longrightarrow> file_at sb' f \<Longrightarrow> c \<notin> set (cl f)" "fat_at sb' c = CLUSTER_UNUSED"
  using assms unfolding refiles_def by blast+

lemma refiles_gone:
  assumes "refiles X sb sb'" "alloc sb cl" "file_at sb f" "\<not> file_at sb' f" "c \<in> set (cl f)"
  shows "fat_at sb' c = CLUSTER_UNUSED"
  using assms unfolding refiles_def by blast

lemma refilesI:
  assumes "\<And>f. file_at sb' f \<Longrightarrow> file_at sb f \<Longrightarrow> same_data X f (fst_at sb f) (fst_at sb' f)"
    and "\<And>f. file_at sb' f \<Longrightarrow> \<not> file_at sb f \<Longrightarrow> e_size (fst_at sb' f) = 0 \<and> \<not> in_fat (e_sub (fst_at sb' f))"
    and "\<And>cl c. alloc sb cl \<Longrightarrow> in_fat c \<Longrightarrow> fat_at sb' c \<noteq> fat_at sb c \<Longrightarrow>
      data_area c \<and> fat_at sb' c = CLUSTER_UNUSED \<and> (\<forall>f. file_at sb f \<longrightarrow> file_at sb' f \<longrightarrow> c \<notin> set (cl f))"
    and "\<And>cl f c. alloc sb cl \<Longrightarrow> file_at sb f \<Longrightarrow> \<not> file_at sb' f \<Longrightarrow> c \<in> set (cl f) \<Longrightarrow> fat_at sb' c = CLUSTER_UNUSED"
  shows "refiles X sb sb'"
  unfolding refiles_def using assms by (simp only: if_bool_eq_conj) blast

lemma same_data_refl [simp]: "same_data X f e e"
  by (simp add: same_data_def)

lemma same_data_trans: "same_data X f e e' \<Longrightarrow> same_data X f e' e'' \<Longrightarrow> same_data X f e e''"
  unfolding same_data_def by metis

lemma refiles_alloc:
  assumes r: "refiles X sb sb'" and a: "alloc sb cl"
  shows "alloc sb' (\<lambda>f. if file_at sb f then cl f else [])"
proof -
  have same: "fat_at sb' c = fat_at sb c" if "file_at sb f" "file_at sb' f" "c \<in> set (cl f)" for f c
    using refiles_fat(2) [OF r a data_area_in_fat _ that(1,2)] alloc_file(2) [OF a that(1)] that(3) by blast
  have f: "clusters sb' f (if file_at sb f then cl f else [])" if "file_at sb' f" for f
  proof (cases "file_at sb f")
    case True
    then have "e_sub (fst_at sb' f) = e_sub (fst_at sb f)" using refiles_file(1) [OF r that True] by (simp add: same_data_def)
    then show ?thesis using alloc_file(1) [OF a True] chain_cong [of "fat_at sb" in_fat _ "cl f" "fat_at sb'"] same [OF True that] True
      by (simp add: clusters_def)
  next
    case False
    then show ?thesis using refiles_file(2) [OF r that False] by (simp add: clusters_def)
  qed
  have g: "data_area c \<and> \<not> unused_mark (fat_at sb' c)" if "file_at sb' f" "c \<in> set (if file_at sb f then cl f else [])" for f c
    using that same [of f c] alloc_file(2,3) [OF a, of f c] by (cases "file_at sb f") simp_all
  have u: "\<not> unused_mark (fat_at sb' c)" if "in_fat c" "\<not> data_area c" for c
  proof -
    have "fat_at sb' c = fat_at sb c" using refiles_fat(1) [OF r a that(1)] that(2) by blast
    then show ?thesis using a that by (simp add: alloc_def)
  qed
  have d: "set (if file_at sb f then cl f else []) \<inter> set (if file_at sb g then cl g else []) = {}" if "f \<noteq> g" for f g
    using alloc_disjoint [OF a, of f g] that by auto
  show ?thesis
    unfolding alloc_def using f g u d by blast
qed

lemma refiles_no_loss:
  assumes r: "refiles X sb sb'" and a: "alloc sb cl" and n: "no_loss sb cl"
  shows "no_loss sb' (\<lambda>f. if file_at sb f then cl f else [])"
  unfolding no_loss_def
proof (intro allI impI)
  fix c assume c: "data_area c" "fat_at sb' c \<noteq> CLUSTER_UNUSED"
  then have "fat_at sb' c = fat_at sb c" using refiles_fat(3) [OF r a data_area_in_fat] by blast
  then obtain f where f: "file_at sb f" "c \<in> set (cl f)" using n c by (auto simp: no_loss_def)
  moreover have "file_at sb' f" using refiles_gone [OF r a f(1) _ f(2)] c(2) by blast
  ultimately show "\<exists>f. file_at sb' f \<and> c \<in> set (if file_at sb f then cl f else [])" by auto
qed

lemma refiles_tight:
  "m_superblock s = Some sb \<Longrightarrow> m_superblock s' = Some sb' \<Longrightarrow> refiles X sb sb' \<Longrightarrow> tight s \<Longrightarrow> tight s'"
  unfolding tight_def by (auto dest: refiles_alloc refiles_no_loss)

lemma refiles_free:
  assumes "refiles X sb sb'" "files_ok sb"
  shows "free_count sb \<le> free_count sb'"
proof -
  obtain cl where a: "alloc sb cl" using assms(2) by (auto simp: files_ok_def)
  have "fat_at sb' c = CLUSTER_UNUSED" if "in_fat c" "fat_at sb c = CLUSTER_UNUSED" for c
    using refiles_fat(3) [OF assms(1) a that(1)] that(2) by metis
  then show ?thesis unfolding free_count_def by (intro card_mono) auto
qed

lemma refiles_files_ok: "refiles X sb sb' \<Longrightarrow> files_ok sb \<Longrightarrow> files_ok sb'"
  using refiles_alloc unfolding files_ok_def by blast

lemma refiles_trans:
  assumes 1: "refiles X sb sb1" and 2: "refiles X sb1 sb2" and sub: "\<And>f. file_at sb2 f \<Longrightarrow> file_at sb1 f"
  shows "refiles X sb sb2"
proof (rule refilesI)
  fix f assume f: "file_at sb2 f"
  note same = refiles_file(1) [OF 2 f sub [OF f]]
  show "same_data X f (fst_at sb f) (fst_at sb2 f)" if "file_at sb f"
    by (rule same_data_trans [OF refiles_file(1) [OF 1 sub [OF f] that] same])
  show "e_size (fst_at sb2 f) = 0 \<and> \<not> in_fat (e_sub (fst_at sb2 f))" if "\<not> file_at sb f"
    using refiles_file(2) [OF 1 sub [OF f] that] same by (simp add: same_data_def)
next
  fix cl c assume a: "alloc sb cl" and v: "in_fat c" and c: "fat_at sb2 c \<noteq> fat_at sb c"
  note a1 = refiles_alloc [OF 1 a]
  show "data_area c \<and> fat_at sb2 c = CLUSTER_UNUSED \<and> (\<forall>f. file_at sb f \<longrightarrow> file_at sb2 f \<longrightarrow> c \<notin> set (cl f))"
  proof (cases "fat_at sb1 c = fat_at sb c")
    case True
    then have n: "fat_at sb2 c \<noteq> fat_at sb1 c" using c by simp
    show ?thesis using refiles_fat(1,3) [OF 2 a1 v n] refiles_fat(2) [OF 2 a1 v n] sub by auto
  next
    case False
    then show ?thesis using refiles_fat [OF 1 a v False] refiles_fat(3) [OF 2 a1 v] sub by metis
  qed
next
  fix cl f c assume a: "alloc sb cl" and f: "file_at sb f" "\<not> file_at sb2 f" "c \<in> set (cl f)"
  note a1 = refiles_alloc [OF 1 a]
  show "fat_at sb2 c = CLUSTER_UNUSED"
  proof (cases "file_at sb1 f")
    case True
    then show ?thesis using refiles_gone [OF 2 a1 True f(2)] f(1,3) by simp
  next
    case False
    then show ?thesis
      using refiles_gone [OF 1 a f(1) _ f(3)] refiles_fat(3) [OF 2 a1 data_area_in_fat [OF alloc_file(2) [OF a f(1,3)]]] by metis
  qed
qed

text \<open>The updates that leave the FAT alone.\<close>

lemma refiles_fst:
  assumes "\<And>c. fat_at sb' c = fat_at sb c"
    and "\<And>f. file_at sb' f \<Longrightarrow> if file_at sb f then same_data X f (fst_at sb f) (fst_at sb' f)
      else e_size (fst_at sb' f) = 0 \<and> \<not> in_fat (e_sub (fst_at sb' f))"
    and "\<And>cl f c. alloc sb cl \<Longrightarrow> file_at sb f \<Longrightarrow> \<not> file_at sb' f \<Longrightarrow> c \<notin> set (cl f)"
  shows "refiles X sb sb'"
  using assms unfolding refiles_def by blast

lemma refiles_refl: "refiles X sb sb"
  by (simp add: refiles_def)

text \<open>Deleting files: their entries become unused and their clusters free.\<close>

lemma refiles_delete:
  assumes e: "\<And>g. fst_at sb' g = (if g \<in> D then (fst_at sb g)\<lparr>e_mode := 0\<rparr> else fst_at sb g)"
    and D: "\<And>d. d \<in> D \<Longrightarrow> file_at sb d"
    and fat: "\<And>cl j. alloc sb cl \<Longrightarrow> fat_at sb' j = (if j \<in> (\<Union>d\<in>D. set (cl d)) then CLUSTER_UNUSED else fat_at sb j)"
  shows "refiles X sb sb'"
proof (rule refilesI)
  have left: "f \<notin> D \<and> file_at sb f" if "file_at sb' f" for f
    using that by (cases "f \<in> D") (simp_all add: file_at_def e IsFile_def)
  fix f assume f: "file_at sb' f"
  show "same_data X f (fst_at sb f) (fst_at sb' f)" using left [OF f] by (simp add: e)
  show "\<not> file_at sb f \<Longrightarrow> e_size (fst_at sb' f) = 0 \<and> \<not> in_fat (e_sub (fst_at sb' f))" using left [OF f] by simp
next
  fix cl c assume a: "alloc sb cl" and "in_fat c" "fat_at sb' c \<noteq> fat_at sb c"
  then obtain d where d: "d \<in> D" "c \<in> set (cl d)" by (auto simp: fat [OF a] split: if_splits)
  show "data_area c \<and> fat_at sb' c = CLUSTER_UNUSED \<and> (\<forall>f. file_at sb f \<longrightarrow> file_at sb' f \<longrightarrow> c \<notin> set (cl f))"
  proof (intro conjI allI impI)
    show "fat_at sb' c = CLUSTER_UNUSED" using d by (auto simp: fat [OF a])
    show "data_area c" by (rule alloc_file(2) [OF a D [OF d(1)] d(2)])
    fix f assume f: "file_at sb f" "file_at sb' f"
    then have "f \<noteq> d" using d(1) by (auto simp: file_at_def e IsFile_def)
    then show "c \<notin> set (cl f)" using alloc_disjoint [OF a D [OF d(1)] f(1) _ d(2)] by simp
  qed
next
  fix cl f c assume a: "alloc sb cl" and f: "file_at sb f" "\<not> file_at sb' f" "c \<in> set (cl f)"
  then have "f \<in> D" by (auto simp: file_at_def e split: if_splits)
  then show "fat_at sb' c = CLUSTER_UNUSED" using f(3) by (auto simp: fat [OF a])
qed

lemma alloc_separate: "alloc sb cl \<Longrightarrow> (\<And>f. f \<in> set fs \<Longrightarrow> file_at sb f) \<Longrightarrow> separate sb fs cl"
  unfolding alloc_def separate_def by blast

text \<open>Every cluster of the data area is free or one of a file.\<close>

lemma card_data_area: "card {c. data_area c} = 0x7ec0"
proof -
  have u: "unat SUPERBLOCK_START_CLUSTER = 0x7f00" by (simp add: SUPERBLOCK_START_CLUSTER_def)
  have "unat ` {c. data_area c} = {64..<0x7f00}"
  proof (intro set_eqI iffI)
    fix n :: nat assume n: "n \<in> {64..<0x7f00}"
    have "unat (of_nat n :: u16) = n" using n by (simp add: unat_of_nat)
    then have "data_area (of_nat n)" using n u by (simp add: data_area_def word_le_nat_alt word_less_nat_alt)
    then show "n \<in> unat ` {c. data_area c}" using \<open>unat (of_nat n :: u16) = n\<close> by (metis image_eqI mem_Collect_eq)
  qed (use u in \<open>auto simp: data_area_def word_le_nat_alt word_less_nat_alt\<close>)
  moreover have "card (unat ` {c. data_area c}) = card {c. data_area c}" by (rule card_image) (simp add: inj_on_def word_unat_eq_iff)
  ultimately show ?thesis by simp
qed

lemma free_clusters:
  assumes "alloc sb cl"
  shows "{c. in_fat c \<and> fat_at sb c = CLUSTER_UNUSED} = {c. data_area c \<and> fat_at sb c = CLUSTER_UNUSED}"
  using assms data_area_in_fat unfolding alloc_def unused_mark_def by blast

lemma clusters_conserved:
  assumes a: "alloc sb cl" and n: "no_loss sb cl"
  shows "free_count sb + (\<Sum>f | file_at sb f. length (cl f)) = 0x7ec0"
proof -
  let ?free = "{c. data_area c \<and> fat_at sb c = CLUSTER_UNUSED}" and ?used = "\<Union>f\<in>{f. file_at sb f}. set (cl f)"
  have "?free \<union> ?used = {c. data_area c}" using n alloc_file(2) [OF a] by (auto simp: no_loss_def)
  moreover have "?free \<inter> ?used = {}" using alloc_file(3) [OF a] by (auto simp: unused_mark_def)
  ultimately have "card ?free + card ?used = 0x7ec0" using card_Un_disjoint [of ?free ?used] card_data_area by simp
  moreover have "card ?used = (\<Sum>f | file_at sb f. card (set (cl f)))"
    by (rule card_UN_disjoint) (use alloc_disjoint [OF a] in auto)
  moreover have "card (set (cl f)) = length (cl f)" if "file_at sb f" for f
    by (rule distinct_card [OF chain_distinct]) (rule alloc_file(1) [OF a that, unfolded clusters_def])
  ultimately show ?thesis by (simp add: free_count_def free_clusters [OF a])
qed

lemma clusters_bounded:
  assumes a: "alloc sb cl" and f: "file_at sb f"
  shows "free_count sb + length (cl f) \<le> 0x7ec0"
proof -
  let ?free = "{c. data_area c \<and> fat_at sb c = CLUSTER_UNUSED}"
  have "?free \<inter> set (cl f) = {}" using alloc_file(3) [OF a f] by (auto simp: unused_mark_def)
  then have "card ?free + card (set (cl f)) = card (?free \<union> set (cl f))" by (simp add: card_Un_disjoint)
  also have "\<dots> \<le> card {c. data_area c}" by (rule card_mono) (use alloc_file(2) [OF a f] in auto)
  finally show ?thesis
    using distinct_card [OF chain_distinct, of "fat_at sb" in_fat "e_sub (fst_at sb f)" "cl f"] alloc_file(1) [OF a f] card_data_area
    by (simp add: clusters_def free_count_def free_clusters [OF a])
qed

section \<open>The data of a file\<close>

text \<open>What \<^verbatim>\<open>ReadFileData\<close> returns for cluster \<open>i\<close> of the file with index \<open>f\<close>.\<close>

definition cluster_data :: "('k, 'c) mbedtls \<Rightarrow> u16 \<Rightarrow> u16 \<Rightarrow> FileSystemImpl \<Rightarrow> u8 list Result option" where
  "cluster_data lib f i s = map_option fst (ReadFileData lib f i s)"

definition has_file :: "FileSystemImpl \<Rightarrow> u16 \<Rightarrow> bool" where
  "has_file s f \<longleftrightarrow> (\<exists>sb. m_superblock s = Some sb \<and> file_at sb f)"

text \<open>
  \<open>kept_data lib X s s'\<close>: every file of the new state has the data it had, if its index is not
  in \<open>X\<close>, and no cluster gets lost.
\<close>

definition kept_data :: "('k, 'c) mbedtls \<Rightarrow> u16 set \<Rightarrow> FileSystemImpl \<Rightarrow> FileSystemImpl \<Rightarrow> bool" where
  "kept_data lib X s s' \<longleftrightarrow>
     (\<forall>f i. f \<notin> X \<longrightarrow> has_file s' f \<longrightarrow> cluster_data lib f i s' = cluster_data lib f i s) \<and> (tight s \<longrightarrow> tight s')"

lemma cluster_data_eq:
  assumes "m_superblock s = Some sb" "file_at sb f" "clusters sb f cs"
  shows "cluster_data lib f i s =
    (if e_size (fst_at sb f) \<le> ucast i * of_nat CLUSTER_DATA_SIZE then Some (Inl Invalid)
     else if length cs \<le> unat i then None
     else Some (case ReadCluster lib (m_keys s) (m_nand s) (cs ! unat i) of
        Inl e \<Rightarrow> Inl e
      | Inr r \<Rightarrow> if GenerateHmacForData lib (m_keys s) sb (rr_data r) f i \<in> {rr_hmac1 r, rr_hmac2 r} then Inr (rr_data r)
          else Inl CheckFailed))"
  using assms GetClusterForFile_chain [of sb "e_sub (fst_at sb f)" cs "unat i"]
  by (auto simp: cluster_data_def ReadFileData_def GetSuperblock_loaded Let_def clusters_def file_at_def split: sum.splits)

lemma cluster_data_none:
  assumes "m_superblock s = Some sb" "\<not> file_at sb f \<or> e_size (fst_at sb f) = 0"
  shows "cluster_data lib f i s = Some (Inl Invalid)"
  using assms by (auto simp: cluster_data_def ReadFileData_def GetSuperblock_loaded Let_def file_at_def)

lemma cluster_data_cong:
  assumes sb: "m_superblock s = Some sb" "m_superblock s' = Some sb'" "m_keys s' = m_keys s"
    and f: "file_at sb f" "file_at sb' f" "clusters sb f cs" "clusters sb' f cs"
    and e: "e_size (fst_at sb' f) = e_size (fst_at sb f)" "e_uid (fst_at sb' f) = e_uid (fst_at sb f)"
      "e_name (fst_at sb' f) = e_name (fst_at sb f)" "e_x3 (fst_at sb' f) = e_x3 (fst_at sb f)"
    and rd: "\<And>c. c \<in> set cs \<Longrightarrow> ReadCluster lib (m_keys s) (m_nand s') c = ReadCluster lib (m_keys s) (m_nand s) c"
  shows "cluster_data lib f i s' = cluster_data lib f i s"
proof -
  have "ReadCluster lib (m_keys s) (m_nand s') (cs ! unat i) = ReadCluster lib (m_keys s) (m_nand s) (cs ! unat i)"
    if "\<not> length cs \<le> unat i" by (rule rd) (use that in simp)
  then show ?thesis
    unfolding cluster_data_eq [OF sb(1) f(1,3)] cluster_data_eq [OF sb(2) f(2,4)] sb(3) e(1) GenerateHmacForData_cong [OF e(2-4)]
    by simp
qed

lemma refiles_data:
  assumes sb: "m_superblock s = Some sb" "m_superblock s' = Some sb'" "m_keys s' = m_keys s"
    and r: "refiles X sb sb'" and ok: "files_ok sb"
    and rd: "\<And>c. data_area c \<Longrightarrow> ReadCluster lib (m_keys s) (m_nand s') c = ReadCluster lib (m_keys s) (m_nand s) c"
  shows "kept_data lib X s s'"
  unfolding kept_data_def
proof (intro conjI allI impI)
  show "tight s'" if "tight s" by (rule refiles_tight [OF sb(1,2) r that])
  fix f i assume X: "f \<notin> X" and hf: "has_file s' f"
  then have f: "file_at sb' f" using sb(2) by (simp add: has_file_def)
  obtain cl where a: "alloc sb cl" using ok by (auto simp: files_ok_def)
  consider "\<not> file_at sb f" | "file_at sb f" "e_size (fst_at sb f) = 0" | "file_at sb f" "e_size (fst_at sb f) \<noteq> 0" by blast
  then show "cluster_data lib f i s' = cluster_data lib f i s"
  proof cases
    case 1
    then show ?thesis using cluster_data_none sb(1,2) refiles_file(2) [OF r f] by metis
  next
    case 2
    then show ?thesis using cluster_data_none sb(1,2) refiles_file(1) [OF r f] unfolding same_data_def by metis
  next
    case 3
    have cs': "clusters sb' f (cl f)" using alloc_file(1) [OF refiles_alloc [OF r a] f] 3(1) by simp
    have "same_data X f (fst_at sb f) (fst_at sb' f)" by (rule refiles_file(1) [OF r f 3(1)])
    then show ?thesis
      using 3(2) X rd alloc_file(2) [OF a 3(1)]
      by (intro cluster_data_cong [OF sb 3(1) f alloc_file(1) [OF a 3(1)] cs']) (auto simp: same_data_def)
  qed
qed

lemma kept_data_refl: "kept_data lib X s s"
  by (simp add: kept_data_def)

lemma kept_data_trans:
  assumes "kept_data lib X s s'" "kept_data lib X s' s''" "\<And>f. has_file s'' f \<Longrightarrow> has_file s' f"
  shows "kept_data lib X s s''"
  using assms unfolding kept_data_def by metis

text \<open>A flush of the superblock writes outside the data area only.\<close>

lemma data_area_outside: "data_area c \<Longrightarrow> unat i < NUMBER_OF_SUPERBLOCKS \<Longrightarrow> outside_slot i c"
  using unat_sb_cluster [of "unat i"] unfolding outside_slot_def data_area_def
  by (auto simp: word_less_nat_alt) (simp add: layout_consts)

lemma flush_one_data:
  assumes "mbedtls_ok lib" "m_superblock s = Some sb" "sb_wf sb" "data_area c"
  shows "ReadCluster lib keys (m_nand (flush_one lib s)) c = ReadCluster lib keys (m_nand s) c"
  by (rule flush_one_disk(3) [OF assms(1-3) data_area_outside [OF assms(4) unat_next_index]])

lemma flushed_keeps_clusters:
  assumes ok: "mbedtls_ok lib" and sb: "m_superblock s = Some sb" "sb_wf sb" and c: "data_area c"
  shows "ReadCluster lib keys (m_nand (flushed lib s)) c = ReadCluster lib keys (m_nand s) c"
proof -
  have "ReadCluster lib keys (m_nand ((flush_one lib ^^ n) s)) c = ReadCluster lib keys (m_nand s) c" for n
  proof (induction n)
    case (Suc n)
    then show ?case using flush_one_data [OF ok flush_one_iter [OF sb(1), where lib = lib and n = n] _ c, of keys] sb(2) by simp
  qed simp
  then show ?thesis by (simp add: flushed_def sb(1))
qed

section \<open>Writing to a file\<close>

text \<open>
  \<open>written lib X s s'\<close>: the files keep their clusters apart, and those with an index outside
  \<open>X\<close> their data; no superblock on the image gets newer than the one in memory.
\<close>

definition written :: "('k, 'c) mbedtls \<Rightarrow> u16 set \<Rightarrow> FileSystemImpl \<Rightarrow> FileSystemImpl \<Rightarrow> bool" where
  "written lib X s s' \<longleftrightarrow> (\<forall>sb. m_superblock s = Some sb \<longrightarrow> sb_wf sb \<longrightarrow> files_ok sb \<longrightarrow>
     (\<exists>sb'. m_superblock s' = Some sb' \<and> sb_wf sb' \<and> files_ok sb' \<and> (\<forall>f. file_at sb' f = file_at sb f)) \<and>
     kept_data lib X s s' \<and> m_keys s' = m_keys s \<and> (versions_upto lib s \<longrightarrow> versions_upto lib s'))"

lemma written_trans:
  assumes "written lib X s s'" "written lib X s' s''"
  shows "written lib X s s''"
  unfolding written_def
proof (intro allI impI)
  fix sb assume sb: "m_superblock s = Some sb" "sb_wf sb" "files_ok sb"
  obtain sb1 where 1: "m_superblock s' = Some sb1" "sb_wf sb1" "files_ok sb1" "\<forall>f. file_at sb1 f = file_at sb f"
      "kept_data lib X s s'" "m_keys s' = m_keys s" "versions_upto lib s \<longrightarrow> versions_upto lib s'"
    using assms(1) sb unfolding written_def by blast
  obtain sb2 where 2: "m_superblock s'' = Some sb2" "sb_wf sb2" "files_ok sb2" "\<forall>f. file_at sb2 f = file_at sb1 f"
      "kept_data lib X s' s''" "m_keys s'' = m_keys s'" "versions_upto lib s' \<longrightarrow> versions_upto lib s''"
    using assms(2) 1 unfolding written_def by blast
  have "kept_data lib X s s''" by (rule kept_data_trans [OF 1(5) 2(5)]) (use 1 2 in \<open>auto simp: has_file_def\<close>)
  then show "(\<exists>sb'. m_superblock s'' = Some sb' \<and> sb_wf sb' \<and> files_ok sb' \<and> (\<forall>f. file_at sb' f = file_at sb f)) \<and>
     kept_data lib X s s'' \<and> m_keys s'' = m_keys s \<and> (versions_upto lib s \<longrightarrow> versions_upto lib s'')" using 1 2 by simp
qed

lemma written_same:
  assumes "m_superblock s' = m_superblock s" "m_keys s' = m_keys s" "m_nand s' = m_nand s" "m_superblock_index s' = m_superblock_index s"
  shows "written lib X s s'"
  unfolding written_def
proof (intro allI impI)
  fix sb assume sb: "m_superblock s = Some sb" "sb_wf sb" "files_ok sb"
  have "kept_data lib X s s'"
    by (rule refiles_data [OF sb(1) _ assms(2) refiles_refl sb(3)]) (simp_all add: assms sb)
  then show "(\<exists>sb'. m_superblock s' = Some sb' \<and> sb_wf sb' \<and> files_ok sb' \<and> (\<forall>f. file_at sb' f = file_at sb f)) \<and>
     kept_data lib X s s' \<and> m_keys s' = m_keys s \<and> (versions_upto lib s \<longrightarrow> versions_upto lib s')"
    using assms sb by (simp add: versions_upto_def)
qed

lemma link_cluster_alloc:
  assumes wf: "sb_wf sb" and a: "alloc sb cl" and f: "file_at sb f" and k: "unat i \<le> length (cl f)"
    and c: "in_fat c" "fat_at sb c = CLUSTER_UNUSED" and link: "link_cluster f i z c sb = Some sb'"
  shows "alloc sb' (cl(f := put_at (unat i) c (cl f)))"
proof -
  let ?cs = "cl f" and ?k = "unat i"
  have f': "in_fst f" "IsFile (fst_at sb f)" using f by (simp_all add: file_at_def)
  note fc = alloc_file_clusters [OF a f]
  obtain fat: "\<And>j. fat_at sb' j = (if ?k < length ?cs \<and> j = ?cs ! ?k then CLUSTER_UNUSED
        else if j = c then (if ?k < length ?cs then fat_at sb (?cs ! ?k) else CLUSTER_LAST_IN_CHAIN)
        else if 0 < ?k \<and> j = ?cs ! (?k - 1) then c else fat_at sb j)"
    and ent: "\<And>g. fst_at sb' g = (if g = f then (fst_at sb f)\<lparr>e_sub := if ?k = 0 then c else e_sub (fst_at sb f), e_size := z\<rparr>
        else fst_at sb g)"
    using link_cluster_result [OF wf f'(1) fc refl k c, of z] link by auto
  note lc = link_cluster_clusters [OF wf f'(1) fc refl k c link]
  have files: "file_at sb' g = file_at sb g" for g using f' by (auto simp: file_at_def ent IsFile_def)
  have area: "data_area c" using a c by (auto simp: alloc_def unused_mark_def)
  have cin: "\<not> unused_mark c" using c(1) by (auto simp: unused_mark_def in_fat_def FAT_SIZE_def cluster_marks)
  have free: "c \<notin> set (cl g)" if "file_at sb g" for g
    using alloc_file(3) [OF a that, of c] c(2) by (auto simp: unused_mark_def)
  have in_cs: "?k < length ?cs \<Longrightarrow> ?cs ! ?k \<in> set ?cs" "0 < ?k \<Longrightarrow> ?cs ! (?k - 1) \<in> set ?cs" using k by auto
  have other: "fat_at sb' j = fat_at sb j" if "j \<noteq> c" "j \<notin> set ?cs" for j
    using that in_cs by (auto simp: fat)
  have mark: "\<not> unused_mark (fat_at sb' j)" if j: "j \<in> set (put_at ?k c ?cs)" for j
  proof -
    have ne: "fat_at sb' j \<noteq> CLUSTER_UNUSED" using lc(1) j by (simp add: file_clusters_def)
    have "\<not> unused_mark CLUSTER_LAST_IN_CHAIN" by (simp add: unused_mark_def cluster_marks)
    then show ?thesis
      using ne j set_put_at [of ?k c ?cs] in_cs(1) alloc_file(3) [OF a f] cin
      by (auto simp: fat split: if_splits)
  qed
  have cl': "clusters sb' f (put_at ?k c ?cs)" using lc(1) by (simp add: file_clusters_def)
  have new: "data_area j" if "j \<in> set (put_at ?k c ?cs)" for j
    using that set_put_at [of ?k c ?cs] area alloc_file(2) [OF a f] by auto
  have keep: "clusters sb' g (cl g)" "j \<in> set (cl g) \<Longrightarrow> \<not> unused_mark (fat_at sb' j)" if g: "file_at sb g" "g \<noteq> f" for g j
  proof -
    have dis: "set (cl g) \<inter> set ?cs = {}" using alloc_disjoint [OF a g(1) f g(2)] by auto
    show "clusters sb' g (cl g)" using lc(2) [OF g(2) alloc_file_clusters [OF a g(1)] dis] by (simp add: file_clusters_def)
    assume j: "j \<in> set (cl g)"
    then have "fat_at sb' j = fat_at sb j" using dis free [OF g(1)] by (intro other) auto
    then show "\<not> unused_mark (fat_at sb' j)" using alloc_file(3) [OF a g(1) j] by simp
  qed
  have out: "\<not> unused_mark (fat_at sb' j)" if "in_fat j" "\<not> data_area j" for j
  proof -
    have "fat_at sb' j = fat_at sb j" using that(2) area alloc_file(2) [OF a f] by (intro other) auto
    then show ?thesis using that a by (simp add: alloc_def)
  qed
  have dis: "set (cl g) \<inter> set (put_at ?k c ?cs) = {}" if "file_at sb g" "g \<noteq> f" for g
    using set_put_at [of ?k c ?cs] free [OF that(1)] alloc_disjoint [OF a that(1) f that(2)] by auto
  have apart: "set (cl g) \<inter> set (cl h) = {}" if "file_at sb g" "file_at sb h" "g \<noteq> h" for g h
    using alloc_disjoint [OF a that] by auto
  show ?thesis
    unfolding alloc_def files
  proof (intro conjI allI impI ballI)
    fix g h assume g: "file_at sb g" "file_at sb h" "g \<noteq> h"
    show "set ((cl(f := put_at ?k c ?cs)) g) \<inter> set ((cl(f := put_at ?k c ?cs)) h) = {}"
      using g dis [of g] dis [of h] apart by (cases "g = f"; cases "h = f") auto
  next
    fix g assume g: "file_at sb g"
    show "clusters sb' g ((cl(f := put_at ?k c ?cs)) g)" using g keep(1) cl' by (cases "g = f") auto
    fix j assume j: "j \<in> set ((cl(f := put_at ?k c ?cs)) g)"
    show "data_area j" using j g new alloc_file(2) [OF a g] by (cases "g = f") auto
    show "\<not> unused_mark (fat_at sb' j)" using j g mark keep(2) by (cases "g = f") auto
  qed (use out in auto)
qed

lemma in_put_at:
  "k \<le> length xs \<Longrightarrow> y \<in> set (put_at k y xs)" "x \<in> set xs \<Longrightarrow> \<not> (k < length xs \<and> x = xs ! k) \<Longrightarrow> x \<in> set (put_at k y xs)"
proof -
  show "k \<le> length xs \<Longrightarrow> y \<in> set (put_at k y xs)" by (simp add: put_at_split)
  assume x: "x \<in> set xs" "\<not> (k < length xs \<and> x = xs ! k)"
  then obtain j where "j < length xs" "xs ! j = x" by (auto simp: in_set_conv_nth)
  then show "x \<in> set (put_at k y xs)"
    using x(2) nth_list_update_neq [of k j xs y] nth_mem [of j "xs[k := y]"] by (cases "j = k") (auto simp: put_at_def)
qed

lemma link_cluster_no_loss:
  assumes wf: "sb_wf sb" and a: "alloc sb cl" and f: "file_at sb f" and k: "unat i \<le> length (cl f)"
    and c: "in_fat c" "fat_at sb c = CLUSTER_UNUSED" and link: "link_cluster f i z c sb = Some sb'" and n: "no_loss sb cl"
  shows "no_loss sb' (cl(f := put_at (unat i) c (cl f)))"
  unfolding no_loss_def
proof (intro allI impI)
  let ?cs = "cl f" and ?k = "unat i"
  have f': "in_fst f" "IsFile (fst_at sb f)" using f by (simp_all add: file_at_def)
  obtain fat: "\<And>j. fat_at sb' j = (if ?k < length ?cs \<and> j = ?cs ! ?k then CLUSTER_UNUSED
        else if j = c then (if ?k < length ?cs then fat_at sb (?cs ! ?k) else CLUSTER_LAST_IN_CHAIN)
        else if 0 < ?k \<and> j = ?cs ! (?k - 1) then c else fat_at sb j)"
    and ent: "\<And>g. fst_at sb' g = (if g = f then (fst_at sb f)\<lparr>e_sub := if ?k = 0 then c else e_sub (fst_at sb f), e_size := z\<rparr>
        else fst_at sb g)"
    using link_cluster_result [OF wf f'(1) alloc_file_clusters [OF a f] refl k c, of z] link by auto
  have files: "file_at sb' g = file_at sb g" for g using f' by (auto simp: file_at_def ent IsFile_def)
  fix j assume j: "data_area j" "fat_at sb' j \<noteq> CLUSTER_UNUSED"
  have old: "\<not> (?k < length ?cs \<and> j = ?cs ! ?k)" using j(2) by (auto simp: fat)
  have "j = c \<or> (0 < ?k \<and> j = ?cs ! (?k - 1)) \<or> fat_at sb' j = fat_at sb j"
    unfolding fat if_not_P [OF old] by (cases "j = c"; cases "0 < ?k \<and> j = ?cs ! (?k - 1)") simp_all
  then consider "j = c" | "0 < ?k" "j = ?cs ! (?k - 1)" | "fat_at sb' j = fat_at sb j" by argo
  then have "j = c \<or> (\<exists>g. file_at sb g \<and> j \<in> set (cl g))"
  proof cases
    case 2
    then have "j \<in> set ?cs" using k by auto
    then show ?thesis using f by blast
  qed (use j n in \<open>auto simp: no_loss_def\<close>)
  then have "j \<in> set (put_at ?k c ?cs) \<or> (\<exists>g. file_at sb g \<and> g \<noteq> f \<and> j \<in> set (cl g))"
    using in_put_at(1) [OF k, of c] in_put_at(2) [of j ?cs ?k c] old by blast
  then show "\<exists>g. file_at sb' g \<and> j \<in> set ((cl(f := put_at ?k c ?cs)) g)"
    using f by (auto simp: files)
qed

text \<open>
  The three ways \<^verbatim>\<open>WriteFileData\<close> can end: nothing happened, the new cluster was written and
  linked, or it was written and the position in the chain did not exist.
\<close>

lemma WriteFileData_runs:
  assumes ok: "mbedtls_ok lib" and len: "length d = CLUSTER_DATA_SIZE" and sb: "m_superblock s = Some sb" "sb_wf sb"
    and a: "alloc sb cl" and w: "WriteFileData lib f d i z s = (r, s')"
  obtains (failed) "s' = s"
    | (linked) c sb' nand' where "s' = s\<lparr>m_nand := nand', m_superblock := Some sb'\<rparr>" "file_at sb f" "unat i \<le> length (cl f)"
      "in_fat c" "fat_at sb c = CLUSTER_UNUSED" "link_cluster f i z c sb = Some sb'"
      "\<And>c'. c' \<noteq> c \<Longrightarrow> ReadCluster lib (m_keys s) nand' c' = ReadCluster lib (m_keys s) (m_nand s) c'"
    | (unlinked) c nand' where "s' = s\<lparr>m_nand := nand'\<rparr>" "in_fat c" "fat_at sb c = CLUSTER_UNUSED"
      "\<And>c'. c' \<noteq> c \<Longrightarrow> ReadCluster lib (m_keys s) nand' c' = ReadCluster lib (m_keys s) (m_nand s) c'"
proof (cases "in_fst f \<and> IsFile (fst_at sb f) \<and> e_size (fst_at sb f) < z \<and> CLUSTER_UNUSED \<in> set (sb_fat sb)")
  case False
  then have "s' = s" using WriteFileData_errors [OF sb(1), where f = f and lib = lib and data = d and i = i and z = z] sb(2) w by (auto simp: not_le [symmetric])
  then show thesis by (rule failed)
next
  case go: True
  then have f: "file_at sb f" by (simp add: file_at_def)
  show thesis
  proof (cases "unat i \<le> length (cl f)")
    case True
    obtain c sb' nand' where "WriteFileData lib f d i z s = (Success, s\<lparr>m_nand := nand', m_superblock := Some sb'\<rparr>)"
      "in_fat c" "fat_at sb c = CLUSTER_UNUSED" "link_cluster f i z c sb = Some sb'"
      "\<forall>c'. c' \<noteq> c \<longrightarrow> ReadCluster lib (m_keys s) nand' c' = ReadCluster lib (m_keys s) (m_nand s) c'"
      using WriteFileData_steps [OF ok sb(1,2) _ alloc_file_clusters [OF a f] True len, of z] go by blast
    then show thesis using w True f by (intro linked [where nand' = nand' and sb' = sb' and c = c]) auto
  next
    case False
    define c where "c = (of_nat (find_if (\<lambda>c. c = CLUSTER_UNUSED) (sb_fat sb)) :: u16)"
    have n: "find_if (\<lambda>c. c = CLUSTER_UNUSED) (sb_fat sb) \<noteq> FAT_SIZE"
      using go find_if_end [of "\<lambda>c. c = CLUSTER_UNUSED" "sb_fat sb"] sb(2) by (auto simp: sb_wf_def)
    have c: "fat_at sb c = CLUSTER_UNUSED" "c < 0x8000" "in_fat c" unfolding c_def using free_cluster [OF sb(2) n] by simp_all
    have "GetClusterForFile sb (e_sub (fst_at sb f)) (unat i - 1) = None" "i \<noteq> 0"
      using False GetClusterForFile_chain [OF alloc_file(1) [OF a f, unfolded clusters_def], of "unat i - 1"] by auto
    then have l: "link_cluster f i z c sb = None" by (simp add: link_cluster_def Let_def)
    obtain nand' where "WriteCluster lib (m_keys s) (m_nand s) c d (GenerateHmacForData lib (m_keys s) sb d f i) = (Success, nand')"
      and rd: "\<forall>c'. c' \<noteq> c \<longrightarrow> ReadCluster lib (m_keys s) nand' c' = ReadCluster lib (m_keys s) (m_nand s) c'"
      using WriteCluster_Success [OF ok c(2) len length_GenerateHmacForData [OF ok], of "m_keys s" "m_nand s" "m_keys s" sb d f i]
      by blast
    then have "WriteFileData lib f d i z s = (Invalid, s\<lparr>m_nand := nand'\<rparr>)"
      using go n l leD by (auto simp: WriteFileData_def GetSuperblock_loaded [OF sb(1)] Let_def c_def [symmetric])
    then show thesis using unlinked [of nand' c] c(1,3) rd w by simp
  qed
qed

lemma free_not_superblock:
  "alloc sb cl \<Longrightarrow> in_fat c \<Longrightarrow> fat_at sb c = CLUSTER_UNUSED \<Longrightarrow> SUPERBLOCK_START_CLUSTER \<le> c' \<Longrightarrow> c' \<noteq> c"
  unfolding alloc_def data_area_def unused_mark_def by (metis leD)

lemma free_not_in_file: "alloc sb cl \<Longrightarrow> fat_at sb c = CLUSTER_UNUSED \<Longrightarrow> file_at sb g \<Longrightarrow> c \<notin> set (cl g)"
  using alloc_file(3) [of sb cl g c] by (auto simp: unused_mark_def)

lemma unlinked_written:
  assumes sb: "m_superblock s = Some sb" "sb_wf sb" "files_ok sb" and a: "alloc sb cl" and s': "s' = s\<lparr>m_nand := nand'\<rparr>"
    and c: "in_fat c" "fat_at sb c = CLUSTER_UNUSED"
    and rd: "\<And>c'. c' \<noteq> c \<Longrightarrow> ReadCluster lib (m_keys s) nand' c' = ReadCluster lib (m_keys s) (m_nand s) c'"
  shows "written lib {f} s s'"
proof -
  have "kept_data lib {f} s s'"
    unfolding kept_data_def
  proof (intro conjI allI impI)
    show "tight s'" if "tight s" using that s' by (simp add: tight_def)
    fix g j assume "has_file s' g"
    then have g: "file_at sb g" using sb(1) s' by (simp add: has_file_def)
    have "ReadCluster lib (m_keys s) nand' x = ReadCluster lib (m_keys s) (m_nand s) x" if "x \<in> set (cl g)" for x
      by (rule rd) (use that free_not_in_file [OF a c(2) g] in auto)
    then show "cluster_data lib g j s' = cluster_data lib g j s"
      using s' sb(1) alloc_file(1) [OF a g]
      by (intro cluster_data_cong [OF sb(1) _ _ g g, of s' "cl g"]) auto
  qed
  moreover have "versions_upto lib s'" if "versions_upto lib s"
  proof -
    have "versions_upto lib (s\<lparr>m_nand := nand', m_superblock := Some sb\<rparr>)"
      by (rule versions_upto_write [OF that sb(1,2) refl refl rd]) (rule free_not_superblock [OF a c])
    moreover have "s\<lparr>m_nand := nand', m_superblock := Some sb\<rparr> = s'" by (simp add: s' sb(1) [symmetric])
    ultimately show ?thesis by simp
  qed
  ultimately show ?thesis using sb s' by (simp add: written_def)
qed

lemma linked_written:
  assumes sb: "m_superblock s = Some sb" "sb_wf sb" and a: "alloc sb cl" and s': "s' = s\<lparr>m_nand := nand', m_superblock := Some sb'\<rparr>"
    and fa: "file_at sb f" and k: "unat i \<le> length (cl f)" and c: "in_fat c" "fat_at sb c = CLUSTER_UNUSED"
    and link: "link_cluster f i z c sb = Some sb'"
    and rd: "\<And>c'. c' \<noteq> c \<Longrightarrow> ReadCluster lib (m_keys s) nand' c' = ReadCluster lib (m_keys s) (m_nand s) c'"
  shows "written lib {f} s s'"
proof -
  have f: "in_fst f" "IsFile (fst_at sb f)" using fa by (simp_all add: file_at_def)
  have a': "alloc sb' (cl(f := put_at (unat i) c (cl f)))"
    by (rule link_cluster_alloc [OF sb(2) a fa k c link])
  obtain wf': "sb_wf sb'" "sb_version sb' = sb_version sb" "sb_magic sb' = sb_magic sb" and ent: "\<And>g. fst_at sb' g = (if g = f then (fst_at sb f)\<lparr>e_sub := if unat i = 0 then c
      else e_sub (fst_at sb f), e_size := z\<rparr> else fst_at sb g)"
    using link_cluster_result [OF sb(2) f(1) alloc_file_clusters [OF a fa] refl k c, of z] link by auto
  have files: "file_at sb' g = file_at sb g" for g using f by (auto simp: file_at_def ent IsFile_def)
  have "kept_data lib {f} s s'"
    unfolding kept_data_def
  proof (intro conjI allI impI)
    show "tight s'" if "tight s"
    proof -
      obtain cl' where t: "alloc sb cl'" "no_loss sb cl'" using \<open>tight s\<close> sb(1) by (auto simp: tight_def)
      have "cl' f = cl f" using alloc_unique [OF t(1) a fa] .
      then have k': "unat i \<le> length (cl' f)" using k by simp
      show ?thesis
        using link_cluster_alloc [OF sb(2) t(1) fa k' c link] link_cluster_no_loss [OF sb(2) t(1) fa k' c link t(2)] s'
        by (auto simp: tight_def)
    qed
    fix g j assume "g \<notin> {f}" "has_file s' g"
    then have g: "file_at sb g" "g \<noteq> f" using s' files by (simp_all add: has_file_def)
    have cs: "clusters sb' g (cl g)" using alloc_file(1) [OF a', of g] g files by simp
    have "ReadCluster lib (m_keys s) nand' x = ReadCluster lib (m_keys s) (m_nand s) x" if "x \<in> set (cl g)" for x
      by (rule rd) (use that free_not_in_file [OF a c(2) g(1)] in auto)
    then show "cluster_data lib g j s' = cluster_data lib g j s"
      using s' files g ent
      by (intro cluster_data_cong [OF sb(1) _ _ g(1) _ alloc_file(1) [OF a g(1)] cs]) auto
  qed
  moreover have "versions_upto lib s'" if "versions_upto lib s"
    unfolding s' by (rule versions_upto_write [OF that sb(1) wf' rd]) (rule free_not_superblock [OF a c])
  ultimately show ?thesis using sb(1) wf' files a' s' by (auto simp: files_ok_def written_def)
qed

lemma WriteFileData_written:
  assumes ok: "mbedtls_ok lib" and len: "length d = CLUSTER_DATA_SIZE"
  shows "written lib {f} s (snd (WriteFileData lib f d i z s))"
proof -
  obtain r s' where w: "WriteFileData lib f d i z s = (r, s')" by (cases "WriteFileData lib f d i z s")
  have "written lib {f} s s'" if sb: "m_superblock s = Some sb" "sb_wf sb" "files_ok sb" for sb
  proof -
    obtain cl where a: "alloc sb cl" using sb(3) by (auto simp: files_ok_def)
    show ?thesis
    proof (cases rule: WriteFileData_runs [OF ok len sb(1,2) a w, case_names failed linked unlinked])
      case failed
      then show ?thesis using sb by (simp add: written_def kept_data_refl)
    next
      case (linked c sb' nand')
      show ?thesis by (rule linked_written [OF sb(1,2) a linked])
    next
      case (unlinked c nand')
      show ?thesis by (rule unlinked_written [OF sb a unlinked])
    qed
  qed
  then show ?thesis unfolding written_def w by (metis snd_conv)
qed

end
