(* ===== verification/AbstractFs.thy ===== *)
theory AbstractFs
  imports Directory FsQuery Allocation
begin

text \<open>
  The file system a user sees: a finite map from paths to entries. Abstract versions of the
  operations of \<^verbatim>\<open>driver/fs.cpp\<close> on this map, and the relation between a state of the driver
  and the map it represents.
\<close>

section \<open>The abstract operations\<close>

text \<open>
  An abstract entry is an \<open>FstEntry\<close> without its links and its name, which is part of the
  path; \<open>e_sub\<close> holds its index, which identifies it. A path is the list of its components;
  the root directory is \<open>[]\<close>.
\<close>

type_synonym path = "string list"
type_synonym path_map = "path \<Rightarrow> FstEntry option"

definition meta :: "FstEntry \<Rightarrow> FstEntry" where
  "meta e = e\<lparr>e_name := [], e_sub := 0, e_sib := 0, e_x3 := 0\<rparr>"

definition new_entry :: "Handle \<Rightarrow> FileAttribute \<Rightarrow> FileMode \<Rightarrow> FileMode \<Rightarrow> FileMode \<Rightarrow> bool \<Rightarrow> FstEntry" where
  "new_entry handle attribute owner_mode group_mode other_mode is_file =
     SetAccessMode owner_mode group_mode other_mode
       \<lparr>e_name = [], e_mode = if is_file then 1 else 2, e_attr = attribute, e_sub = 0, e_sib = 0, e_size = 0,
        e_uid = h_uid handle, e_gid = h_gid handle, e_x3 = 0\<rparr>"

definition writable :: "Handle \<Rightarrow> FstEntry \<Rightarrow> bool" where
  "writable handle d \<longleftrightarrow> HasPermission d (h_uid handle) (h_gid handle) FileMode_Write"

definition abs_create :: "Handle \<Rightarrow> path \<Rightarrow> FstEntry \<Rightarrow> path_map \<Rightarrow> ResultCode \<times> path_map" where
  "abs_create handle p e F = (case F (butlast p) of
     None \<Rightarrow> (NotFound, F)
   | Some d \<Rightarrow>
       if \<not> writable handle d then (AccessDenied, F)
       else if F p \<noteq> None then (AlreadyExists, F)
       else (Success, F(p \<mapsto> e)))"

text \<open>\<open>below p q\<close>: the path \<open>q\<close> is \<open>p\<close> or leads through it.\<close>

definition below :: "path \<Rightarrow> path \<Rightarrow> bool" where
  "below p q \<longleftrightarrow> take (length p) q = p"

definition prune :: "path \<Rightarrow> (path \<Rightarrow> 'a option) \<Rightarrow> path \<Rightarrow> 'a option" where
  "prune p F = (\<lambda>q. if below p q then None else F q)"

text \<open>\<open>opn\<close> are the paths of the files that are open in a handle.\<close>

definition abs_delete :: "Handle \<Rightarrow> path set \<Rightarrow> path \<Rightarrow> path_map \<Rightarrow> ResultCode \<times> path_map" where
  "abs_delete handle opn p F = (case F (butlast p) of
     None \<Rightarrow> (NotFound, F)
   | Some d \<Rightarrow>
       if \<not> writable handle d then (AccessDenied, F)
       else if F p = None then (NotFound, F)
       else if \<exists>q\<in>opn. below p q then (InUse, F)
       else (Success, prune p F))"

text \<open>What was at and below \<open>p\<close> is now at and below \<open>p'\<close>.\<close>

definition moved :: "path \<Rightarrow> path \<Rightarrow> (path \<Rightarrow> 'a option) \<Rightarrow> path \<Rightarrow> 'a option" where
  "moved p p' F = (\<lambda>q. if below p' q then F (p @ drop (length p') q) else if below p q then None else F q)"

definition rename_at :: "path set \<Rightarrow> path \<Rightarrow> path \<Rightarrow> path_map \<Rightarrow> ResultCode \<times> path_map" where
  "rename_at opn p p' F = (case F p of
     None \<Rightarrow> (NotFound, F)
   | Some e \<Rightarrow>
       if IsFile e \<and> last p = last p' then (Invalid, F)
       else if \<exists>q\<in>opn. below p q then (InUse, F)
       else (case F p' of
         None \<Rightarrow> (Success, moved p p' F)
       | Some e' \<Rightarrow>
           if e_mode e' AND 3 \<noteq> e_mode e AND 3 \<or> p' = p then (Invalid, F)
           else if \<exists>q\<in>opn. below p' q then (InUse, F)
           else (Success, moved p p' F)))"

definition abs_rename :: "Handle \<Rightarrow> path set \<Rightarrow> path \<Rightarrow> path \<Rightarrow> path_map \<Rightarrow> ResultCode \<times> path_map" where
  "abs_rename handle opn p p' F = (case (F (butlast p), F (butlast p')) of
     (Some d, Some d') \<Rightarrow>
       if \<not> writable handle d \<or> \<not> writable handle d' then (AccessDenied, F) else rename_at opn p p' F
   | _ \<Rightarrow> (NotFound, F))"

text \<open>
  The owner and the attributes of an entry; only root may change the owner, and a file must
  be empty.
\<close>

definition set_meta :: "Uid \<Rightarrow> Gid \<Rightarrow> FileAttribute \<Rightarrow> FileMode \<Rightarrow> FileMode \<Rightarrow> FileMode \<Rightarrow> FstEntry \<Rightarrow> FstEntry" where
  "set_meta uid gid attribute owner_mode group_mode other_mode e =
     SetAccessMode owner_mode group_mode other_mode (e\<lparr>e_gid := gid, e_uid := uid, e_attr := attribute\<rparr>)"

definition abs_set_metadata :: "Handle \<Rightarrow> path \<Rightarrow> Uid \<Rightarrow> (FstEntry \<Rightarrow> FstEntry) \<Rightarrow> path_map \<Rightarrow> ResultCode \<times> path_map" where
  "abs_set_metadata handle p uid f F = (case F p of
     None \<Rightarrow> (NotFound, F)
   | Some e \<Rightarrow>
       if h_uid handle \<noteq> 0 \<and> (h_uid handle \<noteq> e_uid e \<or> e_uid e \<noteq> uid) then (AccessDenied, F)
       else if IsFile e \<and> e_size e \<noteq> 0 then (FileNotEmpty, F)
       else (Success, F(p \<mapsto> f e)))"

section \<open>The map a state represents\<close>

abbreviation inode :: "Superblock \<Rightarrow> u16 \<Rightarrow> FstEntry" where
  "inode sb k \<equiv> (meta (fst_at sb k))\<lparr>e_sub := k\<rparr>"

definition view :: "Superblock \<Rightarrow> fst_tree list \<Rightarrow> path_map" where
  "view sb T = (\<lambda>ns. map_option (\<lambda>k. inode sb k) (entries sb T ns))"

text \<open>
  The paths of the files that are open in a handle. An open handle that refers to an entry
  refers to a file in the tree: this is what the in-use checks of the driver are for.
\<close>

definition open_paths :: "FileSystemImpl \<Rightarrow> Superblock \<Rightarrow> fst_tree list \<Rightarrow> path set" where
  "open_paths s sb T = {q. \<exists>k. entries sb T q = Some k \<and> IsFileOpened s k}"

definition live :: "FileSystemImpl \<Rightarrow> Superblock \<Rightarrow> fst_tree list \<Rightarrow> bool" where
  "live s sb T \<longleftrightarrow> (\<forall>k. in_fst k \<and> IsFileOpened s k \<longrightarrow> IsFile (fst_at sb k) \<and> (\<exists>q. entries sb T q = Some k))"

text \<open>Sibling and child links that do not lead on have the value \<^verbatim>\<open>0xffff\<close>.\<close>

definition link_ok :: "u16 \<Rightarrow> bool" where
  "link_ok i \<longleftrightarrow> in_fst i \<or> i = 0xffff"

definition links_ok :: "Superblock \<Rightarrow> bool" where
  "links_ok sb \<longleftrightarrow> (\<forall>g. in_fst g \<longrightarrow> link_ok (e_sib (fst_at sb g)) \<and>
     (IsDirectory (fst_at sb g) \<longrightarrow> link_ok (e_sub (fst_at sb g))))"

text \<open>
  \<open>represents s F opn\<close>: the superblock in memory is loaded and is a tree that stands for the
  map \<open>F\<close>, in which the files at the paths \<open>opn\<close> are open.
\<close>

definition represents :: "FileSystemImpl \<Rightarrow> path_map \<Rightarrow> path set \<Rightarrow> bool" where
  "represents s F opn \<longleftrightarrow> (\<exists>sb T. m_superblock s = Some sb \<and> tree_inv sb T \<and> links_ok sb \<and> live s sb T \<and>
     F = view sb T \<and> opn = open_paths s sb T)"

lemma forest_unique: "forest sb i ts \<Longrightarrow> forest sb i us \<Longrightarrow> ts = us"
proof (induction sb i ts arbitrary: us rule: forest.induct)
  case (1 sb i)
  then show ?case by (cases us; cases "hd us") auto
next
  case (2 sb i j ts rs)
  then show ?case by (cases us; cases "hd us"; cases "IsFile (fst_at sb j)") auto
qed

lemma represents_unique:
  assumes "represents s F opn" "represents s F' opn'"
  shows "F' = F" "opn' = opn"
proof -
  obtain sb T where sb: "m_superblock s = Some sb" "tree_inv sb T" "F = view sb T" "opn = open_paths s sb T"
    using assms(1) by (auto simp: represents_def)
  then obtain T' where T': "tree_inv sb T'" "F' = view sb T'" "opn' = open_paths s sb T'"
    using assms(2) by (auto simp: represents_def)
  have "T' = T" by (rule forest_unique [of sb 0]) (use sb(2) T'(1) in \<open>simp_all add: tree_inv_def\<close>)
  then show "F' = F" "opn' = opn" using sb T' by simp_all
qed

lemma represents_file:
  assumes "represents s F opn" "F p = Some e" "IsFile e"
  shows "has_file s (e_sub e)"
proof -
  obtain sb T where sb: "m_superblock s = Some sb" "tree_inv sb T" "F = view sb T" using assms(1) by (auto simp: represents_def)
  then obtain k where k: "entries sb T p = Some k" "e = inode sb k" using assms(2) by (auto simp: view_def)
  then have "in_fst k" using tree_inv_node [OF sb(2) entries_node [OF sb(2) k(1)]] by simp
  moreover have "IsFile (fst_at sb k)" using assms(3) by (simp add: k(2) IsFile_def meta_def)
  ultimately show ?thesis using sb(1) by (simp add: has_file_def file_at_def k(2))
qed

text \<open>
  No proper prefix of the path names a file: the driver does not check this, it takes the
  first cluster number of such a file for the index of a child.
\<close>

definition through_dirs :: "path_map \<Rightarrow> path \<Rightarrow> bool" where
  "through_dirs F p \<longleftrightarrow> (\<forall>i<length p. \<forall>e. F (take i p) = Some e \<longrightarrow> IsDirectory e)"

lemma meta_simps [simp]:
  "e_mode (meta e) = e_mode e" "e_uid (meta e) = e_uid e" "e_gid (meta e) = e_gid e" "e_size (meta e) = e_size e"
  "e_attr (meta e) = e_attr e"
  "IsFile (meta e) = IsFile e" "IsDirectory (meta e) = IsDirectory e" "writable h (meta e) = writable h e"
  "HasPermission (meta e) u g m = HasPermission e u g m"
  "meta (e\<lparr>e_sub := x\<rparr>) = meta e" "meta (e\<lparr>e_sib := x\<rparr>) = meta e" "meta (SetName n e) = meta e"
  "writable h (e\<lparr>e_sub := x\<rparr>) = writable h e" "HasPermission (e\<lparr>e_sub := x\<rparr>) u g m = HasPermission e u g m"
  by (simp_all add: meta_def IsFile_def IsDirectory_def HasPermission_def GetOwnerMode_def GetGroupMode_def
      GetOtherMode_def SetName_def writable_def)

lemma meta_init_child: "meta (init_child h n a om gm tm f e) = new_entry h a om gm tm f"
  by (cases e) (simp add: meta_def init_child_def new_entry_def SetName_def SetAccessMode_def Let_def)

lemma below_iff: "below p q \<longleftrightarrow> (\<exists>r. q = p @ r)"
  unfolding below_def by (metis append_eq_conv_conj append_take_drop_id)

lemma below_append [simp]: "below p (p @ r)" "below p p"
  by (simp_all add: below_def)

section \<open>Lookup\<close>

lemma view_Some: "view sb T ns = Some e \<longleftrightarrow> (\<exists>k. entries sb T ns = Some k \<and> e = inode sb k)"
  by (auto simp: view_def)

lemma view_None: "view sb T ns = None \<longleftrightarrow> entries sb T ns = None"
  by (simp add: view_def)

lemma through_dirs_prefix: "through_dirs F (p @ q) \<Longrightarrow> through_dirs F p"
  unfolding through_dirs_def by (metis length_append take_append trans_less_add1 diff_is_0_eq less_imp_le_nat take_0 append_Nil2)

lemma walk_view:
  assumes inv: "tree_inv sb T" and dirs: "through_dirs (view sb T) ns"
  shows "walk_path sb 0 ns = Some (case entries sb T ns of None \<Rightarrow> Inl Invalid | Some k \<Rightarrow> Inr k)"
proof (cases "entries sb T ns")
  case None
  have f: "sb_wf sb" "forest sb 0 T" using inv by (simp_all add: tree_inv_def)
  have "walk_path sb 0 ns = Some (Inl Invalid)"
  proof (rule walk_resolve_None [OF f])
    show "resolve sb T 0 ns = None" using None by (simp add: entries_def)
    show "0 \<in> set (nodes T)" by (rule tree_inv_root [OF inv])
    fix ms m ls g assume g: "ns = ms @ m # ls" "resolve sb T 0 ms = Some g"
    then have "view sb T (take (length ms) ns) = Some (inode sb g)" by (simp add: view_def entries_def)
    moreover have "length ms < length ns" using g(1) by simp
    ultimately have "IsDirectory (inode sb g)" using dirs unfolding through_dirs_def by blast
    then show "IsDirectory (fst_at sb g)" by simp
  qed
  then show ?thesis using None by simp
next
  case (Some k)
  then have "walk_path sb 0 ns = Some (Inr k)" using walk_resolve [of sb 0 T] inv by (simp add: tree_inv_def entries_def)
  then show ?thesis using Some by simp
qed

lemma lookup_path:
  "tree_inv sb T \<Longrightarrow> through_dirs (view sb T) (components path) \<Longrightarrow>
   GetFstIndex sb path = Some (case entries sb T (components path) of None \<Rightarrow> Inl Invalid | Some k \<Rightarrow> Inr k)"
  unfolding GetFstIndex_components by (rule walk_view)

lemma lookup_child:
  assumes inv: "tree_inv sb T" and p: "entries sb T ps = Some p" "IsDirectory (fst_at sb p)"
  shows "GetFstIndex_child sb p n = Some (case entries sb T (ps @ [n]) of None \<Rightarrow> Inl Invalid | Some k \<Rightarrow> Inr k)"
proof -
  have pn: "p \<in> set (nodes T)" by (rule entries_node [OF inv p(1)])
  then obtain us where us: "kids p T = Some us" using kids_None by (metis option.exhaust)
  then have kr: "kid_roots p T = Some (map root us)" by (simp add: kid_roots_def)
  have f: "sb_wf sb" "forest sb 0 T" using inv by (simp_all add: tree_inv_def)
  have v: "in_fst p" using tree_inv_node [OF inv pn] by simp
  have roots: "(\<lambda>t. case t of Entry k _ \<Rightarrow> k) = root" by (rule ext) (simp split: fst_tree.split)
  have ch: "children sb p (map root us)"
    using forest_children [OF kids_forest [OF f(2) us p(2)]] by (simp add: children_def roots)
  note sn = entries_snoc [OF p(1) kr, of n]
  show ?thesis
  proof (cases "length n \<le> 12")
    case True
    then show ?thesis using GetFstIndex_child_find [OF v ch True] sn by (simp add: named_def [abs_def])
  next
    case False
    have "find (named sb n) (map root us) = None"
    proof (rule ccontr)
      assume "find (named sb n) (map root us) \<noteq> None"
      then obtain k where k: "find (named sb n) (map root us) = Some k" by auto
      have "in_fst k" using tree_inv_node [OF inv kid_roots_node [OF kr find_named(1) [OF k]]] by simp
      then show False using GetName_length [OF entry_wf_fst_at [OF f(1)]] find_named(2) [OF k] False by auto
    qed
    then show ?thesis using False sn by (simp add: GetFstIndex_child_long)
  qed
qed

text \<open>What the checks at the head of an operation on \<open>path\<close> find.\<close>

lemma through_dirs_parent:
  assumes "through_dirs (view sb T) (ps @ [n])" "entries sb T ps = Some p"
  shows "IsDirectory (fst_at sb p)"
proof -
  have "view sb T (take (length ps) (ps @ [n])) = Some (inode sb p)" using assms(2) by (simp add: view_def)
  then have "IsDirectory (inode sb p)" using assms(1) unfolding through_dirs_def
    by (metis length_append_singleton lessI)
  then show ?thesis by simp
qed

section \<open>Open files and flushes\<close>

text \<open>A change of the tree that keeps the entries of the open files.\<close>

lemma open_cong:
  assumes lv: "live s sb T" and inv: "tree_inv sb T" "tree_inv sb' T'"
    and same: "\<And>k q. IsFileOpened s k \<Longrightarrow> entries sb T q = Some k \<Longrightarrow>
      entries sb' T' q = Some k \<and> IsFile (fst_at sb' k) = IsFile (fst_at sb k)"
  shows "live s sb' T'" "open_paths s sb' T' = open_paths s sb T"
proof -
  show "live s sb' T'" using lv same unfolding live_def by metis
  have "entries sb T q = Some k" if k: "entries sb' T' q = Some k" "IsFileOpened s k" for q k
  proof -
    have "in_fst k" using tree_inv_node [OF inv(2) entries_node [OF inv(2) k(1)]] by simp
    then obtain q' where q': "entries sb T q' = Some k" using lv k(2) by (auto simp: live_def)
    then have "entries sb' T' q' = Some k" using same k(2) by blast
    then show ?thesis using entries_inj [OF inv(2)] k(1) q' by metis
  qed
  then show "open_paths s sb' T' = open_paths s sb T" using same unfolding open_paths_def by blast
qed

text \<open>\<open>apart s\<close>: no two files of the loaded superblock share a cluster.\<close>

definition apart :: "FileSystemImpl \<Rightarrow> bool" where
  "apart s \<longleftrightarrow> (\<exists>sb. m_superblock s = Some sb \<and> files_ok sb)"

text \<open>
  What an operation that returns \<open>r\<close> leaves: the state represents the new map, the handles and
  the cached bytes are the same, and if the driver had found the newest superblock on the image before, a success
  means that a driver started on the new image finds the new map, with no file open. Files
  that do not share clusters keep their data, those with an index in \<open>X\<close> excepted, for the
  running and for a restarted driver. No cluster gets allocated, and a call that fails changes
  nothing.
\<close>

definition outcome :: "('k, 'c) mbedtls \<Rightarrow> FileSystemImpl \<Rightarrow> path set \<Rightarrow> u16 set \<Rightarrow> ResultCode \<Rightarrow> path_map \<Rightarrow> FileSystemImpl \<Rightarrow> bool" where
  "outcome lib s opn X r F s' \<longleftrightarrow> represents s' F opn \<and> m_handles s' = m_handles s \<and>
     m_internal_handle s' = m_internal_handle s \<and> m_cache_handle s' = m_cache_handle s \<and> m_cache_data s' = m_cache_data s \<and>
     m_keys s' = m_keys s \<and>
     (apart s \<longrightarrow> apart s' \<and> kept_data lib X s s' \<and> free_space s \<le> free_space s') \<and> (r \<noteq> Success \<longrightarrow> s' = s) \<and>
     (versions_upto lib s \<longrightarrow> versions_upto lib s' \<and>
       (r = Success \<longrightarrow> (let t = Create lib (m_nand s') (m_keys s') in
         represents t F {} \<and> (apart s \<longrightarrow> apart t \<and> kept_data lib X s t))))"

lemma outcome_same: "represents s F opn \<Longrightarrow> r \<noteq> Success \<Longrightarrow> outcome lib s opn X r F s"
  by (simp add: outcome_def kept_data_refl)

lemma kept_data_mono: "kept_data lib X s s' \<Longrightarrow> X \<subseteq> Y \<Longrightarrow> kept_data lib Y s s'"
  by (auto simp: kept_data_def)

lemma outcome_mono:
  assumes "outcome lib s opn X r F s'" "X \<subseteq> Y"
  shows "outcome lib s opn Y r F s'"
  using assms(1) kept_data_mono [OF _ assms(2), of lib s] by (auto simp: outcome_def Let_def)

definition keeps :: "u16 set \<Rightarrow> Superblock \<Rightarrow> Superblock \<Rightarrow> bool" where
  "keeps X sb sb' \<longleftrightarrow> (links_ok sb \<longrightarrow> links_ok sb') \<and> sb_magic sb' = sb_magic sb \<and> sb_version sb' = sb_version sb \<and>
     refiles X sb sb'"

lemma keeps_refl: "keeps X sb sb"
  by (simp add: keeps_def refiles_refl)

lemma keeps_trans:
  "keeps X sb sb1 \<Longrightarrow> keeps X sb1 sb2 \<Longrightarrow> (\<And>f. file_at sb2 f \<Longrightarrow> file_at sb1 f) \<Longrightarrow> keeps X sb sb2"
  using refiles_trans [of X sb sb1 sb2] by (simp add: keeps_def)

lemma represents_fst:
  assumes inv: "tree_inv sb T" and lk: "links_ok sb" and same: "sb_fst sb' = sb_fst sb" "sb_wf sb'"
    and s: "m_superblock s' = Some sb'" and lv: "live s' sb T"
  shows "represents s' (view sb T) (open_paths s' sb T)"
proof -
  have e: "entries sb' T = entries sb T" by (rule entries_fst [OF same(1)])
  have f: "fst_at sb' k = fst_at sb k" for k using same(1) by (simp add: fst_at_def)
  have "view sb' T = view sb T" by (simp add: view_def e f)
  moreover have "open_paths s' sb' T = open_paths s' sb T" by (simp add: open_paths_def e)
  moreover have "links_ok sb'" using lk by (simp add: links_ok_def f)
  moreover have "live s' sb' T" using lv by (simp add: live_def e f)
  moreover have "tree_inv sb' T" by (rule tree_inv_fst [OF same inv])
  ultimately show ?thesis unfolding represents_def using s by metis
qed

text \<open>Constructing a driver on an image with a newest superblock only rewrites free entries of the FAT.\<close>

lemma newest_Create:
  assumes "newest lib s" "m_superblock s = Some sb" "unused = (\<lambda>c. if c = 0xffff then CLUSTER_UNUSED else c)"
  shows "Create lib (m_nand s) (m_keys s) = (initial_fs (m_nand s) (m_keys s))
    \<lparr>m_superblock := Some (sb\<lparr>sb_fat := map unused (sb_fat sb)\<rparr>), m_superblock_index := m_superblock_index s\<rparr>"
proof -
  let ?u = "initial_fs (m_nand s) (m_keys s)"
  have "GetSuperblock lib ?u = (Some sb, ?u\<lparr>m_superblock := Some sb, m_superblock_index := m_superblock_index s\<rparr>)"
    using GetSuperblock_newest [OF assms(1), of ?u] assms(2) by (simp add: initial_fs_def)
  then show ?thesis by (simp add: Create_def assms(3))
qed

lemma refiles_unused:
  assumes "sb_wf sb"
  shows "refiles X sb (sb\<lparr>sb_fat := map (\<lambda>c. if c = 0xffff then CLUSTER_UNUSED else c) (sb_fat sb)\<rparr>)" (is "refiles X sb ?sb")
proof (rule refilesI)
  have e: "fst_at ?sb f = fst_at sb f" for f by (simp add: fst_at_def)
  show "same_data X f (fst_at sb f) (fst_at ?sb f)" for f by (simp add: e)
  show "e_size (fst_at ?sb f) = 0 \<and> \<not> in_fat (e_sub (fst_at ?sb f))" if "file_at ?sb f" "\<not> file_at sb f" for f
    using that by (simp add: file_at_def e)
  fix cl c assume a: "alloc sb cl" and v: "in_fat c" and d: "fat_at ?sb c \<noteq> fat_at sb c"
  have "unused_mark (fat_at sb c)" "fat_at ?sb c = CLUSTER_UNUSED"
    using d v assms by (auto simp: fat_at_def in_fat_def sb_wf_def unused_mark_def split: if_splits)
  then show "data_area c \<and> fat_at ?sb c = CLUSTER_UNUSED \<and> (\<forall>f. file_at sb f \<longrightarrow> file_at ?sb f \<longrightarrow> c \<notin> set (cl f))"
    using a v unfolding alloc_def by blast
qed (simp add: file_at_def fst_at_def)

lemma newest_restart:
  assumes new: "newest lib s" and sb: "m_superblock s = Some sb'" "sb_fst sb' = sb_fst sb" "sb_wf sb'"
    and inv: "tree_inv sb T" and lk: "links_ok sb"
  shows "represents (Create lib (m_nand s) (m_keys s)) (view sb T) {}"
proof -
  let ?c = "Create lib (m_nand s) (m_keys s)"
  note c = newest_Create [OF new sb(1) refl]
  have o: "\<not> IsFileOpened ?c k" for k
    by (simp add: c IsFileOpened_def initial_fs_def new_Handle_def list_ex_iff)
  have "represents ?c (view sb T) (open_paths ?c sb T)"
  proof (rule represents_fst [OF inv lk])
    show "sb_wf (sb'\<lparr>sb_fat := map (\<lambda>c. if c = 0xffff then CLUSTER_UNUSED else c) (sb_fat sb')\<rparr>)"
      using sb(3) by (simp add: sb_wf_def)
  qed (use sb(2) o in \<open>simp_all add: c live_def\<close>)
  moreover have "open_paths ?c sb T = {}" using o by (simp add: open_paths_def)
  ultimately show ?thesis by simp
qed

lemma flushed_represents:
  assumes ok: "mbedtls_ok lib" and sb: "m_superblock s = Some sb"
    and inv: "tree_inv sb T" and lk: "links_ok sb" and lv: "live s sb T"
  shows "FlushSuperblock lib s = Some (Success, flushed lib s)"
    "represents (flushed lib s) (view sb T) (open_paths s sb T)"
    "versions_upto lib s \<Longrightarrow> versions_upto lib (flushed lib s) \<and>
      represents (Create lib (m_nand (flushed lib s)) (m_keys (flushed lib s))) (view sb T) {}"
proof -
  have wf: "sb_wf sb" using inv by (simp add: tree_inv_def)
  show "FlushSuperblock lib s = Some (Success, flushed lib s)" by (rule FlushSuperblock_eq [OF ok sb wf])
  obtain v where v: "m_superblock (flushed lib s) = Some (sb\<lparr>sb_version := v\<rparr>)"
    using flushed_superblock [OF sb] by blast
  have o: "IsFileOpened (flushed lib s) = IsFileOpened s" by (simp add: IsFileOpened_def fun_eq_iff)
  have lv': "live (flushed lib s) sb T" using lv by (simp add: live_def o)
  have "open_paths (flushed lib s) sb T = open_paths s sb T" by (simp add: open_paths_def o)
  then show "represents (flushed lib s) (view sb T) (open_paths s sb T)"
    using represents_fst [OF inv lk _ _ v lv'] wf by simp
  assume up: "versions_upto lib s"
  have "newest lib (flushed lib s)" by (rule flushed_newest [OF ok sb up])
  then have "represents (Create lib (m_nand (flushed lib s)) (m_keys (flushed lib s))) (view sb T) {}"
    by (rule newest_restart [OF _ v _ _ inv lk]) (simp_all add: wf)
  then show "versions_upto lib (flushed lib s) \<and>
      represents (Create lib (m_nand (flushed lib s)) (m_keys (flushed lib s))) (view sb T) {}"
    using flushed_versions_upto [OF ok up] by blast
qed

lemma flushed_keeps_data:
  assumes ok: "mbedtls_ok lib" and sb0: "m_superblock s = Some sb0" "files_ok sb0"
    and sb: "refiles X sb0 sb" "sb_wf sb" and t: "t = flushed lib (s\<lparr>m_superblock := Some sb\<rparr>)"
  shows "apart t" "kept_data lib X s t \<and> free_space s \<le> free_space t"
    "versions_upto lib (s\<lparr>m_superblock := Some sb\<rparr>) \<Longrightarrow>
      apart (Create lib (m_nand t) (m_keys t)) \<and> kept_data lib X s (Create lib (m_nand t) (m_keys t))"
proof -
  let ?s = "s\<lparr>m_superblock := Some sb\<rparr>" and ?c = "Create lib (m_nand t) (m_keys t)"
  have s: "m_superblock ?s = Some sb" by simp
  obtain v where v: "m_superblock t = Some (sb\<lparr>sb_version := v\<rparr>)" using flushed_superblock [OF s] t by blast
  have at: "fat_at (sb\<lparr>sb_version := v\<rparr>) = fat_at sb" "fst_at (sb\<lparr>sb_version := v\<rparr>) = fst_at sb"
    by (simp_all add: fat_at_def fst_at_def fun_eq_iff)
  have "refiles X sb0 (sb\<lparr>sb_version := v\<rparr>)"
    by (rule refiles_trans [OF sb(1) refiles_fst]) (simp_all add: at file_at_def)
  note r = this
  have keys: "m_keys t = m_keys s" by (simp add: t)
  have rd: "ReadCluster lib (m_keys s) (m_nand t) c = ReadCluster lib (m_keys s) (m_nand s) c" if "data_area c" for c
    using flushed_keeps_clusters [OF ok s sb(2) that, of "m_keys s"] t by simp
  show "apart t" using refiles_files_ok [OF r sb0(2)] v by (simp add: apart_def)
  have "kept_data lib X s t" by (rule refiles_data [OF sb0(1) v keys r sb0(2) rd])
  then show "kept_data lib X s t \<and> free_space s \<le> free_space t"
    using refiles_free [OF r sb0(2)] sb0(1) v by (simp add: free_space_def)
  assume "versions_upto lib ?s"
  then have "newest lib t" unfolding t by (rule flushed_newest [OF ok s])
  note c = newest_Create [OF this v refl]
  define sb' where "sb' = (sb\<lparr>sb_version := v\<rparr>)
    \<lparr>sb_fat := map (\<lambda>c. if c = 0xffff then CLUSTER_UNUSED else c) (sb_fat (sb\<lparr>sb_version := v\<rparr>))\<rparr>"
  have c': "m_superblock ?c = Some sb'" "m_keys ?c = m_keys s" "m_nand ?c = m_nand t"
    unfolding c sb'_def by (simp_all add: initial_fs_def keys)
  have files: "file_at sb' f = file_at (sb\<lparr>sb_version := v\<rparr>) f" for f by (simp add: file_at_def fst_at_def sb'_def)
  have "refiles X (sb\<lparr>sb_version := v\<rparr>) sb'" unfolding sb'_def by (rule refiles_unused) (simp add: sb(2) sb_wf_version_upd)
  then have r': "refiles X sb0 sb'" using files by (intro refiles_trans [OF r]) simp_all
  have "apart ?c" using refiles_files_ok [OF r' sb0(2)] c'(1) by (simp add: apart_def)
  moreover have "kept_data lib X s ?c" by (rule refiles_data [OF sb0(1) c'(1,2) r' sb0(2)]) (simp add: c'(3) rd)
  ultimately show "apart ?c \<and> kept_data lib X s ?c" by blast
qed

lemma represents_flush:
  assumes ok: "mbedtls_ok lib" and sb0: "m_superblock s = Some sb0" "links_ok sb0" "keeps X sb0 sb"
    and inv: "tree_inv sb T" and lv: "live s sb T"
  shows "\<exists>s'. FlushSuperblock lib (s\<lparr>m_superblock := Some sb\<rparr>) = Some (Success, s') \<and>
    outcome lib s (open_paths s sb T) X Success (view sb T) s'"
proof -
  let ?s = "s\<lparr>m_superblock := Some sb\<rparr>"
  have o: "IsFileOpened ?s = IsFileOpened s" by (simp add: IsFileOpened_def fun_eq_iff)
  have lk: "links_ok sb" and lv': "live ?s sb T" using sb0 lv by (simp_all add: keeps_def live_def o)
  have op: "open_paths ?s sb T = open_paths s sb T" by (simp add: open_paths_def o)
  have "m_superblock ?s = Some sb" by simp
  note f = flushed_represents [OF ok this inv lk lv']
  have up: "versions_upto lib ?s" if "versions_upto lib s"
    using that sb0(1,3) inv by (simp add: versions_upto_def keeps_def tree_inv_def)
  have "refiles X sb0 sb" "sb_wf sb" using sb0(3) inv by (simp_all add: keeps_def tree_inv_def)
  note k = flushed_keeps_data [OF ok sb0(1) _ this refl]
  have "files_ok sb0" if "apart s" using that sb0(1) by (simp add: apart_def)
  then show ?thesis using f up k unfolding op outcome_def Let_def by (intro exI [of _ "flushed lib ?s"]) auto
qed

end
