(* ===== verification/Creation.thy ===== *)
theory Creation
  imports AbstractFs
begin

text \<open>
  \<^verbatim>\<open>CreateFile\<close> and \<^verbatim>\<open>CreateDirectory\<close> implement \<open>abs_create\<close>.
\<close>

definition has_room :: "FileSystemImpl \<Rightarrow> bool" where
  "has_room s \<longleftrightarrow> (\<exists>sb i. m_superblock s = Some sb \<and> in_fst i \<and> e_mode (fst_at sb i) AND 3 = 0)"

definition if_room :: "FileSystemImpl \<Rightarrow> path_map \<Rightarrow> ResultCode \<times> path_map \<Rightarrow> ResultCode \<times> path_map" where
  "if_room s F r = (if fst r = Success \<and> \<not> has_room s then (FstFull, F) else r)"

text \<open>The index that a new entry gets.\<close>

definition free_index :: "FileSystemImpl \<Rightarrow> u16" where
  "free_index s = (case m_superblock s of None \<Rightarrow> 0 | Some sb \<Rightarrow> (case GetUnusedFstIndex sb of Inl _ \<Rightarrow> 0 | Inr c \<Rightarrow> c))"

lemma refiles_add_child:
  assumes wf: "sb_wf sb" and v: "in_fst p" "in_fst c" "p \<noteq> c" and t: "IsDirectory (fst_at sb p)" "\<not> IsFile (fst_at sb c)"
    and sb': "sb' = add_child h n a om gm tm f p c sb"
  shows "refiles X sb sb'"
proof (rule refiles_fst)
  note at = add_child_at [OF wf v sb']
  have pf: "\<not> IsFile (fst_at sb p)" using t(1) by (simp add: IsFile_def IsDirectory_def)
  show "fat_at sb' c = fat_at sb c" for c by (simp add: fat_at_def at(2))
  show "x \<notin> set (cl g)" if "alloc sb cl" "file_at sb g" "\<not> file_at sb' g" for cl g x
    using that(2,3) t pf by (cases "g = c"; cases "g = p") (auto simp: file_at_def at(5))
  fix g assume g: "file_at sb' g"
  show "if file_at sb g then same_data X g (fst_at sb g) (fst_at sb' g)
      else e_size (fst_at sb' g) = 0 \<and> \<not> in_fat (e_sub (fst_at sb' g))"
    using g t pf init_child_type(1) [of h n a om gm tm f "fst_at sb c"] by (cases "g = c"; cases "g = p") (auto simp: file_at_def at(5))
qed

lemma view_create:
  assumes inv: "tree_inv sb T" and p: "entries sb T ps = Some p" "IsDirectory (fst_at sb p)"
    and c: "in_fst c" "c \<notin> set (nodes T)" and n: "good_name n" "entries sb T (ps @ [n]) = None"
    and sb': "sb' = add_child h n a om gm tm f p c sb" and unused: "\<not> IsFile (fst_at sb c)"
  shows "\<exists>T'. tree_inv sb' T' \<and> view sb' T' = (view sb T)(ps @ [n] \<mapsto> (new_entry h a om gm tm f)\<lparr>e_sub := c\<rparr>) \<and>
    keeps X sb sb' \<and> (live s sb T \<longrightarrow> live s sb' T' \<and> open_paths s sb' T' = open_paths s sb T)"
proof -
  obtain T' where T': "tree_inv sb' T'" "entries sb' T' = (entries sb T)(ps @ [n] \<mapsto> c)"
    using create_entries [OF assms(1-8)] by blast
  have pn: "p \<in> set (nodes T)" by (rule entries_node [OF inv p(1)])
  then have v: "in_fst p" "p \<noteq> c" using tree_inv_node [OF inv] c by auto
  have wf: "sb_wf sb" using inv by (simp add: tree_inv_def)
  note at = add_child_at [OF wf v(1) c(1) v(2) sb']
  have new: "meta (fst_at sb' c) = new_entry h a om gm tm f" by (simp add: at(5) meta_init_child)
  have old: "meta (fst_at sb' k) = meta (fst_at sb k)" if "k \<in> set (nodes T)" for k
    using that c(2) by (auto simp: at(5))
  have "view sb' T' ns = ((view sb T)(ps @ [n] \<mapsto> (new_entry h a om gm tm f)\<lparr>e_sub := c\<rparr>)) ns" for ns
    using new old [OF entries_node [OF inv]] by (cases "entries sb T ns") (auto simp: view_def T'(2))
  moreover have "live s sb' T' \<and> open_paths s sb' T' = open_paths s sb T" if lv: "live s sb T"
  proof -
    have "entries sb' T' q = Some k \<and> IsFile (fst_at sb' k) = IsFile (fst_at sb k)" if "entries sb T q = Some k" for q k
      using that old [OF entries_node [OF inv that]] n(2) meta_simps(6) by (metis T'(2) fun_upd_other option.distinct(1))
    then show ?thesis using open_cong [OF lv inv T'(1)] by blast
  qed
  moreover have "links_ok sb'" if "links_ok sb"
    using that p(2) c(1) v(1) unfolding links_ok_def by (auto simp: at(5) init_child_type link_ok_def)
  then have "keeps X sb sb'"
    using refiles_add_child [OF wf v(1) c(1) v(2) p(2) unused sb'] by (simp add: keeps_def at(3,4))
  ultimately show ?thesis using T'(1) by blast
qed

lemma CreateFileOrDirectory_refines:
  fixes h :: HandleRef and attr :: FileAttribute and om gm tm :: FileMode
  assumes ok: "mbedtls_ok lib" and rep: "represents s F opn"
    and path: "IsValidNonRootPath path" "\<not> list_ex bad_char path" "is_file \<or> count_list path (CHR ''/'') \<le> 8"
    and dirs: "through_dirs F (components path)" and name: "good_name (file_name (SplitPath path))"
  defines "out \<equiv> abs_create (handle_at s h) (components path)
    ((new_entry (handle_at s h) attr om gm tm is_file)\<lparr>e_sub := free_index s\<rparr>) F"
  shows "\<exists>s'. CreateFileOrDirectory lib h path attr om gm tm is_file s = Some (fst (if_room s F out), s') \<and>
    outcome lib s opn {} (fst (if_room s F out)) (snd (if_room s F out)) s'"
proof -
  obtain sb T where sb: "m_superblock s = Some sb" and inv: "tree_inv sb T" and lk: "links_ok sb" and lv: "live s sb T"
    and F: "F = view sb T" and opn: "opn = open_paths s sb T"
    using rep by (auto simp: represents_def)
  define ps n where "ps = components (parent (SplitPath path))" and "n = file_name (SplitPath path)"
  have cs: "components path = ps @ [n]" using components_split [OF path(1)] by (simp add: ps_def n_def)
  have dn: "through_dirs (view sb T) (ps @ [n])" using dirs cs F by simp
  then have dp: "through_dirs (view sb T) ps" by (rule through_dirs_prefix)
  have look: "GetFstIndex sb (parent (SplitPath path)) = Some (case entries sb T ps of None \<Rightarrow> Inl Invalid | Some k \<Rightarrow> Inr k)"
    unfolding ps_def by (rule lookup_path [OF inv]) (use dp ps_def in simp)
  have guards: "CreateFileOrDirectory lib h path attr om gm tm is_file s = do {
      parent_result \<leftarrow> GetFstIndex sb (parent (SplitPath path));
      (case parent_result of
        Inl _ \<Rightarrow> Some (NotFound, s)
      | Inr p \<Rightarrow>
          if \<not> writable (handle_at s h) (fst_at sb p) then Some (AccessDenied, s)
          else do {
            existing \<leftarrow> GetFstIndex_child sb p n;
            if Succeeded existing then Some (AlreadyExists, s)
            else (case GetUnusedFstIndex sb of Inl _ \<Rightarrow> Some (FstFull, s)
              | Inr c \<Rightarrow> FlushSuperblock lib (s\<lparr>m_superblock := Some (add_child (handle_at s h) n attr om gm tm is_file p c sb)\<rparr>))
          }) }"
    using path unfolding n_def writable_def by (auto simp: CreateFileOrDirectory_def GetSuperblock_loaded [OF sb] Let_def)
  show ?thesis
  proof (cases "entries sb T ps")
    case None
    then show ?thesis
      using look guards outcome_same [OF rep, of _ lib "{}"]
      by (auto simp: if_room_def out_def abs_create_def cs F view_None [THEN iffD2])
  next
    case (Some p)
    have dir: "IsDirectory (fst_at sb p)" by (rule through_dirs_parent [OF dn Some])
    have Fps: "F ps = Some (inode sb p)" using Some F by (simp add: view_def)
    note child = lookup_child [OF inv Some dir, of n]
    have out: "out = (if \<not> writable (handle_at s h) (fst_at sb p) then (AccessDenied, F)
        else if entries sb T (ps @ [n]) \<noteq> None then (AlreadyExists, F)
        else (Success, F(ps @ [n] \<mapsto> (new_entry (handle_at s h) attr om gm tm is_file)\<lparr>e_sub := free_index s\<rparr>)))"
      using Fps view_None [of sb T "ps @ [n]", folded F] by (auto simp: out_def abs_create_def cs)
    show ?thesis
    proof (cases "writable (handle_at s h) (fst_at sb p) \<and> entries sb T (ps @ [n]) = None")
      case False
      then show ?thesis
        using look guards child outcome_same [OF rep, of _ lib "{}"] Some out by (auto simp: if_room_def Succeeded_def split: option.splits)
    next
      case True
      have wf: "sb_wf sb" using inv by (simp add: tree_inv_def)
      have run: "CreateFileOrDirectory lib h path attr om gm tm is_file s = (case GetUnusedFstIndex sb of Inl _ \<Rightarrow> Some (FstFull, s)
          | Inr c \<Rightarrow> FlushSuperblock lib (s\<lparr>m_superblock := Some (add_child (handle_at s h) n attr om gm tm is_file p c sb)\<rparr>))"
        using guards look child Some True by (simp add: Succeeded_def)
      consider (full) "GetUnusedFstIndex sb = Inl FstFull" "\<not> has_room s"
        | (room) c where "GetUnusedFstIndex sb = Inr c" "in_fst c" "e_mode (fst_at sb c) AND 3 = 0" "has_room s"
        using GetUnusedFstIndex_cases [OF wf] sb by (auto simp: has_room_def)
      then show ?thesis
      proof cases
        case full
        then show ?thesis using run True out outcome_same [OF rep, of _ lib "{}"] by (auto simp: if_room_def)
      next
        case (room c)
        have c: "c \<notin> set (nodes T)" using tree_inv_node [OF inv] room(3) by auto
        have nf: "\<not> IsFile (fst_at sb c)" using room(3) by (simp add: IsFile_def)
        have idx: "free_index s = c" using sb room(1) by (simp add: free_index_def)
        define sb' where "sb' = add_child (handle_at s h) n attr om gm tm is_file p c sb"
        obtain T' where T': "tree_inv sb' T'"
          "view sb' T' = F(ps @ [n] \<mapsto> (new_entry (handle_at s h) attr om gm tm is_file)\<lparr>e_sub := free_index s\<rparr>)"
          and lk': "keeps {} sb sb'" and lv': "live s sb' T'" "open_paths s sb' T' = opn"
          using view_create [OF inv Some dir room(2) c _ _ sb'_def nf, where s = s and X = "{}"] name True n_def F lv opn idx by metis
        obtain s' where "FlushSuperblock lib (s\<lparr>m_superblock := Some sb'\<rparr>) = Some (Success, s')"
          "outcome lib s opn {} Success (view sb' T') s'"
          using represents_flush [OF ok sb lk lk' T'(1) lv'(1)] lv'(2) by auto
        then show ?thesis using run room(1,4) T'(2) True out sb'_def by (auto simp: if_room_def)
      qed
    qed
  qed
qed

end
