(* ===== verification/Removal.thy ===== *)
theory Removal
  imports AbstractFs
begin

text \<open>
  \<^verbatim>\<open>Delete\<close> implements \<open>abs_delete\<close>; its parts are shared with \<^verbatim>\<open>Rename\<close>.
\<close>

section \<open>The entries below a path\<close>

lemma find_distinct: "distinct (map f ks) \<Longrightarrow> k \<in> set ks \<Longrightarrow> find (\<lambda>x. f x = f k) ks = Some k"
  by (induction ks) (auto simp: image_iff)

lemma child_entry:
  assumes inv: "tree_inv sb T" and p: "entries sb T ps = Some p" and us: "kids p T = Some us" and t: "Entry c ws \<in> set us"
  shows "entries sb T (ps @ [GetName (fst_at sb c)]) = Some c" "kids c T = Some ws"
proof -
  have kr: "kid_roots p T = Some (map root us)" using us by (simp add: kid_roots_def)
  have d: "distinct (map (\<lambda>k. GetName (fst_at sb k)) (map root us))"
    using inv kr unfolding tree_inv_def names_ok_def by metis
  have "c \<in> set (map root us)" using t by (metis (no_types) imageI list.set_map root.simps)
  then have "find (\<lambda>k. GetName (fst_at sb k) = GetName (fst_at sb c)) (map root us) = Some c" by (rule find_distinct [OF d])
  then show "entries sb T (ps @ [GetName (fst_at sb c)]) = Some c"
    using entries_snoc [OF p kr, of "GetName (fst_at sb c)"] by (simp add: named_def [abs_def])
  have dT: "distinct (nodes T)" using inv by (simp add: tree_inv_def)
  then have "distinct (nodes us)" using kids_split [OF dT us] by auto
  then have "kids c us = Some ws" by (rule kids_member [OF _ t])
  then show "kids c T = Some ws"
    using kids_in_subtree [OF dT us, of c] root_in_nodes [OF t] by simp
qed

lemma entry_child:
  assumes p: "entries sb T ps = Some p" and us: "kids p T = Some us" and c: "entries sb T (ps @ [n]) = Some c"
  obtains xs ws ys where "us = xs @ Entry c ws # ys" "GetName (fst_at sb c) = n"
proof -
  have kr: "kid_roots p T = Some (map root us)" using us by (simp add: kid_roots_def)
  have f: "find (named sb n) (map root us) = Some c" using entries_snoc [OF p kr, of n] c by simp
  obtain ws where "Entry c ws \<in> set us" using find_named(1) [OF f] by auto (metis fst_tree.exhaust root.simps)
  then show thesis using that find_named(2) [OF f] split_list by metis
qed

lemma node_path:
  assumes inv: "tree_inv sb T"
  shows "g \<in> set (nodes ts) \<Longrightarrow> (\<forall>c ws. Entry c ws \<in> set ts \<longrightarrow>
      entries sb T (ps @ [GetName (fst_at sb c)]) = Some c \<and> kids c T = Some ws) \<Longrightarrow>
    \<exists>r. entries sb T (ps @ r) = Some g"
proof (induction ts arbitrary: ps rule: nodes.induct)
  case (2 j us rs)
  have j: "entries sb T (ps @ [GetName (fst_at sb j)]) = Some j" "kids j T = Some us" using 2(4) by auto
  consider "g = j" | "g \<in> set (nodes us)" | "g \<in> set (nodes rs)" using 2(3) by auto
  then show ?case
  proof cases
    case 1
    then show ?thesis using j(1) by blast
  next
    case 2
    have "\<exists>r. entries sb T ((ps @ [GetName (fst_at sb j)]) @ r) = Some g"
      by (rule "2.IH"(1) [OF 2]) (use child_entry [OF inv j] in blast)
    then show ?thesis by (metis append.assoc)
  next
    case 3
    then show ?thesis by (rule "2.IH"(2)) (use 2(4) in auto)
  qed
qed simp

text \<open>A node is at or below \<open>c\<close> in the tree exactly if a path to it leads through that of \<open>c\<close>.\<close>

lemma entries_below:
  assumes inv: "tree_inv sb T" and c: "entries sb T pc = Some c" "kids c T = Some ws"
  shows "g \<in> set (c # nodes ws) \<longleftrightarrow> (\<exists>q. below pc q \<and> entries sb T q = Some g)"
proof
  assume g: "g \<in> set (c # nodes ws)"
  show "\<exists>q. below pc q \<and> entries sb T q = Some g"
  proof (cases "g = c")
    case True
    then show ?thesis using c(1) below_append(2) by blast
  next
    case False
    then have "\<exists>r. entries sb T (pc @ r) = Some g"
      using node_path [OF inv, of g ws pc] child_entry [OF inv c] g by auto
    then show ?thesis using below_append(1) by blast
  qed
next
  assume "\<exists>q. below pc q \<and> entries sb T q = Some g"
  then obtain r where r: "entries sb T (pc @ r) = Some g" by (auto simp: below_iff)
  have "resolve sb T j (ms @ r) = (case resolve sb T j ms of None \<Rightarrow> None | Some k \<Rightarrow> resolve sb T k r)" for j ms
    by (induction ms arbitrary: j) (auto split: option.splits)
  then have "resolve sb T c r = Some g" using r c(1) by (simp add: entries_def)
  then show "g \<in> set (c # nodes ws)" using resolve_below [OF _ c(2)] inv by (auto simp: tree_inv_def)
qed

lemma kids_file: "forest sb i T \<Longrightarrow> kids c T = Some ws \<Longrightarrow> IsFile (fst_at sb c) \<Longrightarrow> ws = []"
  by (induction sb i T rule: forest.induct) (auto split: if_splits option.splits)

section \<open>Unlinking from the tree\<close>

text \<open>
  Unlinking \<open>c\<close>, after some of the entries at and below it were marked unused.
\<close>

lemma unlink_tree:
  assumes inv: "tree_inv sb T" and ps: "entries sb T ps = Some p" and dir: "IsDirectory (fst_at sb p)"
    and us: "kids p T = Some (xs @ Entry c ws # ys)"
    and wf1: "sb_wf sb1" and f1: "\<And>g. fst_at sb1 g = (if g \<in> D then (fst_at sb g)\<lparr>e_mode := 0\<rparr> else fst_at sb g)"
    and D: "D \<subseteq> set (c # nodes ws)"
  obtains sb2 where "RemoveFstEntryFromChain sb1 p c = Some (Success, sb2)" "sb_wf sb2"
    "tree_inv sb2 (put_kids p (xs @ ys) T)"
    "\<And>q. entries sb2 (put_kids p (xs @ ys) T) q = (if below (ps @ [GetName (fst_at sb c)]) q then None else entries sb T q)"
    "\<And>g. g \<in> set (nodes (put_kids p (xs @ ys) T)) \<Longrightarrow> meta (fst_at sb2 g) = meta (fst_at sb g) \<and> GetName (fst_at sb2 g) = GetName (fst_at sb g)"
    "\<And>g. g \<in> set (nodes ws) \<Longrightarrow> fst_at sb2 g = fst_at sb1 g" "fst_at sb2 c = (fst_at sb1 c)\<lparr>e_mode := 0\<rparr>"
proof -
  let ?us = "xs @ Entry c ws # ys" and ?T = "put_kids p (xs @ ys) T"
  have d: "distinct (nodes T)" and f: "forest sb 0 T" using inv by (simp_all add: tree_inv_def)
  note kb = kids_below [OF inv us]
  have v: "in_fst p" using tree_inv_node [OF inv kids_Some_node [OF us]] by simp
  have dus: "distinct (nodes ?us)" using kids_split [OF d us] d by auto
  have sub: "e_sub (fst_at sb1 g) = e_sub (fst_at sb g)" "e_sib (fst_at sb1 g) = e_sib (fst_at sb g)"
    "GetName (fst_at sb1 g) = GetName (fst_at sb g)" for g by (simp_all add: f1)
  have keep: "fst_at sb1 g = fst_at sb g" if "g \<notin> set (c # nodes ws)" for g using that D by (auto simp: f1)
  have roots: "(\<lambda>t. case t of Entry k _ \<Rightarrow> k) = root" by (rule ext) (simp split: fst_tree.split)
  have fus: "forest sb (e_sub (fst_at sb p)) ?us" by (rule kids_forest [OF f us dir])
  have "children sb p (map root xs @ c # map root ys)"
    using forest_children [OF fus] by (simp add: children_def roots)
  then have "children sb1 p (map root xs @ c # map root ys)" by (rule children_cong) (simp_all add: sub)
  then obtain sb2 where sb2: "RemoveFstEntryFromChain sb1 p c = Some (Success, sb2)" "sb_wf sb2"
    and f2: "\<And>g. fst_at sb2 g = (fst_at sb1 g)\<lparr>e_mode := if g = c then 0 else e_mode (fst_at sb1 g),
        e_sub := if g = p \<and> map root xs = [] then e_sib (fst_at sb1 c) else e_sub (fst_at sb1 g),
        e_sib := if map root xs \<noteq> [] \<and> g = last (map root xs) then e_sib (fst_at sb1 c) else e_sib (fst_at sb1 g)\<rparr>"
    by (rule RemoveFstEntryFromChain_removes [OF wf1 v]) blast
  have last: "last (map root xs) = root (last xs)" if "xs \<noteq> []" using that by (simp add: last_map)
  have lastin: "root (last xs) \<in> set (nodes xs)" if "xs \<noteq> []" using that by (intro root_in_nodes) simp
  have pc: "p \<noteq> c" "p \<notin> set (nodes ws)" "p \<notin> set (nodes xs)" using kb(1) by auto
  have ck: "c \<notin> set (nodes ws)" "c \<notin> set (nodes xs)" "set (nodes ws) \<inter> set (nodes xs) = {}"
    "c \<notin> set (nodes ys)" "set (nodes ws) \<inter> set (nodes ys) = {}" using dus by auto
  have F: "e_sub (fst_at sb2 g) = (if g = p \<and> xs = [] then e_sib (fst_at sb c) else e_sub (fst_at sb g))"
    "e_sib (fst_at sb2 g) = (if xs \<noteq> [] \<and> g = root (last xs) then e_sib (fst_at sb c) else e_sib (fst_at sb g))"
    "GetName (fst_at sb2 g) = GetName (fst_at sb g)" for g
    using last by (auto simp: f2 sub)
  have M: "meta (fst_at sb2 g) = meta (fst_at sb g)" if "g \<notin> set (c # nodes ws)" for g
    using keep [OF that] that by (simp add: f2 meta_def)
  then have mode: "e_mode (fst_at sb2 g) = e_mode (fst_at sb g)" if "g \<notin> set (c # nodes ws)" for g
    using that by (metis meta_simps(1))
  have out: "g \<notin> set (c # nodes ws)" if "g \<in> set (nodes ?T)" for g
    using that kid_roots_remove(2) [OF d us] by auto
  have rest: "\<forall>g\<in>set (nodes (xs @ ys)). e_sub (fst_at sb2 g) = e_sub (fst_at sb g) \<and> e_mode (fst_at sb2 g) = e_mode (fst_at sb g) \<and>
      e_sib (fst_at sb2 g) = (if xs \<noteq> [] \<and> g = root (last xs) then e_sib (fst_at sb c) else e_sib (fst_at sb g))"
  proof
    fix g assume "g \<in> set (nodes (xs @ ys))"
    then have "g \<noteq> p" "g \<notin> set (c # nodes ws)" using kb(1) ck by auto
    then show "e_sub (fst_at sb2 g) = e_sub (fst_at sb g) \<and> e_mode (fst_at sb2 g) = e_mode (fst_at sb g) \<and>
      e_sib (fst_at sb2 g) = (if xs \<noteq> [] \<and> g = root (last xs) then e_sib (fst_at sb c) else e_sib (fst_at sb g))"
      by (simp add: F mode)
  qed
  have new: "forest sb2 (e_sub (fst_at sb2 p)) (xs @ ys)"
    using forest_unlink [OF fus dus rest] by (simp add: F)
  have modep: "e_mode (fst_at sb2 p) = e_mode (fst_at sb p)" using mode pc by simp
  have sibp: "e_sib (fst_at sb2 p) = e_sib (fst_at sb p)" using lastin pc by (auto simp: F)
  have frame: "\<forall>g\<in>set (nodes T) - set (nodes ?us) - {p}. fst_at sb2 g = fst_at sb g"
  proof
    fix g assume g: "g \<in> set (nodes T) - set (nodes ?us) - {p}"
    then have "g \<notin> set (c # nodes ws)" "xs \<noteq> [] \<longrightarrow> g \<noteq> root (last xs)" using lastin by auto
    then show "fst_at sb2 g = fst_at sb g" using g keep last by (auto simp: f2)
  qed
  note tr = tree_remove [OF inv us dir sb2(2) new sibp modep frame _ ps]
  have bel: "(\<exists>suf. q = ps @ GetName (fst_at sb c) # suf) \<longleftrightarrow> below (ps @ [GetName (fst_at sb c)]) q" for q
    by (simp add: below_iff)
  show thesis
  proof (rule that [OF sb2])
    show "tree_inv sb2 ?T" by (rule tr(1)) (simp add: F)
    show "entries sb2 ?T q = (if below (ps @ [GetName (fst_at sb c)]) q then None else entries sb T q)" for q
      unfolding bel [symmetric] by (rule tr(2)) (simp add: F)
    show "meta (fst_at sb2 g) = meta (fst_at sb g) \<and> GetName (fst_at sb2 g) = GetName (fst_at sb g)" if "g \<in> set (nodes ?T)" for g
      using M [OF out [OF that]] F by simp
    have inner: "g \<noteq> p \<and> (map root xs \<noteq> [] \<longrightarrow> g \<noteq> last (map root xs))" if "g \<in> set (c # nodes ws)" for g
      using that ck pc lastin by (cases "xs = []") (auto simp: last_map)
    show "fst_at sb2 g = fst_at sb1 g" if "g \<in> set (nodes ws)" for g
    proof -
      have "g \<noteq> c" using that ck(1) by blast
      then show ?thesis using inner [of g] that unfolding f2 [of g] by auto
    qed
    show "fst_at sb2 c = (fst_at sb1 c)\<lparr>e_mode := 0\<rparr>"
      using inner [of c] unfolding f2 [of c] by auto
  qed
qed

text \<open>Unlinking keeps the ends of the chains.\<close>

lemma links_ok_modes:
  "links_ok sb \<Longrightarrow> (\<And>g. fst_at sb' g = (if g \<in> D then (fst_at sb g)\<lparr>e_mode := 0\<rparr> else fst_at sb g)) \<Longrightarrow> links_ok sb'"
  by (auto simp: links_ok_def IsDirectory_def)

lemma links_ok_sib: "links_ok sb \<Longrightarrow> sb_wf sb \<Longrightarrow> in_fst i \<Longrightarrow> link_ok v \<Longrightarrow> links_ok (set_sib i v sb)"
  by (simp add: links_ok_def set_sib_def fst_at_upd)

lemma links_ok_clear: "links_ok sb \<Longrightarrow> sb_wf sb \<Longrightarrow> in_fst i \<Longrightarrow> links_ok (upd_fst i (\<lambda>e. e\<lparr>e_mode := 0\<rparr>) sb)"
  by (simp add: links_ok_def fst_at_upd IsDirectory_def)

lemma links_ok_sub: "links_ok sb \<Longrightarrow> sb_wf sb \<Longrightarrow> in_fst i \<Longrightarrow> link_ok v \<Longrightarrow> links_ok (upd_fst i (\<lambda>e. e\<lparr>e_sub := v\<rparr>) sb)"
  by (simp add: links_ok_def fst_at_upd)

lemma unlink_from_links:
  "unlink_from sb c prev i = Some res \<Longrightarrow> links_ok sb \<Longrightarrow> sb_wf sb \<Longrightarrow> in_fst prev \<Longrightarrow> in_fst c \<Longrightarrow> links_ok (snd res)"
proof (induction rule: unlink_from.raw_induct [rotated, consumes 1])
  case (1 unlink_from sb c prev i)
  have "link_ok (e_sib (fst_at sb c))" using 1(3,6) by (simp add: links_ok_def)
  then have "links_ok (upd_fst c (\<lambda>e. e\<lparr>e_mode := 0\<rparr>) (set_sib prev (e_sib (fst_at sb c)) sb))"
    using 1(3-6) by (intro links_ok_clear links_ok_sib sib.wf_set) simp_all
  then show ?case using 1 by (auto split: if_splits)
qed

text \<open>Unlinking entry \<open>c\<close> leaves the other files, and the FAT, alone.\<close>

definition relinked :: "u16 \<Rightarrow> Superblock \<Rightarrow> Superblock \<Rightarrow> bool" where
  "relinked c sb sb' \<longleftrightarrow> sb_fat sb' = sb_fat sb \<and> (\<forall>g. file_at sb g \<longrightarrow> g \<noteq> c \<longrightarrow> file_at sb' g) \<and>
     (\<forall>g. file_at sb' g \<longrightarrow> file_at sb g \<and> same_data {} g (fst_at sb g) (fst_at sb' g))"

lemma relinked_refiles: "relinked c sb sb' \<Longrightarrow> \<not> file_at sb c \<Longrightarrow> refiles X sb sb'"
  by (rule refiles_fst) (auto simp: relinked_def fat_at_def same_data_def)

lemma relinked_trans: "relinked c sb sb1 \<Longrightarrow> relinked c sb1 sb2 \<Longrightarrow> relinked c sb sb2"
  unfolding relinked_def using same_data_trans by metis

lemma relinked_upd:
  assumes "sb_wf sb" "in_fst i"
  shows "relinked i sb (upd_fst i (\<lambda>e. e\<lparr>e_mode := 0\<rparr>) sb)" "relinked c sb (set_sib i v sb)"
    "\<not> IsFile (fst_at sb i) \<Longrightarrow> relinked c sb (upd_fst i (\<lambda>e. e\<lparr>e_sub := v\<rparr>) sb)"
  using assms by (auto simp: relinked_def file_at_def set_sib_def fst_at_upd IsFile_def same_data_def split: if_splits)

lemma unlink_from_relinked:
  "unlink_from sb c prev i = Some res \<Longrightarrow> sb_wf sb \<Longrightarrow> in_fst prev \<Longrightarrow> in_fst c \<Longrightarrow> relinked c sb (snd res)"
proof (induction rule: unlink_from.raw_induct [rotated, consumes 1])
  case (1 unlink_from sb c prev i)
  have "relinked c sb (upd_fst c (\<lambda>e. e\<lparr>e_mode := 0\<rparr>) (set_sib prev (e_sib (fst_at sb c)) sb))"
    by (rule relinked_trans [OF relinked_upd(2) relinked_upd(1)]) (use 1(3-5) in \<open>simp_all add: sib.wf_set\<close>)
  moreover have "relinked c sb sb" by (simp add: relinked_def)
  ultimately show ?case using 1 by (auto split: if_splits)
qed

lemma RemoveFstEntryFromChain_relinked:
  assumes "RemoveFstEntryFromChain sb p c = Some (r, sb')" "sb_wf sb" "in_fst p" "in_fst c" "\<not> IsFile (fst_at sb p)"
  shows "relinked c sb sb'"
proof -
  have "relinked c sb (upd_fst c (\<lambda>e. e\<lparr>e_mode := 0\<rparr>) (upd_fst p (\<lambda>e. e\<lparr>e_sub := e_sib (fst_at sb c)\<rparr>) sb))"
    by (rule relinked_trans [OF relinked_upd(3) relinked_upd(1)]) (use assms(2-5) in \<open>simp_all add: sb_wf_upd_same\<close>)
  then show ?thesis
    using assms unlink_from_relinked [of sb c "e_sub (fst_at sb p)" _ "(r, sb')"]
    by (auto simp: RemoveFstEntryFromChain_def Let_def split: if_splits)
qed

lemma unlink_from_head:
  "unlink_from sb c prev i = Some res \<Longrightarrow> sb_magic (snd res) = sb_magic sb \<and> sb_version (snd res) = sb_version sb"
  by (induction rule: unlink_from.raw_induct [rotated, consumes 1]) (auto simp: set_sib_def split: if_splits)

lemma RemoveFstEntryFromChain_head:
  assumes "RemoveFstEntryFromChain sb p c = Some (r, sb')" "sb_wf sb" "in_fst p" "in_fst c"
  shows "sb_magic sb' = sb_magic sb" "sb_version sb' = sb_version sb" "links_ok sb \<Longrightarrow> links_ok sb'"
proof -
  have "links_ok (upd_fst c (\<lambda>e. e\<lparr>e_mode := 0\<rparr>) (upd_fst p (\<lambda>e. e\<lparr>e_sub := e_sib (fst_at sb c)\<rparr>) sb))" if "links_ok sb"
  proof (rule links_ok_clear [OF links_ok_sub [OF that assms(2,3)] _ assms(4)])
    show "link_ok (e_sib (fst_at sb c))" using that assms(4) by (simp add: links_ok_def)
  qed (rule sb_wf_upd_same [OF assms(2)], simp)
  then show "sb_magic sb' = sb_magic sb" "sb_version sb' = sb_version sb" "links_ok sb \<Longrightarrow> links_ok sb'"
    using assms unlink_from_links [of sb c "e_sub (fst_at sb p)" _ "(r, sb')"]
      unlink_from_head [of sb c "e_sub (fst_at sb p)" _ "(r, sb')"]
    by (auto simp: RemoveFstEntryFromChain_def Let_def split: if_splits)
qed

lemma RemoveFstEntryFromChain_keeps:
  assumes "RemoveFstEntryFromChain sb p c = Some (r, sb')" "sb_wf sb" "in_fst p" "in_fst c" "\<not> IsFile (fst_at sb p)"
    and "\<not> IsFile (fst_at sb c)"
  shows "keeps X sb sb'"
  using RemoveFstEntryFromChain_head [OF assms(1-4)] relinked_refiles [OF RemoveFstEntryFromChain_relinked [OF assms(1-5)]] assms(6)
  by (simp add: keeps_def file_at_def)

section \<open>The target of a deletion\<close>

lemma below_open:
  assumes inv: "tree_inv sb T" and c: "entries sb T pc = Some c" "kids c T = Some ws"
  shows "(\<exists>q\<in>open_paths s sb T. below pc q) \<longleftrightarrow> (\<exists>g\<in>set (c # nodes ws). IsFileOpened s g)"
  using entries_below [OF inv c] unfolding open_paths_def by blast

lemma delete_target_file:
  assumes inv: "tree_inv sb T" and c: "entries sb T pc = Some c" "kids c T = Some ws"
    and isf: "IsFile (fst_at sb c)"
  shows "if \<exists>q\<in>open_paths s sb T. below pc q then live s sb T \<longrightarrow> delete_target s sb c = Some None
    else \<exists>sb1 D. delete_target s sb c = Some (Some sb1) \<and> sb_wf sb1 \<and>
      sb_magic sb1 = sb_magic sb \<and> sb_version sb1 = sb_version sb \<and> D \<subseteq> set (c # nodes ws) \<and>
      (\<forall>g. fst_at sb1 g = (if g \<in> D then (fst_at sb g)\<lparr>e_mode := 0\<rparr> else fst_at sb g)) \<and> refiles X sb sb1 \<and>
      \<not> IsFile (fst_at sb1 c)"
proof -
  have wf: "sb_wf sb" and f: "forest sb 0 T" using inv by (simp_all add: tree_inv_def)
  have isf1: "IsFile (fst_at sb c)" "\<not> IsDirectory (fst_at sb c)" "ws = []"
    using isf kids_file [OF f c(2)] by (auto simp: IsFile_def IsDirectory_def)
  have v: "in_fst c" using tree_inv_node [OF inv entries_node [OF inv c(1)]] by simp
  note use = below_open [OF inv c, of s]
  obtain sb1 where sb1: "DeleteFile sb c = Some sb1" using DeleteFile_returns [OF wf] by blast
  note at = DeleteFile_fst [OF sb1 wf]
  show ?thesis
  proof (cases "IsFileOpened s c")
    case True
    then show ?thesis using isf1 use by (simp add: delete_target_def Let_def)
  next
    case False
    then have "delete_target s sb c = Some (Some sb1)" using isf1 sb1 by (simp add: delete_target_def Let_def)
    moreover have e: "\<And>g. fst_at sb1 g = (if g \<in> {c} then (fst_at sb g)\<lparr>e_mode := 0\<rparr> else fst_at sb g)" using at(2) v by simp
    moreover have "refiles X sb sb1"
    proof (rule refiles_delete [OF e])
      show c: "file_at sb d" if "d \<in> {c}" for d using that v isf1(1) by (simp add: file_at_def)
      show "fat_at sb1 j = (if j \<in> (\<Union>d\<in>{c}. set (cl d)) then CLUSTER_UNUSED else fat_at sb j)" if "alloc sb cl" for cl j
        using DeleteFile_clusters [OF wf alloc_file(1) [OF that c]] sb1 by auto
    qed
    moreover have "\<not> IsFile (fst_at sb1 c)" by (simp add: e IsFile_def)
    ultimately show ?thesis using at(1,3,4) isf1 use False by (auto intro!: exI [of _ "{c}"])
  qed
qed

lemma delete_target_dir:
  assumes inv: "tree_inv sb T" and c: "entries sb T pc = Some c" "kids c T = Some ws"
    and isd: "IsDirectory (fst_at sb c)"
  shows "if \<exists>q\<in>open_paths s sb T. below pc q then live s sb T \<longrightarrow> delete_target s sb c = Some None
    else \<exists>sb1 D. delete_target s sb c = Some (Some sb1) \<and> sb_wf sb1 \<and>
      sb_magic sb1 = sb_magic sb \<and> sb_version sb1 = sb_version sb \<and> D \<subseteq> set (c # nodes ws) \<and>
      (\<forall>g. fst_at sb1 g = (if g \<in> D then (fst_at sb g)\<lparr>e_mode := 0\<rparr> else fst_at sb g)) \<and> refiles X sb sb1 \<and>
      \<not> IsFile (fst_at sb1 c)"
proof -
  have wf: "sb_wf sb" and f: "forest sb 0 T" and d: "distinct (nodes T)" using inv by (simp_all add: tree_inv_def)
  have dw: "set (nodes ws) \<subseteq> set (nodes T)" "distinct (nodes ws)" using kids_split [OF d c(2)] d by auto
  have dir: "IsDirectory (fst_at sb c)" "\<not> IsFile (fst_at sb c)" using isd by (simp_all add: IsFile_def IsDirectory_def)
  note use = below_open [OF inv c, of s]
  have isf: "IsFile (fst_at sb g)" if "live s sb T" "g \<in> set (c # nodes ws)" "IsFileOpened s g" for g
    using that tree_inv_node [OF inv, of g] dw(1) entries_node [OF inv c(1)] unfolding live_def by auto
  have fw: "forest sb (e_sub (fst_at sb c)) ws" by (rule kids_forest [OF f c(2) dir(1)])
  have chk: "IsDirectoryInUse sb s c = Some (\<exists>g \<in> set (files sb ws). IsFileOpened s g)"
    using in_use_from_forest [OF fw] by (simp add: IsDirectoryInUse_def)
  obtain sb1 where sb1: "DeleteDirectoryContents sb c = Some sb1" "sb_wf sb1"
    "sb_magic sb1 = sb_magic sb" "sb_version sb1 = sb_version sb"
    "\<forall>g. fst_at sb1 g = (if g \<in> set (files sb ws) then (fst_at sb g)\<lparr>e_mode := 0\<rparr> else fst_at sb g)"
    using delete_from_forest [OF wf fw dw(2)] by (auto simp: DeleteDirectoryContents_def)
  show ?thesis
  proof (cases "\<exists>q\<in>open_paths s sb T. below pc q")
    case True
    have "live s sb T \<longrightarrow> delete_target s sb c = Some None"
    proof
      assume lv: "live s sb T"
      obtain g where g: "g \<in> set (c # nodes ws)" "IsFileOpened s g" using True use by blast
      have "g \<in> set (files sb ws)" using isf [OF lv g] g dir(2) by (auto simp: files_def)
      then show "delete_target s sb c = Some None" using chk g(2) dir by (auto simp: delete_target_def Let_def)
    qed
    then show ?thesis using True by simp
  next
    case False
    then have "\<not> (\<exists>g \<in> set (files sb ws). IsFileOpened s g)" using use by (auto simp: files_def)
    then have "delete_target s sb c = Some (Some sb1)" using chk dir sb1(1) by (simp add: delete_target_def Let_def)
    moreover have "set (files sb ws) \<subseteq> set (c # nodes ws)" by (auto simp: files_def)
    moreover have "refiles X sb sb1"
    proof (rule refiles_delete [of sb1 "set (files sb ws)"])
      show "fst_at sb1 g = (if g \<in> set (files sb ws) then (fst_at sb g)\<lparr>e_mode := 0\<rparr> else fst_at sb g)" for g using sb1(5) by blast
      show fl: "file_at sb d" if "d \<in> set (files sb ws)" for d
        using that forest_nodes_valid [OF fw] by (auto simp: files_def file_at_def)
      show "fat_at sb1 j = (if j \<in> (\<Union>d\<in>set (files sb ws). set (cl d)) then CLUSTER_UNUSED else fat_at sb j)" if "alloc sb cl" for cl j
        using delete_from_clusters [OF wf fw dw(2) alloc_separate [OF that fl]] sb1(1) by (auto simp: DeleteDirectoryContents_def)
    qed
    moreover have "\<not> IsFile (fst_at sb1 c)" using dir(2) sb1(5) by (auto simp: IsFile_def)
    ultimately show ?thesis using sb1(2-) False by auto
  qed
qed

lemma delete_target_tree:
  assumes inv: "tree_inv sb T" and c: "entries sb T pc = Some c" "kids c T = Some ws"
  shows "if \<exists>q\<in>open_paths s sb T. below pc q then live s sb T \<longrightarrow> delete_target s sb c = Some None
    else \<exists>sb1 D. delete_target s sb c = Some (Some sb1) \<and> sb_wf sb1 \<and>
      sb_magic sb1 = sb_magic sb \<and> sb_version sb1 = sb_version sb \<and> D \<subseteq> set (c # nodes ws) \<and>
      (\<forall>g. fst_at sb1 g = (if g \<in> D then (fst_at sb g)\<lparr>e_mode := 0\<rparr> else fst_at sb g)) \<and> refiles X sb sb1 \<and>
      \<not> IsFile (fst_at sb1 c)"
proof -
  have "forest sb 0 T" using inv by (simp add: tree_inv_def)
  then have "IsFile (fst_at sb c) \<or> IsDirectory (fst_at sb c)"
    using forest_nodes_valid [OF _ entries_node [OF inv c(1)]] by auto
  then show ?thesis using delete_target_file [OF inv c] delete_target_dir [OF inv c] by blast
qed

lemma remove_at:
  assumes inv: "tree_inv sb T" and lv: "live s sb T" and p: "entries sb T ps = Some p" "IsDirectory (fst_at sb p)"
    and c: "entries sb T (ps @ [n]) = Some c" and unused: "\<not> (\<exists>q\<in>open_paths s sb T. below (ps @ [n]) q)"
  obtains sb1 sb2 T' where "delete_target s sb c = Some (Some sb1)" "RemoveFstEntryFromChain sb1 p c = Some (Success, sb2)"
    "tree_inv sb2 T'" "entries sb2 T' = (\<lambda>q. if below (ps @ [n]) q then None else entries sb T q)"
    "view sb2 T' = prune (ps @ [n]) (view sb T)" "live s sb2 T'" "open_paths s sb2 T' = open_paths s sb T" "keeps X sb sb2"
    "\<And>f. file_at sb2 f \<Longrightarrow> file_at sb f"
proof -
  obtain us where us: "kids p T = Some us" using entries_node [OF inv p(1)] kids_None by (metis option.exhaust)
  obtain xs ws ys where split: "us = xs @ Entry c ws # ys" "GetName (fst_at sb c) = n" by (rule entry_child [OF p(1) us c])
  have "kids c T = Some ws" by (rule child_entry [OF inv p(1) us]) (simp add: split(1))
  then obtain sb1 D where sb1: "delete_target s sb c = Some (Some sb1)" "sb_wf sb1" "D \<subseteq> set (c # nodes ws)"
    "sb_magic sb1 = sb_magic sb" "sb_version sb1 = sb_version sb"
    and f1: "\<And>g. fst_at sb1 g = (if g \<in> D then (fst_at sb g)\<lparr>e_mode := 0\<rparr> else fst_at sb g)" and r1: "refiles X sb sb1" and cf: "\<not> IsFile (fst_at sb1 c)"
    using delete_target_tree [OF inv c, of ws s X] unused by auto
  let ?T = "put_kids p (xs @ ys) T"
  obtain sb2 where sb2: "RemoveFstEntryFromChain sb1 p c = Some (Success, sb2)" "tree_inv sb2 ?T"
    and e: "\<And>q. entries sb2 ?T q = (if below (ps @ [n]) q then None else entries sb T q)"
    and m: "\<And>g. g \<in> set (nodes ?T) \<Longrightarrow> meta (fst_at sb2 g) = meta (fst_at sb g)"
    using unlink_tree [OF inv p us [unfolded split(1)] sb1(2) f1 sb1(3)] split(2) by metis
  have "view sb2 ?T q = prune (ps @ [n]) (view sb T) q" for q
    using m entries_node [OF sb2(2), of q] by (cases "entries sb T q") (auto simp: view_def prune_def e)
  then have v: "view sb2 ?T = prune (ps @ [n]) (view sb T)" by (rule ext)
  have same: "entries sb2 ?T q = Some k \<and> IsFile (fst_at sb2 k) = IsFile (fst_at sb k)"
    if "IsFileOpened s k" "entries sb T q = Some k" for q k
  proof -
    have "q \<in> open_paths s sb T" using that by (auto simp: open_paths_def)
    then have "entries sb2 ?T q = Some k" using unused that(2) e by auto
    then show ?thesis using m [OF entries_node [OF sb2(2)]] meta_simps(6) by metis
  qed
  have "keeps X sb sb1" using links_ok_modes [OF _ f1] sb1(4,5) r1 by (auto simp: keeps_def)
  moreover have vp: "in_fst p" "in_fst c" "\<not> IsFile (fst_at sb1 p)"
    using tree_inv_node [OF inv] entries_node [OF inv p(1)] entries_node [OF inv c] p(2) f1 [of p]
    by (auto simp: IsFile_def IsDirectory_def split: if_splits)
  moreover have sub: "file_at sb1 f" if "file_at sb2 f" for f
    using RemoveFstEntryFromChain_relinked [OF sb2(1) sb1(2) vp] that by (simp add: relinked_def)
  ultimately have k: "keeps X sb sb2" using RemoveFstEntryFromChain_keeps [OF sb2(1) sb1(2) vp cf] keeps_trans by blast
  have "file_at sb f" if "file_at sb2 f" for f
    using sub [OF that] by (cases "f \<in> D") (simp_all add: file_at_def f1 IsFile_def)
  then show thesis
    by (intro that [OF sb1(1) sb2 _ v _ _ k]) (use e open_cong [OF lv inv sb2(2) same] in auto)
qed

text \<open>The in-use check that \<^verbatim>\<open>Rename\<close> makes of the entry it moves.\<close>

lemma in_use_tree:
  assumes inv: "tree_inv sb T" and lv: "live s sb T" and c: "entries sb T pc = Some c"
  shows "\<exists>b. (if IsDirectory (fst_at sb c) then IsDirectoryInUse sb s c else Some False) = Some b \<and>
    (b \<or> (IsFile (fst_at sb c) \<and> IsFileOpened s c) \<longleftrightarrow> (\<exists>q\<in>open_paths s sb T. below pc q))"
proof -
  obtain ws where ws: "kids c T = Some ws" using entries_node [OF inv c] kids_None by (metis option.exhaust)
  have f: "forest sb 0 T" using inv by (simp add: tree_inv_def)
  have mem: "g \<in> set (nodes T)" if "g \<in> set (c # nodes ws)" for g
    using that kids_below(2) [OF inv ws] entries_node [OF inv c] by auto
  have use: "(\<exists>q\<in>open_paths s sb T. below pc q) \<longleftrightarrow> (\<exists>g\<in>set (c # nodes ws). IsFileOpened s g \<and> IsFile (fst_at sb g))"
    using entries_below [OF inv c ws] tree_inv_node [OF inv mem] lv unfolding open_paths_def live_def by blast
  show ?thesis
  proof (cases "IsDirectory (fst_at sb c)")
    case True
    then have "\<not> IsFile (fst_at sb c)" by (simp add: IsFile_def IsDirectory_def)
    then show ?thesis
      using True in_use_from_forest [OF kids_forest [OF f ws True]] use by (auto simp: IsDirectoryInUse_def files_def)
  next
    case False
    then have "IsFile (fst_at sb c)" using forest_nodes_valid [OF f entries_node [OF inv c]] by simp
    then show ?thesis using False use kids_file [OF f ws] by auto
  qed
qed

section \<open>The operation\<close>

lemma Delete_refines:
  assumes ok: "mbedtls_ok lib" and rep: "represents s F opn" and h: "GetHandleFromFd fd s = Some h"
    and path: "IsValidNonRootPath path" and dirs: "through_dirs F (components path)"
  defines "out \<equiv> abs_delete (handle_at s h) opn (components path) F"
  shows "\<exists>s'. Delete lib fd path s = Some (fst out, s') \<and> outcome lib s opn {} (fst out) (snd out) s'"
proof -
  obtain sb T where sb: "m_superblock s = Some sb" and inv: "tree_inv sb T" and lk: "links_ok sb" and lv: "live s sb T"
    and F: "F = view sb T" and opn: "opn = open_paths s sb T"
    using rep by (auto simp: represents_def)
  define ps n where "ps = components (parent (SplitPath path))" and "n = file_name (SplitPath path)"
  have cs: "components path = ps @ [n]" using components_split [OF path(1)] by (simp add: ps_def n_def)
  have out_cs: "out = abs_delete (handle_at s h) opn (ps @ [n]) F" by (simp add: out_def cs)
  have dn: "through_dirs (view sb T) (ps @ [n])" using dirs cs F by simp
  then have dp: "through_dirs (view sb T) ps" by (rule through_dirs_prefix)
  have look: "GetFstIndex sb (parent (SplitPath path)) = Some (case entries sb T ps of None \<Rightarrow> Inl Invalid | Some k \<Rightarrow> Inr k)"
    unfolding ps_def by (rule lookup_path [OF inv]) (use dp ps_def in simp)
  have guards: "Delete lib fd path s = do {
      parent_result \<leftarrow> GetFstIndex sb (parent (SplitPath path));
      (case parent_result of
        Inl _ \<Rightarrow> Some (NotFound, s)
      | Inr p \<Rightarrow>
          if \<not> writable (handle_at s h) (fst_at sb p) then Some (AccessDenied, s)
          else do {
            index_result \<leftarrow> GetFstIndex_child sb p n;
            (case index_result of
              Inl _ \<Rightarrow> Some (NotFound, s)
            | Inr c \<Rightarrow> do {
                target \<leftarrow> delete_target s sb c;
                (case target of
                  None \<Rightarrow> Some (InUse, s)
                | Some sb1 \<Rightarrow> do {
                    (result, sb2) \<leftarrow> RemoveFstEntryFromChain sb1 p c;
                    (let s2 = s\<lparr>m_superblock := Some sb2\<rparr> in
                     if result \<noteq> Success then Some (result, s2) else FlushSuperblock lib s2)
                  })
              })
          }) }"
    using path h unfolding n_def writable_def by (simp add: Delete_def GetSuperblock_loaded [OF sb] Let_def)
  show ?thesis
  proof (cases "entries sb T ps")
    case None
    then show ?thesis using look guards outcome_same [OF rep, of _ lib "{}"] by (auto simp: out_cs abs_delete_def F view_None [THEN iffD2])
  next
    case (Some p)
    have dir: "IsDirectory (fst_at sb p)" by (rule through_dirs_parent [OF dn Some])
    have Fps: "F ps = Some (inode sb p)" using Some F by (simp add: view_def)
    note child = lookup_child [OF inv Some dir, of n]
    have out: "out = (if \<not> writable (handle_at s h) (fst_at sb p) then (AccessDenied, F)
        else if entries sb T (ps @ [n]) = None then (NotFound, F)
        else if \<exists>q\<in>opn. below (ps @ [n]) q then (InUse, F)
        else (Success, prune (ps @ [n]) F))"
      using Fps view_None [of sb T "ps @ [n]", folded F] by (auto simp: out_cs abs_delete_def)
    consider (early) "\<not> writable (handle_at s h) (fst_at sb p) \<or> entries sb T (ps @ [n]) = None"
      | (busy) c where "writable (handle_at s h) (fst_at sb p)" "entries sb T (ps @ [n]) = Some c" "\<exists>q\<in>opn. below (ps @ [n]) q"
      | (gone) c where "writable (handle_at s h) (fst_at sb p)" "entries sb T (ps @ [n]) = Some c" "\<not> (\<exists>q\<in>opn. below (ps @ [n]) q)"
      by fastforce
    then show ?thesis
    proof cases
      case early
      then show ?thesis using look guards child outcome_same [OF rep, of _ lib "{}"] Some out by auto
    next
      case (busy c)
      obtain ws where "kids c T = Some ws" using entries_node [OF inv busy(2)] kids_None by (metis option.exhaust)
      then have "delete_target s sb c = Some None" using delete_target_tree [OF inv busy(2)] busy(3) lv opn by simp
      then show ?thesis using look guards child outcome_same [OF rep, of _ lib "{}"] Some out busy by auto
    next
      case (gone c)
      obtain sb1 sb2 T' where r: "delete_target s sb c = Some (Some sb1)" "RemoveFstEntryFromChain sb1 p c = Some (Success, sb2)"
        "tree_inv sb2 T'" "view sb2 T' = prune (ps @ [n]) (view sb T)" "live s sb2 T'" "open_paths s sb2 T' = open_paths s sb T" "keeps {} sb sb2"
        by (rule remove_at [OF inv lv Some dir gone(2) gone(3) [unfolded opn], where X = "{}"])
      obtain s' where s': "FlushSuperblock lib (s\<lparr>m_superblock := Some sb2\<rparr>) = Some (Success, s')"
        "outcome lib s opn {} Success (prune (ps @ [n]) F) s'"
        using represents_flush [OF ok sb lk r(7,3,5)] r(4,6) F opn by auto
      then show ?thesis using look guards child r(1,2) Some out gone by simp
    qed
  qed
qed

end
