(* ===== verification/Renaming.thy ===== *)
theory Renaming
  imports Removal
begin

text \<open>
  \<^verbatim>\<open>Rename\<close> implements \<open>abs_rename\<close>, when neither path leads through the other.
\<close>

section \<open>Moving an entry\<close>

lemma subtree_kids:
  assumes d: "distinct (nodes T)" and c: "kids c T = Some ws"
  shows "q \<in> set (c # nodes ws) \<Longrightarrow> kid_roots q [Entry c ws] = kid_roots q T"
    "kid_roots q [Entry c ws] = Some ks \<Longrightarrow> k \<in> set ks \<Longrightarrow> k \<in> set (nodes ws)"
proof -
  have cw: "c \<notin> set (nodes ws)" "distinct (nodes ws)" using kids_split [OF d c] d by auto
  show "q \<in> set (c # nodes ws) \<Longrightarrow> kid_roots q [Entry c ws] = kid_roots q T"
    using kids_in_subtree [OF d c, of q] c cw by (auto simp: kid_roots_def split: option.split)
  assume k: "kid_roots q [Entry c ws] = Some ks" "k \<in> set ks"
  then have "k \<in> set (c # nodes ws)" using kid_roots_node [of q "[Entry c ws]" ks k] by simp
  moreover have "k \<noteq> c"
  proof
    assume kc: "k = c"
    obtain us where us: "kids q [Entry c ws] = Some us" "ks = map root us"
      using k(1) by (cases "kids q [Entry c ws]") (auto simp: kid_roots_def simp del: kids.simps)
    then have c: "c \<in> set (nodes us)" using k(2) kc root_in_nodes by auto
    have dw: "distinct (nodes [Entry c ws])" using cw by simp
    then obtain A B where "nodes [Entry c ws] = A @ nodes us @ B" "q \<in> set A" using kids_split [OF dw us(1)] by blast
    then have "c \<notin> set (nodes us)" using dw by (cases A) auto
    then show False using c by simp
  qed
  ultimately show "k \<in> set (nodes ws)" by simp
qed

lemma resolve_subtree:
  assumes d: "distinct (nodes T)" and c: "kids c T = Some ws"
    and names: "\<And>g. g \<in> set (nodes ws) \<Longrightarrow> GetName (fst_at sb' g) = GetName (fst_at sb g)"
  shows "q \<in> set (c # nodes ws) \<Longrightarrow> resolve sb' [Entry c ws] q ns = resolve sb T q ns"
proof (induction ns arbitrary: q)
  case (Cons n ns)
  note kr = subtree_kids(1) [OF d c Cons.prems] and mem = subtree_kids(2) [OF d c]
  have "find (named sb' n) ks = find (named sb n) ks" if "kid_roots q T = Some ks" for ks
    by (rule find_cong [OF refl]) (use names mem that kr in \<open>auto simp: named_def\<close>)
  then show ?case
    using kr Cons.IH mem find_named(1) [of sb n] by (auto split: option.splits)
qed simp

lemma names_subtree:
  assumes d: "distinct (nodes T)" and c: "kids c T = Some ws" and n: "names_ok sb T"
    and names: "\<And>g. g \<in> set (nodes ws) \<Longrightarrow> GetName (fst_at sb' g) = GetName (fst_at sb g)"
  shows "names_ok sb' [Entry c ws]"
  unfolding names_ok_def
proof (intro allI impI)
  fix q ks assume k: "kid_roots q [Entry c ws] = Some ks"
  then have "q \<in> set (c # nodes ws)"
    using kids_None [of q "[Entry c ws]"] by (auto simp: kid_roots_def simp del: kids.simps)
  then have "kid_roots q T = Some ks" using subtree_kids(1) [OF d c] k by simp
  then have "distinct (map (\<lambda>k. GetName (fst_at sb k)) ks)" using n unfolding names_ok_def by blast
  moreover have "map (\<lambda>k. GetName (fst_at sb' k)) ks = map (\<lambda>k. GetName (fst_at sb k)) ks"
    by (rule map_cong [OF refl]) (rule names, rule subtree_kids(2) [OF d c k])
  ultimately show "distinct (map (\<lambda>k. GetName (fst_at sb' k)) ks)" by (simp only:)
qed

text \<open>The three updates that put an unlinked entry into its new directory.\<close>

definition relink :: "u16 \<Rightarrow> u8 \<Rightarrow> string \<Rightarrow> u16 \<Rightarrow> Superblock \<Rightarrow> Superblock" where
  "relink c m n np sb1 =
     (let sb2 = upd_fst c (\<lambda>e. SetName n (e\<lparr>e_mode := m\<rparr>)) sb1;
          sb3 = set_sib c (e_sub (fst_at sb2 np)) sb2
      in upd_fst np (\<lambda>e. e\<lparr>e_sub := c\<rparr>) sb3)"

lemma relink_at:
  assumes wf: "sb_wf sb1" and v: "in_fst np" "in_fst c" "np \<noteq> c"
  shows "sb_wf (relink c m n np sb1)"
    "fst_at (relink c m n np sb1) g = (if g = c then (SetName n ((fst_at sb1 c)\<lparr>e_mode := m\<rparr>))\<lparr>e_sib := e_sub (fst_at sb1 np)\<rparr>
       else if g = np then (fst_at sb1 np)\<lparr>e_sub := c\<rparr> else fst_at sb1 g)"
proof -
  define sb2 where "sb2 = upd_fst c (\<lambda>e. SetName n (e\<lparr>e_mode := m\<rparr>)) sb1"
  define sb3 where "sb3 = set_sib c (e_sub (fst_at sb2 np)) sb2"
  have r: "relink c m n np sb1 = upd_fst np (\<lambda>e. e\<lparr>e_sub := c\<rparr>) sb3" by (simp add: relink_def sb2_def sb3_def Let_def)
  have w2: "sb_wf sb2" unfolding sb2_def by (rule sb_wf_upd_fst [OF wf]) simp
  have w3: "sb_wf sb3" unfolding sb3_def by (rule sib.wf_set [OF w2 v(2)])
  have f2: "fst_at sb2 g = (if g = c then SetName n ((fst_at sb1 c)\<lparr>e_mode := m\<rparr>) else fst_at sb1 g)" for g
    unfolding sb2_def by (rule fst_at_upd [OF wf v(2)])
  have f3: "fst_at sb3 g = (if g = c then (fst_at sb2 c)\<lparr>e_sib := e_sub (fst_at sb2 np)\<rparr> else fst_at sb2 g)" for g
    unfolding sb3_def set_sib_def by (rule fst_at_upd [OF w2 v(2)])
  show "sb_wf (relink c m n np sb1)" unfolding r by (rule sb_wf_upd_same [OF w3]) simp
  show "fst_at (relink c m n np sb1) g = (if g = c then (SetName n ((fst_at sb1 c)\<lparr>e_mode := m\<rparr>))\<lparr>e_sib := e_sub (fst_at sb1 np)\<rparr>
       else if g = np then (fst_at sb1 np)\<lparr>e_sub := c\<rparr> else fst_at sb1 g)"
    unfolding r using fst_at_upd [OF w3 v(1), of "\<lambda>e. e\<lparr>e_sub := c\<rparr>" g] f3 f2 v(3) by simp
qed

lemma resolve_append:
  "resolve sb T j (ms @ r) = (case resolve sb T j ms of None \<Rightarrow> None | Some k \<Rightarrow> resolve sb T k r)"
  by (induction ms arbitrary: j) (auto split: option.splits)

text \<open>
  The situation between unlinking and relinking: the entry \<open>c\<close> at \<open>pc\<close> with the subtrees \<open>ws\<close> is
  no longer in the tree, and is about to become \<open>n'\<close> in the directory \<open>np\<close> at \<open>ps'\<close>.
\<close>

definition unlinked :: "Superblock \<Rightarrow> fst_tree list \<Rightarrow> path \<Rightarrow> u16 \<Rightarrow> fst_tree list \<Rightarrow> Superblock \<Rightarrow> fst_tree list \<Rightarrow> bool" where
  "unlinked sb T pc c ws sb1 T1 \<longleftrightarrow> sb_wf sb1 \<and> tree_inv sb1 T1 \<and>
     (\<forall>q. entries sb1 T1 q = (if below pc q then None else entries sb T q)) \<and>
     (\<forall>g\<in>set (nodes T1). meta (fst_at sb1 g) = meta (fst_at sb g)) \<and> (\<forall>g\<in>set (nodes ws). fst_at sb1 g = fst_at sb g) \<and>
     fst_at sb1 c = (fst_at sb c)\<lparr>e_mode := 0\<rparr> \<and> fresh_tree T1 c ws"

definition moving :: "Superblock \<Rightarrow> fst_tree list \<Rightarrow> path \<Rightarrow> u16 \<Rightarrow> fst_tree list \<Rightarrow> path \<Rightarrow> u16 \<Rightarrow> string \<Rightarrow> Superblock \<Rightarrow> fst_tree list \<Rightarrow> bool" where
  "moving sb T pc c ws ps' np n' sb1 T1 \<longleftrightarrow> tree_inv sb T \<and> entries sb T pc = Some c \<and> kids c T = Some ws \<and>
     unlinked sb T pc c ws sb1 T1 \<and> entries sb1 T1 ps' = Some np \<and> IsDirectory (fst_at sb1 np) \<and>
     entries sb T (ps' @ [n']) = None \<and> good_name n'"

lemma movingE:
  assumes "moving sb T pc c ws ps' np n' sb1 T1"
  shows "tree_inv sb T" "entries sb T pc = Some c" "kids c T = Some ws" "sb_wf sb1" "tree_inv sb1 T1"
    "entries sb1 T1 q = (if below pc q then None else entries sb T q)" "g \<in> set (nodes T1) \<Longrightarrow> meta (fst_at sb1 g) = meta (fst_at sb g)"
    "fst_at sb1 c = (fst_at sb c)\<lparr>e_mode := 0\<rparr>" "fresh_tree T1 c ws" "entries sb1 T1 ps' = Some np" "IsDirectory (fst_at sb1 np)"
    "entries sb T (ps' @ [n']) = None" "good_name n'" "distinct (nodes T)" "np \<in> set (nodes T1)" "in_fst np" "in_fst c" "np \<noteq> c"
    "c \<notin> set (nodes T1)" "g \<in> set (nodes ws) \<Longrightarrow> fst_at sb1 g = fst_at sb g \<and> g \<notin> set (nodes T1) \<and> g \<noteq> c \<and> g \<noteq> np"
proof -
  note m = assms [unfolded moving_def unlinked_def]
  show "tree_inv sb T" "entries sb T pc = Some c" "kids c T = Some ws" "sb_wf sb1" "tree_inv sb1 T1"
    "entries sb1 T1 q = (if below pc q then None else entries sb T q)" "g \<in> set (nodes T1) \<Longrightarrow> meta (fst_at sb1 g) = meta (fst_at sb g)"
    "fst_at sb1 c = (fst_at sb c)\<lparr>e_mode := 0\<rparr>" "fresh_tree T1 c ws" "entries sb1 T1 ps' = Some np" "IsDirectory (fst_at sb1 np)"
    "entries sb T (ps' @ [n']) = None" "good_name n'" using m by blast+
  show "distinct (nodes T)" using m by (simp add: tree_inv_def)
  show np: "np \<in> set (nodes T1)" using m entries_node by blast
  then show "in_fst np" using m tree_inv_node by blast
  show "in_fst c" using m tree_inv_node entries_node by blast
  have fr: "fresh_tree T1 c ws" using m by blast
  then show c1: "c \<notin> set (nodes T1)" by (simp add: fresh_tree_def)
  then show "np \<noteq> c" using np by blast
  show "fst_at sb1 g = fst_at sb g \<and> g \<notin> set (nodes T1) \<and> g \<noteq> c \<and> g \<noteq> np" if "g \<in> set (nodes ws)"
    using that m fr np by (auto simp: fresh_tree_def)
qed

text \<open>The entries after relinking.\<close>

lemma relinked_at:
  assumes "moving sb T pc c ws ps' np n' sb1 T1" and "sb4 = relink c (e_mode (fst_at sb c)) n' np sb1"
  shows "sb_wf sb4" "fst_at sb4 c = (SetName n' (fst_at sb c))\<lparr>e_sib := e_sub (fst_at sb1 np)\<rparr>"
    "fst_at sb4 np = (fst_at sb1 np)\<lparr>e_sub := c\<rparr>" "g \<noteq> c \<Longrightarrow> g \<noteq> np \<Longrightarrow> fst_at sb4 g = fst_at sb1 g"
    "g \<in> set (nodes ws) \<Longrightarrow> fst_at sb4 g = fst_at sb g" "g \<in> set (nodes T1) \<Longrightarrow> meta (fst_at sb4 g) = meta (fst_at sb g)"
    "GetName (fst_at sb4 c) = n'"
proof -
  note m = movingE [OF assms(1)]
  note at = relink_at [OF m(4,16-18), of "e_mode (fst_at sb c)" n', folded assms(2)]
  show "sb_wf sb4" by (rule at(1))
  show c4: "fst_at sb4 c = (SetName n' (fst_at sb c))\<lparr>e_sib := e_sub (fst_at sb1 np)\<rparr>" by (simp add: at(2) m(8))
  show np4: "fst_at sb4 np = (fst_at sb1 np)\<lparr>e_sub := c\<rparr>" using m(18) by (simp add: at(2))
  show f4: "fst_at sb4 g = fst_at sb1 g" if "g \<noteq> c" "g \<noteq> np" for g using that by (simp add: at(2))
  show "fst_at sb4 g = fst_at sb g" if "g \<in> set (nodes ws)" using m(20) [OF that] f4 by simp
  show "meta (fst_at sb4 g) = meta (fst_at sb g)" if "g \<in> set (nodes T1)"
  proof -
    have "g \<noteq> c" using that m(19) by blast
    then show ?thesis using m(7) [OF that] f4 np4 by (cases "g = np") simp_all
  qed
  show "GetName (fst_at sb4 c) = n'" using m(13) by (simp add: c4 GetName_SetName good_name_def)
qed

lemma relinked_fields:
  assumes "moving sb T pc c ws ps' np n' sb1 T1" and "sb4 = relink c (e_mode (fst_at sb c)) n' np sb1"
  shows "e_sub (fst_at sb4 c) = e_sub (fst_at sb c)" "e_mode (fst_at sb4 c) = e_mode (fst_at sb c)"
    "e_sib (fst_at sb4 c) = e_sub (fst_at sb1 np)"
  by (simp_all add: relinked_at(2) [OF assms] SetName_def)

lemma relinked_forest:
  assumes mv: "moving sb T pc c ws ps' np n' sb1 T1" and sb4: "sb4 = relink c (e_mode (fst_at sb c)) n' np sb1"
    and us': "kids np T1 = Some us'"
  shows "forest sb4 c (Entry c ws # us')"
proof -
  note m = movingE [OF mv] and r = relinked_at [OF mv sb4] and sub4 = relinked_fields [OF mv sb4]
  have f: "forest sb 0 T" using m(1) by (simp add: tree_inv_def)
  have "if IsFile (fst_at sb4 c) then ws = [] else IsDirectory (fst_at sb4 c) \<and> forest sb4 (e_sub (fst_at sb4 c)) ws"
  proof (cases "IsFile (fst_at sb c)")
    case True
    then show ?thesis using kids_file [OF f m(3)] sub4 by (simp add: IsFile_def)
  next
    case False
    then have dc: "IsDirectory (fst_at sb c)" using forest_nodes_valid [OF f entries_node [OF m(1,2)]] by simp
    have "forest sb4 (e_sub (fst_at sb c)) ws" by (rule forest_cong [OF kids_forest [OF f m(3) dc]]) (simp add: r(5))
    then show ?thesis using False dc sub4 by (simp add: IsFile_def IsDirectory_def)
  qed
  moreover have "fst_at sb4 g = fst_at sb1 g" if "g \<in> set (nodes us')" for g
    by (rule r(4)) (use that kids_below [OF m(5) us'] m(19) in auto)
  then have "forest sb4 (e_sub (fst_at sb1 np)) us'"
    by (intro kids_frame [OF m(5) us' m(11)]) simp
  ultimately show ?thesis using m(17) sub4(3) by simp
qed

text \<open>The tree after relinking, and where its entries are.\<close>

lemma relinked_tree:
  assumes mv: "moving sb T pc c ws ps' np n' sb1 T1" and sb4: "sb4 = relink c (e_mode (fst_at sb c)) n' np sb1"
  obtains T' where "tree_inv sb4 T'" "\<And>q k. entries sb1 T1 q = Some k \<Longrightarrow> entries sb4 T' q = Some k"
    "\<And>r. entries sb4 T' ((ps' @ [n']) @ r) = entries sb T (pc @ r)"
    "\<And>q. entries sb1 T1 q = None \<Longrightarrow> \<not> below (ps' @ [n']) q \<Longrightarrow> entries sb4 T' q = None"
proof -
  note m = movingE [OF mv] and r = relinked_at [OF mv sb4]
  obtain us' where us': "kids np T1 = Some us'" using m(15) kids_None by (metis option.exhaust)
  have nm4: "\<forall>g\<in>set (nodes T1). GetName (fst_at sb4 g) = GetName (fst_at sb1 g)"
  proof
    fix g assume "g \<in> set (nodes T1)"
    then have "g \<noteq> c" using m(19) by blast
    then show "GetName (fst_at sb4 g) = GetName (fst_at sb1 g)" using r(3,4) by (cases "g = np") simp_all
  qed
  have krn: "kid_roots np T1 = Some (map root us')" using us' by (simp add: kid_roots_def)
  have "entries sb1 T1 (ps' @ [n']) = None" using m(12) by (simp add: m(6))
  then have "find (named sb1 n') (map root us') = None" using entries_snoc [OF m(10) krn] by simp
  then have fresh: "\<forall>k\<in>set (map root us'). GetName (fst_at sb1 k) \<noteq> n'" by (auto simp: find_None_iff named_def)
  have nok: "names_ok sb T" using m(1) by (simp add: tree_inv_def)
  have names: "names_ok sb4 [Entry c ws]" by (rule names_subtree [OF m(14,3) nok]) (simp add: r(5))
  define T' where "T' = put_kids np (Entry c ws # us') T1"
  have f4: "fst_at sb4 g = fst_at sb1 g" if "g \<in> set (nodes T1)" "g \<noteq> np" for g
    using that m(19) by (intro r(4)) auto
  have inv4: "tree_inv sb4 T'"
    unfolding T'_def by (rule tree_add [OF m(5) us' m(11,9) r(1) relinked_forest [OF mv sb4 us'] r(3)]) (use f4 r(7) fresh names in auto)
  have d1: "distinct (nodes T1)" using m(5) by (simp add: tree_inv_def)
  note ra = resolve_add [OF d1 us' m(9) nm4 r(7) fresh, folded T'_def] and r0 = tree_inv_root [OF m(5)]
  show thesis
  proof (rule that [OF inv4])
    show "entries sb4 T' q = Some k" if "entries sb1 T1 q = Some k" for q k
      using ra(1) [OF r0] that by (simp add: entries_def)
    show "entries sb4 T' ((ps' @ [n']) @ q) = entries sb T (pc @ q)" for q
    proof -
      have "entries sb4 T' ((ps' @ [n']) @ q) = resolve sb4 [Entry c ws] c q"
        using ra(2) [OF r0, of ps' q] m(10) by (simp add: entries_def)
      also have "\<dots> = resolve sb T c q" by (rule resolve_subtree [OF m(14,3)]) (simp_all add: r(5))
      also have "\<dots> = entries sb T (pc @ q)" using m(2) resolve_append [of sb T 0 pc q] unfolding entries_def by simp
      finally show ?thesis .
    qed
    show "entries sb4 T' q = None" if none: "entries sb1 T1 q = None" and out: "\<not> below (ps' @ [n']) q" for q
      unfolding entries_def
    proof (rule ra(3) [OF r0])
      show "resolve sb1 T1 0 q = None" using none by (simp add: entries_def)
      show "resolve sb1 T1 0 pre \<noteq> Some np" if "q = pre @ n' # suf" for pre suf
        using that out entries_inj [OF m(5) _ m(10), of pre] by (auto simp: entries_def below_iff)
    qed
  qed
qed

lemma relinked_view:
  assumes mv: "moving sb T pc c ws ps' np n' sb1 T1" and sb4: "sb4 = relink c (e_mode (fst_at sb c)) n' np sb1"
    and keep: "\<And>q k. entries sb1 T1 q = Some k \<Longrightarrow> entries sb4 T' q = Some k"
    and inside: "\<And>r. entries sb4 T' ((ps' @ [n']) @ r) = entries sb T (pc @ r)"
    and none: "\<And>q. entries sb1 T1 q = None \<Longrightarrow> \<not> below (ps' @ [n']) q \<Longrightarrow> entries sb4 T' q = None"
  shows "view sb4 T' = moved pc (ps' @ [n']) (view sb T)"
proof
  note m = movingE [OF mv] and r4 = relinked_at [OF mv sb4]
  have mc: "meta (fst_at sb4 k) = meta (fst_at sb k)" if "entries sb T (pc @ r) = Some k" for r k
  proof -
    have "k \<in> set (c # nodes ws)" using entries_below [OF m(1-3)] that below_append(1) by blast
    then show ?thesis using r4(2,5) by auto
  qed
  fix q
  show "view sb4 T' q = moved pc (ps' @ [n']) (view sb T) q"
  proof (cases "below (ps' @ [n']) q")
    case True
    then obtain r where q: "q = (ps' @ [n']) @ r" by (auto simp: below_iff)
    have "view sb4 T' q = view sb T (pc @ r)"
      unfolding view_def q inside using mc [of r] by (cases "entries sb T (pc @ r)") simp_all
    then show ?thesis using True by (simp add: moved_def q)
  next
    case False
    have "view sb4 T' q = map_option (\<lambda>k. inode sb k) (entries sb1 T1 q)"
    proof (cases "entries sb1 T1 q")
      case (Some k)
      then show ?thesis using keep [OF Some] r4(6) [OF entries_node [OF m(5) Some]] by (simp add: view_def)
    qed (simp add: view_def none [OF _ False])
    then show ?thesis using False by (simp add: moved_def m(6) view_def)
  qed
qed

text \<open>What relinking keeps: the files but for the name of the entry, and the links.\<close>

lemma relinked_files:
  assumes mv: "moving sb T pc c ws ps' np n' sb1 T1" and sb4: "sb4 = relink c (e_mode (fst_at sb c)) n' np sb1"
    and rl: "relinked c sb sb1"
  shows "refiles {c} sb sb4" "file_at sb4 g \<Longrightarrow> file_at sb g"
proof -
  note m = movingE [OF mv] and r = relinked_at [OF mv sb4]
  have np: "\<not> IsFile (fst_at sb1 np)" using m(11) by (simp add: IsFile_def IsDirectory_def)
  have fl: "file_at sb g \<and> same_data {c} g (fst_at sb g) (fst_at sb4 g)" if g: "file_at sb4 g" for g
  proof (cases "g = c")
    case True
    then show ?thesis using g r(2) by (simp add: file_at_def IsFile_def same_data_def SetName_def)
  next
    case False
    have "g \<noteq> np" using g np r(3) by (auto simp: file_at_def)
    then have "fst_at sb4 g = fst_at sb1 g" "file_at sb1 g" using g r(4) [OF False] by (auto simp: file_at_def)
    then show ?thesis using rl by (auto simp: relinked_def same_data_def)
  qed
  then show "file_at sb4 g \<Longrightarrow> file_at sb g" by blast
  have keep4: "file_at sb4 g" if g: "file_at sb g" for g
  proof (cases "g = c")
    case True
    then show ?thesis using g r(2) by (simp add: file_at_def IsFile_def SetName_def)
  next
    case False
    then have g1: "file_at sb1 g" using rl g by (simp add: relinked_def)
    moreover have "g \<noteq> np" using g1 np by (auto simp: file_at_def)
    ultimately show ?thesis using False r(4) [of g] by (auto simp: file_at_def)
  qed
  have "sb_fat sb4 = sb_fat sb1" by (simp add: sb4 relink_def Let_def set_sib_def)
  then have fat4: "fat_at sb4 x = fat_at sb x" for x using rl by (simp add: relinked_def fat_at_def)
  show "refiles {c} sb sb4" by (rule refiles_fst [OF fat4]) (use fl keep4 in auto)
qed

lemma relinked_links:
  assumes mv: "moving sb T pc c ws ps' np n' sb1 T1" and sb4: "sb4 = relink c (e_mode (fst_at sb c)) n' np sb1"
    and lk: "links_ok sb" "links_ok sb1"
  shows "links_ok sb4"
  unfolding links_ok_def
proof (intro allI impI)
  note m = movingE [OF mv] and r = relinked_at [OF mv sb4] and sub4 = relinked_fields [OF mv sb4]
  fix g assume g: "in_fst g"
  have "link_ok (e_sub (fst_at sb1 np))" using lk(2) m(11,16) by (simp add: links_ok_def)
  moreover have "IsDirectory (fst_at sb4 c) \<Longrightarrow> link_ok (e_sub (fst_at sb4 c))"
    using lk(1) m(17) sub4 by (simp add: links_ok_def IsDirectory_def)
  ultimately show "link_ok (e_sib (fst_at sb4 g)) \<and> (IsDirectory (fst_at sb4 g) \<longrightarrow> link_ok (e_sub (fst_at sb4 g)))"
    using lk(2) g m(16-18) sub4(3) r(3) r(4) [of g] by (cases "g = c"; cases "g = np") (auto simp: links_ok_def link_ok_def)
qed

lemma unlink_to_move:
  assumes inv: "tree_inv sb T" and p: "entries sb T ps = Some p" "IsDirectory (fst_at sb p)"
    and c: "entries sb T (ps @ [n]) = Some c" and p': "entries sb T ps' = Some np" "IsDirectory (fst_at sb np)"
    and free: "entries sb T (ps' @ [n']) = None" and n': "good_name n'" and apart: "\<not> below (ps @ [n]) (ps' @ [n'])"
  obtains sb1 T1 ws where "RemoveFstEntryFromChain sb p c = Some (Success, sb1)" "moving sb T (ps @ [n]) c ws ps' np n' sb1 T1"
proof -
  obtain us where us: "kids p T = Some us" using entries_node [OF inv p(1)] kids_None by (metis option.exhaust)
  obtain xs ws ys where split: "us = xs @ Entry c ws # ys" "GetName (fst_at sb c) = n" by (rule entry_child [OF p(1) us c])
  have ws: "kids c T = Some ws" by (rule child_entry [OF inv p(1) us]) (simp add: split(1))
  have d: "distinct (nodes T)" and wf: "sb_wf sb" using inv by (simp_all add: tree_inv_def)
  define T1 where "T1 = put_kids p (xs @ ys) T"
  obtain sb1 where rm: "RemoveFstEntryFromChain sb p c = Some (Success, sb1)" and wf1: "sb_wf sb1" and inv1: "tree_inv sb1 T1"
    and e1: "\<And>q. entries sb1 T1 q = (if below (ps @ [n]) q then None else entries sb T q)"
    and m1: "\<And>g. g \<in> set (nodes T1) \<Longrightarrow> meta (fst_at sb1 g) = meta (fst_at sb g)"
    and w1: "\<And>g. g \<in> set (nodes ws) \<Longrightarrow> fst_at sb1 g = fst_at sb g" and c1: "fst_at sb1 c = (fst_at sb c)\<lparr>e_mode := 0\<rparr>"
    by (rule unlink_tree [OF inv p us [unfolded split(1)] wf, of "{}"])
      (simp, simp, (rule that [unfolded T1_def, folded split(2)]; blast))
  have e1p: "entries sb1 T1 ps' = Some np" using apart p'(1) by (auto simp: e1 below_iff)
  have dir1: "IsDirectory (fst_at sb1 np)" using m1 [OF entries_node [OF inv1 e1p]] p'(2) meta_simps(7) by metis
  have "c \<notin> set (nodes ws)" "distinct (nodes ws)" using kids_split [OF d ws] d by auto
  moreover have "g \<notin> set (nodes T1)" if "g \<in> set (c # nodes ws)" for g
    using that kid_roots_remove(2) [OF d us [unfolded split(1)]] unfolding T1_def by auto
  ultimately have "fresh_tree T1 c ws" by (auto simp: fresh_tree_def)
  then have "moving sb T (ps @ [n]) c ws ps' np n' sb1 T1"
    using inv c ws wf1 inv1 e1 m1 w1 c1 e1p dir1 free n' by (simp add: moving_def unlinked_def)
  then show thesis by (rule that [OF rm])
qed

lemma move_tree:
  assumes inv: "tree_inv sb T" and lv: "live s sb T" and p: "entries sb T ps = Some p" "IsDirectory (fst_at sb p)"
    and c: "entries sb T (ps @ [n]) = Some c" and unused: "\<not> (\<exists>q\<in>open_paths s sb T. below (ps @ [n]) q)"
    and p': "entries sb T ps' = Some np" "IsDirectory (fst_at sb np)" and free: "entries sb T (ps' @ [n']) = None"
    and n': "good_name n'" and apart: "\<not> below (ps @ [n]) (ps' @ [n'])"
  obtains sb1 T' where "RemoveFstEntryFromChain sb p c = Some (Success, sb1)"
    "tree_inv (relink c (e_mode (fst_at sb c)) n' np sb1) T'"
    "view (relink c (e_mode (fst_at sb c)) n' np sb1) T' = moved (ps @ [n]) (ps' @ [n']) (view sb T)"
    "live s (relink c (e_mode (fst_at sb c)) n' np sb1) T'"
    "open_paths s (relink c (e_mode (fst_at sb c)) n' np sb1) T' = open_paths s sb T"
    "keeps {c} sb (relink c (e_mode (fst_at sb c)) n' np sb1)"
    "\<And>f. file_at (relink c (e_mode (fst_at sb c)) n' np sb1) f \<Longrightarrow> file_at sb f"
proof -
  let ?sb4 = "relink c (e_mode (fst_at sb c)) n' np"
  obtain sb1 T1 ws where rm: "RemoveFstEntryFromChain sb p c = Some (Success, sb1)" and mv: "moving sb T (ps @ [n]) c ws ps' np n' sb1 T1"
    by (rule unlink_to_move [OF inv p c p' free n' apart])
  note m = movingE [OF mv] and r = relinked_at [OF mv refl]
  obtain T' where T': "tree_inv (?sb4 sb1) T'" and keep: "\<And>q k. entries sb1 T1 q = Some k \<Longrightarrow> entries (?sb4 sb1) T' q = Some k"
    and inside: "\<And>r. entries (?sb4 sb1) T' ((ps' @ [n']) @ r) = entries sb T ((ps @ [n]) @ r)"
    and none: "\<And>q. entries sb1 T1 q = None \<Longrightarrow> \<not> below (ps' @ [n']) q \<Longrightarrow> entries (?sb4 sb1) T' q = None"
    by (rule relinked_tree [OF mv refl], rule that) blast+
  have same: "entries (?sb4 sb1) T' q = Some k \<and> IsFile (fst_at (?sb4 sb1) k) = IsFile (fst_at sb k)"
    if "IsFileOpened s k" "entries sb T q = Some k" for q k
  proof -
    have "q \<in> open_paths s sb T" using that by (auto simp: open_paths_def)
    then have "entries sb1 T1 q = Some k" using unused that(2) m(6) by auto
    then show ?thesis using keep r(6) [OF entries_node [OF m(5)]] meta_simps(6) by metis
  qed
  have vp: "in_fst p" "\<not> IsFile (fst_at sb p)" and wf: "sb_wf sb"
    using tree_inv_node [OF inv entries_node [OF inv p(1)]] p(2) inv by (auto simp: IsFile_def IsDirectory_def tree_inv_def)
  note l1 = RemoveFstEntryFromChain_head [OF rm wf vp(1) m(17)]
  note fl = relinked_files [OF mv refl RemoveFstEntryFromChain_relinked [OF rm wf vp(1) m(17) vp(2)]]
  have "links_ok (?sb4 sb1)" if "links_ok sb" using relinked_links [OF mv refl that] l1 that by blast
  moreover have "sb_magic (?sb4 sb1) = sb_magic sb1" "sb_version (?sb4 sb1) = sb_version sb1"
    by (simp_all add: relink_def Let_def set_sib_def)
  ultimately have k4: "keeps {c} sb (?sb4 sb1)" using l1 fl(1) by (simp add: keeps_def)
  show thesis
    by (rule that [OF rm T' relinked_view [OF mv refl keep inside none] open_cong [OF lv inv T' same] k4 fl(2)])
qed

section \<open>The operation\<close>

lemma move_entry_eq:
  "RemoveFstEntryFromChain sb p c = Some (Success, sb1) \<Longrightarrow>
   move_entry lib s sb p np c n' = FlushSuperblock lib (s\<lparr>m_superblock := Some (relink c (e_mode (fst_at sb c)) n' np sb1)\<rparr>)"
  by (simp add: move_entry_def relink_def Let_def)

lemma move_entry_refines:
  assumes ok: "mbedtls_ok lib" and sb0: "m_superblock s = Some sb0" "links_ok sb0" "keeps {c} sb0 sb"
    and inv: "tree_inv sb T" and lv: "live s sb T" and p: "entries sb T ps = Some p" "IsDirectory (fst_at sb p)"
    and c: "entries sb T (ps @ [n]) = Some c" and unused: "\<not> (\<exists>q\<in>open_paths s sb T. below (ps @ [n]) q)"
    and p': "entries sb T ps' = Some np" "IsDirectory (fst_at sb np)" and free: "entries sb T (ps' @ [n']) = None"
    and n': "good_name n'" and apart: "\<not> below (ps @ [n]) (ps' @ [n'])"
  shows "\<exists>s'. move_entry lib s sb p np c n' = Some (Success, s') \<and>
    outcome lib s (open_paths s sb T) {c} Success (moved (ps @ [n]) (ps' @ [n']) (view sb T)) s'"
proof -
  obtain sb1 T' where r: "RemoveFstEntryFromChain sb p c = Some (Success, sb1)"
    "tree_inv (relink c (e_mode (fst_at sb c)) n' np sb1) T'"
    "view (relink c (e_mode (fst_at sb c)) n' np sb1) T' = moved (ps @ [n]) (ps' @ [n']) (view sb T)"
    "live s (relink c (e_mode (fst_at sb c)) n' np sb1) T'"
    "open_paths s (relink c (e_mode (fst_at sb c)) n' np sb1) T' = open_paths s sb T"
    "keeps {c} sb (relink c (e_mode (fst_at sb c)) n' np sb1)" "\<And>f. file_at (relink c (e_mode (fst_at sb c)) n' np sb1) f \<Longrightarrow> file_at sb f"
    by (rule move_tree [OF inv lv p c unused p' free n' apart], rule that) blast+
  show ?thesis using represents_flush [OF ok sb0(1,2) keeps_trans [OF sb0(3) r(6,7)] r(2,4)] unfolding move_entry_eq [OF r(1)] r(3,5) by blast
qed

lemma moved_prune: "\<not> below p p' \<Longrightarrow> \<not> below p' p \<Longrightarrow> moved p p' (prune p' F) = moved p p' F"
proof (rule ext)
  fix q assume a: "\<not> below p p'" "\<not> below p' p"
  then have "\<not> below p' (p @ r)" for r by (auto simp: below_iff append_eq_append_conv2)
  then show "moved p p' (prune p' F) q = moved p p' F q" by (simp add: moved_def prune_def)
qed

text \<open>The part of \<^verbatim>\<open>Rename\<close> after the checks of the parent directories.\<close>

text \<open>The index of the entry that is moved; its name, which protects its data, changes.\<close>

definition index_of :: "path_map \<Rightarrow> path \<Rightarrow> u16 set" where
  "index_of F p = (case F p of None \<Rightarrow> {} | Some e \<Rightarrow> {e_sub e})"

definition rename_found :: "('k, 'c) mbedtls \<Rightarrow> HandleRef \<Rightarrow> FileSystemImpl \<Rightarrow> Superblock \<Rightarrow> u16 \<Rightarrow> u16 \<Rightarrow> string \<Rightarrow> string \<Rightarrow>
    (ResultCode \<times> FileSystemImpl) option" where
  "rename_found lib h s sb p np n n' = do {
     index_result \<leftarrow> GetFstIndex_child sb p n;
     (case index_result of
       Inl _ \<Rightarrow> Some (NotFound, s)
     | Inr c \<Rightarrow>
         if IsFile (fst_at sb c) \<and> take 12 n = take 12 n' then Some (Invalid, s)
         else do {
           dir_in_use \<leftarrow> (if IsDirectory (fst_at sb c) then IsDirectoryInUse sb s c else Some False);
           if dir_in_use \<or> (IsFile (fst_at sb c) \<and> IsFileOpened s c) then Some (InUse, s)
           else do {
             new_index_result \<leftarrow> GetFstIndex_child sb np n';
             (case new_index_result of
               Inl _ \<Rightarrow> move_entry lib s sb p np c n'
             | Inr c' \<Rightarrow>
                 if e_mode (fst_at sb c') AND 3 \<noteq> e_mode (fst_at sb c) AND 3 \<or> c' = c then Some (Invalid, s)
                 else do {
                   target \<leftarrow> delete_target s sb c';
                   (case target of
                     None \<Rightarrow> Some (InUse, s)
                   | Some sb1 \<Rightarrow> do {
                       (remove_result, sb2) \<leftarrow> RemoveFstEntryFromChain sb1 np c';
                       (if remove_result \<noteq> Success then Some (remove_result, s\<lparr>m_superblock := Some sb2\<rparr>)
                        else move_entry lib s sb2 p np c n')
                     })
                 })
           }
         })
   }"

text \<open>An entry of the same kind at the new path is deleted before the move.\<close>

lemma replace_refines:
  assumes ok: "mbedtls_ok lib" and sb: "m_superblock s = Some sb" and inv: "tree_inv sb T" and lk: "links_ok sb" and lv: "live s sb T"
    and p: "entries sb T ps = Some p" "IsDirectory (fst_at sb p)" and c: "entries sb T (ps @ [n]) = Some c"
    and p': "entries sb T ps' = Some np" "IsDirectory (fst_at sb np)" and c': "entries sb T (ps' @ [n']) = Some c'"
    and n': "good_name n'" and ap: "\<not> below (ps @ [n]) (ps' @ [n'])" "\<not> below (ps' @ [n']) (ps @ [n])"
    and unused: "\<not> (\<exists>q\<in>open_paths s sb T. below (ps @ [n]) q)" "\<not> (\<exists>q\<in>open_paths s sb T. below (ps' @ [n']) q)"
  obtains sb1 sb2 s' where "delete_target s sb c' = Some (Some sb1)" "RemoveFstEntryFromChain sb1 np c' = Some (Success, sb2)"
    "move_entry lib s sb2 p np c n' = Some (Success, s')"
    "outcome lib s (open_paths s sb T) {c} Success (moved (ps @ [n]) (ps' @ [n']) (view sb T)) s'"
proof -
  obtain sb1 sb2 T2 where r: "delete_target s sb c' = Some (Some sb1)" "RemoveFstEntryFromChain sb1 np c' = Some (Success, sb2)"
    "tree_inv sb2 T2" "entries sb2 T2 = (\<lambda>q. if below (ps' @ [n']) q then None else entries sb T q)"
    "view sb2 T2 = prune (ps' @ [n']) (view sb T)" "live s sb2 T2" "open_paths s sb2 T2 = open_paths s sb T" "keeps {c} sb sb2"
    by (rule remove_at [OF inv lv p' c' unused(2), where X = "{c}"])
  have bps: "\<not> below (ps' @ [n']) ps" using ap(2) by (auto simp: below_iff)
  have bps': "\<not> below (ps' @ [n']) ps'" by (simp add: below_def)
  have e2: "entries sb2 T2 ps = Some p" "entries sb2 T2 ps' = Some np" "entries sb2 T2 (ps @ [n]) = Some c"
    "entries sb2 T2 (ps' @ [n']) = None"
    using bps bps' ap(2) p(1) p'(1) c by (simp_all add: r(4))
  have v2: "view sb2 T2 ps = view sb T ps" "view sb2 T2 ps' = view sb T ps'"
    using bps bps' by (simp_all add: r(5) prune_def)
  have "inode sb2 p = inode sb p" "inode sb2 np = inode sb np"
    using v2 e2 p(1) p'(1) by (simp_all add: view_def)
  then have dirs: "IsDirectory (fst_at sb2 p)" "IsDirectory (fst_at sb2 np)" using p(2) p'(2) meta_simps(7) type_cong(4) by metis+
  obtain s' where "move_entry lib s sb2 p np c n' = Some (Success, s')"
    "outcome lib s (open_paths s sb T) {c} Success (moved (ps @ [n]) (ps' @ [n']) (view sb T)) s'"
    using move_entry_refines [OF ok sb lk r(8,3,6) e2(1) dirs(1) e2(3) _ e2(2) dirs(2) e2(4) n' ap(1)] unused(1)
    unfolding r(5,7) moved_prune [OF ap] by blast
  then show thesis by (rule that [OF r(1,2)])
qed

text \<open>\<^verbatim>\<open>Rename\<close> once the entry is known not to be in use, with the lookups done.\<close>

lemma rename_found_run:
  assumes inv: "tree_inv sb T" and p: "entries sb T ps = Some p" "IsDirectory (fst_at sb p)"
    and p': "entries sb T ps' = Some np" "IsDirectory (fst_at sb np)" and c: "entries sb T (ps @ [n]) = Some c"
    and n': "good_name n'" and go: "\<not> (IsFile (fst_at sb c) \<and> n = n')" "\<not> (IsFile (fst_at sb c) \<and> IsFileOpened s c)"
    and b: "(if IsDirectory (fst_at sb c) then IsDirectoryInUse sb s c else Some False) = Some False"
  shows "rename_found lib h s sb p np n n' = (case entries sb T (ps' @ [n']) of
      None \<Rightarrow> move_entry lib s sb p np c n'
    | Some c' \<Rightarrow>
        if e_mode (fst_at sb c') AND 3 \<noteq> e_mode (fst_at sb c) AND 3 \<or> c' = c then Some (Invalid, s)
        else do {
          target \<leftarrow> delete_target s sb c';
          (case target of
            None \<Rightarrow> Some (InUse, s)
          | Some sb1 \<Rightarrow> do {
              (remove_result, sb2) \<leftarrow> RemoveFstEntryFromChain sb1 np c';
              (if remove_result \<noteq> Success then Some (remove_result, s\<lparr>m_superblock := Some sb2\<rparr>)
               else move_entry lib s sb2 p np c n')
            })
        })"
proof -
  note child = lookup_child [OF inv p, of n] lookup_child [OF inv p', of n']
  have len: "length n \<le> 12" "length n' \<le> 12"
    using GetFstIndex_child_valid [of sb p n c] child(1) c n' by (simp_all add: good_name_def)
  have go': "(IsFile (fst_at sb c) \<and> n = n') = False" "(IsFile (fst_at sb c) \<and> IsFileOpened s c) = False" using go by auto
  show ?thesis using c by (simp add: rename_found_def child b go' len split: option.split)
qed

lemma rename_found_refines:
  assumes ok: "mbedtls_ok lib" and rep: "represents s F opn"
    and sb: "m_superblock s = Some sb" and inv: "tree_inv sb T" and lk: "links_ok sb" and lv: "live s sb T"
    and F: "F = view sb T" and opn: "opn = open_paths s sb T"
    and p: "entries sb T ps = Some p" "IsDirectory (fst_at sb p)"
    and p': "entries sb T ps' = Some np" "IsDirectory (fst_at sb np)"
    and n': "good_name n'" and apart: "ps @ [n] \<noteq> ps' @ [n'] \<Longrightarrow> \<not> below (ps @ [n]) (ps' @ [n']) \<and> \<not> below (ps' @ [n']) (ps @ [n])"
  shows "\<exists>s'. rename_found lib h s sb p np n n' = Some (fst (rename_at opn (ps @ [n]) (ps' @ [n']) F), s') \<and>
    outcome lib s opn (index_of F (ps @ [n])) (fst (rename_at opn (ps @ [n]) (ps' @ [n']) F)) (snd (rename_at opn (ps @ [n]) (ps' @ [n']) F)) s'"
proof (cases "entries sb T (ps @ [n])")
  case None
  then show ?thesis
    using lookup_child [OF inv p, of n] outcome_same [OF rep, of _ lib] F view_None [of sb T "ps @ [n]"] by (simp add: rename_found_def rename_at_def)
next
  case (Some c)
  note child = lookup_child [OF inv p, of n] lookup_child [OF inv p', of n']
  have Fp: "F (ps @ [n]) = Some (inode sb c)" using Some F by (simp add: view_def)
  have io: "index_of F (ps @ [n]) = {c}" by (simp add: index_of_def Fp)
  have len: "length n \<le> 12" "length n' \<le> 12"
    using GetFstIndex_child_valid [of sb p n c] child(1) Some n' by (simp_all add: good_name_def)
  obtain b where b: "(if IsDirectory (fst_at sb c) then IsDirectoryInUse sb s c else Some False) = Some b"
    "b \<or> (IsFile (fst_at sb c) \<and> IsFileOpened s c) \<longleftrightarrow> (\<exists>q\<in>opn. below (ps @ [n]) q)"
    using in_use_tree [OF inv lv Some] unfolding opn by blast
  consider (same) "IsFile (fst_at sb c)" "n = n'"
    | (busy) "\<not> (IsFile (fst_at sb c) \<and> n = n')" "\<exists>q\<in>opn. below (ps @ [n]) q"
    | (go) "\<not> (IsFile (fst_at sb c) \<and> n = n')" "\<not> (\<exists>q\<in>opn. below (ps @ [n]) q)"
    by blast
  then show ?thesis
  proof cases
    case same
    then show ?thesis using child(1) Some Fp outcome_same [OF rep, of _ lib] by (simp add: rename_found_def rename_at_def)
  next
    case busy
    then show ?thesis using child(1) Some Fp outcome_same [OF rep, of _ lib] b len by (simp add: rename_found_def rename_at_def)
  next
    case go
    have run: "rename_found lib h s sb p np n n' = (case entries sb T (ps' @ [n']) of
        None \<Rightarrow> move_entry lib s sb p np c n'
      | Some c' \<Rightarrow>
          if e_mode (fst_at sb c') AND 3 \<noteq> e_mode (fst_at sb c) AND 3 \<or> c' = c then Some (Invalid, s)
          else do {
            target \<leftarrow> delete_target s sb c';
            (case target of
              None \<Rightarrow> Some (InUse, s)
            | Some sb1 \<Rightarrow> do {
                (remove_result, sb2) \<leftarrow> RemoveFstEntryFromChain sb1 np c';
                (if remove_result \<noteq> Success then Some (remove_result, s\<lparr>m_superblock := Some sb2\<rparr>)
                 else move_entry lib s sb2 p np c n')
              })
          })"
      by (rule rename_found_run [OF inv p p' Some n' go(1)]) (use go(2) b in auto)
    have out: "rename_at opn (ps @ [n]) (ps' @ [n']) F = (case F (ps' @ [n']) of
        None \<Rightarrow> (Success, moved (ps @ [n]) (ps' @ [n']) F)
      | Some e' \<Rightarrow>
          if e_mode e' AND 3 \<noteq> e_mode (fst_at sb c) AND 3 \<or> ps' @ [n'] = ps @ [n] then (Invalid, F)
          else if \<exists>q\<in>opn. below (ps' @ [n']) q then (InUse, F)
          else (Success, moved (ps @ [n]) (ps' @ [n']) F))"
      using go Fp by (simp add: rename_at_def split: option.split)
    show ?thesis
    proof (cases "entries sb T (ps' @ [n'])")
      case None
      have "ps @ [n] \<noteq> ps' @ [n']" using None Some by auto
      then have "\<not> below (ps @ [n]) (ps' @ [n'])" using apart by blast
      then show ?thesis
        using move_entry_refines [OF ok sb lk keeps_refl inv lv p Some go(2) [unfolded opn] p' None n'] None F opn io
        unfolding run out by (simp add: view_def)
    next
      case new: (Some c')
      have Fn: "F (ps' @ [n']) = Some (inode sb c')" using new F by (simp add: view_def)
      have eq: "c' = c \<longleftrightarrow> ps' @ [n'] = ps @ [n]" using entries_inj [OF inv] Some new by (metis option.inject)
      consider (invalid) "e_mode (fst_at sb c') AND 3 \<noteq> e_mode (fst_at sb c) AND 3 \<or> c' = c"
        | (busy) "\<not> (e_mode (fst_at sb c') AND 3 \<noteq> e_mode (fst_at sb c) AND 3 \<or> c' = c)" "\<exists>q\<in>opn. below (ps' @ [n']) q"
        | (replace) "\<not> (e_mode (fst_at sb c') AND 3 \<noteq> e_mode (fst_at sb c) AND 3 \<or> c' = c)" "\<not> (\<exists>q\<in>opn. below (ps' @ [n']) q)"
        by blast
      then show ?thesis
      proof cases
        case invalid
        then show ?thesis unfolding run out Fn new eq [symmetric] using outcome_same [OF rep, of _ lib] by simp
      next
        case busy
        obtain ws where "kids c' T = Some ws" using entries_node [OF inv new] kids_None by (metis option.exhaust)
        then have "delete_target s sb c' = Some None" using delete_target_tree [OF inv new] busy(2) lv opn by simp
        then show ?thesis using busy outcome_same [OF rep, of _ lib] unfolding run out Fn new eq [symmetric] by simp
      next
        case replace
        have ap: "\<not> below (ps @ [n]) (ps' @ [n'])" "\<not> below (ps' @ [n']) (ps @ [n])" using apart replace(1) eq by auto
        obtain sb1 sb2 s' where r: "delete_target s sb c' = Some (Some sb1)" "RemoveFstEntryFromChain sb1 np c' = Some (Success, sb2)"
          and m: "move_entry lib s sb2 p np c n' = Some (Success, s')" "outcome lib s opn {c} Success (moved (ps @ [n]) (ps' @ [n']) F) s'"
          unfolding F opn by (rule replace_refines [OF ok sb inv lk lv p Some p' new n' ap go(2) [unfolded opn] replace(2) [unfolded opn]])
        have rn: "rename_found lib h s sb p np n n' = move_entry lib s sb2 p np c n'"
          using replace(1) unfolding run new by (simp add: r(1,2))
        have on: "rename_at opn (ps @ [n]) (ps' @ [n']) F = (Success, moved (ps @ [n]) (ps' @ [n']) F)"
          using replace unfolding out Fn eq [symmetric] by simp
        show ?thesis unfolding rn on io using m by simp
      qed
    qed
  qed
qed

lemma Rename_refines:
  assumes ok: "mbedtls_ok lib" and rep: "represents s F opn" and h: "GetHandleFromFd fd s = Some h"
    and path: "IsValidNonRootPath old_path" "IsValidNonRootPath new_path"
    and dirs: "through_dirs F (components old_path)" "through_dirs F (components new_path)"
    and name: "good_name (file_name (SplitPath new_path))"
    and apart: "components old_path \<noteq> components new_path \<Longrightarrow>
      \<not> below (components old_path) (components new_path) \<and> \<not> below (components new_path) (components old_path)"
  defines "out \<equiv> abs_rename (handle_at s h) opn (components old_path) (components new_path) F"
  shows "\<exists>s'. Rename lib fd old_path new_path s = Some (fst out, s') \<and> outcome lib s opn (index_of F (components old_path)) (fst out) (snd out) s'"
proof -
  obtain sb T where sb: "m_superblock s = Some sb" and inv: "tree_inv sb T" and lk: "links_ok sb" and lv: "live s sb T"
    and F: "F = view sb T" and opn: "opn = open_paths s sb T"
    using rep by (auto simp: represents_def)
  define ps n where "ps = components (parent (SplitPath old_path))" and "n = file_name (SplitPath old_path)"
  define ps' n' where "ps' = components (parent (SplitPath new_path))" and "n' = file_name (SplitPath new_path)"
  have cs: "components old_path = ps @ [n]" "components new_path = ps' @ [n']"
    using components_split path by (simp_all add: ps_def n_def ps'_def n'_def)
  have out_cs: "out = abs_rename (handle_at s h) opn (ps @ [n]) (ps' @ [n']) F" by (simp add: out_def cs)
  have dn: "through_dirs (view sb T) (ps @ [n])" "through_dirs (view sb T) (ps' @ [n'])" using dirs cs F by simp_all
  note dp = through_dirs_prefix [OF dn(1)] through_dirs_prefix [OF dn(2)]
  define r r' :: "u16 Result" where "r = (case entries sb T ps of None \<Rightarrow> Inl Invalid | Some k \<Rightarrow> Inr k)"
    and "r' = (case entries sb T ps' of None \<Rightarrow> Inl Invalid | Some k \<Rightarrow> Inr k)"
  have look: "GetFstIndex sb (parent (SplitPath old_path)) = Some r" "GetFstIndex sb (parent (SplitPath new_path)) = Some r'"
    using lookup_path [OF inv, of "parent (SplitPath old_path)"] lookup_path [OF inv, of "parent (SplitPath new_path)"] dp
    by (simp_all add: ps_def ps'_def r_def r'_def)
  have run: "Rename lib fd old_path new_path s = (case (r, r') of (Inr p, Inr np) \<Rightarrow>
      if \<not> writable (handle_at s h) (fst_at sb p) \<or> \<not> writable (handle_at s h) (fst_at sb np) then Some (AccessDenied, s)
      else rename_found lib h s sb p np n n' | _ \<Rightarrow> Some (NotFound, s))"
    unfolding n_def n'_def writable_def rename_found_def Rename_def Let_def
    by (simp add: GetSuperblock_loaded [OF sb] path h look)
  show ?thesis
  proof (cases "entries sb T ps = None \<or> entries sb T ps' = None")
    case True
    have "F ps = None \<or> F ps' = None" using True view_None [of sb T] F by simp
    then have "out = (NotFound, F)" by (cases "F ps"; cases "F ps'") (simp_all add: out_cs abs_rename_def)
    moreover have "Rename lib fd old_path new_path s = Some (NotFound, s)"
      using True unfolding run r_def r'_def by (auto split: option.splits)
    ultimately show ?thesis
      using outcome_same [OF rep, of _ lib] by simp
  next
    case False
    then obtain p np where pp: "entries sb T ps = Some p" "entries sb T ps' = Some np" by auto
    note dir = through_dirs_parent [OF dn(1) pp(1)] through_dirs_parent [OF dn(2) pp(2)]
    have fps: "F ps = Some (inode sb p)" "F ps' = Some (inode sb np)" using pp F by (simp_all add: view_def)
    show ?thesis
    proof (cases "writable (handle_at s h) (fst_at sb p) \<and> writable (handle_at s h) (fst_at sb np)")
      case False
      have "out = (AccessDenied, F)" using False fps by (auto simp: out_cs abs_rename_def)
      moreover have "Rename lib fd old_path new_path s = Some (AccessDenied, s)"
        using False pp unfolding run r_def r'_def by simp
      ultimately show ?thesis using outcome_same [OF rep, of _ lib] by simp
    next
      case True
      have run: "Rename lib fd old_path new_path s = rename_found lib h s sb p np n n'"
        using True pp unfolding run r_def r'_def by simp
      have o: "out = rename_at opn (ps @ [n]) (ps' @ [n']) F"
        using True fps by (simp add: out_cs abs_rename_def rename_at_def)
      show ?thesis
        unfolding run o cs(1)
        by (rule rename_found_refines [OF ok rep sb inv lk lv F opn pp(1) dir(1) pp(2) dir(2)])
          (use name apart cs in \<open>auto simp: n'_def\<close>)
    qed
  qed
qed

end
