(* ===== verification/Queries.thy ===== *)
theory Queries
  imports Removal
begin

text \<open>
  Opening files, reading directories and reading or changing metadata, against the map from
  paths to entries.
\<close>

section \<open>Opening\<close>

definition abs_open :: "Uid \<Rightarrow> Gid \<Rightarrow> FileMode \<Rightarrow> path \<Rightarrow> path_map \<Rightarrow> ResultCode" where
  "abs_open uid gid mode p F = (case F p of
     None \<Rightarrow> NotFound
   | Some e \<Rightarrow>
       if \<not> IsFile e then Invalid
       else if \<not> HasPermission e uid gid mode then AccessDenied
       else Success)"

lemma OpenFile_refines:
  assumes rep: "represents s F opn" and len: "length (m_handles s) = NUM_HANDLES"
    and path: "IsValidNonRootPath path" and dirs: "through_dirs F (components path)"
  shows "if abs_open uid gid mode (components path) F \<noteq> Success
    then OpenFile lib uid gid path mode s = Some (Inl (abs_open uid gid mode (components path) F), s)
    else if \<forall>h \<in> set (m_handles s). h_opened h then OpenFile lib uid gid path mode s = Some (Inl NoFreeHandle, s)
    else \<exists>fd s'. OpenFile lib uid gid path mode s = Some (Inr fd, s') \<and> represents s' F (insert (components path) opn)"
proof -
  obtain sb T where sb: "m_superblock s = Some sb" and inv: "tree_inv sb T" and lk: "links_ok sb" and lv: "live s sb T"
    and F: "F = view sb T" and opn: "opn = open_paths s sb T"
    using rep by (auto simp: represents_def)
  let ?p = "components path"
  note g = GetSuperblock_loaded [OF sb, of lib]
  have look: "GetFstIndex sb path = Some (case entries sb T ?p of None \<Rightarrow> Inl Invalid | Some k \<Rightarrow> Inr k)"
    by (rule lookup_path [OF inv]) (use dirs F in simp)
  show ?thesis
  proof (cases "entries sb T ?p")
    case None
    then have "F ?p = None" using F by (simp add: view_def)
    then show ?thesis using None look path g by (simp add: OpenFile_def abs_open_def)
  next
    case (Some k)
    have Fp: "F ?p = Some (inode sb k)" using Some F by (simp add: view_def)
    show ?thesis
    proof (cases "IsFile (fst_at sb k) \<and> HasPermission (fst_at sb k) uid gid mode")
      case False
      then show ?thesis using Some look path g Fp by (simp add: OpenFile_def abs_open_def)
    next
      case True
      then have ab: "abs_open uid gid mode ?p F = Success" using Fp by (simp add: abs_open_def)
      show ?thesis
      proof (cases "\<forall>h \<in> set (m_handles s). h_opened h")
        case full: True
        have "AssignFreeHandle uid gid s = (None, s)"
          using AssignFreeHandle_cases [OF len, of uid gid] full len by (metis nth_mem)
        then show ?thesis using full ab True Some look path g by (simp add: OpenFile_def)
      next
        case free: False
        then obtain j where j: "j < NUM_HANDLES" "\<not> h_opened (m_handles s ! j)" using len by (metis in_set_conv_nth)
        have look': "GetFstIndex sb path = Some (Inr k)" using look Some by simp
        let ?h = "\<lparr>h_opened = True, h_fst_index = k, h_gid = gid, h_uid = uid, h_mode = mode, h_file_offset = 0,
          h_file_size = e_size (fst_at sb k), h_superblock_flush_needed = False\<rparr>"
        obtain i where i: "i < NUM_HANDLES" "\<not> h_opened (m_handles s ! i)"
          and o: "OpenFile lib uid gid path mode s = Some (Inr (ConvertHandleToFd i), upd_handle (Slot i) (\<lambda>_. ?h) s)"
          by (rule OpenFile_opens [OF path g look' conjunct1 [OF True] conjunct2 [OF True] len j])
        let ?s = "upd_handle (Slot i) (\<lambda>_. ?h) s"
        have op: "IsFileOpened ?s x \<longleftrightarrow> x = k \<or> IsFileOpened s x" for x
        proof -
          have "m_handles ?s = (m_handles s)[i := ?h]" by (simp add: upd_handle_def)
          moreover have "(\<exists>h\<in>set ((m_handles s)[i := ?h]). h_opened h \<and> h_fst_index h = x) \<longleftrightarrow>
              x = k \<or> (\<exists>h\<in>set (m_handles s). h_opened h \<and> h_fst_index h = x)"
            using i len by (auto simp: in_set_conv_nth nth_list_update Bex_def)
          ultimately show ?thesis by (simp add: IsFileOpened_def list_ex_iff)
        qed
        have "live ?s sb T" using lv True Some unfolding live_def op by auto
        moreover have "open_paths ?s sb T = insert ?p opn"
          using Some unfolding opn open_paths_def op by (auto dest: entries_inj [OF inv _ Some])
        ultimately have "represents ?s F (insert ?p opn)" unfolding represents_def using sb inv lk F by auto
        then show ?thesis using o ab free by auto
      qed
    qed
  qed
qed

section \<open>Reading a directory\<close>

lemma list_names_forest:
  assumes "forest sb i ts" "distinct (nodes ts)" "links_ok sb" "link_ok i"
  shows "list_names sb i names = Some (names @ map (\<lambda>t. GetName (fst_at sb (root t))) ts)"
  using assms
proof (induction ts arbitrary: i names)
  case Nil
  then show ?case by (subst list_names.simps) (simp add: link_ok_def)
next
  case (Cons t ts)
  obtain j us where t: "t = Entry j us" by (cases t)
  have j: "i = j" "in_fst j" "forest sb (e_sib (fst_at sb j)) ts" "distinct (nodes ts)" using Cons.prems(1,2) t by auto
  then have "link_ok (e_sib (fst_at sb j))" "i \<noteq> 0xffff" using Cons.prems(3) by (auto simp: links_ok_def in_fst_def FST_SIZE_def)
  then show ?case using Cons.IH [OF j(3,4) Cons.prems(3)] j t by (subst list_names.simps) simp
qed

definition abs_list :: "Handle \<Rightarrow> path \<Rightarrow> path_map \<Rightarrow> string set Result" where
  "abs_list handle p F = (case F p of
     None \<Rightarrow> Inl NotFound
   | Some e \<Rightarrow>
       if \<not> HasPermission e (h_uid handle) (h_gid handle) FileMode_Read then Inl AccessDenied
       else if \<not> IsDirectory e then Inl Invalid
       else Inr {n. F (p @ [n]) \<noteq> None})"

lemma ReadDirectory_refines:
  assumes rep: "represents s F opn" and h: "GetHandleFromFd fd s = Some h"
    and path: "path \<noteq> []" "length path \<le> 64" "path ! 0 = CHR ''/''" and dirs: "through_dirs F (components path)"
  shows "case abs_list (handle_at s h) (components path) F of
      Inl e \<Rightarrow> ReadDirectory lib fd path s = Some (Inl e, s)
    | Inr ns \<Rightarrow> \<exists>names. ReadDirectory lib fd path s = Some (Inr names, s) \<and> distinct names \<and> set names = ns"
proof -
  obtain sb T where sb: "m_superblock s = Some sb" and inv: "tree_inv sb T" and lk: "links_ok sb" and lv: "live s sb T"
    and F: "F = view sb T" using rep by (auto simp: represents_def)
  let ?p = "components path"
  have look: "GetFstIndex sb path = Some (case entries sb T ?p of None \<Rightarrow> Inl Invalid | Some k \<Rightarrow> Inr k)"
    by (rule lookup_path [OF inv]) (use dirs F in simp)
  have run: "ReadDirectory lib fd path s = (case entries sb T ?p of
      None \<Rightarrow> Some (Inl NotFound, s)
    | Some k \<Rightarrow>
        if \<not> HasPermission (fst_at sb k) (h_uid (handle_at s h)) (h_gid (handle_at s h)) FileMode_Read
        then Some (Inl AccessDenied, s)
        else if \<not> IsDirectory (fst_at sb k) then Some (Inl Invalid, s)
        else do { names \<leftarrow> list_names sb (e_sub (fst_at sb k)) []; Some (Inr names, s) })"
    unfolding ReadDirectory_def Let_def using path
    by (simp add: h GetSuperblock_loaded [OF sb] look split: option.split)
  show ?thesis
  proof (cases "entries sb T ?p")
    case None
    then have "F ?p = None" using F by (simp add: view_def)
    then show ?thesis using None unfolding run by (simp add: abs_list_def)
  next
    case (Some k)
    have Fp: "F ?p = Some (inode sb k)" using Some F by (simp add: view_def)
    show ?thesis
    proof (cases "HasPermission (fst_at sb k) (h_uid (handle_at s h)) (h_gid (handle_at s h)) FileMode_Read \<and> IsDirectory (fst_at sb k)")
      case False
      then show ?thesis using Some Fp unfolding run by (auto simp: abs_list_def)
    next
      case True
      obtain us where us: "kids k T = Some us" using entries_node [OF inv Some] kids_None by (metis option.exhaust)
      have kr: "kid_roots k T = Some (map root us)" using us by (simp add: kid_roots_def)
      have d: "distinct (nodes T)" and f: "forest sb 0 T" using inv by (simp_all add: tree_inv_def)
      have "in_fst k" using tree_inv_node [OF inv entries_node [OF inv Some]] by simp
      then have lo: "link_ok (e_sub (fst_at sb k))" using lk True by (simp add: links_ok_def)
      have du: "distinct (nodes us)" using kids_split [OF d us] d by auto
      let ?names = "map (\<lambda>t. GetName (fst_at sb (root t))) us"
      have "list_names sb (e_sub (fst_at sb k)) [] = Some ?names"
        using list_names_forest [OF kids_forest [OF f us] du lk lo, of "[]"] True by simp
      moreover have "distinct ?names"
        using inv kr unfolding tree_inv_def names_ok_def by (metis (no_types, lifting) list.map_comp comp_apply map_eq_conv)
      moreover have "set ?names = {n. F (?p @ [n]) \<noteq> None}"
      proof -
        have "F (?p @ [n]) \<noteq> None \<longleftrightarrow> n \<in> set ?names" for n
        proof -
          have "F (?p @ [n]) \<noteq> None \<longleftrightarrow> find (named sb n) (map root us) \<noteq> None"
            using F entries_snoc [OF Some kr, of n] by (simp add: view_def)
          also have "\<dots> \<longleftrightarrow> n \<in> set ?names" by (auto simp: find_None_iff named_def)
          finally show ?thesis .
        qed
        then show ?thesis by blast
      qed
      ultimately show ?thesis using True Some Fp unfolding run by (simp add: abs_list_def)
    qed
  qed
qed

section \<open>Metadata\<close>

definition abs_metadata :: "FstEntry \<Rightarrow> Metadata" where
  "abs_metadata e = \<lparr>md_uid = e_uid e, md_gid = e_gid e, md_attribute = e_attr e, md_owner_mode = GetOwnerMode e,
     md_group_mode = GetGroupMode e, md_other_mode = GetOtherMode e, md_is_file = IsFile e,
     md_size = e_size e, md_fst_index = e_sub e\<rparr>"

definition abs_get_metadata :: "Handle \<Rightarrow> path \<Rightarrow> path_map \<Rightarrow> Metadata Result" where
  "abs_get_metadata handle p F = (case F (butlast p) of
     None \<Rightarrow> Inl NotFound
   | Some d \<Rightarrow>
       if p \<noteq> [] \<and> \<not> HasPermission d (h_uid handle) (h_gid handle) FileMode_Read then Inl AccessDenied
       else (case F p of None \<Rightarrow> Inl NotFound | Some e \<Rightarrow> Inr (abs_metadata e)))"

lemma metadata_of_abs: "metadata_of sb k = abs_metadata (inode sb k)"
  by (simp add: metadata_of_def abs_metadata_def meta_def GetOwnerMode_def GetGroupMode_def GetOtherMode_def IsFile_def Let_def)

lemma GetMetadata_refines:
  assumes rep: "represents s F opn" and h: "GetHandleFromFd fd s = Some h"
    and path: "path = ''/'' \<or> IsValidNonRootPath path" and dirs: "through_dirs F (components path)"
  shows "GetMetadata lib fd path s = Some (abs_get_metadata (handle_at s h) (components path) F, s)"
proof -
  obtain sb T where sb: "m_superblock s = Some sb" and inv: "tree_inv sb T" and F: "F = view sb T"
    using rep by (auto simp: represents_def)
  note g = GetSuperblock_loaded [OF sb, of lib]
  show ?thesis
  proof (cases "path = ''/''")
    case True
    have c: "components path = []" using True by (simp add: components_def SplitString_ref)
    have "F [] = Some (inode sb 0)" using F by (simp add: view_def entries_def)
    then show ?thesis using True h g c metadata_of_abs [of sb 0] by (simp add: GetMetadata_def abs_get_metadata_def)
  next
    case False
    then have v: "IsValidNonRootPath path" "path \<noteq> []" using path by (auto simp: IsValidNonRootPath_def)
    define ps n where "ps = components (parent (SplitPath path))" and "n = file_name (SplitPath path)"
    have cs: "components path = ps @ [n]" using components_split [OF v(1)] by (simp add: ps_def n_def)
    have dn: "through_dirs (view sb T) (ps @ [n])" using dirs cs F by simp
    then have dp: "through_dirs (view sb T) ps" by (rule through_dirs_prefix)
    have look: "GetFstIndex sb (parent (SplitPath path)) = Some (case entries sb T ps of None \<Rightarrow> Inl Invalid | Some k \<Rightarrow> Inr k)"
      unfolding ps_def by (rule lookup_path [OF inv]) (use dp ps_def in simp)
    have run: "GetMetadata lib fd path s = (case entries sb T ps of
        None \<Rightarrow> Some (Inl NotFound, s)
      | Some p \<Rightarrow>
          if \<not> HasPermission (fst_at sb p) (h_uid (handle_at s h)) (h_gid (handle_at s h)) FileMode_Read
          then Some (Inl AccessDenied, s)
          else do {
            child \<leftarrow> GetFstIndex_child sb p n;
            Some (case child of Inl _ \<Rightarrow> (Inl NotFound, s) | Inr index \<Rightarrow> (Inr (metadata_of sb index), s))
          })"
      unfolding GetMetadata_def Let_def n_def using v False
      by (simp add: h g look split: option.split)
    show ?thesis
    proof (cases "entries sb T ps")
      case None
      then have "F ps = None" using F by (simp add: view_def)
      then show ?thesis using None unfolding run cs by (simp add: abs_get_metadata_def)
    next
      case (Some p)
      have dir: "IsDirectory (fst_at sb p)" by (rule through_dirs_parent [OF dn Some])
      have Fps: "F ps = Some (inode sb p)" using Some F by (simp add: view_def)
      note child = lookup_child [OF inv Some dir, of n]
      show ?thesis
      proof (cases "entries sb T (ps @ [n])")
        case None
        then have "F (ps @ [n]) = None" using F by (simp add: view_def)
        then show ?thesis using None Some child Fps unfolding run cs by (simp add: abs_get_metadata_def)
      next
        case k: (Some k)
        then have "F (ps @ [n]) = Some (inode sb k)" using F by (simp add: view_def)
        then show ?thesis using k Some child Fps metadata_of_abs [of sb k] unfolding run cs by (simp add: abs_get_metadata_def)
      qed
    qed
  qed
qed

lemma forest_types:
  "forest sb i ts \<Longrightarrow> (\<And>g. e_sub (fst_at sb' g) = e_sub (fst_at sb g) \<and> e_sib (fst_at sb' g) = e_sib (fst_at sb g) \<and>
     IsFile (fst_at sb' g) = IsFile (fst_at sb g) \<and> IsDirectory (fst_at sb' g) = IsDirectory (fst_at sb g)) \<Longrightarrow>
   forest sb' i ts"
  by (induction sb i ts rule: forest.induct) auto

text \<open>An update of an entry that keeps its name, type and links.\<close>

lemma tree_inv_upd:
  assumes inv: "tree_inv sb T" and k: "in_fst k"
    and f: "\<And>e. entry_wf (f e) = entry_wf e" "\<And>e. GetName (f e) = GetName e" "\<And>e. e_sub (f e) = e_sub e"
      "\<And>e. e_sib (f e) = e_sib e" "\<And>e. e_mode (f e) AND 3 = e_mode e AND 3"
  shows "tree_inv (upd_fst k f sb) T" "entries (upd_fst k f sb) T = entries sb T"
    "fst_at (upd_fst k f sb) g = (if g = k then f (fst_at sb k) else fst_at sb g)"
    "(\<And>e. e_size (f e) = e_size e) \<Longrightarrow> (IsFile (fst_at sb k) \<Longrightarrow> e_size (fst_at sb k) = 0) \<Longrightarrow> keeps {} sb (upd_fst k f sb)"
proof -
  have wf: "sb_wf sb" and fo: "forest sb 0 T" and n: "names_ok sb T" using inv by (simp_all add: tree_inv_def)
  have at: "fst_at (upd_fst k f sb) g = (if g = k then f (fst_at sb k) else fst_at sb g)" for g
    by (rule fst_at_upd [OF wf k])
  show "fst_at (upd_fst k f sb) g = (if g = k then f (fst_at sb k) else fst_at sb g)" by (rule at)
  have types: "IsFile (fst_at (upd_fst k f sb) g) = IsFile (fst_at sb g)" "IsDirectory (fst_at (upd_fst k f sb) g) = IsDirectory (fst_at sb g)"
    and nm: "GetName (fst_at (upd_fst k f sb) g) = GetName (fst_at sb g)"
    and lk: "e_sub (fst_at (upd_fst k f sb) g) = e_sub (fst_at sb g)" "e_sib (fst_at (upd_fst k f sb) g) = e_sib (fst_at sb g)" for g
    by (simp_all add: at f IsFile_def IsDirectory_def)
  have "forest (upd_fst k f sb) 0 T" by (rule forest_types [OF fo]) (simp add: types lk)
  moreover have "names_ok (upd_fst k f sb) T" by (rule names_ok_cong [OF n]) (rule nm)
  moreover have "sb_wf (upd_fst k f sb)" by (rule sb_wf_upd_same [OF wf]) (rule f(1))
  ultimately show "tree_inv (upd_fst k f sb) T" using inv by (simp add: tree_inv_def)
  have "named (upd_fst k f sb) = named sb" by (simp add: named_def fun_eq_iff nm)
  then have "resolve (upd_fst k f sb) T j ns = resolve sb T j ns" for j ns
    by (induction ns arbitrary: j) (simp_all cong: option.case_cong)
  then show "entries (upd_fst k f sb) T = entries sb T" by (simp add: entries_def fun_eq_iff)
  assume z: "\<And>e. e_size (f e) = e_size e" "IsFile (fst_at sb k) \<Longrightarrow> e_size (fst_at sb k) = 0"
  have "same_data {} g (fst_at sb g) (fst_at (upd_fst k f sb) g)" if "file_at sb g" for g
    using z that by (auto simp: at f(3) same_data_def file_at_def)
  then have "refiles {} sb (upd_fst k f sb)"
    by (intro refiles_fst) (auto simp: fat_at_def file_at_def types)
  then show "keeps {} sb (upd_fst k f sb)" by (simp add: keeps_def links_ok_def types lk)
qed

lemma SetMetadata_refines:
  fixes attr :: FileAttribute and om gm tm :: FileMode and gid :: Gid and uid :: Uid
  assumes ok: "mbedtls_ok lib" and rep: "represents s F opn" and h: "GetHandleFromFd fd s = Some h"
    and path: "path \<noteq> []" "length path \<le> 64" "path ! 0 = CHR ''/''" and dirs: "through_dirs F (components path)"
  defines "out \<equiv> abs_set_metadata (handle_at s h) (components path) uid (set_meta uid gid attr om gm tm) F"
  shows "\<exists>s'. SetMetadata lib fd path uid gid attr om gm tm s = Some (fst out, s') \<and>
    outcome lib s opn {} (fst out) (snd out) s'"
proof -
  obtain sb T where sb: "m_superblock s = Some sb" and inv: "tree_inv sb T" and lk: "links_ok sb" and lv: "live s sb T"
    and F: "F = view sb T" and opn: "opn = open_paths s sb T" using rep by (auto simp: represents_def)
  let ?p = "components path" and ?f = "set_meta uid gid attr om gm tm"
  have look: "GetFstIndex sb path = Some (case entries sb T ?p of None \<Rightarrow> Inl Invalid | Some k \<Rightarrow> Inr k)"
    by (rule lookup_path [OF inv]) (use dirs F in simp)
  have run: "SetMetadata lib fd path uid gid attr om gm tm s = (case entries sb T ?p of
      None \<Rightarrow> Some (NotFound, s)
    | Some k \<Rightarrow>
        if h_uid (handle_at s h) \<noteq> 0 \<and> h_uid (handle_at s h) \<noteq> e_uid (fst_at sb k) then Some (AccessDenied, s)
        else if h_uid (handle_at s h) \<noteq> 0 \<and> e_uid (fst_at sb k) \<noteq> uid then Some (AccessDenied, s)
        else if IsFile (fst_at sb k) \<and> e_size (fst_at sb k) \<noteq> 0 then Some (FileNotEmpty, s)
        else FlushSuperblock lib (s\<lparr>m_superblock := Some (upd_fst k ?f sb)\<rparr>))"
    unfolding SetMetadata_def Let_def using path
    by (simp add: h GetSuperblock_loaded [OF sb] look set_meta_def [abs_def] split: option.split)
  show ?thesis
  proof (cases "entries sb T ?p")
    case None
    then have "F ?p = None" using F by (simp add: view_def)
    then show ?thesis using None outcome_same [OF rep, of _ lib "{}"] unfolding run out_def by (simp add: abs_set_metadata_def)
  next
    case (Some k)
    have Fp: "F ?p = Some (inode sb k)" using Some F by (simp add: view_def)
    have kv: "in_fst k" using tree_inv_node [OF inv entries_node [OF inv Some]] by simp
    have m: "(meta (?f e))\<lparr>e_sub := x\<rparr> = ?f ((meta e)\<lparr>e_sub := x\<rparr>)" for e x by (simp add: set_meta_def meta_def SetAccessMode_def)
    have f: "entry_wf (?f e) = entry_wf e" "GetName (?f e) = GetName e" "e_sub (?f e) = e_sub e" "e_sib (?f e) = e_sib e"
      "e_mode (?f e) AND 3 = e_mode e AND 3" for e
      by (simp_all add: set_meta_def) (simp_all add: SetAccessMode_def)
    note u = tree_inv_upd [OF inv kv, of ?f, OF f]
    have v: "view (upd_fst k ?f sb) T = F(?p \<mapsto> ?f (inode sb k))"
    proof (rule ext)
      fix q
      show "view (upd_fst k ?f sb) T q = (F(?p \<mapsto> ?f (inode sb k))) q"
        using Some m entries_inj [OF inv _ Some, of q] by (cases "entries sb T q") (auto simp: view_def u(2,3) F)
    qed
    have "IsFile (?f e) = IsFile e" for e by (simp add: IsFile_def f(5))
    then have t: "IsFile (fst_at (upd_fst k ?f sb) g) = IsFile (fst_at sb g)" for g by (simp add: u(3))
    have lv': "live s (upd_fst k ?f sb) T" using lv by (simp add: live_def u(2) t)
    have op': "open_paths s (upd_fst k ?f sb) T = opn" by (simp add: open_paths_def u(2) opn)
    have k: "keeps {} sb (upd_fst k ?f sb)" if "\<not> (IsFile (fst_at sb k) \<and> e_size (fst_at sb k) \<noteq> 0)"
      by (rule u(4)) (use that in \<open>auto simp: set_meta_def SetAccessMode_def\<close>)
    show ?thesis
      using Some Fp outcome_same [OF rep, of _ lib "{}"] represents_flush [OF ok sb lk k u(1) lv', unfolded v op']
      unfolding run out_def by (auto simp: abs_set_metadata_def)
  qed
qed

end
