(* ===== verification/Formatting.thy ===== *)
theory Formatting
  imports AbstractFs
begin

text \<open>
  \<^verbatim>\<open>Format\<close> leaves an empty root directory and closes every handle.
\<close>

definition empty_map :: path_map where
  "empty_map = [[] \<mapsto> meta format_root]"

lemma format_superblock_at:
  "sb_wf sb \<Longrightarrow> in_fst g \<Longrightarrow> fst_at (format_superblock sb) g = (if g = 0 then format_root else zero_FstEntry)"
  by (auto simp: fst_at_def format_superblock_def sb_wf_def in_fst_def nth_list_update unat_eq_0)

lemma format_superblock_wf: "sb_wf sb \<Longrightarrow> sb_wf (format_superblock sb)"
proof -
  assume wf: "sb_wf sb"
  have "entry_wf e" if "e \<in> set ((replicate (length (sb_fst sb)) zero_FstEntry)[0 := format_root])" for e
  proof -
    have "e = format_root \<or> e = zero_FstEntry" using set_update_subset_insert that by fastforce
    then show ?thesis by (auto simp: format_root_def zero_FstEntry_def entry_wf_def SetName_def)
  qed
  then show ?thesis using wf by (simp add: sb_wf_def format_superblock_def SUPERBLOCK_MAGIC_def)
qed

lemma format_root_fields [simp]:
  "e_sub format_root = 0xffff" "e_sib format_root = 0xffff" "\<not> IsFile format_root" "IsDirectory format_root"
  by (simp_all add: format_root_def IsFile_def IsDirectory_def)

lemma format_tree:
  assumes wf: "sb_wf sb"
  shows "tree_inv (format_superblock sb) [Entry 0 []]" "links_ok (format_superblock sb)"
    "view (format_superblock sb) [Entry 0 []] = empty_map"
proof -
  have v: "in_fst 0" "\<not> in_fst 0xffff" by (simp_all add: in_fst_def FST_SIZE_def)
  note at = format_superblock_at [OF wf]
  have kr: "kid_roots q [Entry 0 []] = (if q = 0 then Some [] else None)" for q by (simp add: kid_roots_def)
  show "tree_inv (format_superblock sb) [Entry 0 []]"
    using v format_superblock_wf [OF wf] by (simp add: tree_inv_def names_ok_def kr at)
  show "links_ok (format_superblock sb)"
    by (auto simp: links_ok_def at link_ok_def zero_FstEntry_def IsDirectory_def v(1))
  have "entries (format_superblock sb) [Entry 0 []] ns = (if ns = [] then Some 0 else None)" for ns
    by (cases ns) (simp_all add: entries_def kr)
  then show "view (format_superblock sb) [Entry 0 []] = empty_map"
    by (auto simp: view_def empty_map_def fun_eq_iff at v(1) meta_def)
qed

text \<open>No entry is a file, the clusters outside the data area are reserved and all others free.\<close>

lemma format_files_ok:
  assumes wf: "sb_wf sb"
  shows "files_ok (format_superblock sb)" "m_superblock s = Some (format_superblock sb) \<Longrightarrow> tight s \<and> free_space s = 0x7ec0"
proof -
  have "\<not> IsFile zero_FstEntry" by (simp add: zero_FstEntry_def IsFile_def)
  then have no: "\<not> file_at (format_superblock sb) f" for f
    using format_superblock_at [OF wf, of f] by (auto simp: file_at_def)
  have "fat_at (format_superblock sb) c = CLUSTER_RESERVED" if "in_fat c" "\<not> data_area c" for c
  proof -
    have "unat c < 64 \<or> unat SUPERBLOCK_START_CLUSTER \<le> unat c"
      using that(2) by (auto simp: data_area_def word_less_nat_alt word_le_nat_alt)
    then show ?thesis using that(1) wf by (auto simp: format_superblock_def fat_at_def sb_wf_def in_fat_def)
  qed
  then have a: "alloc (format_superblock sb) (\<lambda>_. [])"
    using no by (auto simp: alloc_def unused_mark_def cluster_marks)
  then show "files_ok (format_superblock sb)" by (auto simp: files_ok_def)
  have "fat_at (format_superblock sb) c = CLUSTER_UNUSED" if "data_area c" for c
  proof -
    have "64 \<le> unat c" "unat c < unat SUPERBLOCK_START_CLUSTER"
      using that by (auto simp: data_area_def word_less_nat_alt word_le_nat_alt)
    then show ?thesis using data_area_in_fat [OF that] wf by (auto simp: format_superblock_def fat_at_def sb_wf_def in_fat_def)
  qed
  then have n: "no_loss (format_superblock sb) (\<lambda>_. [])" by (simp add: no_loss_def)
  then show "m_superblock s = Some (format_superblock sb) \<Longrightarrow> tight s \<and> free_space s = 0x7ec0"
    using a clusters_conserved [OF a n] by (auto simp: tight_def free_space_def)
qed

lemma format_apart:
  assumes ok: "mbedtls_ok lib" and s: "m_superblock s = Some (format_superblock sb)" and wf: "sb_wf sb"
  shows "apart (flushed lib s) \<and> tight (flushed lib s) \<and> 0x7ec0 \<le> free_space (flushed lib s)"
    "versions_upto lib s \<Longrightarrow> apart (Create lib (m_nand (flushed lib s)) (m_keys (flushed lib s)))"
  using flushed_keeps_data [OF ok s format_files_ok(1) [OF wf] refiles_refl [of "{}"] format_superblock_wf [OF wf]]
    format_files_ok(2) [OF wf s]
  by (simp_all add: s [symmetric] kept_data_def)

lemma GetSuperblock_no_slot:
  assumes "m_superblock s = None" and none: "\<forall>k<NUMBER_OF_SUPERBLOCKS. slot lib (m_keys s) (m_nand s) k = None"
  shows "GetSuperblock lib s = (None, s)"
proof -
  have "scan_upto lib s n = (0, s)" if "n \<le> NUMBER_OF_SUPERBLOCKS" for n
    using that
  proof (induction n)
    case 0
    then show ?case by (simp add: scan_upto_def)
  next
    case (Suc n)
    then show ?case using none scan_upto_Suc_slot [of lib s n] by simp
  qed
  then show ?thesis using assms(1) by (simp add: GetSuperblock_def scan_upto_def)
qed

lemma Format_represents:
  assumes ok: "mbedtls_ok lib" and rep: "represents s F opn"
  shows "\<exists>s'. Format lib 0 s = Some (Success, s') \<and> represents s' empty_map {} \<and> apart s' \<and> tight s' \<and>
    length (m_handles s') = length (m_handles s) \<and> m_cache_handle s' = m_cache_handle s \<and> m_cache_data s' = m_cache_data s"
proof -
  obtain b T where b: "m_superblock s = Some b" "tree_inv b T" using rep by (auto simp: represents_def)
  then have wf: "sb_wf b" by (simp add: tree_inv_def)
  define s2 where "s2 = s\<lparr>m_superblock := Some (format_superblock b), m_handles := map (\<lambda>handle. handle\<lparr>h_opened := False\<rparr>) (m_handles s)\<rparr>"
  have run: "Format lib 0 s = FlushSuperblock lib s2" by (simp add: Format_def GetSuperblock_loaded [OF b(1)] s2_def)
  have no: "\<not> IsFileOpened s2 k" for k by (auto simp: IsFileOpened_def list_ex_iff s2_def)
  have sb: "m_superblock s2 = Some (format_superblock b)" by (simp add: s2_def)
  note t = format_tree [OF wf]
  have lv: "live s2 (format_superblock b) [Entry 0 []]" using no by (simp add: live_def)
  have op: "open_paths s2 (format_superblock b) [Entry 0 []] = {}" using no by (simp add: open_paths_def)
  have "length (m_handles s2) = length (m_handles s) \<and> m_cache_handle s2 = m_cache_handle s \<and> m_cache_data s2 = m_cache_data s" by (simp add: s2_def)
  then show ?thesis
    using flushed_represents(1,2) [OF ok sb t(1,2) lv] format_apart(1) [OF ok sb wf] unfolding run op t(3) by auto
qed

lemma Format_makes_empty:
  assumes ok: "mbedtls_ok lib" and up: "versions_upto lib s"
    and base: "fst (GetSuperblock lib s) \<noteq> None \<or>
      m_superblock s = None \<and> unat (m_superblock_index s) < NUMBER_OF_SUPERBLOCKS \<and>
      (\<forall>k<NUMBER_OF_SUPERBLOCKS. slot lib (m_keys s) (m_nand s) k = None)"
  shows "\<exists>s'. Format lib 0 s = Some (Success, s') \<and> represents s' empty_map {} \<and>
    represents (Create lib (m_nand s') (m_keys s')) empty_map {} \<and> versions_upto lib s' \<and>
    apart s' \<and> tight s' \<and> 0x7ec0 \<le> free_space s' \<and> apart (Create lib (m_nand s') (m_keys s')) \<and> (\<forall>h\<in>set (m_handles s'). \<not> h_opened h) \<and>
    length (m_handles s') = length (m_handles s) \<and> m_cache_handle s' = m_cache_handle s \<and> m_cache_data s' = m_cache_data s"
proof -
  obtain r s1 where g: "GetSuperblock lib s = (r, s1)" by (cases "GetSuperblock lib s")
  define b where "b = (case r of None \<Rightarrow> zero_Superblock | Some sb \<Rightarrow> sb)"
  define s2 where "s2 = s1\<lparr>m_superblock := Some (format_superblock b), m_handles := map (\<lambda>handle. handle\<lparr>h_opened := False\<rparr>) (m_handles s1)\<rparr>"
  have run: "Format lib 0 s = FlushSuperblock lib s2" by (simp add: Format_def g b_def s2_def)
  have up1: "versions_upto lib s1" using GetSuperblock_versions_upto [OF up] g by (metis snd_conv)
  have "sb_wf b \<and> unat (m_superblock_index s1) < NUMBER_OF_SUPERBLOCKS \<and>
    (\<forall>k<NUMBER_OF_SUPERBLOCKS. \<forall>sb'. slot lib (m_keys s1) (m_nand s1) k = Some sb' \<longrightarrow> sb_version sb' \<le> sb_version b)"
  proof (cases r)
    case (Some sb)
    then have "m_superblock s1 = Some sb" using GetSuperblock_cases g by metis
    then show ?thesis using up1 Some by (simp add: versions_upto_def b_def)
  next
    case None
    then have n: "m_superblock s = None" "unat (m_superblock_index s) < NUMBER_OF_SUPERBLOCKS"
      "\<forall>k<NUMBER_OF_SUPERBLOCKS. slot lib (m_keys s) (m_nand s) k = None" using base g by auto
    then have "s1 = s" using GetSuperblock_no_slot [OF n(1,3)] g by simp
    then show ?thesis using n None sb_wf_zero by (simp add: b_def)
  qed
  then have wf: "sb_wf b" and up2: "versions_upto lib s2"
    by (simp_all add: versions_upto_def s2_def format_superblock_wf)
      (simp_all add: format_superblock_def)
  have closed: "\<forall>h\<in>set (m_handles s2). \<not> h_opened h" by (auto simp: s2_def)
  then have no: "\<not> IsFileOpened s2 k" for k by (auto simp: IsFileOpened_def list_ex_iff)
  have len: "length (m_handles s2) = length (m_handles s) \<and> m_cache_handle s2 = m_cache_handle s \<and> m_cache_data s2 = m_cache_data s"
    using GetSuperblock_update [of lib s] g by (auto simp: s2_def)
  have sb: "m_superblock s2 = Some (format_superblock b)" by (simp add: s2_def)
  note t = format_tree [OF wf]
  have lv: "live s2 (format_superblock b) [Entry 0 []]" using no by (simp add: live_def)
  have op: "open_paths s2 (format_superblock b) [Entry 0 []] = {}" using no by (simp add: open_paths_def)
  show ?thesis
    using flushed_represents [OF ok sb t(1,2) lv] format_apart [OF ok sb wf] up2 closed len unfolding run op t(3) by auto
qed

text \<open>A driver just constructed on any image.\<close>

lemma Create_fields [simp]:
  "m_keys (Create lib nand keys) = keys" "m_nand (Create lib nand keys) = nand"
  "m_handles (Create lib nand keys) = replicate NUM_HANDLES new_Handle" "m_cache_handle (Create lib nand keys) = None"
  "m_cache_data (Create lib nand keys) = []"
  using GetSuperblock_update [of lib "initial_fs nand keys"]
  by (auto simp: Create_def initial_fs_def split: prod.split option.split)

lemma Create_loaded:
  "versions_upto lib (Create lib nand keys)"
  "m_superblock (Create lib nand keys) = None \<Longrightarrow> unat (m_superblock_index (Create lib nand keys)) < NUMBER_OF_SUPERBLOCKS \<and>
     (\<forall>k<NUMBER_OF_SUPERBLOCKS. slot lib keys nand k = None)"
proof -
  let ?u = "initial_fs nand keys"
  have u: "m_superblock ?u = None" "m_keys ?u = keys" "m_nand ?u = nand" "m_superblock_index ?u = 0" by (simp_all add: initial_fs_def)
  obtain r t where g: "GetSuperblock lib ?u = (r, t)" by (cases "GetSuperblock lib ?u")
  have up: "versions_upto lib t" using GetSuperblock_versions_upto [of lib ?u] g u by (simp add: versions_upto_def)
  have keys: "m_keys t = keys" "m_nand t = nand" using GetSuperblock_update [of lib ?u] g u by auto
  show "versions_upto lib (Create lib nand keys)"
  proof (cases r)
    case None
    then show ?thesis using up g by (simp add: Create_def)
  next
    case (Some sb)
    then have "m_superblock t = Some sb" using GetSuperblock_cases g by metis
    then show ?thesis using up g Some by (simp add: Create_def versions_upto_def sb_wf_def SUPERBLOCK_MAGIC_def)
  qed
  assume none: "m_superblock (Create lib nand keys) = None"
  have t: "t = snd (scan_upto lib ?u NUMBER_OF_SUPERBLOCKS)" using GetSuperblock_state [OF u(1), of lib] g by simp
  have c: "Create lib nand keys = t" "m_superblock t = None"
    using none g GetSuperblock_cases [of lib ?u _ t] by (auto simp: Create_def split: option.splits)
  have slots: "\<forall>k<NUMBER_OF_SUPERBLOCKS. slot lib keys nand k = None"
    using scan_upto_inv [OF u(1) order_refl, of lib] c(2) u(2,3) by (auto simp: t)
  then have "t = ?u" using GetSuperblock_no_slot [OF u(1), of lib] g u by simp
  then show "unat (m_superblock_index (Create lib nand keys)) < NUMBER_OF_SUPERBLOCKS \<and>
     (\<forall>k<NUMBER_OF_SUPERBLOCKS. slot lib keys nand k = None)"
    using slots c(1) u(4) by (simp add: layout_consts)
qed

lemma Format_fresh:
  assumes ok: "mbedtls_ok lib"
  shows "\<exists>s'. Format lib 0 (Create lib nand keys) = Some (Success, s') \<and> represents s' empty_map {} \<and>
    represents (Create lib (m_nand s') (m_keys s')) empty_map {} \<and> versions_upto lib s' \<and>
    apart s' \<and> tight s' \<and> 0x7ec0 \<le> free_space s' \<and> apart (Create lib (m_nand s') (m_keys s')) \<and> (\<forall>h\<in>set (m_handles s'). \<not> h_opened h) \<and>
    length (m_handles s') = NUM_HANDLES \<and> m_cache_handle s' = None \<and> m_cache_data s' = []"
proof -
  have "fst (GetSuperblock lib (Create lib nand keys)) \<noteq> None \<or> m_superblock (Create lib nand keys) = None \<and>
      unat (m_superblock_index (Create lib nand keys)) < NUMBER_OF_SUPERBLOCKS \<and>
      (\<forall>k<NUMBER_OF_SUPERBLOCKS. slot lib (m_keys (Create lib nand keys)) (m_nand (Create lib nand keys)) k = None)"
    using Create_loaded(2) [of lib nand keys]
    by (cases "m_superblock (Create lib nand keys)") (simp_all add: GetSuperblock_loaded)
  from Format_makes_empty [OF ok Create_loaded(1) this] show ?thesis by simp
qed

end
