(* ===== verification/PathStore.thy ===== *)
theory PathStore
  imports Creation Renaming Queries Formatting
begin

text \<open>
  The contract of the operations that change the set of paths, as an interface, and what
  follows from the contract alone: an operation and its inverse restore the file system.
\<close>

section \<open>The interface\<close>

locale path_store =
  fixes rep :: "'s \<Rightarrow> path_map \<Rightarrow> path set \<Rightarrow> bool"
    and create delete :: "'n \<Rightarrow> 's \<Rightarrow> (ResultCode \<times> 's) option"
    and rename :: "'n \<Rightarrow> 'n \<Rightarrow> 's \<Rightarrow> (ResultCode \<times> 's) option"
    and comp :: "'n \<Rightarrow> path" and name_ok :: "'n \<Rightarrow> bool" and user :: Handle and new :: "'s \<Rightarrow> FstEntry"
  assumes comp: "name_ok n \<Longrightarrow> comp n \<noteq> []"
    and closed: "rep s F opn \<Longrightarrow> below p q \<Longrightarrow> F q \<noteq> None \<Longrightarrow> F p \<noteq> None"
    and opened: "rep s F opn \<Longrightarrow> q \<in> opn \<Longrightarrow> F q \<noteq> None"
    and create: "rep s F opn \<Longrightarrow> name_ok n \<Longrightarrow> through_dirs F (comp n) \<Longrightarrow>
      \<exists>r s'. create n s = Some (fst r, s') \<and> rep s' (snd r) opn \<and>
        (r = abs_create user (comp n) (new s) F \<or> r = (FstFull, F))"
    and delete: "rep s F opn \<Longrightarrow> name_ok n \<Longrightarrow> through_dirs F (comp n) \<Longrightarrow>
      \<exists>s'. delete n s = Some (fst (abs_delete user opn (comp n) F), s') \<and> rep s' (snd (abs_delete user opn (comp n) F)) opn"
    and rename: "rep s F opn \<Longrightarrow> name_ok n \<Longrightarrow> name_ok n' \<Longrightarrow> through_dirs F (comp n) \<Longrightarrow> through_dirs F (comp n') \<Longrightarrow>
      \<not> below (comp n) (comp n') \<Longrightarrow> \<not> below (comp n') (comp n) \<Longrightarrow>
      \<exists>s'. rename n n' s = Some (fst (abs_rename user opn (comp n) (comp n') F), s') \<and>
        rep s' (snd (abs_rename user opn (comp n) (comp n') F)) opn"
begin

lemma fresh_path: "rep s F opn \<Longrightarrow> F p = None \<Longrightarrow> below p q \<Longrightarrow> F q = None \<and> q \<notin> opn"
  using closed opened by metis

lemma prune_new:
  assumes "rep s F opn" "F p = None"
  shows "prune p (F(p \<mapsto> x)) = F"
proof (rule ext)
  fix q
  show "prune p (F(p \<mapsto> x)) q = F q" using fresh_path [OF assms, of q] by (auto simp: prune_def)
qed

lemma create_Success:
  assumes "rep s F opn" "name_ok n" "through_dirs F (comp n)" "create n s = Some (Success, s')"
  obtains d where "F (butlast (comp n)) = Some d" "writable user d" "F (comp n) = None" "rep s' (F(comp n \<mapsto> new s)) opn"
proof -
  obtain r where r: "fst r = Success" "rep s' (snd r) opn" "r = abs_create user (comp n) (new s) F \<or> r = (FstFull, F)"
    using create [OF assms(1-3)] assms(4) by auto
  then have "r = abs_create user (comp n) (new s) F" by auto
  then show thesis using r(1,2) that by (auto simp: abs_create_def split: option.splits if_splits)
qed

lemma butlast_other: "name_ok n \<Longrightarrow> butlast (comp n) \<noteq> comp n"
  using comp [of n] by (metis append_butlast_last_id append_self_conv2 butlast_snoc last_in_set list.distinct(1) not_Cons_self2 self_append_conv)

lemma through_dirs_upd: "through_dirs F p \<Longrightarrow> through_dirs (F(p := x)) p"
  unfolding through_dirs_def by (metis fun_upd_other length_take less_irrefl min.absorb4)

lemma create_then_delete:
  assumes "rep s F opn" "name_ok n" "through_dirs F (comp n)" "create n s = Some (Success, s')"
  shows "\<exists>s''. delete n s' = Some (Success, s'') \<and> rep s'' F opn"
proof -
  obtain d where d: "F (butlast (comp n)) = Some d" "writable user d" "F (comp n) = None" "rep s' (F(comp n \<mapsto> new s)) opn"
    by (rule create_Success [OF assms])
  have "\<not> (\<exists>q\<in>opn. below (comp n) q)" using fresh_path [OF assms(1) d(3)] by blast
  then have "abs_delete user opn (comp n) (F(comp n \<mapsto> new s)) = (Success, F)"
    using d(1,2) butlast_other [OF assms(2)] prune_new [OF assms(1) d(3)] by (simp add: abs_delete_def)
  then show ?thesis using delete [OF d(4) assms(2) through_dirs_upd [OF assms(3)]] by simp
qed

lemma create_twice:
  assumes "rep s F opn" "name_ok n" "through_dirs F (comp n)" "create n s = Some (Success, s')"
  shows "\<exists>s'' r. create n s' = Some (r, s'') \<and> r \<noteq> Success \<and> rep s'' (F(comp n \<mapsto> new s)) opn"
proof -
  obtain d where d: "F (butlast (comp n)) = Some d" "writable user d" "F (comp n) = None" "rep s' (F(comp n \<mapsto> new s)) opn"
    by (rule create_Success [OF assms])
  have "abs_create user (comp n) (new s') (F(comp n \<mapsto> new s)) = (AlreadyExists, F(comp n \<mapsto> new s))"
    using d(1,2) butlast_other [OF assms(2)] by (simp add: abs_create_def)
  then show ?thesis using create [OF d(4) assms(2) through_dirs_upd [OF assms(3)]] by auto
qed

lemma moved_prefix:
  assumes "\<not> below p' p" "i < length p"
  shows "moved p p' F (take i p) = F (take i p)"
proof -
  have "\<not> below p (take i p)" using assms(2) by (auto simp: below_def)
  moreover have "\<not> below p' (take i p)" using assms(1) by (metis append_take_drop_id append_assoc below_iff)
  ultimately show ?thesis by (simp add: moved_def)
qed

lemma moved_back:
  assumes "rep s F opn" "F p' = None" "\<not> below p p'" "\<not> below p' p"
  shows "moved p' p (moved p p' F) = F"
proof (rule ext)
  fix q
  have "F q = None" if "below p' q" using fresh_path [OF assms(1,2) that] by simp
  moreover have "q = p @ drop (length p) q" if "below p q" using that by (metis append_take_drop_id below_def)
  moreover have "\<not> below p (p' @ r)" "\<not> below p' (p @ r)" for r
    using assms(3,4) by (auto simp: below_iff append_eq_append_conv2)
  ultimately show "moved p' p (moved p p' F) q = F q" by (auto simp: moved_def)
qed

lemma rename_back:
  assumes rep: "rep s F opn" and n: "name_ok n" "name_ok n'" and dirs: "through_dirs F (comp n)" "through_dirs F (comp n')"
    and apart: "\<not> below (comp n) (comp n')" "\<not> below (comp n') (comp n)" and free: "F (comp n') = None"
    and went: "rename n n' s = Some (Success, s')"
  shows "\<exists>s''. rename n' n s' = Some (Success, s'') \<and> rep s'' F opn"
proof -
  let ?p = "comp n" and ?p' = "comp n'" and ?F = "moved (comp n) (comp n') F"
  have s: "fst (abs_rename user opn ?p ?p' F) = Success" "rep s' (snd (abs_rename user opn ?p ?p' F)) opn"
    using rename [OF rep n dirs apart] went by auto
  obtain d d' e where d: "F (butlast ?p) = Some d" "F (butlast ?p') = Some d'" "writable user d" "writable user d'"
    "F ?p = Some e" "\<not> (IsFile e \<and> last ?p = last ?p')" "\<not> (\<exists>q\<in>opn. below ?p q)"
    and out: "snd (abs_rename user opn ?p ?p' F) = ?F"
    using s(1) free by (auto simp: abs_rename_def rename_at_def split: option.splits if_splits)
  have pre: "?F (take i ?p) = F (take i ?p)" if "i < length ?p" for i by (rule moved_prefix [OF apart(2) that])
  have pre': "?F (take i ?p') = F (take i ?p')" if "i < length ?p'" for i
  proof -
    have "\<not> below ?p' (take i ?p')" using that by (auto simp: below_def)
    moreover have "\<not> below ?p (take i ?p')" using apart(1) by (metis append_take_drop_id append_assoc below_iff)
    ultimately show ?thesis by (simp add: moved_def)
  qed
  have len: "?p \<noteq> []" "?p' \<noteq> []" using comp n by auto
  have b: "?F (butlast ?p) = Some d" "?F (butlast ?p') = Some d'"
    using pre [of "length ?p - 1"] pre' [of "length ?p' - 1"] d(1,2) len by (simp_all add: butlast_conv_take)
  have e: "?F ?p' = Some e" "?F ?p = None" using d(5) apart by (simp_all add: moved_def)
  have "\<not> (\<exists>q\<in>opn. below ?p' q)" using fresh_path [OF rep free] by blast
  then have "abs_rename user opn ?p' ?p ?F = (Success, F)"
    using b e d moved_back [OF rep free apart] by (auto simp: abs_rename_def rename_at_def)
  moreover have "through_dirs ?F ?p'" "through_dirs ?F ?p" using dirs pre pre' by (simp_all add: through_dirs_def)
  ultimately show ?thesis using rename [OF s(2) [unfolded out] n(2,1) _ _ apart(2,1)] by simp
qed

end

end
