(* ===== verification/DataCalls.thy ===== *)
theory DataCalls
  imports FileIO Queries
begin

text \<open>
  What the calls that move file data leave alone: the map of paths up to the sizes of files,
  the data of other files, and the size of the cache. All are relations between states that are kept
  by every step of the file cache; that \<^verbatim>\<open>ReadFile\<close> and \<^verbatim>\<open>WriteFile\<close> keep such a relation is proved once.
\<close>

section \<open>What reading and writing file data changes\<close>

text \<open>
  \<open>data_step\<close>: entries keep everything but the size and the first cluster of a file.
\<close>

definition resized :: "FstEntry \<Rightarrow> FstEntry \<Rightarrow> bool" where
  "resized e e' \<longleftrightarrow> (\<exists>sub z. e' = e\<lparr>e_sub := sub, e_size := z\<rparr> \<and> (IsFile e \<or> sub = e_sub e \<and> z = e_size e))"

definition data_step :: "Superblock \<Rightarrow> Superblock \<Rightarrow> bool" where
  "data_step sb sb' \<longleftrightarrow> sb_wf sb' \<and> (\<forall>g. resized (fst_at sb g) (fst_at sb' g))"

definition hview :: "FileSystemImpl \<Rightarrow> (bool \<times> u16) list" where
  "hview s = map (\<lambda>h. (h_opened h, h_fst_index h)) (m_handles s)"

definition data_rel :: "FileSystemImpl \<Rightarrow> FileSystemImpl \<Rightarrow> bool" where
  "data_rel s s' \<longleftrightarrow> hview s' = hview s \<and> (cache_ok s \<longrightarrow> cache_ok s') \<and>
     (\<forall>sb. m_superblock s = Some sb \<longrightarrow> sb_wf sb \<longrightarrow> (\<exists>sb'. m_superblock s' = Some sb' \<and> data_step sb sb'))"

lemma resized_refl: "resized e e"
  unfolding resized_def by (intro exI [of _ "e_sub e"] exI [of _ "e_size e"]) simp

lemma resized_trans: "resized e e' \<Longrightarrow> resized e' e'' \<Longrightarrow> resized e e''"
  unfolding resized_def by (elim exE conjE) (intro exI conjI, simp, auto simp: IsFile_def)

lemma data_step_trans: "data_step sb sb1 \<Longrightarrow> data_step sb1 sb2 \<Longrightarrow> data_step sb sb2"
  unfolding data_step_def using resized_trans by blast

lemma resized_keeps:
  assumes "resized e e'"
  shows "e_mode e' = e_mode e" "GetName e' = GetName e" "e_sib e' = e_sib e" "IsFile e' = IsFile e" "IsDirectory e' = IsDirectory e"
    "\<not> IsFile e \<Longrightarrow> e' = e"
  using assms by (auto simp: resized_def IsFile_def IsDirectory_def)

lemma data_step_wf:
  assumes "data_step sb sb'"
  shows "sb_wf sb'" "IsFile (fst_at sb' g) = IsFile (fst_at sb g)"
  using assms resized_keeps(4) [of "fst_at sb g" "fst_at sb' g"] by (simp_all add: data_step_def)

lemma data_rel_refl: "data_rel s s"
  by (auto simp: data_rel_def data_step_def resized_refl)

lemma data_rel_sb:
  "data_rel s s' \<Longrightarrow> m_superblock s = Some sb \<Longrightarrow> sb_wf sb \<Longrightarrow> \<exists>sb'. m_superblock s' = Some sb' \<and> data_step sb sb'"
  by (simp add: data_rel_def)

lemma data_rel_trans:
  assumes "data_rel s s'" "data_rel s' s''"
  shows "data_rel s s''"
proof -
  have "\<exists>sb'. m_superblock s'' = Some sb' \<and> data_step sb sb'" if sb: "m_superblock s = Some sb" "sb_wf sb" for sb
  proof -
    obtain sb1 where sb1: "m_superblock s' = Some sb1" "data_step sb sb1" using data_rel_sb [OF assms(1) sb] by blast
    obtain sb2 where "m_superblock s'' = Some sb2" "data_step sb1 sb2"
      using data_rel_sb [OF assms(2) sb1(1) data_step_wf(1) [OF sb1(2)]] by blast
    then show ?thesis using data_step_trans [OF sb1(2)] by blast
  qed
  then show ?thesis using assms by (simp add: data_rel_def)
qed

lemma data_rel_same:
  "m_superblock s' = m_superblock s \<Longrightarrow> hview s' = hview s \<Longrightarrow> (cache_ok s \<Longrightarrow> cache_ok s') \<Longrightarrow> data_rel s s'"
  by (auto simp: data_rel_def data_step_def resized_refl)

lemma IsFileOpened_hview: "IsFileOpened s k \<longleftrightarrow> (True, k) \<in> set (hview s)"
  by (auto simp: IsFileOpened_def hview_def list_ex_iff)

lemma hview_upd_handle:
  assumes "\<And>x. h_opened (f x) = h_opened x \<and> h_fst_index (f x) = h_fst_index x"
  shows "hview (upd_handle h f s) = hview s"
proof (cases h)
  case (Slot i)
  then show ?thesis
    by (cases "i < length (m_handles s)") (simp_all add: hview_def upd_handle_def map_update assms list_update_same_conv list_update_beyond)
next
  case Internal
  then show ?thesis by (simp add: hview_def upd_handle_def)
qed

lemma data_rel_handle:
  "(\<And>x. h_opened (f x) = h_opened x \<and> h_fst_index (f x) = h_fst_index x) \<Longrightarrow> data_rel s (upd_handle h f s)"
  by (rule data_rel_same) (simp_all add: hview_upd_handle cache_ok_def)

lemma data_step_upd:
  assumes "sb_wf sb" "IsFile (fst_at sb k)"
  shows "data_step sb (upd_fst k (\<lambda>e. e\<lparr>e_sub := x\<rparr>) sb)" "data_step sb (upd_fst k (\<lambda>e. e\<lparr>e_size := z\<rparr>) sb)"
proof -
  have "resized e (e\<lparr>e_sub := x\<rparr>)" if "IsFile e" for e
    unfolding resized_def using that by (intro exI [of _ x] exI [of _ "e_size e"]) simp
  moreover have "resized e (e\<lparr>e_size := z\<rparr>)" if "IsFile e" for e
    unfolding resized_def using that by (intro exI [of _ "e_sub e"] exI [of _ z]) simp
  ultimately show "data_step sb (upd_fst k (\<lambda>e. e\<lparr>e_sub := x\<rparr>) sb)" "data_step sb (upd_fst k (\<lambda>e. e\<lparr>e_size := z\<rparr>) sb)"
    using assms sb_wf_upd_same [OF assms(1)] by (auto simp: data_step_def fst_at_upd_fst resized_refl)
qed

lemma data_step_fat: "sb_wf sb \<Longrightarrow> data_step sb (set_fat i v sb)"
  by (simp add: data_step_def resized_refl)

lemma link_cluster_data:
  assumes "link_cluster f i z c sb = Some sb'" "sb_wf sb" "IsFile (fst_at sb f)"
  shows "data_step sb sb'"
proof -
  define pick where "pick = (\<lambda>sb1. case GetClusterForFile sb (e_sub (fst_at sb f)) (unat i) of
      Some old \<Rightarrow> set_fat old CLUSTER_UNUSED (set_fat c (fat_at sb1 old) sb1)
    | None \<Rightarrow> set_fat c CLUSTER_LAST_IN_CHAIN sb1)"
  obtain sb1 where sb1: "data_step sb sb1" and sb': "sb' = upd_fst f (\<lambda>e. e\<lparr>e_size := z\<rparr>) (pick sb1)"
  proof (cases "i = 0")
    case True
    then show thesis using that [OF data_step_upd(1) [OF assms(2,3)]] assms(1)
      by (auto simp: link_cluster_def Let_def pick_def split: option.splits)
  next
    case False
    then show thesis using that [OF data_step_fat [OF assms(2)]] assms(1)
      by (auto simp: link_cluster_def Let_def pick_def split: option.splits)
  qed
  have "data_step sb1 (pick sb1)"
    using data_step_fat data_step_trans data_step_wf(1) [OF sb1] unfolding pick_def
    by (auto split: option.split) (metis data_step_wf(1))
  then have d: "data_step sb (pick sb1)" by (rule data_step_trans [OF sb1])
  show ?thesis unfolding sb'
    by (rule data_step_trans [OF d data_step_upd(2)]) (use d assms(3) data_step_wf in auto)
qed

lemma WriteFileData_data: "data_rel s (snd (WriteFileData lib f d i z s))"
proof -
  have "hview (snd (WriteFileData lib f d i z s)) = hview s" by (simp add: hview_def)
  moreover have "cache_ok (snd (WriteFileData lib f d i z s)) = cache_ok s" by (simp add: cache_ok_def)
  moreover have "\<exists>sb'. m_superblock (snd (WriteFileData lib f d i z s)) = Some sb' \<and> data_step sb sb'"
    if sb: "m_superblock s = Some sb" "sb_wf sb" for sb
  proof -
    have refl: "data_step sb sb" using sb(2) by (simp add: data_step_def resized_refl)
    show ?thesis
      using refl link_cluster_data [OF _ sb(2)] sb(1)
      by (auto simp: WriteFileData_def GetSuperblock_loaded [OF sb(1)] Let_def split: prod.split option.split)
  qed
  ultimately show ?thesis by (simp add: data_rel_def)
qed

lemma FlushFileCache_data: "data_rel s (snd (FlushFileCache lib s))"
proof (cases "m_cache_handle s")
  case None
  then show ?thesis by (simp add: FlushFileCache_def data_rel_refl)
next
  case (Some h)
  define w where "w = WriteFileData lib (h_fst_index (handle_at s h)) (m_cache_data s) (m_cache_chain_index s)
    (h_file_size (handle_at s h)) s"
  have w: "data_rel s (snd w)" unfolding w_def by (rule WriteFileData_data)
  then have "data_rel s (upd_handle h (\<lambda>x. x\<lparr>h_superblock_flush_needed := True\<rparr>) (snd w))"
    by (rule data_rel_trans) (rule data_rel_handle, simp)
  then show ?thesis using w data_rel_refl [of s] Some
    by (auto simp: FlushFileCache_def w_def [symmetric] split: prod.split)
qed

lemma GetSuperblock_data: "data_rel s (snd (GetSuperblock lib s))"
proof -
  have "m_superblock (snd (GetSuperblock lib s)) = Some sb" if "m_superblock s = Some sb" for sb
    by (simp add: GetSuperblock_loaded [OF that] that)
  then show ?thesis by (auto simp: data_rel_def hview_def cache_ok_def data_step_def resized_refl)
qed

section \<open>Relations kept by the file cache\<close>

text \<open>The data that is read fills one cluster.\<close>

lemma ReadCluster_size:
  assumes "mbedtls_ok lib" "ReadCluster lib keys nand c = Inr r"
  shows "length (rr_data r) = CLUSTER_DATA_SIZE"
proof -
  define raw where "raw = concat (map (\<lambda>p. mem_read nand (page_addr c p) DATA_BYTES_PER_PAGE) [0..<PAGES_PER_CLUSTER])"
  have "length (concat (map (\<lambda>p. mem_read nand (page_addr c p) DATA_BYTES_PER_PAGE) xs)) = length xs * DATA_BYTES_PER_PAGE" for xs
    by (induction xs) simp_all
  then have raw: "length raw = CLUSTER_DATA_SIZE" by (simp add: raw_def CLUSTER_DATA_SIZE_def)
  then have "whole_blocks raw" by (simp add: whole_blocks_def layout_consts)
  then have "length (fst (AesDecrypt lib (key_aes keys) (replicate 16 0) raw)) = length raw"
    using assms(1) by (simp add: mbedtls_ok_def AesDecrypt_def)
  then show ?thesis
    using assms(2) raw by (auto simp: ReadCluster_def Let_def read_pages_fold raw_def [symmetric] split: if_split_asm)
qed

lemma ReadFileData_size:
  assumes "mbedtls_ok lib" "ReadFileData lib f i s = Some (Inr d, s')"
  shows "length d = CLUSTER_DATA_SIZE"
  using assms(2) ReadCluster_size [OF assms(1)]
  by (auto simp: ReadFileData_def Let_def split: if_split_asm prod.split_asm option.split_asm sum.split_asm)

text \<open>
  \<open>may s h\<close>: the handle \<open>h\<close> may become the handle of the cache. The relation \<open>R\<close> holds for
  every change of the position or size of a handle, for every change of the cache that
  respects \<open>may\<close> and either keeps the number of cached bytes or caches one cluster for a handle,
  and for a flush of the cache.
\<close>

locale cache_relation =
  fixes lib :: "('k, 'c) mbedtls" and R :: "FileSystemImpl \<Rightarrow> FileSystemImpl \<Rightarrow> bool"
    and may :: "FileSystemImpl \<Rightarrow> HandleRef \<Rightarrow> bool"
  assumes same: "R s s" and step: "R s s' \<Longrightarrow> R s' s'' \<Longrightarrow> R s s''"
    and may: "R s s' \<Longrightarrow> may s h \<Longrightarrow> may s' h"
    and handle: "(\<And>x. h_opened (f x) = h_opened x \<and> h_fst_index (f x) = h_fst_index x) \<Longrightarrow> R s (upd_handle h f s)"
    and cache: "c = m_cache_handle s \<or> (\<exists>h. c = Some h \<and> may s h) \<Longrightarrow>
      mbedtls_ok lib \<longrightarrow> length d = length (m_cache_data s) \<or> c \<noteq> None \<and> length d = CLUSTER_DATA_SIZE \<Longrightarrow>
      R s (s\<lparr>m_cache_handle := c, m_cache_chain_index := i, m_cache_for_write := w, m_cache_data := d\<rparr>)"
    and flush: "R s (snd (FlushFileCache lib s))"
    and load: "R s (snd (GetSuperblock lib s))"
begin

lemma cache_data:
  "mbedtls_ok lib \<longrightarrow> length d = length (m_cache_data s) \<or> m_cache_handle s \<noteq> None \<and> length d = CLUSTER_DATA_SIZE \<Longrightarrow>
   R s (s\<lparr>m_cache_data := d\<rparr>)"
  using cache [where c = "m_cache_handle s" and s = s and i = "m_cache_chain_index s" and w = "m_cache_for_write s" and d = d] by simp

lemma read_cluster: "ReadFileData lib f i s = Some (r, s') \<Longrightarrow> R s s'"
  using ReadFileData_state [of lib f i s r s'] same load by blast

lemma populate:
  assumes "PopulateFileCache lib h off w s = Some (r, s')" "may s h"
  shows "R s s'"
proof -
  obtain res s1 where f: "FlushFileCache lib s = (res, s1)" by (cases "FlushFileCache lib s")
  have s1: "R s s1" using flush [of s] f by simp
  define s2 where "s2 = s1\<lparr>m_cache_handle := Some h, m_cache_chain_index := ucast (off div of_nat CLUSTER_DATA_SIZE), m_cache_for_write := w\<rparr>"
  have "R s1 s2" unfolding s2_def
    using cache [where c = "Some h" and s = s1 and d = "m_cache_data s1"] may [OF s1 assms(2)] by simp
  then have s12: "R s s2" by (rule step [OF s1])
  define zero where "zero \<longleftrightarrow> off mod of_nat CLUSTER_DATA_SIZE = 0 \<and> off = h_file_size (handle_at s2 h)"
  have "PopulateFileCache lib h off w s =
    (if m_cache_handle s = Some h \<and> m_cache_chain_index s = ucast (off div of_nat CLUSTER_DATA_SIZE) then Some (Success, s)
     else if res \<noteq> Success then Some (res, s1)
     else if zero then Some (Success, s2\<lparr>m_cache_data := replicate CLUSTER_DATA_SIZE 0\<rparr>)
     else ReadFileData lib (h_fst_index (handle_at s2 h)) (ucast (off div of_nat CLUSTER_DATA_SIZE)) s2 \<bind>
       (\<lambda>(data, s3). Some (case data of Inl e \<Rightarrow> (e, s3) | Inr bytes \<Rightarrow> (Success, s3\<lparr>m_cache_data := bytes\<rparr>))))"
    unfolding PopulateFileCache_def Let_def f prod.case s2_def zero_def by (rule refl)
  note eq = trans [OF this [symmetric] assms(1)]
  show ?thesis
  proof (cases "m_cache_handle s = Some h \<and> m_cache_chain_index s = ucast (off div of_nat CLUSTER_DATA_SIZE) \<or> res \<noteq> Success \<or> zero")
    case True
    then have "s' = s \<or> s' = s1 \<or> s' = s2\<lparr>m_cache_data := replicate CLUSTER_DATA_SIZE 0\<rparr>"
      using eq by (auto split: if_split_asm)
    moreover have "R s2 (s2\<lparr>m_cache_data := replicate CLUSTER_DATA_SIZE 0\<rparr>)" by (rule cache_data) (simp add: s2_def)
    ultimately show ?thesis using same s1 step [OF s12] by blast
  next
    case False
    then obtain d s3 where d: "ReadFileData lib (h_fst_index (handle_at s2 h)) (ucast (off div of_nat CLUSTER_DATA_SIZE)) s2 = Some (d, s3)"
      "(case d of Inl e \<Rightarrow> (e, s3) | Inr bytes \<Rightarrow> (Success, s3\<lparr>m_cache_data := bytes\<rparr>)) = (r, s')"
      using eq by (auto simp: bind_eq_Some_conv)
    have s13: "R s s3" by (rule step [OF s12 read_cluster [OF d(1)]])
    have h3: "m_cache_handle s3 = Some h" using ReadFileData_state [OF d(1)] by (auto simp: s2_def)
    show ?thesis
    proof (cases d)
      case (Inr bytes)
      have "R s3 (s3\<lparr>m_cache_data := bytes\<rparr>)"
        by (rule cache_data) (use h3 ReadFileData_size [OF _ d(1) [unfolded Inr]] in simp)
      then show ?thesis using step [OF s13] d(2) Inr by auto
    qed (use s13 d(2) in simp)
  qed
qed

lemma reading:
  "read_loop l h count p ptr s = Some res \<Longrightarrow> l = lib \<Longrightarrow> may s h \<Longrightarrow> R s (snd res)"
proof (induction arbitrary: rule: read_loop.raw_induct [rotated, consumes 1])
  case (1 read_loop l h count p ptr s res)
  show ?case
  proof (cases "p = count")
    case True
    then show ?thesis using 1(2) by (auto intro: same)
  next
    case False
    obtain r s1 where r: "PopulateFileCache l h (h_file_offset (handle_at s h)) False s = Some (r, s1)"
      using 1(2) False by (auto simp: bind_eq_Some_conv)
    note s1 = populate [OF r [unfolded 1(3)] 1(4)]
    show ?thesis
    proof (cases "r = Success \<and> \<not> cache_start s1 h > length (m_cache_data s1)")
      case True
      let ?n = "copy_length s1 h (count - p)"
      let ?s2 = "upd_handle h (\<lambda>x. x\<lparr>h_file_offset := h_file_offset x + of_nat ?n\<rparr>) s1"
      have "read_loop l h count (p + of_nat ?n)
          (copy_into ptr (unat p) (slice (cache_start s1 h) ?n (m_cache_data s1))) ?s2 = Some res"
        using 1(2) False r True by (simp add: Let_def)
      note rec = 1(1) [OF this 1(3)]
      have "R s1 ?s2" by (rule handle) simp
      then have s2: "R s ?s2" by (rule step [OF s1])
      show ?thesis by (rule step [OF s2 rec [OF may [OF s2 1(4)]]])
    next
      case f: False
      then show ?thesis using 1(2) False r s1 by (auto simp: Let_def split: if_split_asm)
    qed
  qed
qed

lemma writing:
  "write_loop l h ptr count p s = Some res \<Longrightarrow> l = lib \<Longrightarrow> may s h \<Longrightarrow> R s (snd res)"
proof (induction rule: write_loop.raw_induct [rotated, consumes 1])
  case (1 write_loop l h ptr count p s res)
  show ?case
  proof (cases "p = count")
    case True
    then show ?thesis using 1(2) by (auto intro: same)
  next
    case False
    obtain r s1 where r: "PopulateFileCache l h (h_file_offset (handle_at s h)) True s = Some (r, s1)"
      using 1(2) False by (auto simp: bind_eq_Some_conv)
    note s1 = populate [OF r [unfolded 1(3)] 1(4)]
    show ?thesis
    proof (cases "r = Success \<and> \<not> cache_start s1 h > length (m_cache_data s1)")
      case True
      let ?n = "copy_length s1 h (count - p)"
      let ?s2 = "s1\<lparr>m_cache_data := copy_into (m_cache_data s1) (cache_start s1 h) (slice (unat p) ?n ptr)\<rparr>"
      let ?s3 = "upd_handle h (\<lambda>x. x\<lparr>h_file_offset := h_file_offset x + of_nat ?n\<rparr>) ?s2"
      let ?s4 = "upd_handle h (\<lambda>x. x\<lparr>h_file_size := max (h_file_offset x) (h_file_size x)\<rparr>) ?s3"
      have "write_loop l h ptr count (p + of_nat ?n) ?s4 = Some res"
        using 1(2) False r True by (simp add: Let_def)
      note rec = 1(1) [OF this 1(3)]
      have "R ?s2 ?s3" "R ?s3 ?s4" by (rule handle, simp)+
      moreover have "cache_start s1 h + length (slice (unat p) ?n ptr) \<le> length (m_cache_data s1)"
        using True by (auto simp: copy_length_def length_slice_min)
      then have "R s1 ?s2" by (intro cache_data) simp
      ultimately have s4: "R s ?s4" using step s1 by blast
      show ?thesis by (rule step [OF s4 rec [OF may [OF s4 1(4)]]])
    next
      case f: False
      then show ?thesis using 1(2) False r s1 by (auto simp: Let_def split: if_split_asm)
    qed
  qed
qed

lemma read_file:
  assumes "ReadFile lib fd ptr count s = Some (r, s')" "\<And>h. GetHandleFromFd fd s = Some h \<Longrightarrow> may s h"
  shows "R s s'"
proof (cases "GetHandleFromFd fd s")
  case None
  then show ?thesis using assms(1) by (simp add: ReadFile_def same)
next
  case (Some h)
  then show ?thesis
    using assms(1) reading [OF _ refl assms(2) [OF Some], of _ 0 ptr "(r, s')"]
    by (auto simp: ReadFile_def Let_def same split: if_split_asm)
qed

lemma write_file:
  assumes "WriteFile lib fd ptr count s = Some (r, s')" "\<And>h. GetHandleFromFd fd s = Some h \<Longrightarrow> may s h"
  shows "R s s'"
proof (cases "GetHandleFromFd fd s")
  case None
  then show ?thesis using assms(1) by (simp add: WriteFile_def same)
next
  case (Some h)
  then show ?thesis
    using assms(1) writing [OF _ refl assms(2) [OF Some], of ptr count 0 "(r, s')"]
    by (auto simp: WriteFile_def Let_def same split: if_split_asm)
qed

end

text \<open>The first relation: the map of paths stays the same up to the sizes of files.\<close>

interpretation shape: cache_relation lib data_rel "\<lambda>_ h. valid_ref h"
  for lib :: "('k, 'c) mbedtls"
proof unfold_locales
  show "data_rel s s''" if "data_rel s s'" "data_rel s' s''" for s s' s'' by (rule data_rel_trans [OF that])
  show "data_rel s (s\<lparr>m_cache_handle := c, m_cache_chain_index := i, m_cache_for_write := w, m_cache_data := d\<rparr>)"
    if "c = m_cache_handle s \<or> (\<exists>h. c = Some h \<and> valid_ref h)"
      "mbedtls_ok lib \<longrightarrow> length d = length (m_cache_data s) \<or> c \<noteq> None \<and> length d = CLUSTER_DATA_SIZE" for c s i w d
    by (rule data_rel_same) (use that in \<open>auto simp: hview_def cache_ok_def\<close>)
qed (simp_all add: data_rel_refl data_rel_handle FlushFileCache_data GetSuperblock_data)

lemma ReadFile_data: "ReadFile lib fd ptr count s = Some (r, s') \<Longrightarrow> data_rel s s'"
  by (rule shape.read_file [OF _ GetHandleFromFd_valid])

lemma WriteFile_data: "WriteFile lib fd ptr count s = Some (r, s') \<Longrightarrow> data_rel s s'"
  by (rule shape.write_file [OF _ GetHandleFromFd_valid])

text \<open>
  The second relation: the cached bytes are those of one cluster, or there are none; without a
  handle of the cache there are none.
\<close>

definition cache_sized :: "FileSystemImpl \<Rightarrow> bool" where
  "cache_sized s \<longleftrightarrow> length (m_cache_data s) \<in> {0, CLUSTER_DATA_SIZE} \<and> (m_cache_handle s = None \<longrightarrow> m_cache_data s = [])"

lemma cache_sized_cong:
  "m_cache_handle s' = m_cache_handle s \<Longrightarrow> m_cache_data s' = m_cache_data s \<Longrightarrow> cache_sized s' = cache_sized s"
  by (simp add: cache_sized_def)

lemma FlushFileCache_cache:
  "m_cache_handle (snd (FlushFileCache lib s)) = m_cache_handle s" "m_cache_data (snd (FlushFileCache lib s)) = m_cache_data s"
proof -
  have "m_cache_handle (snd (FlushFileCache lib s)) = m_cache_handle s \<and> m_cache_data (snd (FlushFileCache lib s)) = m_cache_data s"
  proof (cases "m_cache_handle s")
    case (Some h)
    define w where "w = WriteFileData lib (h_fst_index (handle_at s h)) (m_cache_data s) (m_cache_chain_index s)
      (h_file_size (handle_at s h)) s"
    have "m_cache_handle (snd w) = m_cache_handle s" "m_cache_data (snd w) = m_cache_data s" by (simp_all add: w_def)
    then show ?thesis using Some by (auto simp: FlushFileCache_def w_def [symmetric] split: prod.split)
  qed (simp add: FlushFileCache_def)
  then show "m_cache_handle (snd (FlushFileCache lib s)) = m_cache_handle s" "m_cache_data (snd (FlushFileCache lib s)) = m_cache_data s"
    by simp_all
qed

interpretation sized: cache_relation lib "\<lambda>s s'. mbedtls_ok lib \<longrightarrow> cache_sized s \<longrightarrow> cache_sized s'" "\<lambda>_ _. True"
  for lib :: "('k, 'c) mbedtls"
proof unfold_locales
  fix s :: FileSystemImpl
  show "mbedtls_ok lib \<longrightarrow> cache_sized s \<longrightarrow> cache_sized (snd (FlushFileCache lib s))"
    by (simp add: cache_sized_def FlushFileCache_cache)
qed (auto simp: cache_sized_def)

lemma ReadFile_sized: "mbedtls_ok lib \<Longrightarrow> ReadFile lib fd ptr count s = Some (r, s') \<Longrightarrow> cache_sized s \<longrightarrow> cache_sized s'"
  using sized.read_file [of lib fd ptr count s r s'] by blast

lemma WriteFile_sized: "mbedtls_ok lib \<Longrightarrow> WriteFile lib fd ptr count s = Some (r, s') \<Longrightarrow> cache_sized s \<longrightarrow> cache_sized s'"
  using sized.write_file [of lib fd ptr count s r s'] by blast

lemma close_handle_cache:
  assumes "mbedtls_ok lib" "\<And>sb. m_superblock s = Some sb \<Longrightarrow> sb_wf sb" "close_handle lib h s = Some (r, s')"
  shows "m_cache_handle s' = m_cache_handle s" "m_cache_data s' = m_cache_data s"
  using assms FlushSuperblock_eq [OF assms(1)] FlushSuperblock_None [of s lib]
  by (cases "m_superblock s"; auto simp: close_handle_def split: if_splits)+

lemma Close_sized:
  assumes ok: "mbedtls_ok lib" and s: "m_superblock s = Some sb" "sb_wf sb" and r: "Close lib fd s = Some (r, s')"
  shows "cache_sized s \<longrightarrow> cache_sized s'"
proof (cases "GetHandleFromFd fd s")
  case None
  then show ?thesis using r by (simp add: Close_def)
next
  case (Some h)
  obtain res s1 where f: "FlushFileCache lib s = (res, s1)" by (cases "FlushFileCache lib s")
  have c1: "cache_sized s1 = cache_sized s"
    using FlushFileCache_cache [of lib s] f by (intro cache_sized_cong) simp_all
  define s2 where "s2 = s1\<lparr>m_cache_handle := None, m_cache_data := []\<rparr>"
  obtain sb1 where sb1: "m_superblock s1 = Some sb1" "sb_wf sb1"
    using data_rel_sb [OF FlushFileCache_data [of s lib] s] f by (auto simp: data_step_def)
  consider "s' = s1" | "close_handle lib h s2 = Some (r, s')" | "close_handle lib h s = Some (r, s')"
    using r Some f by (auto simp: Close_def s2_def split: if_splits)
  then show ?thesis
  proof cases
    case 2
    then have "m_cache_handle s' = None" "m_cache_data s' = []"
      using close_handle_cache [OF ok _ 2] sb1 by (simp_all add: s2_def)
    then show ?thesis by (simp add: cache_sized_def)
  next
    case 3
    then show ?thesis using close_handle_cache [OF ok _ 3] s cache_sized_cong [of s' s] by simp
  qed (simp add: c1)
qed

section \<open>Data operations keep the map\<close>

text \<open>Two maps with the same paths, whose entries differ in the sizes of files only.\<close>

definition same_shape :: "path_map \<Rightarrow> path_map \<Rightarrow> bool" where
  "same_shape F F' \<longleftrightarrow> (\<forall>p. map_option (\<lambda>e. e\<lparr>e_size := 0\<rparr>) (F' p) = map_option (\<lambda>e. e\<lparr>e_size := 0\<rparr>) (F p))"

lemma forest_data:
  "forest sb i ts \<Longrightarrow> (\<And>g. resized (fst_at sb g) (fst_at sb' g)) \<Longrightarrow> forest sb' i ts"
proof (induction sb i ts rule: forest.induct)
  case (2 sb i j ts rs)
  have r: "resized (fst_at sb j) (fst_at sb' j)" by (rule 2(4))
  have "forest sb' (e_sib (fst_at sb j)) rs" using 2(2,3,4) by simp
  moreover have "forest sb' (e_sub (fst_at sb j)) ts" if "\<not> IsFile (fst_at sb j)" using 2(1,3,4) that by simp
  ultimately show ?case
    using 2(3) resized_keeps(3-5) [OF r] resized_keeps(6) [OF r] by (cases "IsFile (fst_at sb j)") simp_all
qed simp

lemma resized_tree:
  assumes inv: "tree_inv sb T" and wf: "sb_wf sb'" and r: "\<And>g. resized (fst_at sb g) (fst_at sb' g)"
  shows "tree_inv sb' T" "entries sb' T = entries sb T" "links_ok sb \<Longrightarrow> links_ok sb'"
proof -
  note k = resized_keeps [OF r]
  have "names_ok sb T" "forest sb 0 T" using inv by (simp_all add: tree_inv_def)
  then show "tree_inv sb' T" using names_ok_cong [of sb T sb'] forest_data [OF _ r] k(2) inv wf by (simp add: tree_inv_def)
  have "named sb' = named sb" by (simp add: named_def fun_eq_iff k(2))
  then have "resolve sb' T j ns = resolve sb T j ns" for j ns
    by (induction ns arbitrary: j) (simp_all cong: option.case_cong)
  then show "entries sb' T = entries sb T" by (simp add: entries_def fun_eq_iff)
  assume lk: "links_ok sb"
  show "links_ok sb'"
    unfolding links_ok_def
  proof (intro allI impI)
    fix g assume g: "in_fst g"
    have "fst_at sb' g = fst_at sb g" if "IsDirectory (fst_at sb g)"
      by (rule k(6)) (use that in \<open>simp add: IsFile_def IsDirectory_def\<close>)
    then show "link_ok (e_sib (fst_at sb' g)) \<and> (IsDirectory (fst_at sb' g) \<longrightarrow> link_ok (e_sub (fst_at sb' g)))"
      using lk g unfolding links_ok_def k(3) k(5) by auto
  qed
qed

lemma resized_represents:
  assumes inv: "tree_inv sb T" and lk: "links_ok sb" and lv: "live s sb T"
    and sb': "m_superblock s' = Some sb'" "sb_wf sb'" and r: "\<And>g. resized (fst_at sb g) (fst_at sb' g)"
    and o: "\<And>g. IsFileOpened s' g = IsFileOpened s g"
  shows "represents s' (view sb' T) (open_paths s sb T)"
proof -
  note t = resized_tree [OF inv sb'(2) r]
  have "live s' sb' T" using lv resized_keeps(4) [OF r] by (simp add: live_def o t(2))
  moreover have "open_paths s' sb' T = open_paths s sb T" by (simp add: open_paths_def o t(2))
  ultimately show ?thesis unfolding represents_def using sb'(1) t(1) t(3) [OF lk] by metis
qed

lemma data_represents:
  assumes rep: "represents s F opn" and dat: "data_rel s s'"
  shows "\<exists>F'. represents s' F' opn \<and> same_shape F F'"
proof -
  obtain sb T where sb: "m_superblock s = Some sb" and inv: "tree_inv sb T" and lk: "links_ok sb" and lv: "live s sb T"
    and F: "F = view sb T" and opn: "opn = open_paths s sb T" using rep by (auto simp: represents_def)
  have "sb_wf sb" using inv by (simp add: tree_inv_def)
  then obtain sb' where sb': "m_superblock s' = Some sb'" "sb_wf sb'" and r: "\<And>g. resized (fst_at sb g) (fst_at sb' g)"
    using data_rel_sb [OF dat sb] by (auto simp: data_step_def)
  have "IsFileOpened s' g = IsFileOpened s g" for g using dat by (simp add: IsFileOpened_hview data_rel_def)
  note rep' = resized_represents [OF inv lk lv sb' r this]
  have "(inode sb' g)\<lparr>e_size := 0\<rparr> = (inode sb g)\<lparr>e_size := 0\<rparr>" for g
    using r [of g] by (auto simp: resized_def meta_def)
  then have "same_shape F (view sb' T)"
    by (simp add: same_shape_def F view_def resized_tree(2) [OF inv sb'(2) r] option.map_comp comp_def)
  then show ?thesis using rep' opn by blast
qed

lemma represents_fewer:
  assumes rep: "represents s F opn" and sb: "m_superblock s' = m_superblock s" and o: "\<And>k. IsFileOpened s' k \<Longrightarrow> IsFileOpened s k"
  shows "\<exists>opn'. represents s' F opn' \<and> opn' \<subseteq> opn"
proof -
  obtain sb1 T where r: "m_superblock s = Some sb1" "tree_inv sb1 T" "links_ok sb1" "live s sb1 T"
    and F: "F = view sb1 T" "opn = open_paths s sb1 T" using rep by (auto simp: represents_def)
  have "live s' sb1 T" using r(4) o by (simp add: live_def)
  then have "represents s' F (open_paths s' sb1 T)" unfolding represents_def using r sb F(1) by auto
  moreover have "open_paths s' sb1 T \<subseteq> opn" using o by (auto simp: F(2) open_paths_def)
  ultimately show ?thesis by blast
qed

lemma close_handle_represents:
  assumes ok: "mbedtls_ok lib" and rep: "represents s F opn" and r: "close_handle lib h s = Some (r, s')"
  shows "\<exists>opn'. represents s' F opn' \<and> opn' \<subseteq> opn \<and> length (m_handles s') = length (m_handles s) \<and> m_cache_handle s' = m_cache_handle s"
proof -
  have closed: "\<exists>opn'. represents (upd_handle h (\<lambda>_. new_Handle) t) F opn' \<and> opn' \<subseteq> opn" if "represents t F opn" for t
  proof (rule represents_fewer [OF that])
    show "m_superblock (upd_handle h (\<lambda>_. new_Handle) t) = m_superblock t" by simp
    show "IsFileOpened t k" if "IsFileOpened (upd_handle h (\<lambda>_. new_Handle) t) k" for k
      using that set_update_subset_insert [of "m_handles t" _ new_Handle]
      by (cases h) (fastforce simp: IsFileOpened_def list_ex_iff upd_handle_def new_Handle_def)+
  qed
  obtain sb T where sb: "m_superblock s = Some sb" "tree_inv sb T" "links_ok sb" "live s sb T"
    and F: "F = view sb T" "opn = open_paths s sb T" using rep by (auto simp: represents_def)
  note f = flushed_represents(1,2) [OF ok sb, folded F]
  show ?thesis
    using r closed [OF rep] closed [OF f(2)] f(1) rep
    by (auto simp: close_handle_def split: if_splits)
qed

lemma Close_represents:
  assumes ok: "mbedtls_ok lib" and rep: "represents s F opn" and c: "cache_ok s" and r: "Close lib fd s = Some (r, s')"
  shows "\<exists>F' opn'. represents s' F' opn' \<and> same_shape F F' \<and> opn' \<subseteq> opn \<and> length (m_handles s') = length (m_handles s) \<and> cache_ok s'"
proof (cases "GetHandleFromFd fd s")
  case None
  then show ?thesis using r rep c by (auto simp: Close_def same_shape_def)
next
  case (Some h)
  obtain res s1 where f: "FlushFileCache lib s = (res, s1)" by (cases "FlushFileCache lib s")
  have d1: "data_rel s s1" using FlushFileCache_data [of s lib] f by simp
  define s2 where "s2 = s1\<lparr>m_cache_handle := None, m_cache_data := []\<rparr>"
  have d2: "data_rel s s2"
    unfolding s2_def by (rule data_rel_trans [OF d1 data_rel_same]) (simp_all add: hview_def cache_ok_def)
  have len: "length (m_handles t) = length (m_handles s)" if "data_rel s t" for t
  proof -
    have "length (hview t) = length (hview s)" using that by (simp add: data_rel_def)
    then show ?thesis by (simp add: hview_def)
  qed
  have keep: "\<exists>F'. represents t F' opn \<and> same_shape F F' \<and> length (m_handles t) = length (m_handles s) \<and> cache_ok t" if "data_rel s t" for t
  proof -
    have "cache_ok t" using that c by (simp add: data_rel_def)
    then show ?thesis using data_represents [OF rep that] len [OF that] by blast
  qed
  have close: "\<exists>F' opn'. represents s' F' opn' \<and> same_shape F F' \<and> opn' \<subseteq> opn \<and> length (m_handles s') = length (m_handles s) \<and> cache_ok s'"
    if t: "data_rel s t" "close_handle lib h t = Some (r, s')" for t
  proof -
    obtain F' where F': "represents t F' opn" "same_shape F F'" "length (m_handles t) = length (m_handles s)" "cache_ok t"
      using keep [OF t(1)] by blast
    obtain opn' where o: "represents s' F' opn'" "opn' \<subseteq> opn" "length (m_handles s') = length (m_handles t)"
      "m_cache_handle s' = m_cache_handle t" using close_handle_represents [OF ok F'(1) t(2)] by blast
    have "cache_ok s'" using F'(4) o(4) by (simp add: cache_ok_def)
    then show ?thesis using F' o by auto
  qed
  consider "s' = s1" | "close_handle lib h s2 = Some (r, s')" | "close_handle lib h s = Some (r, s')"
    using r Some f by (auto simp: Close_def s2_def split: if_splits)
  then show ?thesis
  proof cases
    case 1
    then show ?thesis using keep [OF d1] by blast
  next
    case 2
    then show ?thesis by (rule close [OF d2])
  next
    case 3
    then show ?thesis by (rule close [OF data_rel_refl])
  qed
qed

section \<open>Data calls keep the data of other files\<close>

text \<open>
  \<open>quiet lib X s s'\<close>: if the file of the cached handle is in \<open>X\<close>, this stays so, and files
  outside \<open>X\<close> keep their data.
\<close>

abbreviation index_at :: "FileSystemImpl \<Rightarrow> HandleRef \<Rightarrow> u16" where
  "index_at s h \<equiv> h_fst_index (handle_at s h)"

definition cached_in :: "u16 set \<Rightarrow> FileSystemImpl \<Rightarrow> bool" where
  "cached_in X s \<longleftrightarrow> (\<forall>h. m_cache_handle s = Some h \<longrightarrow> index_at s h \<in> X)"

definition quiet :: "('k, 'c) mbedtls \<Rightarrow> u16 set \<Rightarrow> FileSystemImpl \<Rightarrow> FileSystemImpl \<Rightarrow> bool" where
  "quiet lib X s s' \<longleftrightarrow> (\<forall>h. index_at s' h = index_at s h) \<and> (cached_in X s \<longrightarrow> cached_in X s' \<and> written lib X s s')"

lemma quiet_trans: "quiet lib X s s' \<Longrightarrow> quiet lib X s' s'' \<Longrightarrow> quiet lib X s s''"
  unfolding quiet_def using written_trans by metis

lemma quiet_same:
  assumes "m_superblock s' = m_superblock s" "m_keys s' = m_keys s" "m_nand s' = m_nand s" "m_superblock_index s' = m_superblock_index s"
    "\<And>h. index_at s' h = index_at s h" "cached_in X s \<Longrightarrow> cached_in X s'"
  shows "quiet lib X s s'"
  using assms written_same [OF assms(1-4), of lib X] by (simp add: quiet_def)

lemma index_at_upd:
  assumes "\<And>x. h_fst_index (f x) = h_fst_index x"
  shows "index_at (upd_handle h f s) k = index_at s k"
proof (cases h)
  case (Slot i)
  then show ?thesis
    using assms by (cases k; cases "i < length (m_handles s)") (auto simp: upd_handle_def handle_at_def nth_list_update list_update_beyond)
next
  case Internal
  then show ?thesis using assms by (cases k) (simp_all add: upd_handle_def handle_at_def)
qed

lemma index_at_cong: "m_handles s' = m_handles s \<Longrightarrow> m_internal_handle s' = m_internal_handle s \<Longrightarrow> index_at s' h = index_at s h"
  by (cases h) (simp_all add: handle_at_def)

lemma written_mono: "written lib X s s' \<Longrightarrow> X \<subseteq> Y \<Longrightarrow> written lib Y s s'"
  unfolding written_def kept_data_def by (meson subsetD)

lemma quiet_handle: "(\<And>x. h_fst_index (f x) = h_fst_index x) \<Longrightarrow> quiet lib X s (upd_handle h f s)"
  by (rule quiet_same) (simp_all add: index_at_upd cached_in_def)

lemma FlushFileCache_quiet:
  assumes ok: "mbedtls_ok lib"
  shows "quiet lib X s (snd (FlushFileCache lib s))"
proof -
  have refl: "quiet lib X s s" by (rule quiet_same) simp_all
  show ?thesis
  proof (cases "m_cache_handle s = None \<or> length (m_cache_data s) \<noteq> CLUSTER_DATA_SIZE")
    case True
    then show ?thesis using refl by (auto simp: FlushFileCache_def split: option.split)
  next
    case False
    then obtain h where h: "m_cache_handle s = Some h" "length (m_cache_data s) = CLUSTER_DATA_SIZE" by auto
    define w where "w = WriteFileData lib (index_at s h) (m_cache_data s) (m_cache_chain_index s) (h_file_size (handle_at s h)) s"
    have "written lib {index_at s h} s (snd w)" unfolding w_def by (rule WriteFileData_written [OF ok h(2)])
    then have "cached_in X s \<Longrightarrow> written lib X s (snd w)" using h(1) by (auto simp: cached_in_def intro: written_mono)
    moreover have i: "index_at (snd w) k = index_at s k" for k by (rule index_at_cong) (simp_all add: w_def)
    moreover have "m_cache_handle (snd w) = m_cache_handle s" by (simp add: w_def)
    ultimately have w: "quiet lib X s (snd w)" by (simp add: quiet_def cached_in_def)
    then have "quiet lib X s (upd_handle h (\<lambda>x. x\<lparr>h_superblock_flush_needed := True\<rparr>) (snd w))"
      by (rule quiet_trans) (rule quiet_handle, simp)
    then show ?thesis using w refl h(1) by (auto simp: FlushFileCache_def w_def [symmetric] split: prod.split)
  qed
qed

lemma GetSuperblock_quiet: "quiet lib X s (snd (GetSuperblock lib s))"
proof -
  have "index_at (snd (GetSuperblock lib s)) h = index_at s h" for h by (rule index_at_cong) simp_all
  moreover have "written lib X s (snd (GetSuperblock lib s))"
  proof (cases "m_superblock s")
    case None
    then show ?thesis by (simp add: written_def)
  next
    case (Some sb)
    then show ?thesis using written_same [of s s lib X] by (simp add: GetSuperblock_loaded)
  qed
  ultimately show ?thesis by (simp add: quiet_def cached_in_def)
qed

text \<open>The third relation.\<close>

lemma cache_relation_quiet:
  fixes lib :: "('k, 'c) mbedtls"
  assumes ok: "mbedtls_ok lib"
  shows "cache_relation lib (quiet lib X) (\<lambda>s h. index_at s h \<in> X)"
proof unfold_locales
  show "quiet lib X s s''" if "quiet lib X s s'" "quiet lib X s' s''" for s s' s'' by (rule quiet_trans [OF that])
  show "quiet lib X s s" for s by (rule quiet_same) simp_all
  show "index_at s' h \<in> X" if "quiet lib X s s'" "index_at s h \<in> X" for s s' h using that by (simp add: quiet_def)
  show "quiet lib X s (s\<lparr>m_cache_handle := c, m_cache_chain_index := i, m_cache_for_write := w, m_cache_data := d\<rparr>)"
    if c: "c = m_cache_handle s \<or> (\<exists>h. c = Some h \<and> index_at s h \<in> X)"
      "mbedtls_ok lib \<longrightarrow> length d = length (m_cache_data s) \<or> c \<noteq> None \<and> length d = CLUSTER_DATA_SIZE" for c s i w d
  proof (rule quiet_same)
    let ?t = "s\<lparr>m_cache_handle := c, m_cache_chain_index := i, m_cache_for_write := w, m_cache_data := d\<rparr>"
    show i: "index_at ?t k = index_at s k" for k by (rule index_at_cong) simp_all
    show "cached_in X ?t" if "cached_in X s" using c(1) that by (auto simp: cached_in_def i)
  qed simp_all
qed (simp_all add: quiet_handle FlushFileCache_quiet [OF ok] GetSuperblock_quiet)

text \<open>
  The files whose data a data call on \<open>fd\<close> may change: the file of its handle, and the file
  of the handle of the cache, which may be flushed.
\<close>

definition data_files :: "Fd \<Rightarrow> FileSystemImpl \<Rightarrow> u16 set" where
  "data_files fd s = {k. \<exists>h. (GetHandleFromFd fd s = Some h \<or> m_cache_handle s = Some h) \<and> index_at s h = k}"

lemma data_files:
  "cached_in (data_files fd s) s" "GetHandleFromFd fd s = Some h \<Longrightarrow> index_at s h \<in> data_files fd s"
  by (auto simp: cached_in_def data_files_def)

lemma quiet_written: "quiet lib (data_files fd s) s s' \<Longrightarrow> written lib (data_files fd s) s s'"
  using data_files(1) by (simp add: quiet_def)

lemma ReadFile_written:
  "mbedtls_ok lib \<Longrightarrow> ReadFile lib fd ptr count s = Some (r, s') \<Longrightarrow> written lib (data_files fd s) s s'"
  by (rule quiet_written [OF cache_relation.read_file [OF cache_relation_quiet]]) (assumption, assumption, rule data_files(2))

lemma WriteFile_written:
  "mbedtls_ok lib \<Longrightarrow> WriteFile lib fd ptr count s = Some (r, s') \<Longrightarrow> written lib (data_files fd s) s s'"
  by (rule quiet_written [OF cache_relation.write_file [OF cache_relation_quiet]]) (assumption, assumption, rule data_files(2))

lemma flushed_written:
  assumes ok: "mbedtls_ok lib" and s: "m_superblock s \<noteq> None"
  shows "written lib X s (flushed lib s)"
  unfolding written_def
proof (intro allI impI)
  fix sb assume sb: "m_superblock s = Some sb" "sb_wf sb" "files_ok sb"
  have t: "flushed lib s = flushed lib (s\<lparr>m_superblock := Some sb\<rparr>)" by (simp add: sb(1) [symmetric])
  note k = flushed_keeps_data [OF ok sb(1,3) refiles_refl sb(2) t]
  obtain v where v: "m_superblock (flushed lib s) = Some (sb\<lparr>sb_version := v\<rparr>)" using flushed_superblock [OF sb(1)] by blast
  have "file_at (sb\<lparr>sb_version := v\<rparr>) f = file_at sb f" for f by (simp add: file_at_def fst_at_def)
  then show "(\<exists>sb'. m_superblock (flushed lib s) = Some sb' \<and> sb_wf sb' \<and> files_ok sb' \<and> (\<forall>f. file_at sb' f = file_at sb f)) \<and>
     kept_data lib X s (flushed lib s) \<and> m_keys (flushed lib s) = m_keys s \<and>
     (versions_upto lib s \<longrightarrow> versions_upto lib (flushed lib s))"
    using k(1,2) v sb(2) flushed_versions_upto [OF ok] by (simp add: apart_def sb_wf_version_upd)
qed

lemma close_handle_written:
  assumes ok: "mbedtls_ok lib" and s: "m_superblock s = Some sb" "sb_wf sb" and r: "close_handle lib h s = Some (r, s')"
  shows "written lib X s s'"
proof -
  have u: "written lib X t (upd_handle h (\<lambda>_. new_Handle) t)" for t by (rule written_same) simp_all
  have f: "written lib X s (flushed lib s)" by (rule flushed_written [OF ok]) (simp add: s)
  show ?thesis using r FlushSuperblock_eq [OF ok s] u written_trans [OF f u]
    by (auto simp: close_handle_def split: if_splits)
qed

lemma Close_written:
  assumes ok: "mbedtls_ok lib" and s: "m_superblock s = Some sb" "sb_wf sb" and r: "Close lib fd s = Some (r, s')"
  shows "written lib (data_files fd s) s s'"
proof (cases "GetHandleFromFd fd s")
  case None
  then show ?thesis using r by (auto simp: Close_def intro: written_same)
next
  case (Some h)
  obtain res s1 where f: "FlushFileCache lib s = (res, s1)" by (cases "FlushFileCache lib s")
  have w1: "written lib (data_files fd s) s s1" using quiet_written [OF FlushFileCache_quiet [OF ok, of _ s]] f by simp
  define s2 where "s2 = s1\<lparr>m_cache_handle := None, m_cache_data := []\<rparr>"
  have w2: "written lib (data_files fd s) s s2" by (rule written_trans [OF w1 written_same]) (simp_all add: s2_def)
  obtain sb1 where "m_superblock s1 = Some sb1" "data_step sb sb1"
    using data_rel_sb [OF FlushFileCache_data [of s lib] s] f by auto
  then have sb1: "m_superblock s2 = Some sb1" "sb_wf sb1" using data_step_wf by (simp_all add: s2_def)
  consider "s' = s1" | "close_handle lib h s2 = Some (r, s')" | "close_handle lib h s = Some (r, s')"
    using r Some f by (auto simp: Close_def s2_def split: if_splits)
  then show ?thesis
  proof cases
    case 1
    then show ?thesis using w1 by simp
  next
    case 2
    show ?thesis by (rule written_trans [OF w2 close_handle_written [OF ok sb1 2]])
  next
    case 3
    show ?thesis by (rule close_handle_written [OF ok s 3])
  qed
qed

end
