(* ===== verification/Machine.thy ===== *)
theory Machine
  imports DataCalls Formatting Creation Renaming
begin

text \<open>
  The driver as a state machine: any sequence of calls keeps the superblock a tree that
  stands for a map of paths, in which open handles refer to existing files and no two files
  share a cluster.
\<close>

section \<open>The operations as steps\<close>

text \<open>
  \<open>fs_ok s\<close>: what every call may rely on. A path is \<open>walkable\<close> if it does not lead through a
  file; a name fits if it is not truncated.
\<close>

definition fs_ok :: "FileSystemImpl \<Rightarrow> bool" where
  "fs_ok s \<longleftrightarrow> (\<exists>F opn. represents s F opn) \<and> apart s \<and> length (m_handles s) = NUM_HANDLES \<and> cache_ok s"

lemma fs_okE:
  assumes "fs_ok s"
  obtains sb F opn where "represents s F opn" "m_superblock s = Some sb" "sb_wf sb" "files_ok sb"
proof -
  obtain F opn where rep: "represents s F opn" using assms by (auto simp: fs_ok_def)
  then obtain sb where "m_superblock s = Some sb" "sb_wf sb" by (auto simp: represents_def tree_inv_def)
  then show thesis using that rep assms by (auto simp: fs_ok_def apart_def)
qed

definition walkable :: "FileSystemImpl \<Rightarrow> string \<Rightarrow> bool" where
  "walkable s path \<longleftrightarrow> (\<forall>F opn. represents s F opn \<longrightarrow> through_dirs F (components path))"

definition name_fits :: "string \<Rightarrow> bool" where
  "name_fits path \<longleftrightarrow> good_name (file_name (SplitPath path))"

definition separate_paths :: "string \<Rightarrow> string \<Rightarrow> bool" where
  "separate_paths p p' \<longleftrightarrow> components p = components p' \<or>
     \<not> below (components p) (components p') \<and> \<not> below (components p') (components p)"

text \<open>
  \<open>fs_step lib X s s'\<close>: a call takes \<open>s\<close> to \<open>s'\<close> and may change the data of the files in \<open>X\<close>. A
  rename changes the name that the codes of the data are made with.
\<close>

definition file_index :: "FileSystemImpl \<Rightarrow> string \<Rightarrow> u16 set" where
  "file_index s path = (case m_superblock s of
     None \<Rightarrow> {}
   | Some sb \<Rightarrow> (case GetFstIndex sb path of Some (Inr k) \<Rightarrow> {k} | _ \<Rightarrow> {}))"

inductive fs_step :: "('k, 'c) mbedtls \<Rightarrow> u16 set \<Rightarrow> FileSystemImpl \<Rightarrow> FileSystemImpl \<Rightarrow> bool" for lib where
  step_Format: "Format lib uid s = Some (r, s') \<Longrightarrow> fs_step lib UNIV s s'"
| step_CreateFile: "walkable s path \<Longrightarrow> name_fits path \<Longrightarrow>
    CreateFile lib fd path attr om gm tm s = Some (r, s') \<Longrightarrow> fs_step lib {} s s'"
| step_CreateDirectory: "walkable s path \<Longrightarrow> name_fits path \<Longrightarrow>
    CreateDirectory lib fd path attr om gm tm s = Some (r, s') \<Longrightarrow> fs_step lib {} s s'"
| step_Delete: "walkable s path \<Longrightarrow> Delete lib fd path s = Some (r, s') \<Longrightarrow> fs_step lib {} s s'"
| step_Rename: "walkable s old_path \<Longrightarrow> walkable s new_path \<Longrightarrow> name_fits new_path \<Longrightarrow> separate_paths old_path new_path \<Longrightarrow>
    Rename lib fd old_path new_path s = Some (r, s') \<Longrightarrow> fs_step lib (file_index s old_path) s s'"
| step_SetMetadata: "walkable s path \<Longrightarrow>
    SetMetadata lib fd path uid gid attr om gm tm s = Some (r, s') \<Longrightarrow> fs_step lib {} s s'"
| step_ReadDirectory: "ReadDirectory lib fd path s = Some (names, s') \<Longrightarrow> fs_step lib {} s s'"
| step_GetMetadata: "GetMetadata lib fd path s = Some (md, s') \<Longrightarrow> fs_step lib {} s s'"
| step_GetNandStats: "GetNandStats lib fd s = (stats, s') \<Longrightarrow> fs_step lib {} s s'"
| step_GetDirectoryStats: "GetDirectoryStats lib fd path s = Some (dstats, s') \<Longrightarrow> fs_step lib {} s s'"
| step_OpenFs: "OpenFs uid gid s = (fs_fd, s') \<Longrightarrow> fs_step lib {} s s'"
| step_OpenFile: "walkable s path \<Longrightarrow> OpenFile lib uid gid path mode s = Some (new_fd, s') \<Longrightarrow> fs_step lib {} s s'"
| step_SeekFile: "SeekFile fd offset whence s = (position, s') \<Longrightarrow> fs_step lib {} s s'"
| step_ReadFile: "ReadFile lib fd ptr count s = Some (n, s') \<Longrightarrow> fs_step lib (data_files fd s) s s'"
| step_WriteFile: "WriteFile lib fd data count s = Some (m, s') \<Longrightarrow> fs_step lib (data_files fd s) s s'"
| step_Close: "Close lib fd s = Some (r, s') \<Longrightarrow> fs_step lib (data_files fd s) s s'"

text \<open>What a step keeps.\<close>

definition safe :: "('k, 'c) mbedtls \<Rightarrow> u16 set \<Rightarrow> FileSystemImpl \<Rightarrow> FileSystemImpl \<Rightarrow> bool" where
  "safe lib X s s' \<longleftrightarrow> fs_ok s' \<and> kept_data lib X s s' \<and> (versions_upto lib s \<longrightarrow> versions_upto lib s') \<and>
     (cache_sized s \<longrightarrow> cache_sized s')"

lemma safe_refl: "fs_ok s \<Longrightarrow> safe lib X s s"
  by (simp add: safe_def kept_data_refl)

lemma outcome_ok:
  assumes "fs_ok s" "outcome lib s opn X r F s'"
  shows "safe lib X s s'"
  using assms by (auto simp: safe_def fs_ok_def outcome_def cache_ok_def cache_sized_def)

lemma data_ok:
  assumes inv: "fs_ok s" and rel: "data_rel s s'" and w: "written lib X s s'"
    and c: "cache_sized s \<longrightarrow> cache_sized s'"
  shows "safe lib X s s'"
proof -
  obtain sb F opn where sb: "represents s F opn" "m_superblock s = Some sb" "sb_wf sb" "files_ok sb"
    by (rule fs_okE [OF inv])
  have "length (hview s') = length (hview s)" using rel by (simp add: data_rel_def)
  then have "length (m_handles s') = length (m_handles s)" by (simp add: hview_def)
  moreover have "cache_ok s \<longrightarrow> cache_ok s'" using rel by (simp add: data_rel_def)
  moreover have "apart s'" "kept_data lib X s s'" "versions_upto lib s \<longrightarrow> versions_upto lib s'"
    using w sb(2-4) by (auto simp: written_def apart_def)
  ultimately show ?thesis using inv data_represents [OF sb(1) rel] c by (auto simp: safe_def fs_ok_def)
qed

lemma walkable_dirs: "walkable s path \<Longrightarrow> represents s F opn \<Longrightarrow> through_dirs F (components path)"
  by (auto simp: walkable_def)

lemma create_ok:
  assumes ok: "mbedtls_ok lib" "fs_ok s" and n: "walkable s path" "name_fits path"
    and r: "CreateFileOrDirectory lib h path attr om gm tm is_file s = Some (r, s')"
  shows "safe lib {} s s'"
proof -
  obtain F opn where rep: "represents s F opn" using ok(2) by (auto simp: fs_ok_def)
  show ?thesis
  proof (cases "IsValidNonRootPath path \<and> \<not> list_ex bad_char path \<and> (is_file \<or> count_list path (CHR ''/'') \<le> 8)")
    case True
    then obtain s'' res F' where "CreateFileOrDirectory lib h path attr om gm tm is_file s = Some (res, s'')" "outcome lib s opn {} res F' s''"
      using CreateFileOrDirectory_refines [OF ok(1) rep _ _ _ walkable_dirs [OF n(1) rep], of is_file h attr om gm tm] n(2)
      by (auto simp: name_fits_def)
    then show ?thesis using r outcome_ok [OF ok(2)] by auto
  next
    case False
    then show ?thesis using r safe_refl [OF ok(2)] by (auto simp: CreateFileOrDirectory_def split: if_splits)
  qed
qed

lemma index_of_file:
  assumes "represents s F opn" "walkable s path"
  shows "index_of F (components path) = file_index s path"
proof -
  obtain sb T where sb: "m_superblock s = Some sb" "tree_inv sb T" and F: "F = view sb T"
    using assms(1) by (auto simp: represents_def)
  have "through_dirs (view sb T) (components path)" using walkable_dirs [OF assms(2,1)] by (simp add: F)
  note l = lookup_path [OF sb(2) this]
  show ?thesis by (simp add: file_index_def sb(1) l index_of_def F view_def split: option.split)
qed

lemma Rename_ok:
  assumes ok: "mbedtls_ok lib" "fs_ok s" and n: "walkable s old_path" "walkable s new_path" "name_fits new_path" "separate_paths old_path new_path"
    and r: "Rename lib fd old_path new_path s = Some (r, s')"
  shows "safe lib (file_index s old_path) s s'"
proof -
  obtain F opn where rep: "represents s F opn" using ok(2) by (auto simp: fs_ok_def)
  show ?thesis
  proof (cases "GetHandleFromFd fd s = None \<or> \<not> IsValidNonRootPath old_path \<or> \<not> IsValidNonRootPath new_path")
    case True
    then show ?thesis using r safe_refl [OF ok(2)] by (auto simp: Rename_def split: option.splits)
  next
    case False
    then obtain h where h: "GetHandleFromFd fd s = Some h" "IsValidNonRootPath old_path" "IsValidNonRootPath new_path" by auto
    have "\<not> below (components old_path) (components new_path) \<and> \<not> below (components new_path) (components old_path)"
      if "components old_path \<noteq> components new_path" using n(4) that by (auto simp: separate_paths_def)
    then show ?thesis
      using Rename_refines [OF ok(1) rep h walkable_dirs [OF n(1) rep] walkable_dirs [OF n(2) rep] n(3) [unfolded name_fits_def]]
        r outcome_ok [OF ok(2)] by (auto simp: index_of_file [OF rep n(1)])
  qed
qed

lemma Delete_ok:
  assumes ok: "mbedtls_ok lib" "fs_ok s" and n: "walkable s path" and r: "Delete lib fd path s = Some (r, s')"
  shows "safe lib {} s s'"
proof -
  obtain F opn where rep: "represents s F opn" using ok(2) by (auto simp: fs_ok_def)
  show ?thesis
  proof (cases "GetHandleFromFd fd s = None \<or> \<not> IsValidNonRootPath path")
    case True
    then show ?thesis using r safe_refl [OF ok(2)] by (auto simp: Delete_def split: option.splits)
  next
    case False
    then obtain h where h: "GetHandleFromFd fd s = Some h" "IsValidNonRootPath path" by auto
    then show ?thesis
      using Delete_refines [OF ok(1) rep h walkable_dirs [OF n(1) rep]] r outcome_ok [OF ok(2)] by auto
  qed
qed

lemma SetMetadata_ok:
  assumes ok: "mbedtls_ok lib" "fs_ok s" and n: "walkable s path"
    and r: "SetMetadata lib fd path uid gid attr om gm tm s = Some (r, s')"
  shows "safe lib {} s s'"
proof -
  obtain F opn where rep: "represents s F opn" using ok(2) by (auto simp: fs_ok_def)
  show ?thesis
  proof (cases "GetHandleFromFd fd s = None \<or> path = [] \<or> 64 < length path \<or> path ! 0 \<noteq> CHR ''/''")
    case True
    then show ?thesis using r safe_refl [OF ok(2)] by (auto simp: SetMetadata_def split: option.splits if_splits)
  next
    case False
    then obtain h where h: "GetHandleFromFd fd s = Some h" "path \<noteq> []" "length path \<le> 64" "path ! 0 = CHR ''/''" by auto
    then show ?thesis
      using SetMetadata_refines [OF ok(1) rep h walkable_dirs [OF n(1) rep], of uid gid attr om gm tm] r outcome_ok [OF ok(2)] by auto
  qed
qed

lemma idle_ok:
  assumes inv: "fs_ok s" and rep: "represents s' F opn" and len: "length (m_handles s') = length (m_handles s)"
    and same: "m_superblock s' = m_superblock s" "m_keys s' = m_keys s" "m_nand s' = m_nand s" "m_superblock_index s' = m_superblock_index s"
      "m_cache_handle s' = m_cache_handle s" "m_cache_data s' = m_cache_data s"
  shows "safe lib X s s'"
proof -
  obtain sb where "m_superblock s = Some sb" "sb_wf sb" "files_ok sb" by (rule fs_okE [OF inv])
  then have "apart s' \<and> kept_data lib X s s' \<and> (versions_upto lib s \<longrightarrow> versions_upto lib s')"
    using written_same [OF same(1-4), of lib X] by (auto simp: written_def apart_def)
  then show ?thesis using inv rep len same(5) cache_sized_cong [OF same(5,6)] by (auto simp: safe_def fs_ok_def cache_ok_def)
qed

lemma Open_ok:
  assumes ok: "fs_ok s" and n: "walkable s path" and r: "OpenFile lib uid gid path mode s = Some (r, s')"
  shows "safe lib {} s s'"
proof -
  obtain F opn where rep: "represents s F opn" using ok by (auto simp: fs_ok_def)
  have len: "length (m_handles s) = NUM_HANDLES" using ok by (simp add: fs_ok_def)
  show ?thesis
  proof (cases "IsValidNonRootPath path \<and> s' \<noteq> s")
    case False
    then show ?thesis using r safe_refl [OF ok] by (auto simp: OpenFile_def)
  next
    case True
    then have valid: "IsValidNonRootPath path" by simp
    obtain F' opn' where rep': "represents s' F' opn'"
      using OpenFile_refines [OF rep len valid walkable_dirs [OF n rep], of uid gid mode lib] r True by (auto split: if_splits)
    obtain sb where sb: "m_superblock s = Some sb" using rep by (auto simp: represents_def)
    from r show ?thesis
    proof (cases rule: OpenFile_Some)
      case (fail e)
      then show ?thesis using True GetSuperblock_loaded [OF sb, of lib] by auto
    next
      case (opened sb' s1 index i)
      have "s1 = s" using opened(1) GetSuperblock_loaded [OF sb, of lib] by simp
      then show ?thesis
        using opened(5,7) AssignFreeHandle_cases [OF len, of uid gid] by (intro idle_ok [OF ok rep']) auto
    qed
  qed
qed

lemma OpenFs_ok:
  assumes ok: "fs_ok s" and r: "OpenFs uid gid s = (r, s')"
  shows "safe lib {} s s'"
proof -
  obtain F opn where rep: "represents s F opn" using ok by (auto simp: fs_ok_def)
  then obtain sb T where sb: "m_superblock s = Some sb" "tree_inv sb T" "links_ok sb" "live s sb T" by (auto simp: represents_def)
  have len: "length (m_handles s) = NUM_HANDLES" using ok by (simp add: fs_ok_def)
  consider "s' = s" | i where "i < NUM_HANDLES" "s' = upd_handle (Slot i) (\<lambda>_. new_Handle\<lparr>h_opened := True, h_uid := uid, h_gid := gid\<rparr>) s"
    using AssignFreeHandle_cases [OF len, of uid gid] r by (auto simp: OpenFs_def)
  then show ?thesis
  proof cases
    case (2 i)
    have "IsFileOpened s k" if "in_fst k" "IsFileOpened s' k" for k
      using that 2 set_update_subset_insert [of "m_handles s" i]
      by (fastforce simp: IsFileOpened_def list_ex_iff upd_handle_def new_Handle_def in_fst_def FST_SIZE_def)
    then have "live s' sb T" using sb(4) by (auto simp: live_def)
    then have "represents s' (view sb T) (open_paths s' sb T)" using sb 2 by (auto simp: represents_def)
    then show ?thesis using 2(2) by (intro idle_ok [OF ok]) simp_all
  qed (simp add: safe_refl [OF ok])
qed

lemma query_same:
  assumes "m_superblock s = Some sb"
  shows "ReadDirectory lib fd path s = Some (names, s') \<Longrightarrow> s' = s" "GetMetadata lib fd path s = Some (md, s') \<Longrightarrow> s' = s"
    "GetNandStats lib fd s = (st, s') \<Longrightarrow> s' = s" "GetDirectoryStats lib fd path s = Some (ds, s') \<Longrightarrow> s' = s"
  by (auto simp: ReadDirectory_def GetMetadata_def GetNandStats_def GetDirectoryStats_def GetSuperblock_loaded [OF assms] Let_def
      split: Option.bind_split_asm option.split_asm sum.split_asm if_split_asm)

lemma seek_ok:
  assumes inv: "fs_ok s" and r: "SeekFile fd offset whence s = (p, s')"
  shows "safe lib {} s s'"
proof -
  have "safe lib {} s (upd_handle h (\<lambda>x. x\<lparr>h_file_offset := q\<rparr>) s)" for h q
    by (rule data_ok [OF inv data_rel_handle written_same]) (simp_all add: cache_sized_def)
  then show ?thesis using SeekFile_cases [of fd offset whence s] r safe_refl [OF inv] by auto
qed

lemma close_ok:
  assumes ok: "mbedtls_ok lib" and inv: "fs_ok s" and r: "Close lib fd s = Some (r, s')"
  shows "safe lib (data_files fd s) s s'"
proof -
  obtain sb F opn where sb: "represents s F opn" "m_superblock s = Some sb" "sb_wf sb" "files_ok sb"
    by (rule fs_okE [OF inv])
  have "apart s' \<and> kept_data lib (data_files fd s) s s' \<and> (versions_upto lib s \<longrightarrow> versions_upto lib s')"
    using Close_written [OF ok sb(2,3) r] sb(2-4) by (auto simp: written_def apart_def)
  then show ?thesis using Close_represents [OF ok sb(1) _ r] Close_sized [OF ok sb(2,3) r] inv by (auto simp: safe_def fs_ok_def)
qed

lemma format_ok:
  assumes ok: "mbedtls_ok lib" and inv: "fs_ok s" and r: "Format lib uid s = Some (r, s')"
  shows "safe lib UNIV s s'"
proof -
  obtain F opn where rep: "represents s F opn" using inv by (auto simp: fs_ok_def)
  have none: "tight s' \<Longrightarrow> kept_data lib UNIV s s'" by (simp add: kept_data_def)
  show ?thesis
  proof (cases "uid = 0")
    case True
    obtain sb where "m_superblock s = Some sb" using rep by (auto simp: represents_def)
    then have "fst (GetSuperblock lib s) \<noteq> None" by (simp add: GetSuperblock_loaded)
    then have "versions_upto lib s \<longrightarrow> versions_upto lib s'"
      using Format_makes_empty [OF ok, of s] r True by auto
    then show ?thesis using Format_represents [OF ok rep] inv r none True
      by (auto simp: safe_def fs_ok_def cache_ok_def cache_sized_def)
  next
    case False
    then show ?thesis using safe_refl [OF inv] r by (auto simp: Format_def)
  qed
qed

lemma fs_step_safe:
  assumes ok: "mbedtls_ok lib" and step: "fs_step lib X s s'" and inv: "fs_ok s"
  shows "safe lib X s s'"
proof -
  obtain sb where sb: "m_superblock s = Some sb" using inv by (auto simp: fs_ok_def represents_def)
  note same = safe_refl [OF inv, of lib "{}"]
  from step show ?thesis
  proof cases
    case (step_CreateFile path fd attr om gm tm r)
    then show ?thesis using create_ok [OF ok inv step_CreateFile(2,3)] same by (auto simp: CreateFile_def split: option.splits)
  next
    case (step_CreateDirectory path fd attr om gm tm r)
    then show ?thesis using create_ok [OF ok inv step_CreateDirectory(2,3)] same by (auto simp: CreateDirectory_def split: option.splits)
  next
    case (step_ReadFile fd ptr count n)
    then show ?thesis using data_ok [OF inv ReadFile_data ReadFile_written [OF ok] ReadFile_sized [OF ok]] by simp
  next
    case (step_WriteFile fd data count m)
    then show ?thesis using data_ok [OF inv WriteFile_data WriteFile_written [OF ok] WriteFile_sized [OF ok]] by simp
  qed (use same format_ok [OF ok inv] Delete_ok [OF ok inv] Rename_ok [OF ok inv] SetMetadata_ok [OF ok inv] OpenFs_ok [OF inv]
      Open_ok [OF inv] seek_ok [OF inv] close_ok [OF ok inv] in \<open>auto dest: query_same [OF sb]\<close>)
qed

section \<open>Sequences of calls\<close>

text \<open>
  \<open>reaches lib A s s'\<close>: calls that change the data of no file in \<open>A\<close>, and after each of which
  the files in \<open>A\<close> still exist, lead from \<open>s\<close> to \<open>s'\<close>.
\<close>

inductive reaches :: "('k, 'c) mbedtls \<Rightarrow> u16 set \<Rightarrow> FileSystemImpl \<Rightarrow> FileSystemImpl \<Rightarrow> bool" for lib A where
  reaches_refl: "reaches lib A s s"
| reaches_step: "reaches lib A s s' \<Longrightarrow> fs_step lib X s' s'' \<Longrightarrow> X \<inter> A = {} \<Longrightarrow> (\<And>f. f \<in> A \<Longrightarrow> has_file s'' f) \<Longrightarrow>
    reaches lib A s s''"

lemma reaches_ok:
  assumes ok: "mbedtls_ok lib" and run: "reaches lib A s s'" and inv: "fs_ok s"
  shows "fs_ok s'"
  using run inv by induction (auto dest: fs_step_safe [OF ok] simp: safe_def)

lemma reaches_versions:
  assumes ok: "mbedtls_ok lib" and run: "reaches lib A s s'" and inv: "fs_ok s" and up: "versions_upto lib s"
  shows "versions_upto lib s'"
  using run inv up
proof induction
  case (reaches_step s s' X s'')
  then show ?case using fs_step_safe [OF ok reaches_step(2) reaches_ok [OF ok reaches_step(1,6)]] by (simp add: safe_def)
qed simp

lemma reaches_sized:
  assumes ok: "mbedtls_ok lib" and run: "reaches lib A s s'" and inv: "fs_ok s" and c: "cache_sized s"
  shows "cache_sized s'"
  using run inv c
proof induction
  case (reaches_step s s' X s'')
  then show ?case using fs_step_safe [OF ok reaches_step(2) reaches_ok [OF ok reaches_step(1,6)]] by (simp add: safe_def)
qed simp

lemma reaches_tight:
  assumes ok: "mbedtls_ok lib" and run: "reaches lib A s s'" and inv: "fs_ok s" and t: "tight s"
  shows "tight s'"
  using run inv t
proof induction
  case (reaches_step s s' X s'')
  then show ?case
    using fs_step_safe [OF ok reaches_step(2) reaches_ok [OF ok reaches_step(1,6)]] by (simp add: safe_def kept_data_def)
qed simp

lemma reaches_data:
  assumes ok: "mbedtls_ok lib" and run: "reaches lib A s s'" and inv: "fs_ok s" and f: "f \<in> A"
  shows "cluster_data lib f i s' = cluster_data lib f i s"
  using run inv
proof induction
  case (reaches_step s s' X s'')
  have "kept_data lib X s' s''"
    using fs_step_safe [OF ok reaches_step(2) reaches_ok [OF ok reaches_step(1,6)]] by (simp add: safe_def)
  then show ?case using reaches_step f by (auto simp: kept_data_def)
qed simp

end
