(* ===== verification/FileRW.thy ===== *)
theory FileRW
  imports FileIO
begin

text \<open>
  Reading and writing whole files through the cache: the loops of \<^verbatim>\<open>ReadFile\<close> and
  \<^verbatim>\<open>WriteFile\<close> against the contents of a file as one list of bytes.
\<close>

section \<open>Positions and clusters\<close>

lemma unat_chain_index:
  assumes "unat off < 2 ^ 30"
  shows "unat (ucast (off div of_nat CLUSTER_DATA_SIZE :: u32) :: u16) = unat off div CLUSTER_DATA_SIZE"
proof -
  have c: "unat (of_nat CLUSTER_DATA_SIZE :: u32) = CLUSTER_DATA_SIZE" by (simp add: unat_of_nat layout_consts)
  have "unat off div CLUSTER_DATA_SIZE < 2 ^ 16" using assms by (simp add: layout_consts)
  then show ?thesis by (simp add: unsigned_ucast_eq unat_div c take_bit_nat_eq_self)
qed

lemma unat_cluster_start:
  fixes i :: u16
  shows "unat (ucast i * of_nat CLUSTER_DATA_SIZE :: u32) = unat i * CLUSTER_DATA_SIZE"
proof -
  have lt: "unat i < 2 ^ 16" using unsigned_less [of i] by simp
  then have i: "unat (ucast i :: u32) = unat i"
    by (simp add: unsigned_ucast_eq take_bit_nat_eq_self)
  have c: "unat (of_nat CLUSTER_DATA_SIZE :: u32) = CLUSTER_DATA_SIZE" by (simp add: unat_of_nat layout_consts)
  have "unat i * CLUSTER_DATA_SIZE < 2 ^ 32" using lt by (simp add: layout_consts)
  then show ?thesis by (simp add: unat_word_ariths i c)
qed

lemma cache_start_eq:
  assumes "unat off < 2 ^ 30" "h_file_offset (handle_at s h) = off"
    "m_cache_chain_index s = ucast (off div of_nat CLUSTER_DATA_SIZE)"
  shows "cache_start s h = unat off mod CLUSTER_DATA_SIZE"
proof -
  have u: "unat (ucast (m_cache_chain_index s) * of_nat CLUSTER_DATA_SIZE :: u32) = unat off div CLUSTER_DATA_SIZE * CLUSTER_DATA_SIZE"
    unfolding unat_cluster_start assms(3) by (simp add: unat_chain_index [OF assms(1)])
  moreover have "unat off div CLUSTER_DATA_SIZE * CLUSTER_DATA_SIZE \<le> unat off" by (rule div_times_less_eq_dividend)
  ultimately have "cache_start s h = unat off - unat off div CLUSTER_DATA_SIZE * CLUSTER_DATA_SIZE"
    unfolding cache_start_def assms(2) by (subst unat_sub) (simp_all add: word_le_nat_alt)
  then show ?thesis by (simp add: minus_div_mult_eq_mod)
qed

section \<open>The contents of a file\<close>

lemma ReadFileData_cong:
  assumes "m_superblock s = Some sb" "m_superblock s' = Some sb" "m_keys s' = m_keys s" "m_nand s' = m_nand s"
    and "ReadFileData lib f i s = Some (r, s)"
  shows "ReadFileData lib f i s' = Some (r, s')"
proof (cases "GetClusterForFile sb (e_sub (fst_at sb f)) (unat i)")
  case None
  then show ?thesis using assms(5)
    by (simp add: ReadFileData_def GetSuperblock_loaded [OF assms(1)] GetSuperblock_loaded [OF assms(2)] Let_def
        split: if_splits)
next
  case (Some c)
  then show ?thesis using assms(5)
    by (cases "ReadCluster lib (m_keys s) (m_nand s) c")
      (auto simp: ReadFileData_def GetSuperblock_loaded [OF assms(1)] GetSuperblock_loaded [OF assms(2)] assms(3,4) Let_def
        split: if_splits)
qed

text \<open>
  \<open>holds lib s f d\<close>: the clusters of \<open>f\<close> can be read and verified, and the first
  \<open>length d\<close> bytes in them are \<open>d\<close>.
\<close>

definition holds :: "('k, 'c) mbedtls \<Rightarrow> FileSystemImpl \<Rightarrow> u16 \<Rightarrow> u8 list \<Rightarrow> bool" where
  "holds lib s f d \<longleftrightarrow> m_superblock s \<noteq> None \<and> length d < 2 ^ 30 \<and>
     (\<forall>i :: u16. unat i * CLUSTER_DATA_SIZE < length d \<longrightarrow>
        (\<exists>c. ReadFileData lib f i s = Some (Inr c, s) \<and> length c = CLUSTER_DATA_SIZE \<and>
           take (length d - unat i * CLUSTER_DATA_SIZE) c = slice (unat i * CLUSTER_DATA_SIZE) CLUSTER_DATA_SIZE d))"

definition clean :: "FileSystemImpl \<Rightarrow> bool" where
  "clean s \<longleftrightarrow> m_cache_handle s = None \<or> \<not> m_cache_for_write s \<or> length (m_cache_data s) \<noteq> CLUSTER_DATA_SIZE"

lemma FlushFileCache_clean: "clean s \<Longrightarrow> FlushFileCache lib s = (Success, s)"
  by (auto simp: clean_def FlushFileCache_def split: option.splits)

text \<open>
  \<open>same_disk s s'\<close>: the two states agree on what reading file data depends on.
\<close>

definition same_disk :: "FileSystemImpl \<Rightarrow> FileSystemImpl \<Rightarrow> bool" where
  "same_disk s s' \<longleftrightarrow> m_superblock s' = m_superblock s \<and> m_keys s' = m_keys s \<and> m_nand s' = m_nand s \<and>
     m_superblock_index s' = m_superblock_index s"

lemma holds_same_disk: "same_disk s s' \<Longrightarrow> holds lib s f d \<Longrightarrow> holds lib s' f d"
  unfolding holds_def same_disk_def
  using ReadFileData_cong [of s _ s' lib f] by (metis option.exhaust)

section \<open>Reading\<close>

text \<open>
  What the read loop keeps: the handle stands for a file with contents \<open>d\<close>, and a cluster
  in the cache under this handle is a cluster of the file.
\<close>

definition reading :: "('k, 'c) mbedtls \<Rightarrow> HandleRef \<Rightarrow> u16 \<Rightarrow> u8 list \<Rightarrow> FileSystemImpl \<Rightarrow> bool" where
  "reading lib h f d s \<longleftrightarrow> length (m_handles s) = NUM_HANDLES \<and> valid_ref h \<and> holds lib s f d \<and> clean s \<and>
     h_fst_index (handle_at s h) = f \<and> unat (h_file_size (handle_at s h)) = length d \<and>
     \<not> h_superblock_flush_needed (handle_at s h) \<and>
     (m_cache_handle s = Some h \<longrightarrow> unat (m_cache_chain_index s) * CLUSTER_DATA_SIZE < length d \<longrightarrow>
        ReadFileData lib f (m_cache_chain_index s) s = Some (Inr (m_cache_data s), s))"

lemma holds_cluster:
  fixes off :: u32
  assumes "holds lib s f d" "unat off < length d" "i = ucast (off div of_nat CLUSTER_DATA_SIZE)"
  obtains c where "ReadFileData lib f i s = Some (Inr c, s)" "length c = CLUSTER_DATA_SIZE"
    "unat i = unat off div CLUSTER_DATA_SIZE"
    "take (length d - unat i * CLUSTER_DATA_SIZE) c = slice (unat i * CLUSTER_DATA_SIZE) CLUSTER_DATA_SIZE d"
proof -
  have i: "unat i = unat off div CLUSTER_DATA_SIZE"
    unfolding assms(3) by (rule unat_chain_index) (use assms(1,2) in \<open>simp add: holds_def\<close>)
  have "unat i * CLUSTER_DATA_SIZE < length d"
    unfolding i by (rule le_less_trans [OF div_times_less_eq_dividend assms(2)])
  then obtain c where "ReadFileData lib f i s = Some (Inr c, s)" "length c = CLUSTER_DATA_SIZE"
    "take (length d - unat i * CLUSTER_DATA_SIZE) c = slice (unat i * CLUSTER_DATA_SIZE) CLUSTER_DATA_SIZE d"
    using assms(1) unfolding holds_def by blast
  then show thesis using that i by blast
qed

lemma populate_reading:
  assumes r: "reading lib h f d s" and off: "off = h_file_offset (handle_at s h)" "unat off < length d"
  shows "\<exists>c a. let s1 = s\<lparr>m_cache_handle := Some h, m_cache_chain_index := ucast (off div of_nat CLUSTER_DATA_SIZE),
        m_cache_for_write := a, m_cache_data := c\<rparr> in
      PopulateFileCache lib h off False s = Some (Success, s1) \<and> reading lib h f d s1 \<and> length c = CLUSTER_DATA_SIZE \<and>
      take (length d - unat off div CLUSTER_DATA_SIZE * CLUSTER_DATA_SIZE) c
        = slice (unat off div CLUSTER_DATA_SIZE * CLUSTER_DATA_SIZE) CLUSTER_DATA_SIZE d"
proof -
  define i where "i = (ucast (off div of_nat CLUSTER_DATA_SIZE) :: u16)"
  have h: "holds lib s f d" "clean s" and f: "h_fst_index (handle_at s h) = f" and z: "unat (h_file_size (handle_at s h)) = length d"
    using r by (simp_all add: reading_def)
  obtain c where c: "ReadFileData lib f i s = Some (Inr c, s)" "length c = CLUSTER_DATA_SIZE"
    "unat i = unat off div CLUSTER_DATA_SIZE"
    "take (length d - unat i * CLUSTER_DATA_SIZE) c = slice (unat i * CLUSTER_DATA_SIZE) CLUSTER_DATA_SIZE d"
    by (rule holds_cluster [OF h(1) off(2) i_def])
  have lt: "unat i * CLUSTER_DATA_SIZE < length d"
    unfolding c(3) by (rule le_less_trans [OF div_times_less_eq_dividend off(2)])
  show ?thesis
  proof (cases "m_cache_handle s = Some h \<and> m_cache_chain_index s = i")
    case True
    then have "m_cache_data s = c" using r lt c(1) by (simp add: reading_def)
    then have e: "s\<lparr>m_cache_handle := Some h, m_cache_chain_index := i, m_cache_for_write := m_cache_for_write s, m_cache_data := c\<rparr> = s"
      using True by (cases s) auto
    have "PopulateFileCache lib h off False s = Some (Success, s)"
      using True by (simp add: PopulateFileCache_def Let_def i_def [symmetric])
    then show ?thesis
      unfolding i_def [symmetric] Let_def using r c e
      by (intro exI [of _ c] exI [of _ "m_cache_for_write s"]) simp
  next
    case False
    let ?s2 = "s\<lparr>m_cache_handle := Some h, m_cache_chain_index := i, m_cache_for_write := False\<rparr>"
    let ?s3 = "?s2\<lparr>m_cache_data := c\<rparr>"
    obtain sb where sb: "m_superblock s = Some sb" using h(1) by (auto simp: holds_def)
    have rd: "ReadFileData lib f i ?s2 = Some (Inr c, ?s2)" "ReadFileData lib f i ?s3 = Some (Inr c, ?s3)"
      using ReadFileData_cong [OF sb _ _ _ c(1)] sb by simp_all
    have "off \<noteq> h_file_size (handle_at s h)" using off(2) z by auto
    then have "PopulateFileCache lib h off False s = Some (Success, ?s3)"
      using False FlushFileCache_clean [OF h(2), of lib] rd(1) f
      by (auto simp: PopulateFileCache_def Let_def i_def [symmetric])
    moreover have "reading lib h f d ?s3"
      using r rd(2) holds_same_disk [of s ?s3 lib f d] by (simp add: reading_def same_disk_def clean_def)
    ultimately show ?thesis
      using c by (intro exI [of _ c] exI [of _ False]) (simp add: Let_def i_def [symmetric])
  qed
qed

lemma unat_sub_of_nat: "n \<le> unat x \<Longrightarrow> unat (x - of_nat n :: u32) = unat x - n"
proof -
  assume n: "n \<le> unat x"
  have "unat x < 2 ^ 32" using unsigned_less [of x] by simp
  then have u: "unat (of_nat n :: u32) = n" using n by (simp add: unat_of_nat)
  then show ?thesis using n by (subst unat_sub) (simp_all add: word_le_nat_alt)
qed

lemma unat_add_of_nat: "unat x + n < 2 ^ 32 \<Longrightarrow> unat (x + of_nat n :: u32) = unat x + n"
  by (simp add: unat_word_ariths unat_of_nat)

lemma copy_length_eq:
  "cache_start s h = st \<Longrightarrow> length (m_cache_data s) = CLUSTER_DATA_SIZE \<Longrightarrow>
   copy_length s h rest = min (CLUSTER_DATA_SIZE - st) (unat rest)"
  by (simp add: copy_length_def)

lemma reading_advance:
  assumes "reading lib h f d s"
  shows "reading lib h f d (upd_handle h (\<lambda>x. x\<lparr>h_file_offset := p\<rparr>) s)"
proof -
  let ?s' = "upd_handle h (\<lambda>x. x\<lparr>h_file_offset := p\<rparr>) s"
  have "m_superblock s \<noteq> None" using assms unfolding reading_def holds_def by blast
  then obtain sb where sb: "m_superblock s = Some sb" by blast
  have h: "length (m_handles s) = NUM_HANDLES" "valid_ref h" using assms by (simp_all add: reading_def)
  have "holds lib s f d" using assms by (simp add: reading_def)
  then have hold: "holds lib ?s' f d" by (rule holds_same_disk [rotated]) (simp add: same_disk_def)
  have rd: "ReadFileData lib f i ?s' = Some (r, ?s')" if "ReadFileData lib f i s = Some (r, s)" for i r
    by (rule ReadFileData_cong [OF sb _ _ _ that]) (simp_all add: sb)
  have at: "handle_at ?s' h = (handle_at s h)\<lparr>h_file_offset := p\<rparr>" using h by (simp add: handle_at_upd_handle)
  show ?thesis
    unfolding reading_def
  proof (intro conjI impI)
    show "ReadFileData lib f (m_cache_chain_index ?s') ?s' = Some (Inr (m_cache_data ?s'), ?s')"
      if "m_cache_handle ?s' = Some h" "unat (m_cache_chain_index ?s') * CLUSTER_DATA_SIZE < length d"
      using rd [of "m_cache_chain_index s" "Inr (m_cache_data s)"] that assms by (simp add: reading_def)
  qed (use assms h hold at in \<open>simp_all add: reading_def clean_def\<close>)
qed

text \<open>One round of the read loop copies at least one byte and at most the rest of a cluster.\<close>

lemma read_step:
  assumes r: "reading lib h f d s" and p: "unat p \<le> unat count" and ne: "p \<noteq> count"
    and upto: "unat (h_file_offset (handle_at s h)) + (unat count - unat p) \<le> length d"
  obtains n s' where "0 < n" "n \<le> unat count - unat p" "unat (p + of_nat n) = unat p + n"
    "read_loop lib h count p ptr s = read_loop lib h count (p + of_nat n)
       (copy_into ptr (unat p) (slice (unat (h_file_offset (handle_at s h))) n d)) s'"
    "reading lib h f d s'" "same_disk s s'" "unat (h_file_offset (handle_at s' h)) = unat (h_file_offset (handle_at s h)) + n"
proof -
  let ?off = "h_file_offset (handle_at s h)" and ?rest = "unat count - unat p"
  have "unat p \<noteq> unat count" using ne by (simp add: word_unat_eq_iff)
  then have rest: "0 < ?rest" using p by linarith
  then have off: "unat ?off < length d" using upto by linarith
  have d30: "length d < 2 ^ 30" using r by (simp add: reading_def holds_def)
  define i where "i = unat ?off div CLUSTER_DATA_SIZE"
  define st where "st = unat ?off mod CLUSTER_DATA_SIZE"
  obtain c a s1 where s1: "s1 = s\<lparr>m_cache_handle := Some h, m_cache_chain_index := ucast (?off div of_nat CLUSTER_DATA_SIZE),
      m_cache_for_write := a, m_cache_data := c\<rparr>"
    and pop: "PopulateFileCache lib h ?off False s = Some (Success, s1)" and r1: "reading lib h f d s1"
    and c: "length c = CLUSTER_DATA_SIZE" "take (length d - i * CLUSTER_DATA_SIZE) c = slice (i * CLUSTER_DATA_SIZE) CLUSTER_DATA_SIZE d"
    using populate_reading [OF r refl off] unfolding Let_def i_def by blast
  have h1: "handle_at s1 h = handle_at s h" by (simp add: s1)
  have start: "cache_start s1 h = st"
    unfolding st_def by (rule cache_start_eq) (use off d30 h1 in \<open>simp_all add: s1\<close>)
  have cr: "unat (count - p) = ?rest" using p by (simp add: unat_sub word_le_nat_alt)
  define n where "n = copy_length s1 h (count - p)"
  have n: "n = min (CLUSTER_DATA_SIZE - st) ?rest"
    unfolding n_def cr [symmetric] by (rule copy_length_eq [OF start]) (simp add: s1 c)
  have st: "st < CLUSTER_DATA_SIZE" "unat ?off = i * CLUSTER_DATA_SIZE + st"
    by (simp_all add: st_def i_def layout_consts)
  have n0: "0 < n" "n \<le> ?rest" using n rest st by simp_all
  have bytes: "slice st n c = slice (unat ?off) n d"
  proof -
    have "st + n \<le> length d - i * CLUSTER_DATA_SIZE" using st n0 upto by linarith
    then have "slice st n c = slice st n (slice (i * CLUSTER_DATA_SIZE) CLUSTER_DATA_SIZE d)"
      using c(2) slice_take [of st n "length d - i * CLUSTER_DATA_SIZE" c] by simp
    also have "\<dots> = slice (unat ?off) n d"
    proof -
      have "st + n \<le> CLUSTER_DATA_SIZE" using n st(1) by linarith
      then show ?thesis unfolding st(2) by (rule slice_slice)
    qed
    finally show ?thesis .
  qed
  let ?s2 = "upd_handle h (\<lambda>x. x\<lparr>h_file_offset := h_file_offset x + of_nat n\<rparr>) s1"
  have v: "valid_ref h" "length (m_handles s1) = NUM_HANDLES" using r1 by (simp_all add: reading_def)
  have s2: "?s2 = upd_handle h (\<lambda>x. x\<lparr>h_file_offset := ?off + of_nat n\<rparr>) s1"
    using h1 by (cases h) (simp_all add: upd_handle_def handle_at_def)
  have r2: "reading lib h f d ?s2" unfolding s2 by (rule reading_advance [OF r1])
  have len: "length (slice (unat ?off) n d) = n" using n0 upto by simp
  have "unat count < 2 ^ 32" using unsigned_less [of count] by simp
  then have "unat ?off + n < 2 ^ 32" "unat p + n < 2 ^ 32"
    using n0 p upto d30 by simp_all
  then have off2: "unat (h_file_offset (handle_at ?s2 h)) = unat ?off + n" and p2: "unat (p + of_nat n) = unat p + n"
    using v h1 by (simp_all add: handle_at_upd_handle unat_add_of_nat)
  have "m_cache_data s1 = c" by (simp add: s1)
  then have "read_loop lib h count p ptr s = read_loop lib h count (p + of_nat n) (copy_into ptr (unat p) (slice (unat ?off) n d)) ?s2"
    using ne pop start st c(1) bytes by (subst read_loop.simps) (simp add: Let_def n_def [symmetric])
  moreover have "same_disk s ?s2" by (simp add: same_disk_def s1)
  ultimately show thesis using that [OF n0 p2 _ r2 _ off2] by blast
qed

text \<open>
  The read loop copies exactly the bytes of the file at the position of the handle and
  moves the position behind them.
\<close>

lemma read_loop_reads:
  assumes "reading lib h f d s" "unat p \<le> unat count" "unat count \<le> length ptr"
    "unat (h_file_offset (handle_at s h)) + (unat count - unat p) \<le> length d"
  shows "\<exists>s'. read_loop lib h count p ptr s = Some ((Inr count,
      copy_into ptr (unat p) (slice (unat (h_file_offset (handle_at s h))) (unat count - unat p) d)), s') \<and>
    reading lib h f d s' \<and> same_disk s s' \<and>
    unat (h_file_offset (handle_at s' h)) = unat (h_file_offset (handle_at s h)) + (unat count - unat p)"
  using assms
proof (induction "unat count - unat p" arbitrary: p ptr s rule: less_induct)
  case less
  let ?off = "h_file_offset (handle_at s h)" and ?rest = "unat count - unat p"
  show ?case
  proof (cases "p = count")
    case True
    then show ?thesis using less.prems
      by (subst read_loop.simps) (auto simp: slice_def same_disk_def)
  next
    case False
    obtain n s2 where n0: "0 < n" "n \<le> ?rest" and p2: "unat (p + of_nat n) = unat p + n"
      and step: "read_loop lib h count p ptr s = read_loop lib h count (p + of_nat n) (copy_into ptr (unat p) (slice (unat ?off) n d)) s2"
      and r2: "reading lib h f d s2" "same_disk s s2" and off2: "unat (h_file_offset (handle_at s2 h)) = unat ?off + n"
      by (rule read_step [OF less.prems(1,2) False less.prems(4)])
    let ?ptr2 = "copy_into ptr (unat p) (slice (unat ?off) n d)"
    have len: "length (slice (unat ?off) n d) = n" using n0 less.prems(4) by simp
    have l2: "length ?ptr2 = length ptr" using less.prems(2,3) n0 by (simp add: len)
    have "\<exists>s'. read_loop lib h count (p + of_nat n) ?ptr2 s2 = Some ((Inr count,
        copy_into ?ptr2 (unat (p + of_nat n)) (slice (unat (h_file_offset (handle_at s2 h))) (unat count - unat (p + of_nat n)) d)), s') \<and>
      reading lib h f d s' \<and> same_disk s2 s' \<and>
      unat (h_file_offset (handle_at s' h)) = unat (h_file_offset (handle_at s2 h)) + (unat count - unat (p + of_nat n))"
      by (rule less.hyps) (use r2 p2 off2 n0 less.prems l2 in \<open>simp_all\<close>)
    then obtain s' where s': "read_loop lib h count (p + of_nat n) ?ptr2 s2 = Some ((Inr count,
        copy_into ?ptr2 (unat p + n) (slice (unat ?off + n) (?rest - n) d)), s')"
      "reading lib h f d s'" "same_disk s2 s'" "unat (h_file_offset (handle_at s' h)) = unat ?off + n + (?rest - n)"
      unfolding p2 off2 by auto
    have "copy_into ?ptr2 (unat p + n) (slice (unat ?off + n) (?rest - n) d) = copy_into ptr (unat p) (slice (unat ?off) ?rest d)"
    proof -
      have e: "slice (unat ?off) n d @ slice (unat ?off + n) (?rest - n) d = slice (unat ?off) ?rest d"
        using append_slices [of "unat ?off" n d "?rest - n"] n0 by simp
      show ?thesis
        using copy_into_append [of "unat p" "slice (unat ?off) n d" "slice (unat ?off + n) (?rest - n) d" ptr] len n0 less.prems
        unfolding e by simp
    qed
    moreover have "same_disk s s'" using r2(2) s'(3) by (simp add: same_disk_def)
    ultimately show ?thesis using s' step n0 by auto
  qed
qed

lemma ReadFile_reads:
  assumes r: "reading lib h f d s" and fd: "GetHandleFromFd fd s = Some h" and f: "in_fst f"
    and mode: "FileMode_and (h_mode (handle_at s h)) FileMode_Read \<noteq> 0"
    and off: "unat (h_file_offset (handle_at s h)) = off" "off \<le> length d" "unat count + off < 2 ^ 32"
    and n: "n = min (unat count) (length d - off)" and ptr: "n \<le> length ptr"
  shows "\<exists>s'. ReadFile lib fd ptr count s = Some ((Inr (of_nat n), copy_into ptr 0 (slice off n d)), s') \<and>
    reading lib h f d s' \<and> same_disk s s' \<and> unat (h_file_offset (handle_at s' h)) = off + n"
proof -
  let ?o = "h_file_offset (handle_at s h)" and ?z = "h_file_size (handle_at s h)"
  have z: "unat ?z = length d" and hf: "h_fst_index (handle_at s h) = f" using r by (simp_all add: reading_def)
  define m where "m = (if count + ?o > ?z then ?z - ?o else count)"
  have sum: "unat (count + ?o) = unat count + off" using off by (simp add: unat_word_ariths)
  have m: "unat m = n"
    using z off n sum by (auto simp: m_def word_less_nat_alt unat_sub word_le_nat_alt not_less)
  have le: "off + n \<le> length d" using n off(2) by linarith
  have c: "m = of_nat n" unfolding m [symmetric] by simp
  obtain s' where "read_loop lib h m 0 ptr s = Some ((Inr m, copy_into ptr 0 (slice off n d)), s')"
    "reading lib h f d s'" "same_disk s s'" "unat (h_file_offset (handle_at s' h)) = off + n"
    using read_loop_reads [OF r, of 0 m ptr] m off(1) le ptr by auto
  then show ?thesis
    using fd f mode hf by (simp add: ReadFile_def Let_def m_def [symmetric] c)
qed

section \<open>Appending to a file\<close>

definition full_clusters :: "u8 list \<Rightarrow> nat" where
  "full_clusters d = (length d - 1) div CLUSTER_DATA_SIZE"

text \<open>
  How the superblock relates to \<open>sb0\<close>, the one the writes to \<open>f\<close> started from, when \<open>f\<close>
  had \<open>m\<close> clusters: \<open>f\<close> has the clusters \<open>cs\<close>, and no cluster got lost.
\<close>

definition grown_by :: "u16 \<Rightarrow> Superblock \<Rightarrow> nat \<Rightarrow> u16 list \<Rightarrow> Superblock \<Rightarrow> bool" where
  "grown_by f sb0 m cs sb \<longleftrightarrow> sb_wf sb \<and> IsFile (fst_at sb f) \<and> file_clusters sb f cs \<and>
     (\<forall>c\<in>set cs. c < SUPERBLOCK_START_CLUSTER) \<and> area_reserved sb \<and> grown f sb0 sb \<and>
     free_count sb + length cs = free_count sb0 + m"

text \<open>
  The clusters before \<open>k\<close> hold \<open>d\<close> in the image, the entry has size \<open>z\<close>, and at least
  one cluster is free.
\<close>

definition on_disk :: "('k, 'c) mbedtls \<Rightarrow> u16 \<Rightarrow> Superblock \<Rightarrow> nat \<Rightarrow> nat \<Rightarrow> nat \<Rightarrow> u8 list \<Rightarrow> FileSystemImpl \<Rightarrow> bool" where
  "on_disk lib f sb0 m k z d s \<longleftrightarrow> (\<exists>sb cs. m_superblock s = Some sb \<and> grown_by f sb0 m cs sb \<and>
     k \<le> length cs \<and> length cs < free_count sb0 + m \<and> length cs \<le> max m k \<and> unat (e_size (fst_at sb f)) = z \<and> versions_upto lib s \<and>
     (\<forall>i :: u16. unat i < k \<longrightarrow>
        ReadFileData lib f i s = Some (Inr (slice (unat i * CLUSTER_DATA_SIZE) CLUSTER_DATA_SIZE d), s)))"

definition appending :: "HandleRef \<Rightarrow> u16 \<Rightarrow> u8 list \<Rightarrow> FileSystemImpl \<Rightarrow> bool" where
  "appending h f d s \<longleftrightarrow> length (m_handles s) = NUM_HANDLES \<and> valid_ref h \<and> in_fst f \<and>
     h_opened (handle_at s h) \<and>
     h_fst_index (handle_at s h) = f \<and> unat (h_file_offset (handle_at s h)) = length d \<and>
     h_file_size (handle_at s h) = h_file_offset (handle_at s h) \<and> length d < 2 ^ 30"

definition in_cache :: "HandleRef \<Rightarrow> nat \<Rightarrow> u8 list \<Rightarrow> FileSystemImpl \<Rightarrow> bool" where
  "in_cache h k d s \<longleftrightarrow> m_cache_handle s = Some h \<and> unat (m_cache_chain_index s) = k \<and> m_cache_for_write s \<and>
     length (m_cache_data s) = CLUSTER_DATA_SIZE \<and> k * CLUSTER_DATA_SIZE \<le> length d \<and>
     length d \<le> Suc k * CLUSTER_DATA_SIZE \<and>
     take (length d - k * CLUSTER_DATA_SIZE) (m_cache_data s) = drop (k * CLUSTER_DATA_SIZE) d"

text \<open>
  Before the first byte the file holds \<open>d\<close> in the image and is not in the cache; afterwards
  the last cluster of \<open>d\<close> is in the cache and the entry still has a smaller size.
\<close>

definition idle :: "('k, 'c) mbedtls \<Rightarrow> HandleRef \<Rightarrow> u16 \<Rightarrow> Superblock \<Rightarrow> nat \<Rightarrow> u8 list \<Rightarrow> FileSystemImpl \<Rightarrow> bool" where
  "idle lib h f sb0 m d s \<longleftrightarrow> appending h f d s \<and> clean s \<and> m_cache_handle s \<noteq> Some h \<and> holds lib s f d \<and>
     on_disk lib f sb0 m (length d div CLUSTER_DATA_SIZE) (length d) d s"

definition dirty :: "('k, 'c) mbedtls \<Rightarrow> HandleRef \<Rightarrow> u16 \<Rightarrow> Superblock \<Rightarrow> nat \<Rightarrow> u8 list \<Rightarrow> FileSystemImpl \<Rightarrow> bool" where
  "dirty lib h f sb0 m d s \<longleftrightarrow> appending h f d s \<and> in_cache h (full_clusters d) d s \<and> d \<noteq> [] \<and>
     (\<exists>z<length d. on_disk lib f sb0 m (full_clusters d) z d s)"

lemma full_clusters_less: "d \<noteq> [] \<Longrightarrow> full_clusters d * CLUSTER_DATA_SIZE < length d"
proof -
  assume "d \<noteq> []"
  then have "length d - 1 < length d" by simp
  then show ?thesis unfolding full_clusters_def by (rule le_less_trans [OF div_times_less_eq_dividend])
qed

lemma full_clusters_bound: "length d \<le> Suc (full_clusters d) * CLUSTER_DATA_SIZE"
proof -
  have "0 < CLUSTER_DATA_SIZE" by (simp add: layout_consts)
  then have "length d - 1 < Suc (full_clusters d) * CLUSTER_DATA_SIZE"
    unfolding full_clusters_def using dividend_less_div_times by (metis add.commute mult_Suc)
  then show ?thesis by linarith
qed

text \<open>Flushing the cached cluster puts the whole contents into the image.\<close>

lemma flush_writing:
  assumes ok: "mbedtls_ok lib" and app: "appending h f d s" and disk: "on_disk lib f sb0 m k y d s" and ch: "in_cache h k d s"
    and less: "k * CLUSTER_DATA_SIZE < length d" "y < length d"
  obtains s1 sb1 cs where "FlushFileCache lib s = (Success, s1)" "m_superblock s1 = Some sb1" "grown_by f sb0 m cs sb1"
    "Suc k \<le> length cs" "length cs \<le> max m (Suc k)" "Suc k < free_count sb0 + m \<longrightarrow> length cs < free_count sb0 + m" "unat (e_size (fst_at sb1 f)) = length d" "versions_upto lib s1"
    "\<forall>i :: u16. unat i < k \<longrightarrow>
       ReadFileData lib f i s1 = Some (Inr (slice (unat i * CLUSTER_DATA_SIZE) CLUSTER_DATA_SIZE d), s1)"
    "ReadFileData lib f (m_cache_chain_index s) s1 = Some (Inr (m_cache_data s), s1)"
    "s1 = upd_handle h (\<lambda>x. x\<lparr>h_superblock_flush_needed := True\<rparr>) (s\<lparr>m_nand := m_nand s1, m_superblock := Some sb1\<rparr>)"
proof -
  obtain sb cs where g: "grown_by f sb0 m cs sb" and sbs: "m_superblock s = Some sb" "k \<le> length cs" "length cs < free_count sb0 + m" "length cs \<le> max m k"
      "unat (e_size (fst_at sb f)) = y" "versions_upto lib s"
    and rd: "\<And>i :: u16. unat i < k \<Longrightarrow>
      ReadFileData lib f i s = Some (Inr (slice (unat i * CLUSTER_DATA_SIZE) CLUSTER_DATA_SIZE d), s)"
    using disk unfolding on_disk_def by blast
  have sb: "m_superblock s = Some sb" "sb_wf sb" "IsFile (fst_at sb f)" "file_clusters sb f cs"
      "area_reserved sb" "\<forall>c\<in>set cs. c < SUPERBLOCK_START_CLUSTER" "free_count sb + length cs = free_count sb0 + m" "grown f sb0 sb"
    using g sbs by (simp_all add: grown_by_def)
  have h: "length (m_handles s) = NUM_HANDLES" "valid_ref h" "in_fst f" "h_fst_index (handle_at s h) = f"
    "unat (h_file_offset (handle_at s h)) = length d" "h_file_size (handle_at s h) = h_file_offset (handle_at s h)"
    using app by (simp_all add: appending_def)
  have c: "m_cache_handle s = Some h" "unat (m_cache_chain_index s) = k" "m_cache_for_write s"
      "length (m_cache_data s) = CLUSTER_DATA_SIZE"
    using ch by (simp_all add: in_cache_def)
  let ?z = "h_file_size (handle_at s h)" and ?i = "m_cache_chain_index s"
  have z: "e_size (fst_at sb f) < ?z" using less(2) h(5,6) sbs(5) by (simp add: word_less_nat_alt)
  have k: "unat ?i \<le> length cs" using sbs(2) c(2) by simp
  have fr: "0 < free_count sb" using sb(7) sbs(3) by linarith
  obtain s0 sb' x where w0: "WriteFileData lib f (m_cache_data s) ?i ?z s = (Success, s0)"
    and s0: "m_superblock s0 = Some sb'" "sb_wf sb'" "file_clusters sb' f (put_at (unat ?i) x cs)" "IsFile (fst_at sb' f)"
      "e_size (fst_at sb' f) = ?z" "free_count sb' + length (put_at (unat ?i) x cs) = free_count sb + length cs"
      "m_keys s0 = m_keys s" "s0 = s\<lparr>m_nand := m_nand s0, m_superblock := Some sb'\<rparr>"
      "grown f sb sb'" "area_reserved sb'" "\<forall>c\<in>set (put_at (unat ?i) x cs). c < SUPERBLOCK_START_CLUSTER" "versions_upto lib s0"
    by (rule WriteFileData_put [OF ok sb(1,2) h(3) sb(4) k c(4) sb(3) z fr sb(5,6) sbs(6)])
  define s1 where "s1 = upd_handle h (\<lambda>x. x\<lparr>h_superblock_flush_needed := True\<rparr>) s0"
  have s1: "m_superblock s1 = Some sb'" "m_keys s1 = m_keys s0" "m_nand s1 = m_nand s0" by (simp_all add: s1_def s0(1))
  have fl: "FlushFileCache lib s = (Success, s1)"
    using c w0 h(4) by (simp add: FlushFileCache_def s1_def)
  have old: "ReadFileData lib f i s1 = Some (Inr (slice (unat i * CLUSTER_DATA_SIZE) CLUSTER_DATA_SIZE d), s1)"
    if "unat i < k" for i :: u16
  proof (rule ReadFileData_cong [OF s0(1) s1])
    have "i \<noteq> ?i" using that c(2) by auto
    then show "ReadFileData lib f i s0 = Some (Inr (slice (unat i * CLUSTER_DATA_SIZE) CLUSTER_DATA_SIZE d), s0)"
      using read_other_after_write [OF ok sb(1,2,4) k c(4) w0 sb(4) _ _ rd [OF that]] by simp
  qed
  have new: "ReadFileData lib f ?i s1 = Some (Inr (m_cache_data s), s1)"
  proof (rule ReadFileData_cong [OF s0(1) s1])
    have "ucast ?i * of_nat CLUSTER_DATA_SIZE < ?z"
      using less h(5,6) c(2) by (simp add: word_less_nat_alt unat_cluster_start)
    then show "ReadFileData lib f ?i s0 = Some (Inr (m_cache_data s), s0)"
      by (rule read_after_write [OF ok sb(1,2,4) k c(4) w0])
  qed
  have shape: "s1 = upd_handle h (\<lambda>x. x\<lparr>h_superblock_flush_needed := True\<rparr>) (s\<lparr>m_nand := m_nand s1, m_superblock := Some sb'\<rparr>)"
    using s0(8) s1(3) by (simp add: s1_def)
  have len: "length (put_at (unat ?i) x cs) = max (length cs) (Suc k)" using length_put_at [OF k] c(2) by simp
  have g': "grown_by f sb0 m (put_at (unat ?i) x cs) sb'"
    using s0 sb(7) grown_trans [OF sb(8) s0(9)] by (simp add: grown_by_def)
  have up: "versions_upto lib s1" using s0(12) by (simp add: versions_upto_def s1_def)
  show thesis
    by (rule that [OF fl s1(1) g' _ _ _ _ up]) (use s0(5) h(5,6) old new shape len sbs(3,4) in auto)
qed

lemma on_disk_same_disk:
  assumes "same_disk s s'" "on_disk lib f sb0 m k z d s"
  shows "on_disk lib f sb0 m k z d s'"
proof -
  obtain sb cs where sb: "m_superblock s = Some sb" "grown_by f sb0 m cs sb"
     "k \<le> length cs" "length cs < free_count sb0 + m" "length cs \<le> max m k" "unat (e_size (fst_at sb f)) = z" "versions_upto lib s"
     and rd: "\<And>i :: u16. unat i < k \<Longrightarrow>
        ReadFileData lib f i s = Some (Inr (slice (unat i * CLUSTER_DATA_SIZE) CLUSTER_DATA_SIZE d), s)"
    using assms(2) unfolding on_disk_def by auto
  have sb': "m_superblock s' = Some sb" "m_keys s' = m_keys s" "m_nand s' = m_nand s"
    using assms(1) sb(1) by (simp_all add: same_disk_def)
  have "ReadFileData lib f i s' = Some (Inr (slice (unat i * CLUSTER_DATA_SIZE) CLUSTER_DATA_SIZE d), s')"
    if "unat i < k" for i :: u16
    by (rule ReadFileData_cong [OF sb(1) sb' rd [OF that]])
  moreover have "versions_upto lib s'" using sb(7) assms(1) by (simp add: versions_upto_def same_disk_def)
  ultimately show ?thesis
    unfolding on_disk_def by (intro exI [of _ sb] exI [of _ cs]) (simp add: sb sb')
qed

lemma div_between: "k * (c :: nat) \<le> m \<Longrightarrow> m < Suc k * c \<Longrightarrow> m div c = k"
  by (metis div_nat_eqI mult.commute)

text \<open>
  Preparing the cache for the next byte: a cluster of zeros behind the last cluster, the last
  cluster read back when it is not full, or the cluster that is there.
\<close>

lemma fill_cache:
  assumes off: "off = h_file_offset (handle_at s h)" and i: "i = ucast (off div of_nat CLUSTER_DATA_SIZE)"
    and miss: "\<not> (m_cache_handle s = Some h \<and> m_cache_chain_index s = i)"
    and fl: "FlushFileCache lib s = (Success, s0)" and app: "appending h f d s0" and o0: "h_file_offset (handle_at s0 h) = off"
    and disk: "on_disk lib f sb0 m (length d div CLUSTER_DATA_SIZE) z d s0"
    and last: "length d mod CLUSTER_DATA_SIZE \<noteq> 0 \<Longrightarrow> holds lib s0 f d"
  shows "\<exists>s1. PopulateFileCache lib h off True s = Some (Success, s1) \<and> appending h f d s1 \<and>
    on_disk lib f sb0 m (length d div CLUSTER_DATA_SIZE) z d s1 \<and> in_cache h (length d div CLUSTER_DATA_SIZE) d s1 \<and>
    m_cache_chain_index s1 = i"
proof -
  define k where "k = length d div CLUSTER_DATA_SIZE"
  have cpos: "0 < CLUSTER_DATA_SIZE" by (simp add: layout_consts)
  have a: "unat off = length d" "unat off < 2 ^ 30" "h_file_size (handle_at s0 h) = off" "h_fst_index (handle_at s0 h) = f"
    using app o0 by (auto simp: appending_def)
  have ik: "unat i = k" using unat_chain_index [OF a(2)] a(1) by (simp add: i k_def)
  have offz: "(off mod of_nat CLUSTER_DATA_SIZE = 0) = (length d mod CLUSTER_DATA_SIZE = 0)"
    using a(1) by (simp add: word_unat_eq_iff unat_mod unat_of_nat layout_consts)
  have kd: "k * CLUSTER_DATA_SIZE + length d mod CLUSTER_DATA_SIZE = length d" by (simp add: k_def)
  have lt: "length d < Suc k * CLUSTER_DATA_SIZE"
    using dividend_less_div_times [OF cpos, of "length d"] by (simp add: k_def)
  define s2 where "s2 = s0\<lparr>m_cache_handle := Some h, m_cache_chain_index := i, m_cache_for_write := True\<rparr>"
  have h2: "handle_at s2 h = handle_at s0 h" by (simp add: s2_def)
  define c where "c = (if length d mod CLUSTER_DATA_SIZE = 0 then replicate CLUSTER_DATA_SIZE 0
    else (SOME c. ReadFileData lib f i s0 = Some (Inr c, s0)))"
  have "PopulateFileCache lib h off True s = Some (Success, s2\<lparr>m_cache_data := c\<rparr>) \<and> length c = CLUSTER_DATA_SIZE \<and>
    take (length d - k * CLUSTER_DATA_SIZE) c = drop (k * CLUSTER_DATA_SIZE) d"
  proof (cases "length d mod CLUSTER_DATA_SIZE = 0")
    case True
    then have "PopulateFileCache lib h off True s = Some (Success, s2\<lparr>m_cache_data := c\<rparr>)"
      using miss fl offz a(3) by (auto simp: PopulateFileCache_def Let_def i [symmetric] s2_def c_def)
    then show ?thesis using True kd by (simp add: c_def)
  next
    case False
    have kl: "k * CLUSTER_DATA_SIZE < length d" using kd False by linarith
    then obtain c' where c': "ReadFileData lib f i s0 = Some (Inr c', s0)" "length c' = CLUSTER_DATA_SIZE"
      "take (length d - k * CLUSTER_DATA_SIZE) c' = slice (k * CLUSTER_DATA_SIZE) CLUSTER_DATA_SIZE d"
      using last [OF False] ik unfolding holds_def by metis
    have cc: "c = c'" using c'(1) False by (simp add: c_def)
    obtain sb where sb: "m_superblock s0 = Some sb" using disk by (auto simp: on_disk_def)
    have "ReadFileData lib f i s2 = Some (Inr c', s2)"
      by (rule ReadFileData_cong [OF sb _ _ _ c'(1)]) (simp_all add: s2_def sb)
    then have "PopulateFileCache lib h off True s = Some (Success, s2\<lparr>m_cache_data := c'\<rparr>)"
      using miss fl offz False a(4) h2 by (auto simp: PopulateFileCache_def Let_def i [symmetric] s2_def)
    then show ?thesis using c' cc lt by (simp add: slice_def)
  qed
  moreover have "appending h f d (s2\<lparr>m_cache_data := c\<rparr>)" using app by (simp add: appending_def s2_def)
  moreover have "on_disk lib f sb0 m k z d (s2\<lparr>m_cache_data := c\<rparr>)"
    by (rule on_disk_same_disk [OF _ disk [folded k_def]]) (simp add: same_disk_def s2_def)
  ultimately show ?thesis
    using ik lt kd by (intro exI [of _ "s2\<lparr>m_cache_data := c\<rparr>"]) (simp add: in_cache_def s2_def k_def [symmetric])
qed

lemma populate_dirty:
  assumes ok: "mbedtls_ok lib" and w: "dirty lib h f sb0 m d s" and off: "off = h_file_offset (handle_at s h)"
    and room: "length d div CLUSTER_DATA_SIZE < free_count sb0 + m"
  shows "\<exists>s1 z. PopulateFileCache lib h off True s = Some (Success, s1) \<and> appending h f d s1 \<and> z \<le> length d \<and>
    on_disk lib f sb0 m (length d div CLUSTER_DATA_SIZE) z d s1 \<and> in_cache h (length d div CLUSTER_DATA_SIZE) d s1 \<and>
    m_cache_chain_index s1 = ucast (off div of_nat CLUSTER_DATA_SIZE)"
proof -
  define k where "k = length d div CLUSTER_DATA_SIZE"
  define i where "i = (ucast (off div of_nat CLUSTER_DATA_SIZE) :: u16)"
  define j where "j = full_clusters d"
  obtain y where app: "appending h f d s" and c: "in_cache h j d s" and y: "y < length d" "on_disk lib f sb0 m j y d s" and d: "d \<noteq> []"
    using w by (auto simp: dirty_def j_def)
  have uo: "unat off = length d" "unat off < 2 ^ 30" using app off by (simp_all add: appending_def)
  have i: "unat i = k" using unat_chain_index [OF uo(2)] uo(1) by (simp add: i_def k_def)
  have cpos: "0 < CLUSTER_DATA_SIZE" by (simp add: layout_consts)
  have jl: "j * CLUSTER_DATA_SIZE < length d" using full_clusters_less [OF d] by (simp add: j_def)
  show ?thesis
  proof (cases "length d < Suc j * CLUSTER_DATA_SIZE")
    case True
    have kj: "k = j" unfolding k_def by (rule div_between [OF less_imp_le [OF jl] True])
    moreover have "m_cache_chain_index s = i" using c i kj by (simp add: in_cache_def word_unat_eq_iff)
    ultimately show ?thesis
      using app y c by (intro exI [of _ s] exI [of _ y])
        (simp add: PopulateFileCache_def Let_def i_def [symmetric] in_cache_def k_def [symmetric])
  next
    case False
    then have z: "length d = Suc j * CLUSTER_DATA_SIZE" using c by (simp add: in_cache_def)
    then have kj: "k = Suc j" using cpos unfolding k_def z by (metis div_mult_self_is_m)
    obtain s0 sb1 cs where fl: "FlushFileCache lib s = (Success, s0)" and sb1: "m_superblock s0 = Some sb1" "grown_by f sb0 m cs sb1"
      "Suc j \<le> length cs" "length cs \<le> max m (Suc j)" "Suc j < free_count sb0 + m \<longrightarrow> length cs < free_count sb0 + m" "unat (e_size (fst_at sb1 f)) = length d" "versions_upto lib s0"
      and rd: "\<forall>i :: u16. unat i < j \<longrightarrow>
        ReadFileData lib f i s0 = Some (Inr (slice (unat i * CLUSTER_DATA_SIZE) CLUSTER_DATA_SIZE d), s0)"
      and rdj: "ReadFileData lib f (m_cache_chain_index s) s0 = Some (Inr (m_cache_data s), s0)"
      and s0: "s0 = upd_handle h (\<lambda>x. x\<lparr>h_superblock_flush_needed := True\<rparr>) (s\<lparr>m_nand := m_nand s0, m_superblock := Some sb1\<rparr>)"
      by (rule flush_writing [OF ok app y(2) c jl y(1)])
    have at: "handle_at s0 h = (handle_at s h)\<lparr>h_superblock_flush_needed := True\<rparr>"
      and hl: "length (m_handles s0) = NUM_HANDLES"
      using app by (subst s0, simp add: handle_at_upd_handle appending_def)+
    have a0: "appending h f d s0" using app at hl by (simp add: appending_def)
    have last: "m_cache_data s = slice (j * CLUSTER_DATA_SIZE) CLUSTER_DATA_SIZE d"
      using c z by (auto simp: in_cache_def slice_def)
    have "ReadFileData lib f n s0 = Some (Inr (slice (unat n * CLUSTER_DATA_SIZE) CLUSTER_DATA_SIZE d), s0)"
      if "unat n < Suc j" for n :: u16
    proof (cases "unat n = j")
      case True
      then have "n = m_cache_chain_index s" using c by (simp add: in_cache_def word_unat_eq_iff)
      then show ?thesis using rdj last True by simp
    next
      case False
      then show ?thesis using rd that by simp
    qed
    then have d0: "on_disk lib f sb0 m k (length d) d s0"
      unfolding on_disk_def kj using sb1 room kj by (intro exI [of _ sb1] exI [of _ cs]) (simp add: k_def)
    have miss: "\<not> (m_cache_handle s = Some h \<and> m_cache_chain_index s = i)" using c i kj by (auto simp: in_cache_def)
    have o0: "h_file_offset (handle_at s0 h) = off" using at off by simp
    have "\<not> length d mod CLUSTER_DATA_SIZE \<noteq> 0" unfolding z by simp
    then show ?thesis
      using fill_cache [OF off i_def miss fl a0 o0 d0 [unfolded k_def]] unfolding i_def by blast
  qed
qed

lemma populate_idle:
  assumes w: "idle lib h f sb0 m d s" and off: "off = h_file_offset (handle_at s h)"
  shows "\<exists>s1. PopulateFileCache lib h off True s = Some (Success, s1) \<and> appending h f d s1 \<and>
    on_disk lib f sb0 m (length d div CLUSTER_DATA_SIZE) (length d) d s1 \<and> in_cache h (length d div CLUSTER_DATA_SIZE) d s1 \<and>
    m_cache_chain_index s1 = ucast (off div of_nat CLUSTER_DATA_SIZE)"
  by (rule fill_cache [OF off refl _ FlushFileCache_clean]) (use w off in \<open>simp_all add: idle_def\<close>)

lemma slice_append_left: "k + n \<le> length xs \<Longrightarrow> slice k n (xs @ ys) = slice k n xs"
  by (simp add: slice_def)

lemma on_disk_extend:
  assumes "on_disk lib f sb0 m k z d s" "k * CLUSTER_DATA_SIZE \<le> length d"
  shows "on_disk lib f sb0 m k z (d @ bs) s"
proof -
  have "slice (unat i * CLUSTER_DATA_SIZE) CLUSTER_DATA_SIZE (d @ bs) = slice (unat i * CLUSTER_DATA_SIZE) CLUSTER_DATA_SIZE d"
    if "unat i < k" for i :: u16
  proof (rule slice_append_left)
    have "Suc (unat i) * CLUSTER_DATA_SIZE \<le> k * CLUSTER_DATA_SIZE" using that by (intro mult_le_mono1) simp
    then show "unat i * CLUSTER_DATA_SIZE + CLUSTER_DATA_SIZE \<le> length d" using assms(2) by simp
  qed
  then show ?thesis using assms(1) unfolding on_disk_def by auto
qed

lemma in_cache_extend:
  assumes "in_cache h k d s" "length d + length bs \<le> Suc k * CLUSTER_DATA_SIZE"
  shows "in_cache h k (d @ bs) (s\<lparr>m_cache_data := copy_into (m_cache_data s) (length d - k * CLUSTER_DATA_SIZE) bs\<rparr>)"
proof -
  let ?st = "length d - k * CLUSTER_DATA_SIZE" and ?c = "m_cache_data s"
  have c: "length ?c = CLUSTER_DATA_SIZE" "k * CLUSTER_DATA_SIZE \<le> length d" "take ?st ?c = drop (k * CLUSTER_DATA_SIZE) d"
    using assms(1) by (simp_all add: in_cache_def)
  have st: "?st + length bs \<le> length ?c" using c assms(2) by simp
  have "take (length (d @ bs) - k * CLUSTER_DATA_SIZE) (copy_into ?c ?st bs) = take ?st ?c @ bs"
  proof -
    have "length (take ?st ?c) = ?st" using st by simp
    moreover have "length (d @ bs) - k * CLUSTER_DATA_SIZE = ?st + length bs" using c(2) by simp
    ultimately show ?thesis by (simp add: copy_into_def)
  qed
  then show ?thesis using assms c st by (auto simp: in_cache_def)
qed

text \<open>
  One round of the write loop puts at least one byte and at most the rest of a cluster into the
  cache.
\<close>

lemma write_step:
  assumes ok: "mbedtls_ok lib" and w: "idle lib h f sb0 m d s \<or> dirty lib h f sb0 m d s"
    and p: "unat p \<le> unat count" "unat count \<le> length ptr" and False: "p \<noteq> count"
    and small: "length d + (unat count - unat p) < 2 ^ 30"
    and fits: "(length d + (unat count - unat p) - 1) div CLUSTER_DATA_SIZE < free_count sb0 + m"
  obtains n s' where "0 < n" "n \<le> unat count - unat p" "length (slice (unat p) n ptr) = n" "unat (p + of_nat n) = unat p + n"
    "write_loop lib h ptr count p s = write_loop lib h ptr count (p + of_nat n) s'" "dirty lib h f sb0 m (d @ slice (unat p) n ptr) s'"
proof -
  let ?off = "h_file_offset (handle_at s h)" and ?rest = "unat count - unat p"
  have "unat p \<noteq> unat count" using False by (simp add: word_unat_eq_iff)
  then have rest: "0 < ?rest" using p(1) by linarith
  define k where "k = length d div CLUSTER_DATA_SIZE"
  have cpos: "0 < CLUSTER_DATA_SIZE" by (simp add: layout_consts)
  have "k \<le> (length d + ?rest - 1) div CLUSTER_DATA_SIZE" unfolding k_def by (rule div_le_mono) (use rest in simp)
  then have room: "length d div CLUSTER_DATA_SIZE < free_count sb0 + m" using fits by (simp add: k_def)
  obtain s1 z where pop: "PopulateFileCache lib h ?off True s = Some (Success, s1)" and a1: "appending h f d s1"
    and z: "z \<le> length d" and d1: "on_disk lib f sb0 m k z d s1" and c1: "in_cache h k d s1"
    and i1: "m_cache_chain_index s1 = ucast (?off div of_nat CLUSTER_DATA_SIZE)"
    using w populate_dirty [OF ok _ refl room] populate_idle [OF _ refl, of lib h f sb0 m d s]
    unfolding k_def by (meson order.refl)
  have o: "unat ?off = length d" "h_file_offset (handle_at s1 h) = ?off" "h_file_size (handle_at s1 h) = ?off"
    using w a1 by (auto simp: idle_def dirty_def appending_def word_unat_eq_iff)
  have v: "valid_ref h" "length (m_handles s1) = NUM_HANDLES" using a1 by (simp_all add: appending_def)
  have d30: "length d < 2 ^ 30" using a1 by (simp add: appending_def)
  have start: "cache_start s1 h = length d - k * CLUSTER_DATA_SIZE"
    using cache_start_eq [of ?off s1 h] d30 o i1 by (simp add: k_def minus_div_mult_eq_mod)
  have cr: "unat (count - p) = ?rest" using p(1) by (simp add: unat_sub word_le_nat_alt)
  define n where "n = copy_length s1 h (count - p)"
  have cl: "length (m_cache_data s1) = CLUSTER_DATA_SIZE" "k * CLUSTER_DATA_SIZE \<le> length d"
    using c1 by (simp_all add: in_cache_def)
  have n: "n = min (CLUSTER_DATA_SIZE - (length d - k * CLUSTER_DATA_SIZE)) ?rest"
    unfolding n_def cr [symmetric] by (rule copy_length_eq [OF start cl(1)])
  have lt: "length d < Suc k * CLUSTER_DATA_SIZE"
    using dividend_less_div_times [OF cpos, of "length d"] by (simp add: k_def)
  have n0: "0 < n" "n \<le> ?rest" "length d + n \<le> Suc k * CLUSTER_DATA_SIZE" using n rest lt cl(2) by auto
  define bs where "bs = slice (unat p) n ptr"
  have "unat p + n \<le> length ptr" using n0(2) p by linarith
  then have lb: "length bs = n" unfolding bs_def by (rule length_slice)
  define s2 where "s2 = s1\<lparr>m_cache_data := copy_into (m_cache_data s1) (cache_start s1 h) bs\<rparr>"
  define s3 where "s3 = upd_handle h (\<lambda>x. x\<lparr>h_file_offset := h_file_offset x + of_nat n\<rparr>) s2"
  define s4 where "s4 = upd_handle h (\<lambda>x. x\<lparr>h_file_size := max (h_file_offset x) (h_file_size x)\<rparr>) s3"
  have un: "unat (?off + of_nat n) = length d + n"
    using unat_add_of_nat [of ?off n] o(1) n0(2) small by simp
  have v3: "length (m_handles s2) = NUM_HANDLES" "length (m_handles s3) = NUM_HANDLES"
    using v(2) by (simp_all add: s2_def s3_def)
  have mx: "max (?off + of_nat n) ?off = ?off + of_nat n"
    using un o(1) by (simp add: max_def word_le_nat_alt)
  have "handle_at s2 h = handle_at s1 h" by (simp add: s2_def)
  then have h3: "handle_at s3 h = (handle_at s1 h)\<lparr>h_file_offset := ?off + of_nat n\<rparr>"
    unfolding s3_def using handle_at_upd_handle [OF v3(1) v(1)] o(2) by simp
  have h4: "handle_at s4 h = (handle_at s1 h)\<lparr>h_file_offset := ?off + of_nat n, h_file_size := ?off + of_nat n\<rparr>"
    unfolding s4_def using handle_at_upd_handle [OF v3(2) v(1)] h3 o(3) mx by simp
  have k': "full_clusters (d @ bs) = k"
    unfolding full_clusters_def
  proof (rule div_between)
    show "length (d @ bs) - 1 < Suc k * CLUSTER_DATA_SIZE" using n0(1,3) lb unfolding length_append by linarith
  qed (use n0 cl(2) lb in simp)
  have a4: "appending h f (d @ bs) s4"
    using a1 h4 un lb n0(2) small by (simp add: appending_def s4_def s3_def s2_def)
  have d4: "on_disk lib f sb0 m k z (d @ bs) s4"
    by (rule on_disk_same_disk [OF _ on_disk_extend [OF d1 cl(2)]]) (simp add: same_disk_def s4_def s3_def s2_def)
  have "in_cache h k (d @ bs) s2"
    unfolding s2_def start by (rule in_cache_extend [OF c1]) (use n0(3) in \<open>simp only: lb\<close>)
  then have c4: "in_cache h k (d @ bs) s4" by (simp add: in_cache_def s4_def s3_def)
  have w4: "dirty lib h f sb0 m (d @ bs) s4" using a4 d4 c4 lb n0(1) le_less_trans [OF z, of "length (d @ bs)"] by (auto simp: dirty_def k')
  have "unat count < 2 ^ 32" using unsigned_less [of count] by simp
  then have p2: "unat (p + of_nat n) = unat p + n" using n0(2) p(1) by (intro unat_add_of_nat) linarith
  have "\<not> length (m_cache_data s1) < cache_start s1 h" using start cl lt by simp
  then have "write_loop lib h ptr count p s = write_loop lib h ptr count (p + of_nat n) s4"
    unfolding s4_def s3_def s2_def bs_def n_def using False pop
    by (subst write_loop.simps) (simp add: Let_def)
  with n0(1,2) lb [unfolded bs_def] p2 show thesis using w4 [unfolded bs_def] by (rule that)
qed

text \<open>
  The write loop appends exactly the caller's bytes, as long as enough clusters are free.
\<close>

lemma write_loop_writes:
  assumes ok: "mbedtls_ok lib" and "idle lib h f sb0 m d s \<or> dirty lib h f sb0 m d s" "unat p \<le> unat count" "unat count \<le> length ptr"
    "length d + (unat count - unat p) < 2 ^ 30"
    "(length d + (unat count - unat p) - 1) div CLUSTER_DATA_SIZE < free_count sb0 + m"
  shows "\<exists>s'. write_loop lib h ptr count p s = Some (Inr count, s') \<and>
    (if p = count then s' = s else dirty lib h f sb0 m (d @ slice (unat p) (unat count - unat p) ptr) s')"
  using assms(2-)
proof (induction "unat count - unat p" arbitrary: p d s rule: less_induct)
  case less
  let ?rest = "unat count - unat p"
  show ?case
  proof (cases "p = count")
    case True
    then show ?thesis using less.prems by (subst write_loop.simps) simp
  next
    case False
    obtain n s4 where n: "0 < n" "n \<le> ?rest" "length (slice (unat p) n ptr) = n" and p2: "unat (p + of_nat n) = unat p + n"
      and step: "write_loop lib h ptr count p s = write_loop lib h ptr count (p + of_nat n) s4"
      and w4: "dirty lib h f sb0 m (d @ slice (unat p) n ptr) s4"
      by (rule write_step [OF ok less.prems(1-3) False less.prems(4,5)])
    have "\<exists>s'. write_loop lib h ptr count (p + of_nat n) s4 = Some (Inr count, s') \<and>
      (if p + of_nat n = count then s' = s4 else dirty lib h f sb0 m
        ((d @ slice (unat p) n ptr) @ slice (unat (p + of_nat n)) (unat count - unat (p + of_nat n)) ptr) s')"
      by (rule less.hyps) (use w4 p2 n less.prems in simp_all)
    then obtain s' where s': "write_loop lib h ptr count (p + of_nat n) s4 = Some (Inr count, s')"
      and c': "if p + of_nat n = count then s' = s4
        else dirty lib h f sb0 m (d @ slice (unat p) n ptr @ slice (unat p + n) (?rest - n) ptr) s'"
      using p2 by (auto simp: p2 split: if_split_asm)
    have "n + (?rest - n) = ?rest" using n(2) by simp
    then have e: "slice (unat p) n ptr @ slice (unat p + n) (?rest - n) ptr = slice (unat p) ?rest ptr"
      using append_slices [of "unat p" n ptr "?rest - n"] by argo
    have "dirty lib h f sb0 m (d @ slice (unat p) ?rest ptr) s'"
    proof (cases "p + of_nat n = count")
      case True
      then have "?rest = n" using p2 by auto
      then show ?thesis using c' w4 True by simp
    next
      case False
      then show ?thesis using c' e by simp
    qed
    then show ?thesis using s' step False by simp
  qed
qed

end
