(* ===== verification/FileRoundtrip.thy ===== *)
theory FileRoundtrip
  imports FileRW
begin

text \<open>
  From opening a new file to reading its contents back: \<^verbatim>\<open>WriteFile\<close>, \<^verbatim>\<open>Close\<close>, and
  \<^verbatim>\<open>OpenFile\<close> and \<^verbatim>\<open>ReadFile\<close> in the same session or after the image is mounted again.
\<close>

section \<open>Lookups after a file has grown\<close>

lemma grown_entry:
  assumes "grown f sb sb'"
  shows "GetName (fst_at sb' i) = GetName (fst_at sb i)" "e_sib (fst_at sb' i) = e_sib (fst_at sb i)"
    "HasPermission (fst_at sb' i) = HasPermission (fst_at sb i)" "IsFile (fst_at sb' i) = IsFile (fst_at sb i)"
    "i \<noteq> f \<Longrightarrow> fst_at sb' i = fst_at sb i"
proof -
  obtain a z where f: "fst_at sb' f = (fst_at sb f)\<lparr>e_sub := a, e_size := z\<rparr>" and o: "i \<noteq> f \<Longrightarrow> fst_at sb' i = fst_at sb i"
    using assms by (auto simp: grown_def)
  show "i \<noteq> f \<Longrightarrow> fst_at sb' i = fst_at sb i" by (rule o)
  show "GetName (fst_at sb' i) = GetName (fst_at sb i)" "e_sib (fst_at sb' i) = e_sib (fst_at sb i)"
    "HasPermission (fst_at sb' i) = HasPermission (fst_at sb i)" "IsFile (fst_at sb' i) = IsFile (fst_at sb i)"
    using f o by (cases "i = f"; simp add: HasPermission_def fun_eq_iff IsFile_def GetOwnerMode_def GetGroupMode_def GetOtherMode_def)+
qed

lemma find_child_grown:
  "find_child sb n i = Some r \<Longrightarrow> grown f sb sb' \<Longrightarrow> find_child sb' n i = Some r"
proof (induction rule: find_child.raw_induct [rotated, consumes 1])
  case (1 fc sb n i r)
  note e = grown_entry [OF 1(3)]
  show ?case
    using 1(1) [OF _ 1(3)] 1(2) by (subst find_child.simps) (auto simp: e Let_def split: if_splits)
qed

lemma GetFstIndex_child_grown:
  assumes "GetFstIndex_child sb i n = Some (Inr j)" "grown f sb sb'" "\<not> in_fst (e_sub (fst_at sb f))"
  shows "GetFstIndex_child sb' i n = Some (Inr j)"
proof -
  have "i \<noteq> f" using assms(1,3) by (auto simp: GetFstIndex_child_def Let_def split: if_splits)
  then show ?thesis
    using assms(1) grown_entry(5) [OF assms(2)] find_child_grown [OF _ assms(2)]
    by (auto simp: GetFstIndex_child_def Let_def split: if_splits)
qed

lemma walk_path_grown:
  assumes "grown f sb sb'" "\<not> in_fst (e_sub (fst_at sb f))"
  shows "walk_path sb i cs = Some (Inr j) \<Longrightarrow> walk_path sb' i cs = Some (Inr j)"
proof (induction cs arbitrary: i)
  case (Cons c cs)
  then show ?case
    using GetFstIndex_child_grown [OF _ assms]
    by (auto split: option.splits sum.splits if_splits)
qed simp

lemma GetFstIndex_grown:
  assumes "grown f sb sb'" "\<not> in_fst (e_sub (fst_at sb f))" "GetFstIndex sb path = Some (Inr j)"
  shows "GetFstIndex sb' path = Some (Inr j)"
  using assms(3) walk_path_grown [OF assms(1,2)] by (auto simp: GetFstIndex_def split: if_splits)

section \<open>File data survives a flush of the superblock\<close>

lemma flushed_data:
  assumes "mbedtls_ok lib" "m_superblock s = Some sb" "sb_wf sb" "c < SUPERBLOCK_START_CLUSTER"
  shows "ReadCluster lib keys (m_nand (flushed lib s)) c = ReadCluster lib keys (m_nand s) c"
proof -
  have out: "outside_slot (next_index i) c" for i
  proof -
    have "c \<noteq> sb_cluster (unat (next_index i)) j" if "j < CLUSTERS_PER_SUPERBLOCK" for j
      using assms(4) unat_sb_cluster [OF unat_next_index that, of i]
      by (auto simp: word_less_nat_alt layout_consts)
    then show ?thesis by (auto simp: outside_slot_def)
  qed
  have "ReadCluster lib keys (m_nand ((flush_one lib ^^ n) s)) c = ReadCluster lib keys (m_nand s) c" for n
  proof (induction n)
    case (Suc n)
    show ?case
      using flush_one_disk(3) [OF assms(1) flush_one_iter [OF assms(2), where n = n and lib = lib] _ out] assms(3) Suc by simp
  qed simp
  then show ?thesis using assms(2) by (simp add: flushed_def)
qed

lemma ReadFileData_flushed:
  assumes ok: "mbedtls_ok lib" and sb: "m_superblock s = Some sb" "sb_wf sb"
    and cs: "clusters sb f cs" "\<forall>c\<in>set cs. c < SUPERBLOCK_START_CLUSTER"
    and r: "ReadFileData lib f i s = Some (Inr d, s)"
  shows "ReadFileData lib f i (flushed lib s) = Some (Inr d, flushed lib s)"
proof -
  note f = ReadFileData_Some [OF r sb(1) cs(1)]
  obtain v where v: "m_superblock (flushed lib s) = Some (sb\<lparr>sb_version := v\<rparr>)" using flushed_superblock [OF sb(1)] by blast
  have same: "fst_at (sb\<lparr>sb_version := v\<rparr>) = fst_at sb" "fat_at (sb\<lparr>sb_version := v\<rparr>) = fat_at sb"
    by (simp_all add: fst_at_def fat_at_def fun_eq_iff)
  have cs': "clusters (sb\<lparr>sb_version := v\<rparr>) f cs" using cs(1) by (simp add: clusters_def same)
  have h: "GenerateHmacForData lib k (sb\<lparr>sb_version := v\<rparr>) x f i = GenerateHmacForData lib k sb x f i" for k x
    by (rule GenerateHmacForData_cong) (simp_all add: same)
  have "ReadCluster lib (m_keys s) (m_nand (flushed lib s)) (cs ! unat i) = ReadCluster lib (m_keys s) (m_nand s) (cs ! unat i)"
    by (rule flushed_data [OF ok sb]) (use cs(2) f(4) in simp)
  then show ?thesis
    using r ReadFileData_eq [OF v f(1) _ _ cs' f(4), of lib] ReadFileData_eq [OF sb(1) f(1,2,3) cs(1) f(4), of lib] f(2,3)
    by (auto simp: same h split: sum.splits if_splits)
qed

section \<open>Closing a file that has been written\<close>

lemma holds_grown:
  assumes rd: "\<forall>i :: u16. unat i < k \<longrightarrow>
       ReadFileData lib f i s = Some (Inr (slice (unat i * CLUSTER_DATA_SIZE) CLUSTER_DATA_SIZE d), s)"
    and last: "ReadFileData lib f j s = Some (Inr c, s)" "unat j = k" "length c = CLUSTER_DATA_SIZE"
      "take (length d - k * CLUSTER_DATA_SIZE) c = drop (k * CLUSTER_DATA_SIZE) d"
    and len: "k * CLUSTER_DATA_SIZE < length d" "length d \<le> Suc k * CLUSTER_DATA_SIZE" "length d < 2 ^ 30"
    and sb: "m_superblock s \<noteq> None"
  shows "holds lib s f d"
  unfolding holds_def
proof (intro conjI allI impI)
  fix i :: u16
  assume i: "unat i * CLUSTER_DATA_SIZE < length d"
  show "\<exists>c. ReadFileData lib f i s = Some (Inr c, s) \<and> length c = CLUSTER_DATA_SIZE \<and>
     take (length d - unat i * CLUSTER_DATA_SIZE) c = slice (unat i * CLUSTER_DATA_SIZE) CLUSTER_DATA_SIZE d"
  proof (cases "unat i < k")
    case True
    have "Suc (unat i) * CLUSTER_DATA_SIZE \<le> k * CLUSTER_DATA_SIZE" using True by (intro mult_le_mono1) simp
    then have le: "unat i * CLUSTER_DATA_SIZE + CLUSTER_DATA_SIZE \<le> length d" using len(1) by simp
    then show ?thesis using rd True by simp
  next
    case False
    have "unat i * CLUSTER_DATA_SIZE < Suc k * CLUSTER_DATA_SIZE" using i len(2) by linarith
    then have "unat i = k" using False by (simp only: mult_less_cancel2) linarith
    then have "i = j" using last(2) by (simp add: word_unat_eq_iff)
    moreover have "drop (k * CLUSTER_DATA_SIZE) d = slice (k * CLUSTER_DATA_SIZE) CLUSTER_DATA_SIZE d"
      using len(2) by (simp add: slice_def)
    ultimately show ?thesis using last by simp
  qed
qed (use len sb in simp_all)

lemma Close_writing:
  assumes ok: "mbedtls_ok lib" and w: "dirty lib h f sb0 m d s" and fd: "GetHandleFromFd fd s = Some h"
  obtains s' sb' where "Close lib fd s = Some (Success, s')" "m_superblock s' = Some sb'" "sb_wf sb'" "IsFile (fst_at sb' f)"
    "grown f sb0 sb'" "unat (e_size (fst_at sb' f)) = length d" "holds lib s' f d" "newest lib s'"
    "m_cache_handle s' = None" "m_handles s' = m_handles (upd_handle h (\<lambda>_. new_Handle) s)"
    "free_count sb0 + m \<le> free_count sb' + max m (Suc (full_clusters d))"
proof -
  obtain z where app: "appending h f d s" and disk: "z < length d" "on_disk lib f sb0 m (full_clusters d) z d s"
    and ch: "in_cache h (full_clusters d) d s" and d: "d \<noteq> []"
    using w by (auto simp: dirty_def)
  obtain s1 sb1 cs where fl: "FlushFileCache lib s = (Success, s1)" and sb1: "m_superblock s1 = Some sb1" "grown_by f sb0 m cs sb1"
    "unat (e_size (fst_at sb1 f)) = length d" "versions_upto lib s1" "length cs \<le> max m (Suc (full_clusters d))"
    and rd: "\<forall>i :: u16. unat i < full_clusters d \<longrightarrow>
       ReadFileData lib f i s1 = Some (Inr (slice (unat i * CLUSTER_DATA_SIZE) CLUSTER_DATA_SIZE d), s1)"
      "ReadFileData lib f (m_cache_chain_index s) s1 = Some (Inr (m_cache_data s), s1)"
    and s1: "s1 = upd_handle h (\<lambda>x. x\<lparr>h_superblock_flush_needed := True\<rparr>) (s\<lparr>m_nand := m_nand s1, m_superblock := Some sb1\<rparr>)"
    by (rule flush_writing [OF ok app disk(2) ch full_clusters_less [OF d] disk(1)])
  define s2 where "s2 = s1\<lparr>m_cache_handle := None, m_cache_data := []\<rparr>"
  have sb2: "m_superblock s2 = Some sb1" "sb_wf sb1" using sb1 by (simp_all add: s2_def grown_by_def)
  have v: "valid_ref h" "length (m_handles s) = NUM_HANDLES" using app by (simp_all add: appending_def)
  have "h_superblock_flush_needed (handle_at s1 h)"
    using v by (subst s1) (simp add: handle_at_upd_handle)
  then have fn: "h_superblock_flush_needed (handle_at s2 h)" by (simp add: s2_def)
  define s' where "s' = upd_handle h (\<lambda>_. new_Handle) (flushed lib s2)"
  have "close_handle lib h s2 = Some (Success, s')"
    using fn FlushSuperblock_eq [OF ok sb2] by (simp add: close_handle_def s'_def)
  then have close: "Close lib fd s = Some (Success, s')"
    using fd ch fl by (simp add: Close_def in_cache_def s2_def)
  obtain x where x: "m_superblock (flushed lib s2) = Some (sb1\<lparr>sb_version := x\<rparr>)"
    using flushed_superblock [OF sb2(1)] by blast
  have same: "fst_at (sb1\<lparr>sb_version := x\<rparr>) = fst_at sb1" "free_count (sb1\<lparr>sb_version := x\<rparr>) = free_count sb1"
    by (simp_all add: fst_at_def fat_at_def free_count_def fun_eq_iff)
  have fc: "free_count sb0 + m \<le> free_count sb1 + max m (Suc (full_clusters d))" using sb1(2,5) by (simp add: grown_by_def)
  have g: "file_clusters sb1 f cs" "\<forall>c\<in>set cs. c < SUPERBLOCK_START_CLUSTER" "grown f sb0 sb1" "IsFile (fst_at sb1 f)"
    using sb1(2) by (simp_all add: grown_by_def)
  have h1: "holds lib s1 f d"
    by (rule holds_grown [OF rd]) (use ch app full_clusters_less [OF d] sb1(1) in \<open>simp_all add: in_cache_def appending_def\<close>)
  have h2: "holds lib s2 f d" by (rule holds_same_disk [OF _ h1]) (simp add: same_disk_def s2_def)
  have "holds lib (flushed lib s2) f d"
    using h2 ReadFileData_flushed [OF ok sb2 _ g(2)] g(1) x unfolding holds_def file_clusters_def by blast
  then have h': "holds lib s' f d" by (rule holds_same_disk [rotated]) (simp add: same_disk_def s'_def)
  have "versions_upto lib s2" using sb1(4) by (simp add: versions_upto_def s2_def)
  then have "newest lib (flushed lib s2)" by (rule flushed_newest [OF ok sb2(1)])
  then have n: "newest lib s'" by (simp add: newest_def s'_def)
  have hs: "m_handles s' = m_handles (upd_handle h (\<lambda>_. new_Handle) s)"
  proof (cases h)
    case (Slot i)
    have "m_handles s1 = (m_handles s)[i := (m_handles s ! i)\<lparr>h_superblock_flush_needed := True\<rparr>]"
      by (subst s1) (simp add: Slot upd_handle_def)
    then show ?thesis by (simp add: s'_def s2_def Slot upd_handle_def)
  next
    case Internal
    have "m_handles s1 = m_handles s" by (subst s1) (simp add: Internal upd_handle_def)
    then show ?thesis by (simp add: s'_def s2_def Internal upd_handle_def)
  qed
  show thesis
    by (rule that [OF close, of "sb1\<lparr>sb_version := x\<rparr>"])
      (use x same g sb1(3) sb2(2) h' n hs fc in \<open>simp_all add: s'_def s2_def grown_def sb_wf_version_upd\<close>)
qed

section \<open>Opening\<close>

text \<open>Opening a file with known contents and reading it from the start.\<close>

lemma open_and_read:
  assumes path: "IsValidNonRootPath path" and g: "GetSuperblock lib s = (Some sb, s1)" and f: "GetFstIndex sb path = Some (Inr f)"
    and e: "IsFile (fst_at sb f)" "HasPermission (fst_at sb f) uid gid FileMode_ReadWrite" "unat (e_size (fst_at sb f)) = length d"
    and len: "length (m_handles s1) = NUM_HANDLES" and slot: "j < NUM_HANDLES" "\<not> h_opened (m_handles s1 ! j)"
    and h: "holds lib s1 f d" "m_cache_handle s1 = None" and ptr: "length ptr = length d"
  shows "\<exists>fd s2 s3. OpenFile lib uid gid path FileMode_ReadWrite s = Some (Inr fd, s2) \<and>
    ReadFile lib fd ptr (of_nat (length d)) s2 = Some ((Inr (of_nat (length d)), d), s3)"
proof -
  obtain i where i: "i < NUM_HANDLES"
    and o: "OpenFile lib uid gid path FileMode_ReadWrite s = Some (Inr (ConvertHandleToFd i), upd_handle (Slot i) (\<lambda>_.
      \<lparr>h_opened = True, h_fst_index = f, h_gid = gid, h_uid = uid, h_mode = FileMode_ReadWrite, h_file_offset = 0,
        h_file_size = e_size (fst_at sb f), h_superblock_flush_needed = False\<rparr>) s1)"
    by (rule OpenFile_opens [OF path g f e(1,2) len slot])
  define s2 where "s2 = upd_handle (Slot i) (\<lambda>_.
      \<lparr>h_opened = True, h_fst_index = f, h_gid = gid, h_uid = uid, h_mode = FileMode_ReadWrite, h_file_offset = 0,
        h_file_size = e_size (fst_at sb f), h_superblock_flush_needed = False\<rparr>) s1"
  have v: "valid_ref (Slot i)" using i by (simp add: valid_ref_def)
  have at: "handle_at s2 (Slot i) = \<lparr>h_opened = True, h_fst_index = f, h_gid = gid, h_uid = uid, h_mode = FileMode_ReadWrite,
      h_file_offset = 0, h_file_size = e_size (fst_at sb f), h_superblock_flush_needed = False\<rparr>"
    unfolding s2_def by (simp add: handle_at_upd_handle len v)
  have fd: "GetHandleFromFd (ConvertHandleToFd i) s2 = Some (Slot i)"
    unfolding s2_def by (rule GetHandleFromFd_opened) (use i len in simp_all)
  have "holds lib s2 f d" by (rule holds_same_disk [OF _ h(1)]) (simp add: same_disk_def s2_def)
  then have r: "reading lib (Slot i) f d s2"
    using v len h(2) at e(3) by (simp add: reading_def clean_def) (simp add: s2_def)
  have d30: "length d < 2 ^ 30" using h(1) by (simp add: holds_def)
  have u: "unat (of_nat (length d) :: u32) = length d" using d30 by (simp add: unat_of_nat)
  have "in_fst f" by (rule GetFstIndex_valid [OF f])
  then have "\<exists>s3. ReadFile lib (ConvertHandleToFd i) ptr (of_nat (length d)) s2 = Some ((Inr (of_nat (length d)), d), s3)"
    using ReadFile_reads [OF r fd, of 0 "of_nat (length d)" "length d" ptr] at ReadWrite_bits(1) u d30 ptr
    by (auto simp: copy_into_def slice_def)
  then show ?thesis using o s2_def by blast
qed

section \<open>Appending through an open handle\<close>

text \<open>
  \<open>ready\<close>: a mounted file system whose superblock area is reserved, without pending file
  data, and whose cache, if any, belongs to an open handle.
\<close>

definition ready :: "('k, 'c) mbedtls \<Rightarrow> Superblock \<Rightarrow> FileSystemImpl \<Rightarrow> bool" where
  "ready lib sb s \<longleftrightarrow> m_superblock s = Some sb \<and> versions_upto lib s \<and> area_reserved sb \<and>
     length (m_handles s) = NUM_HANDLES \<and> clean s \<and>
     (\<forall>i<NUM_HANDLES. m_cache_handle s = Some (Slot i) \<longrightarrow> h_opened (m_handles s ! i))"

text \<open>What \<^verbatim>\<open>CreateFile\<close> leaves: a file of size zero without clusters.\<close>

definition empty_file :: "Superblock \<Rightarrow> u16 \<Rightarrow> bool" where
  "empty_file sb f \<longleftrightarrow> IsFile (fst_at sb f) \<and> e_size (fst_at sb f) = 0 \<and> \<not> in_fat (e_sub (fst_at sb f))"

text \<open>A file with contents \<open>d\<close> and clusters \<open>cs\<close> below the superblocks.\<close>

definition stored_file :: "('k, 'c) mbedtls \<Rightarrow> Superblock \<Rightarrow> u16 \<Rightarrow> u16 list \<Rightarrow> u8 list \<Rightarrow> FileSystemImpl \<Rightarrow> bool" where
  "stored_file lib sb f cs d s \<longleftrightarrow> IsFile (fst_at sb f) \<and> unat (e_size (fst_at sb f)) = length d \<and> file_clusters sb f cs \<and>
     (\<forall>c\<in>set cs. c < SUPERBLOCK_START_CLUSTER) \<and> holds lib s f d"

lemma not_in_fat_fst: "\<not> in_fat i \<Longrightarrow> \<not> in_fst i"
  by (simp add: in_fat_def in_fst_def FAT_SIZE_def FST_SIZE_def)

lemma empty_stored:
  "empty_file sb f \<Longrightarrow> m_superblock s \<noteq> None \<Longrightarrow> stored_file lib sb f [] [] s"
  by (simp add: empty_file_def stored_file_def file_clusters_def clusters_def holds_def)

text \<open>The opened file, at the end of its contents.\<close>

abbreviation opened_handle :: "Uid \<Rightarrow> Gid \<Rightarrow> FileMode \<Rightarrow> u16 \<Rightarrow> u32 \<Rightarrow> Handle" where
  "opened_handle uid gid mode f z \<equiv> \<lparr>h_opened = True, h_fst_index = f, h_gid = gid, h_uid = uid, h_mode = mode,
     h_file_offset = 0, h_file_size = z, h_superblock_flush_needed = False\<rparr>"

lemma open_slot:
  assumes sb: "m_superblock s = Some sb" and len: "length (m_handles s) = NUM_HANDLES" and f: "GetFstIndex sb path = Some (Inr f)"
    and o: "OpenFile lib uid gid path mode s = Some (Inr fd, s1)"
  obtains i where "i < NUM_HANDLES" "\<not> h_opened (m_handles s ! i)" "fd = ConvertHandleToFd i"
    "s1 = upd_handle (Slot i) (\<lambda>_. opened_handle uid gid mode f (e_size (fst_at sb f))) s"
    "IsValidNonRootPath path" "IsFile (fst_at sb f)" "HasPermission (fst_at sb f) uid gid mode"
proof -
  note g = GetSuperblock_loaded [OF sb, of lib]
  have path: "IsValidNonRootPath path" using o by (auto simp: OpenFile_def split: if_splits)
  have e: "IsFile (fst_at sb f)" using o path g f by (auto simp: OpenFile_def split: if_splits)
  have perm: "HasPermission (fst_at sb f) uid gid mode"
    using o path g f e by (auto simp: OpenFile_def split: if_splits)
  have "AssignFreeHandle uid gid s \<noteq> (None, s)"
    using o path g f e perm by auto (simp add: OpenFile_def)
  then obtain j where j: "j < NUM_HANDLES" "\<not> h_opened (m_handles s ! j)"
    using AssignFreeHandle_cases [OF len, of uid gid] by blast
  obtain i where i: "i < NUM_HANDLES" "\<not> h_opened (m_handles s ! i)"
    and o': "OpenFile lib uid gid path mode s = Some (Inr (ConvertHandleToFd i),
      upd_handle (Slot i) (\<lambda>_. opened_handle uid gid mode f (e_size (fst_at sb f))) s)"
    by (rule OpenFile_opens [OF path g f e perm len j])
  show thesis using o o' by (intro that [OF i _ _ path e perm]) simp_all
qed

lemma open_to_append:
  assumes s: "ready lib sb s" and f: "stored_file lib sb f cs d s" "in_fst f" and free: "0 < free_count sb"
    and i: "i < NUM_HANDLES" "\<not> h_opened (m_handles s ! i)"
    and s2: "s2 = upd_handle (Slot i) (\<lambda>_. (opened_handle uid gid FileMode_ReadWrite f (e_size (fst_at sb f)))\<lparr>h_file_offset := e_size (fst_at sb f)\<rparr>) s"
  shows "idle lib (Slot i) f sb (length cs) d s2" "GetHandleFromFd (ConvertHandleToFd i) s2 = Some (Slot i)"
    "h_mode (handle_at s2 (Slot i)) = FileMode_ReadWrite"
proof -
  let ?k = "length d div CLUSTER_DATA_SIZE"
  have sb: "m_superblock s = Some sb" and len: "length (m_handles s) = NUM_HANDLES" and wf: "sb_wf sb"
    using s by (simp_all add: ready_def versions_upto_def)
  have v: "valid_ref (Slot i)" using i(1) by (simp add: valid_ref_def)
  have at: "handle_at s2 (Slot i) = (opened_handle uid gid FileMode_ReadWrite f (e_size (fst_at sb f)))\<lparr>h_file_offset := e_size (fst_at sb f)\<rparr>"
    unfolding s2 by (simp add: handle_at_upd_handle len v)
  then show "h_mode (handle_at s2 (Slot i)) = FileMode_ReadWrite" by simp
  show "GetHandleFromFd (ConvertHandleToFd i) s2 = Some (Slot i)"
    unfolding s2 by (rule GetHandleFromFd_opened) (use i len in simp_all)
  have same: "same_disk s s2" by (simp add: same_disk_def s2)
  have hold: "holds lib s f d" and d30: "length d < 2 ^ 30" using f(1) by (simp_all add: stored_file_def holds_def)
  have a: "appending (Slot i) f d s2"
    using at v len f d30 by (simp add: appending_def stored_file_def) (simp add: s2)
  have gr: "grown_by f sb (length cs) cs sb"
    using wf f(1) s grown_refl by (simp add: grown_by_def stored_file_def ready_def)
  have rd: "ReadFileData lib f n s = Some (Inr (slice (unat n * CLUSTER_DATA_SIZE) CLUSTER_DATA_SIZE d), s)"
    if n: "unat n < ?k" for n :: u16
  proof -
    have "Suc (unat n) * CLUSTER_DATA_SIZE \<le> ?k * CLUSTER_DATA_SIZE" using n by (intro mult_le_mono1) simp
    also have "\<dots> \<le> length d" by (rule div_times_less_eq_dividend)
    finally have le: "unat n * CLUSTER_DATA_SIZE + CLUSTER_DATA_SIZE \<le> length d" by simp
    moreover have "0 < CLUSTER_DATA_SIZE" by (simp add: layout_consts)
    ultimately have "unat n * CLUSTER_DATA_SIZE < length d" by linarith
    then obtain c where "ReadFileData lib f n s = Some (Inr c, s)" "length c = CLUSTER_DATA_SIZE"
      "take (length d - unat n * CLUSTER_DATA_SIZE) c = slice (unat n * CLUSTER_DATA_SIZE) CLUSTER_DATA_SIZE d"
      using hold unfolding holds_def by blast
    then show ?thesis using le by simp
  qed
  have "?k \<le> length cs"
  proof (cases "?k = 0")
    case False
    have "length d < 2 ^ 30" by (rule d30)
    then have u: "unat (of_nat (?k - 1) :: u16) = ?k - 1" by (simp add: unat_of_nat layout_consts)
    show ?thesis
      using ReadFileData_Some(4) [OF rd [of "of_nat (?k - 1)"] sb] f(1) u False
      by (fastforce simp: stored_file_def file_clusters_def)
  qed simp
  moreover have "versions_upto lib s" using s by (simp add: ready_def)
  ultimately have "on_disk lib f sb (length cs) ?k (length d) d s"
    unfolding on_disk_def using gr sb f(1) rd free by (intro exI [of _ sb] exI [of _ cs]) (simp add: stored_file_def)
  then have "on_disk lib f sb (length cs) ?k (length d) d s2" by (rule on_disk_same_disk [OF same])
  moreover have "clean s2" "m_cache_handle s2 \<noteq> Some (Slot i)" using s i by (auto simp: ready_def clean_def s2)
  ultimately show "idle lib (Slot i) f sb (length cs) d s2"
    using a holds_same_disk [OF same hold] by (simp add: idle_def)
qed

lemma write_and_close:
  assumes ok: "mbedtls_ok lib" and w: "idle lib h f sb m d0 s" and fd: "GetHandleFromFd fd s = Some h"
    and mode: "h_mode (handle_at s h) = FileMode_ReadWrite"
    and d: "d \<noteq> []" "length d0 + length d < 2 ^ 30" "(length d0 + length d - 1) div CLUSTER_DATA_SIZE < free_count sb + m"
  obtains s2 s3 sb' where "WriteFile lib fd d (of_nat (length d)) s = Some (Inr (of_nat (length d)), s2)"
    "Close lib fd s2 = Some (Success, s3)" "m_superblock s3 = Some sb'" "sb_wf sb'" "grown f sb sb'"
    "IsFile (fst_at sb' f)" "unat (e_size (fst_at sb' f)) = length (d0 @ d)"
    "holds lib s3 f (d0 @ d)" "newest lib s3" "m_cache_handle s3 = None" "m_handles s3 = m_handles (upd_handle h (\<lambda>_. new_Handle) s2)"
    "appending h f (d0 @ d) s2" "m_cache_handle s2 = Some h"
    "free_count sb + m \<le> free_count sb' + max m (Suc (full_clusters (d0 @ d)))"
proof -
  have u: "unat (of_nat (length d) :: u32) = length d" using d(2) by (simp add: unat_of_nat)
  have n0: "(0 :: u32) \<noteq> of_nat (length d)" using u d(1) by (metis length_0_conv unat_0)
  have all: "slice 0 (length d) d = d" by (simp add: slice_def)
  have "\<exists>s2. write_loop lib h d (of_nat (length d)) 0 s = Some (Inr (of_nat (length d)), s2) \<and>
      (if 0 = (of_nat (length d) :: u32) then s2 = s
       else dirty lib h f sb m (d0 @ slice (unat (0 :: u32)) (unat (of_nat (length d) :: u32) - unat (0 :: u32)) d) s2)"
    by (rule write_loop_writes [OF ok disjI1 [OF w]]) (use d u in \<open>simp_all only: unat_0 diff_zero le0 order.refl\<close>)
  then obtain s2 where w: "write_loop lib h d (of_nat (length d)) 0 s = Some (Inr (of_nat (length d)), s2)"
    "dirty lib h f sb m (d0 @ d) s2"
    unfolding u unat_0 diff_zero all if_not_P [OF n0] by blast
  have i: "h_fst_index (handle_at s h) = f" "in_fst f" using assms(2) by (simp_all add: idle_def appending_def)
  have wr: "WriteFile lib fd d (of_nat (length d)) s = Some (Inr (of_nat (length d)), s2)"
    using w(1) fd i mode ReadWrite_bits(2) by (simp add: WriteFile_def Let_def)
  have a2: "appending h f (d0 @ d) s2" "m_cache_handle s2 = Some h" using w(2) by (simp_all add: dirty_def in_cache_def)
  then have "h_opened (handle_at s2 h)" by (simp add: appending_def)
  then have fd2: "GetHandleFromFd fd s2 = Some h" using fd by (rule GetHandleFromFd_still)
  obtain s' sb' where "Close lib fd s2 = Some (Success, s')" "m_superblock s' = Some sb'" "sb_wf sb'" "IsFile (fst_at sb' f)"
    "grown f sb sb'" "unat (e_size (fst_at sb' f)) = length (d0 @ d)" "holds lib s' f (d0 @ d)" "newest lib s'"
    "m_cache_handle s' = None" "m_handles s' = m_handles (upd_handle h (\<lambda>_. new_Handle) s2)"
    "free_count sb + m \<le> free_count sb' + max m (Suc (full_clusters (d0 @ d)))"
    by (rule Close_writing [OF ok w(2) fd2])
  then show thesis using that [OF wr] a2 by blast
qed

text \<open>The same for a new file, which needs no seek.\<close>

lemma write_new_file:
  assumes ok: "mbedtls_ok lib" and s: "ready lib sb s" and f: "empty_file sb f" "GetFstIndex sb path = Some (Inr f)"
    and o: "OpenFile lib uid gid path FileMode_ReadWrite s = Some (Inr fd, s1)"
    and d: "d \<noteq> []" "length d < 2 ^ 30" "full_clusters d < free_count sb"
  obtains s2 s3 sb' where "WriteFile lib fd d (of_nat (length d)) s1 = Some (Inr (of_nat (length d)), s2)"
    "Close lib fd s2 = Some (Success, s3)" "m_superblock s3 = Some sb'" "GetFstIndex sb' path = Some (Inr f)"
    "IsFile (fst_at sb' f)" "HasPermission (fst_at sb' f) uid gid FileMode_ReadWrite" "unat (e_size (fst_at sb' f)) = length d"
    "holds lib s3 f d" "newest lib s3" "m_cache_handle s3 = None" "length (m_handles s3) = NUM_HANDLES"
    "\<exists>j<NUM_HANDLES. \<not> h_opened (m_handles s3 ! j)"
proof -
  have sb: "m_superblock s = Some sb" "length (m_handles s) = NUM_HANDLES" using s by (simp_all add: ready_def)
  obtain i where i: "i < NUM_HANDLES" "\<not> h_opened (m_handles s ! i)" "fd = ConvertHandleToFd i"
      "s1 = upd_handle (Slot i) (\<lambda>_. opened_handle uid gid FileMode_ReadWrite f (e_size (fst_at sb f))) s"
    and perm: "HasPermission (fst_at sb f) uid gid FileMode_ReadWrite"
    by (rule open_slot [OF sb f(2) o])
  have z: "e_size (fst_at sb f) = 0" using f(1) by (simp add: empty_file_def)
  have st: "stored_file lib sb f [] [] s" by (rule empty_stored [OF f(1)]) (simp add: sb)
  have "in_fst f" by (rule GetFstIndex_valid [OF f(2)])
  note a = open_to_append [OF s st this _ i(1,2), where ?s2.0 = s1 and uid = uid and gid = gid]
  have w: "idle lib (Slot i) f sb 0 [] s1" "GetHandleFromFd fd s1 = Some (Slot i)"
    "h_mode (handle_at s1 (Slot i)) = FileMode_ReadWrite"
    using a d(3) i(3,4) z by simp_all
  obtain s2 s3 sb' where wc: "WriteFile lib fd d (of_nat (length d)) s1 = Some (Inr (of_nat (length d)), s2)"
    "Close lib fd s2 = Some (Success, s3)" "m_superblock s3 = Some sb'" "sb_wf sb'" "grown f sb sb'"
    "IsFile (fst_at sb' f)" "unat (e_size (fst_at sb' f)) = length ([] @ d)"
    "holds lib s3 f ([] @ d)" "newest lib s3" "m_cache_handle s3 = None" "m_handles s3 = m_handles (upd_handle (Slot i) (\<lambda>_. new_Handle) s2)"
    "appending (Slot i) f ([] @ d) s2"
    by (rule write_and_close [OF ok w d(1)]) (use d in \<open>simp_all add: full_clusters_def\<close>)
  have ns: "\<not> in_fst (e_sub (fst_at sb f))" using f(1) by (simp add: empty_file_def not_in_fat_fst)
  have l2: "length (m_handles s2) = NUM_HANDLES" using wc(12) by (simp add: appending_def)
  then have "length (m_handles s3) = NUM_HANDLES" "\<not> h_opened (m_handles s3 ! i)"
    using wc(11) i(1) by (simp_all add: upd_handle_def new_Handle_def)
  then show thesis
    using that [OF wc(1-3) GetFstIndex_grown [OF wc(5) ns f(2)] wc(6) _ _ _ wc(9,10)] wc(7,8) grown_entry(3) [OF wc(5)] perm i(1) by auto
qed

section \<open>Properties\<close>

text \<open>
  A file that is written and closed reads back. On a mounted file system, opening an empty
  file for reading and writing, writing any non-empty contents below 1 GiB for which there
  are enough free clusters, and closing the file succeed; opening the path again and reading
  returns exactly these bytes. The cache, the cluster chain, the encryption, the codes and
  the persisted superblock are all the ones of the program.
\<close>

theorem write_close_read:
  assumes "mbedtls_ok lib" and "ready lib sb s" and "empty_file sb f" and "GetFstIndex sb path = Some (Inr f)"
    and "OpenFile lib uid gid path FileMode_ReadWrite s = Some (Inr fd, s1)"
    and "d \<noteq> []" and "length d < 2 ^ 30" and "(length d - 1) div CLUSTER_DATA_SIZE < free_count sb"
    and "length ptr = length d"
  shows "\<exists>s2 s3 fd' s4 s5. WriteFile lib fd d (of_nat (length d)) s1 = Some (Inr (of_nat (length d)), s2) \<and>
    Close lib fd s2 = Some (Success, s3) \<and>
    OpenFile lib uid gid path FileMode_ReadWrite s3 = Some (Inr fd', s4) \<and>
    ReadFile lib fd' ptr (of_nat (length d)) s4 = Some ((Inr (of_nat (length d)), d), s5)"
proof -
  have path: "IsValidNonRootPath path" using assms(5) by (auto simp: OpenFile_def split: if_splits)
  obtain s2 s3 sb' where w: "WriteFile lib fd d (of_nat (length d)) s1 = Some (Inr (of_nat (length d)), s2)"
    "Close lib fd s2 = Some (Success, s3)" and c: "m_superblock s3 = Some sb'" "GetFstIndex sb' path = Some (Inr f)"
    "IsFile (fst_at sb' f)" "HasPermission (fst_at sb' f) uid gid FileMode_ReadWrite" "unat (e_size (fst_at sb' f)) = length d"
    "holds lib s3 f d" "newest lib s3" "m_cache_handle s3 = None" "length (m_handles s3) = NUM_HANDLES"
    "\<exists>j<NUM_HANDLES. \<not> h_opened (m_handles s3 ! j)"
    by (rule write_new_file [OF assms(1-7)]) (use assms(8) in \<open>simp_all add: full_clusters_def\<close>)
  obtain j where j: "j < NUM_HANDLES" "\<not> h_opened (m_handles s3 ! j)" using c(10) by blast
  show ?thesis
    using open_and_read [OF path GetSuperblock_loaded [OF c(1)] c(2-5,9) j c(6,8) assms(9)] w by blast
qed

text \<open>
  C14 Durability: after the file is closed, a fresh instance of the file system on the same
  image and keys finds the file and reads the bytes that were written.
\<close>

theorem write_close_mount_read:
  assumes "mbedtls_ok lib" and "ready lib sb s" and "empty_file sb f" and "GetFstIndex sb path = Some (Inr f)"
    and "OpenFile lib uid gid path FileMode_ReadWrite s = Some (Inr fd, s1)"
    and "d \<noteq> []" and "length d < 2 ^ 30" and "(length d - 1) div CLUSTER_DATA_SIZE < free_count sb"
    and "length ptr = length d"
  shows "\<exists>s2 s3 fd' s4 s5. WriteFile lib fd d (of_nat (length d)) s1 = Some (Inr (of_nat (length d)), s2) \<and>
    Close lib fd s2 = Some (Success, s3) \<and>
    OpenFile lib uid gid path FileMode_ReadWrite (initial_fs (m_nand s3) (m_keys s3)) = Some (Inr fd', s4) \<and>
    ReadFile lib fd' ptr (of_nat (length d)) s4 = Some ((Inr (of_nat (length d)), d), s5)"
proof -
  have path: "IsValidNonRootPath path" using assms(5) by (auto simp: OpenFile_def split: if_splits)
  obtain s2 s3 sb' where w: "WriteFile lib fd d (of_nat (length d)) s1 = Some (Inr (of_nat (length d)), s2)"
    "Close lib fd s2 = Some (Success, s3)" and c: "m_superblock s3 = Some sb'" "GetFstIndex sb' path = Some (Inr f)"
    "IsFile (fst_at sb' f)" "HasPermission (fst_at sb' f) uid gid FileMode_ReadWrite" "unat (e_size (fst_at sb' f)) = length d"
    "holds lib s3 f d" "newest lib s3" "m_cache_handle s3 = None" "length (m_handles s3) = NUM_HANDLES"
    "\<exists>j<NUM_HANDLES. \<not> h_opened (m_handles s3 ! j)"
    by (rule write_new_file [OF assms(1-7)]) (use assms(8) in \<open>simp_all add: full_clusters_def\<close>)
  let ?u = "initial_fs (m_nand s3) (m_keys s3)"
  let ?u1 = "?u\<lparr>m_superblock := m_superblock s3, m_superblock_index := m_superblock_index s3\<rparr>"
  have g: "GetSuperblock lib ?u = (Some sb', ?u1)"
    using GetSuperblock_newest [OF c(7), of ?u] c(1) by (simp add: initial_fs_def)
  have h: "holds lib ?u1 f d" by (rule holds_same_disk [OF _ c(6)]) (simp add: same_disk_def initial_fs_def)
  have t: "length (m_handles ?u1) = NUM_HANDLES" "0 < NUM_HANDLES" "\<not> h_opened (m_handles ?u1 ! 0)" "m_cache_handle ?u1 = None"
    by (simp_all add: initial_fs_def NUM_HANDLES_def new_Handle_def)
  show ?thesis
    using open_and_read [OF path g c(2-5) t(1-3) h t(4) assms(9)] w by blast
qed

text \<open>Both at the demonstration image, whose file \<open>/a\<close> is new.\<close>

lemma demo_ready: "ready lib demo_sb demo_fs" "empty_file demo_sb 1"
proof -
  show "ready lib demo_sb demo_fs"
    using demo_fs_upto [of lib]
    by (simp add: ready_def clean_def area_reserved_def demo_fat layout_consts cluster_marks)
  show "empty_file demo_sb 1" by (simp add: empty_file_def IsFile_def)
qed

lemma write_close_read_witness:
  "\<exists>fd s1 s2 s3 fd' s4 s5. OpenFile demo_mbedtls 0 0 ''/a'' FileMode_ReadWrite demo_fs = Some (Inr fd, s1) \<and>
    WriteFile demo_mbedtls fd [1, 2, 3] 3 s1 = Some (Inr 3, s2) \<and> Close demo_mbedtls fd s2 = Some (Success, s3) \<and>
    OpenFile demo_mbedtls 0 0 ''/a'' FileMode_ReadWrite s3 = Some (Inr fd', s4) \<and>
    ReadFile demo_mbedtls fd' [0, 0, 0] 3 s4 = Some ((Inr 3, [1, 2, 3]), s5)"
proof -
  obtain fd s1 where "OpenFile demo_mbedtls 0 0 ''/a'' FileMode_ReadWrite demo_fs = Some (Inr fd, s1)"
    using demo_open [of demo_mbedtls] by blast
  then show ?thesis
    using write_close_read [OF demo_mbedtls_ok demo_ready(1,2) demo_lookup(1), of 0 0 fd s1 "[1, 2, 3]" "[0, 0, 0]"] demo_free
    by (auto simp: layout_consts)
qed

lemma write_close_mount_read_witness:
  "\<exists>fd s1 s2 s3 fd' s4 s5. OpenFile demo_mbedtls 0 0 ''/a'' FileMode_ReadWrite demo_fs = Some (Inr fd, s1) \<and>
    WriteFile demo_mbedtls fd [1, 2, 3] 3 s1 = Some (Inr 3, s2) \<and> Close demo_mbedtls fd s2 = Some (Success, s3) \<and>
    OpenFile demo_mbedtls 0 0 ''/a'' FileMode_ReadWrite (initial_fs (m_nand s3) (m_keys s3)) = Some (Inr fd', s4) \<and>
    ReadFile demo_mbedtls fd' [0, 0, 0] 3 s4 = Some ((Inr 3, [1, 2, 3]), s5)"
proof -
  obtain fd s1 where "OpenFile demo_mbedtls 0 0 ''/a'' FileMode_ReadWrite demo_fs = Some (Inr fd, s1)"
    using demo_open [of demo_mbedtls] by blast
  then show ?thesis
    using write_close_mount_read [OF demo_mbedtls_ok demo_ready(1,2) demo_lookup(1), of 0 0 fd s1 "[1, 2, 3]" "[0, 0, 0]"] demo_free
    by (auto simp: layout_consts)
qed

end
