(* ===== verification/PathFs.thy ===== *)
theory PathFs
  imports PathStore Machine FileRoundtrip
begin

text \<open>
  The driver provides the interface of a path store; the properties of the operations on
  directories.
\<close>

section \<open>The driver is a path store\<close>

lemma represents_closed:
  assumes "represents s F opn" "below p q" "F q \<noteq> None"
  shows "F p \<noteq> None"
proof -
  obtain sb T where F: "F = view sb T" using assms(1) by (auto simp: represents_def)
  obtain r where q: "q = p @ r" using assms(2) by (auto simp: below_iff)
  have "entries sb T (p @ r) = (case entries sb T p of None \<Rightarrow> None | Some k \<Rightarrow> resolve sb T k r)"
    unfolding entries_def by (rule resolve_append)
  then show ?thesis using assms(3) by (auto simp: F q view_def split: option.splits)
qed

lemma represents_opened: "represents s F opn \<Longrightarrow> q \<in> opn \<Longrightarrow> F q \<noteq> None"
  by (auto simp: represents_def open_paths_def view_def)

lemma components_not_Nil: "IsValidNonRootPath path \<Longrightarrow> components path \<noteq> []"
  by (simp add: components_split)

text \<open>\<open>session\<close>: the user with descriptor \<open>fd\<close> sees the map \<open>F\<close>.\<close>

definition session :: "('k, 'c) mbedtls \<Rightarrow> Fd \<Rightarrow> HandleRef \<Rightarrow> Handle \<Rightarrow> FileSystemImpl \<Rightarrow> path_map \<Rightarrow> path set \<Rightarrow> bool" where
  "session lib fd h u s F opn \<longleftrightarrow> mbedtls_ok lib \<and> represents s F opn \<and> GetHandleFromFd fd s = Some h \<and> handle_at s h = u"

definition new_path_ok :: "string \<Rightarrow> bool" where
  "new_path_ok path \<longleftrightarrow> IsValidNonRootPath path \<and> \<not> list_ex bad_char path \<and> name_fits path"

lemma outcome_session:
  assumes "session lib fd h u s F opn" "outcome lib s opn X r F' s'"
  shows "session lib fd h u s' F' opn"
proof -
  have "m_handles s' = m_handles s" "m_internal_handle s' = m_internal_handle s" "represents s' F' opn"
    using assms(2) by (simp_all add: outcome_def)
  then show ?thesis using assms(1)
    by (auto simp: session_def GetHandleFromFd_def handle_at_def split: HandleRef.splits if_splits)
qed

interpretation drv: path_store "session lib fd h u"
  "\<lambda>path s. CreateFile lib fd path attr om gm tm s" "\<lambda>path s. Delete lib fd path s"
  "\<lambda>old_path new_path s. Rename lib fd old_path new_path s" components new_path_ok u
  "\<lambda>s. (new_entry u attr om gm tm True)\<lparr>e_sub := free_index s\<rparr>"
  for lib :: "('k, 'c) mbedtls" and fd h u attr om gm tm
proof unfold_locales
  show "components n \<noteq> []" if "new_path_ok n" for n
    using that components_not_Nil by (simp add: new_path_ok_def)
  show "F p \<noteq> None" if "session lib fd h u s F opn" "below p q" "F q \<noteq> None" for s F opn p q
    using represents_closed that by (auto simp: session_def)
  show "F q \<noteq> None" if "session lib fd h u s F opn" "q \<in> opn" for s F opn q
    using represents_opened that by (auto simp: session_def)
  fix s F opn and n n' :: string
  assume ses: "session lib fd h u s F opn" and n: "new_path_ok n" and d: "through_dirs F (components n)"
  then have s: "mbedtls_ok lib" "represents s F opn" "GetHandleFromFd fd s = Some h" "handle_at s h = u"
    by (simp_all add: session_def)
  have p: "IsValidNonRootPath n" "\<not> list_ex bad_char n" "good_name (file_name (SplitPath n))"
    using n by (simp_all add: new_path_ok_def name_fits_def)
  let ?e = "(new_entry u attr om gm tm True)\<lparr>e_sub := free_index s\<rparr>"
  show "\<exists>r s'. CreateFile lib fd n attr om gm tm s = Some (fst r, s') \<and> session lib fd h u s' (snd r) opn \<and>
      (r = abs_create u (components n) ?e F \<or> r = (FstFull, F))"
  proof (rule exI)
    let ?r = "if_room s F (abs_create u (components n) ?e F)"
    obtain s' where "CreateFileOrDirectory lib h n attr om gm tm True s = Some (fst ?r, s')" "outcome lib s opn {} (fst ?r) (snd ?r) s'"
      using CreateFileOrDirectory_refines [OF s(1,2) p(1,2) _ d p(3), of True h attr om gm tm] s(4) by auto
    then show "\<exists>s'. CreateFile lib fd n attr om gm tm s = Some (fst ?r, s') \<and> session lib fd h u s' (snd ?r) opn \<and>
        (?r = abs_create u (components n) ?e F \<or> ?r = (FstFull, F))"
      using outcome_session [OF ses] s(3) by (auto simp: CreateFile_def if_room_def)
  qed
  show "\<exists>s'. Delete lib fd n s = Some (fst (abs_delete u opn (components n) F), s') \<and>
      session lib fd h u s' (snd (abs_delete u opn (components n) F)) opn"
    using Delete_refines [OF s(1-3) p(1) d] outcome_session [OF ses] s(4) by auto
  assume n': "new_path_ok n'" and d': "through_dirs F (components n')"
    and a: "\<not> below (components n) (components n')" "\<not> below (components n') (components n)"
  have p': "IsValidNonRootPath n'" "good_name (file_name (SplitPath n'))" using n' by (simp_all add: new_path_ok_def name_fits_def)
  show "\<exists>s'. Rename lib fd n n' s = Some (fst (abs_rename u opn (components n) (components n') F), s') \<and>
      session lib fd h u s' (snd (abs_rename u opn (components n) (components n') F)) opn"
    using Rename_refines [OF s(1-3) p(1) p'(1) d d' p'(2)] a outcome_session [OF ses] s(4) by auto
qed

section \<open>The demonstration image as a map\<close>

definition demo_tree :: "fst_tree list" where
  "demo_tree = [Entry 0 [Entry 1 [], Entry 2 [Entry 3 []]]]"

definition demo_map :: path_map where
  "demo_map = view demo_sb demo_tree"

lemma demo_index: "in_fst g \<Longrightarrow> g = 0 \<or> g = 1 \<or> g = 2 \<or> g = 3 \<or> 4 \<le> g"
proof -
  have "unat g = 0 \<or> unat g = 1 \<or> unat g = 2 \<or> unat g = 3 \<or> 4 \<le> unat g" by linarith
  then show ?thesis by (auto simp: word_unat_eq_iff word_le_nat_alt)
qed

lemma demo_tree_inv: "tree_inv demo_sb demo_tree" "links_ok demo_sb"
proof -
  have v: "in_fst 0" "in_fst 1" "in_fst 2" "in_fst 3" "\<not> in_fst 0xffff" by (simp_all add: in_fst_def FST_SIZE_def)
  have k: "kid_roots q demo_tree = (if q = 0 then Some [1, 2] else if q = 1 then Some [] else if q = 2 then Some [3]
      else if q = 3 then Some [] else None)" for q
    by (auto simp: kid_roots_def demo_tree_def)
  have "names_ok demo_sb demo_tree"
    unfolding names_ok_def
  proof (intro allI impI)
    fix q ks assume "kid_roots q demo_tree = Some ks"
    then have "ks = [1, 2] \<or> ks = [] \<or> ks = [3]" by (auto simp: k split: if_splits)
    then show "distinct (map (\<lambda>k. GetName (fst_at demo_sb k)) ks)" by auto
  qed
  moreover have "forest demo_sb 0 demo_tree" using v by (simp add: demo_tree_def IsFile_def IsDirectory_def)
  moreover have "distinct (nodes demo_tree)" by (simp add: demo_tree_def)
  ultimately show "tree_inv demo_sb demo_tree" using sb_wf_demo by (simp add: tree_inv_def)
  show "links_ok demo_sb"
    unfolding links_ok_def
  proof (intro allI impI)
    fix g assume g: "in_fst g"
    consider "g = 0" | "g = 1" | "g = 2" | "g = 3" | "fst_at demo_sb g = zero_FstEntry"
      using demo_index [OF g] demo_free_entry [OF g] by blast
    then show "link_ok (e_sib (fst_at demo_sb g)) \<and> (IsDirectory (fst_at demo_sb g) \<longrightarrow> link_ok (e_sub (fst_at demo_sb g)))"
      by cases (simp_all add: link_ok_def v IsDirectory_def zero_FstEntry_def)
  qed
qed

lemma demo_represents: "represents demo_fs demo_map {}"
proof -
  have no: "\<not> IsFileOpened demo_fs k" for k by (simp add: IsFileOpened_def list_ex_iff new_Handle_def)
  then have "live demo_fs demo_sb demo_tree" "open_paths demo_fs demo_sb demo_tree = {}" by (simp_all add: live_def open_paths_def)
  then show ?thesis using demo_tree_inv unfolding represents_def demo_map_def by (metis demo_fs_fields(1))
qed

lemma demo_map_at:
  "demo_map [] = Some ((meta (demo_entry ''/'' 0x16 1 0xffff 0))\<lparr>e_sub := 0\<rparr>)"
  "demo_map [''a''] = Some ((meta (demo_entry ''a'' 0xfd CLUSTER_LAST_IN_CHAIN 2 0))\<lparr>e_sub := 1\<rparr>)"
  "demo_map [''d''] = Some ((meta (demo_entry ''d'' 0xfe 3 0xffff 0))\<lparr>e_sub := 2\<rparr>)"
  "demo_map [''d'', ''x''] = None" "demo_map [''d'', ''b''] = Some ((meta (demo_entry ''b'' 0xfd 64 0xffff 5))\<lparr>e_sub := 3\<rparr>)"
  by (simp_all add: demo_map_def view_def entries_def demo_tree_def kid_roots_def named_def)

lemma demo_components:
  "components ''/a'' = [''a'']" "components ''/d'' = [''d'']" "components ''/d/b'' = [''d'', ''b'']" "components ''/d/x'' = [''d'', ''x'']"
  "components ''/'' = []"
  by code_simp+

lemma demo_new_paths: "new_path_ok ''/a''" "new_path_ok ''/d/x''" "IsValidNonRootPath ''/d/x''"
  by code_simp+

lemma demo_through:
  "through_dirs demo_map [''a'']" "through_dirs demo_map [''d'', ''x'']" "through_dirs demo_map [''d'', ''b'']" "through_dirs demo_map [''d'']"
  "through_dirs demo_map []"
  by (auto simp: through_dirs_def less_Suc_eq demo_map_at IsDirectory_def)

lemma demo_user: "GetHandleFromFd INTERNAL_FD demo_fs = Some Internal" "handle_at demo_fs Internal = new_Handle\<lparr>h_opened := True\<rparr>"
  "writable (new_Handle\<lparr>h_opened := True\<rparr>) e" "HasPermission e 0 0 m"
  by (simp_all add: GetHandleFromFd_def handle_at_def demo_fs_def initial_fs_def writable_def HasPermission_def new_Handle_def)

lemma demo_room: "has_room demo_fs"
  unfolding has_room_def using demo_free_entry [of 4]
  by (intro exI [of _ demo_sb] exI [of _ 4]) (simp add: in_fst_def FST_SIZE_def zero_FstEntry_def)

section \<open>Properties of the operations on directories\<close>

text \<open>
  C2 Creating refines the abstract creation. On a state that represents the map \<open>F\<close>,
  \<^verbatim>\<open>CreateFile\<close> and \<^verbatim>\<open>CreateDirectory\<close> return the result of \<open>abs_create\<close> and leave its map,
  unless it succeeds and the FST is full, which is reported and changes nothing. The data of
  all files stays the same. After a success a driver started on the image finds the new map
  and the same data.
\<close>

theorem create_refines:
  assumes "mbedtls_ok lib" and "represents s F opn" and "GetHandleFromFd fd s = Some h"
    and "IsValidNonRootPath path" and "\<not> list_ex bad_char path" and "is_file \<or> count_list path (CHR ''/'') \<le> 8"
    and "through_dirs F (components path)" and "good_name (file_name (SplitPath path))"
  shows "let r = if_room s F (abs_create (handle_at s h) (components path)
      ((new_entry (handle_at s h) attr om gm tm is_file)\<lparr>e_sub := free_index s\<rparr>) F) in
    \<exists>s'. (if is_file then CreateFile else CreateDirectory) lib fd path attr om gm tm s = Some (fst r, s') \<and>
      outcome lib s opn {} (fst r) (snd r) s'"
  using CreateFileOrDirectory_refines [OF assms(1,2,4-8), of h attr om gm tm] assms(3)
  by (cases is_file) (simp_all add: CreateFile_def CreateDirectory_def Let_def)

lemma create_refines_witness:
  "\<exists>s'. CreateFile demo_mbedtls INTERNAL_FD ''/d/x'' 0 3 3 3 demo_fs = Some (Success, s') \<and>
    represents (Create demo_mbedtls (m_nand s') (m_keys s'))
      (demo_map([''d'', ''x''] \<mapsto> (new_entry (new_Handle\<lparr>h_opened := True\<rparr>) 0 3 3 3 True)\<lparr>e_sub := free_index demo_fs\<rparr>)) {}"
  using create_refines [OF demo_mbedtls_ok demo_represents demo_user(1) demo_new_paths(3), of True 0 3 3 3] demo_new_paths(2)
    demo_through(2) demo_room demo_user(3) demo_map_at(3,4) demo_fs_upto [of demo_mbedtls]
  by (auto simp: Let_def demo_components new_path_ok_def name_fits_def abs_create_def if_room_def demo_user(2) outcome_def)

text \<open>
  C3 Deleting refines the abstract deletion: it is refused while a file at or below the path
  is open, and otherwise removes exactly the path and everything below it. The files that
  are left keep their data.
\<close>

theorem delete_refines:
  assumes "mbedtls_ok lib" and "represents s F opn" and "GetHandleFromFd fd s = Some h"
    and "IsValidNonRootPath path" and "through_dirs F (components path)"
  shows "\<exists>s'. Delete lib fd path s = Some (fst (abs_delete (handle_at s h) opn (components path) F), s') \<and>
    outcome lib s opn {} (fst (abs_delete (handle_at s h) opn (components path) F)) (snd (abs_delete (handle_at s h) opn (components path) F)) s'"
  by (rule Delete_refines [OF assms])

lemma delete_refines_witness:
  "\<exists>s'. Delete demo_mbedtls INTERNAL_FD ''/d'' demo_fs = Some (Success, s') \<and> represents s' (prune [''d''] demo_map) {} \<and>
    prune [''d''] demo_map [''d'', ''b''] = None \<and> prune [''d''] demo_map [''a''] \<noteq> None"
  using delete_refines [OF demo_mbedtls_ok demo_represents demo_user(1) demo_paths(2), unfolded demo_components, OF demo_through(4)]
    demo_user(3) demo_map_at(1-3)
  by (auto simp: abs_delete_def demo_user(2) outcome_def prune_def below_def)

text \<open>
  C4 Renaming refines the abstract rename, when neither path leads through the other: what
  was at and below the old path is at and below the new one, a file or directory that was
  there is gone, and nothing else changes. Files keep their data, with the exception of one
  that gets a new name.
\<close>

theorem rename_refines:
  assumes "mbedtls_ok lib" and "represents s F opn" and "GetHandleFromFd fd s = Some h"
    and "IsValidNonRootPath old_path" and "IsValidNonRootPath new_path"
    and "through_dirs F (components old_path)" and "through_dirs F (components new_path)"
    and "good_name (file_name (SplitPath new_path))" and "separate_paths old_path new_path"
  shows "let r = abs_rename (handle_at s h) opn (components old_path) (components new_path) F in
    \<exists>s'. Rename lib fd old_path new_path s = Some (fst r, s') \<and> outcome lib s opn (index_of F (components old_path)) (fst r) (snd r) s'"
proof -
  have "\<not> below (components old_path) (components new_path) \<and> \<not> below (components new_path) (components old_path)"
    if "components old_path \<noteq> components new_path" using assms(9) that by (auto simp: separate_paths_def)
  then show ?thesis unfolding Let_def by (rule Rename_refines [OF assms(1-8)])
qed

lemma rename_refines_witness:
  "\<exists>s'. Rename demo_mbedtls INTERNAL_FD ''/a'' ''/d/x'' demo_fs = Some (Success, s') \<and>
    represents s' (moved [''a''] [''d'', ''x''] demo_map) {}"
proof -
  have sep: "separate_paths ''/a'' ''/d/x''" by (simp add: separate_paths_def demo_components below_def)
  have "abs_rename (new_Handle\<lparr>h_opened := True\<rparr>) {} [''a''] [''d'', ''x''] demo_map = (Success, moved [''a''] [''d'', ''x''] demo_map)"
    by (simp add: abs_rename_def rename_at_def demo_map_at demo_user(3))
  then show ?thesis
    using rename_refines [OF demo_mbedtls_ok demo_represents demo_user(1) demo_paths(1) demo_new_paths(3), unfolded demo_components,
        OF demo_through(1,2) _ sep] demo_new_paths(2)
    by (auto simp: new_path_ok_def name_fits_def Let_def demo_user(2) outcome_def)
qed

text \<open>
  C22 Metadata. \<^verbatim>\<open>SetMetadata\<close> refines its abstract version: it changes the owner, the group,
  the attribute and the access modes of exactly the entry of the path, or returns an error
  and changes nothing. All files keep their data.
\<close>

theorem set_metadata_refines:
  assumes "mbedtls_ok lib" and "represents s F opn" and "GetHandleFromFd fd s = Some h"
    and "path \<noteq> []" and "length path \<le> 64" and "path ! 0 = CHR ''/''" and "through_dirs F (components path)"
  shows "let r = abs_set_metadata (handle_at s h) (components path) uid (set_meta uid gid attr om gm tm) F in
    \<exists>s'. SetMetadata lib fd path uid gid attr om gm tm s = Some (fst r, s') \<and> outcome lib s opn {} (fst r) (snd r) s'"
  unfolding Let_def by (rule SetMetadata_refines [OF assms])

lemma set_metadata_refines_witness:
  "\<exists>s'. SetMetadata demo_mbedtls INTERNAL_FD ''/a'' 7 8 9 1 1 1 demo_fs = Some (Success, s') \<and>
    represents s' (demo_map([''a''] \<mapsto> set_meta 7 8 9 1 1 1 ((meta (demo_entry ''a'' 0xfd CLUSTER_LAST_IN_CHAIN 2 0))\<lparr>e_sub := 1\<rparr>))) {}"
proof -
  have "abs_set_metadata (handle_at demo_fs Internal) [''a''] 7 (set_meta 7 8 9 1 1 1) demo_map =
      (Success, demo_map([''a''] \<mapsto> set_meta 7 8 9 1 1 1 ((meta (demo_entry ''a'' 0xfd CLUSTER_LAST_IN_CHAIN 2 0))\<lparr>e_sub := 1\<rparr>)))"
    by (simp add: abs_set_metadata_def demo_map_at demo_user(2) new_Handle_def)
  then show ?thesis
    using set_metadata_refines [OF demo_mbedtls_ok demo_represents demo_user(1), of "''/a''" 7 8 9 1 1 1] demo_through(1)
    by (auto simp: demo_components Let_def outcome_def)
qed

text \<open>
  C23 \<^verbatim>\<open>GetMetadata\<close> returns the metadata of the entry of the path with its index in the FST,
  if the user may read the parent directory, and changes nothing.
\<close>

theorem get_metadata_refines:
  assumes "represents s F opn" and "GetHandleFromFd fd s = Some h"
    and "path = ''/'' \<or> IsValidNonRootPath path" and "through_dirs F (components path)"
  shows "GetMetadata lib fd path s = Some (abs_get_metadata (handle_at s h) (components path) F, s)"
  by (rule GetMetadata_refines [OF assms])

lemma get_metadata_refines_witness:
  "\<exists>m. GetMetadata demo_mbedtls INTERNAL_FD ''/d/b'' demo_fs = Some (Inr m, demo_fs) \<and> md_size m = 5 \<and> md_is_file m \<and>
    md_fst_index m = 3"
  using get_metadata_refines [OF demo_represents demo_user(1), of "''/d/b''" demo_mbedtls] demo_paths(3) demo_through(3) demo_user(4)
  by (simp add: demo_components abs_get_metadata_def demo_map_at demo_user(2) new_Handle_def abs_metadata_def IsFile_def)

text \<open>
  C24 \<^verbatim>\<open>ReadDirectory\<close> returns the names of exactly the entries in the directory, each once, if
  the user may read it, and changes nothing.
\<close>

theorem read_directory_refines:
  assumes "represents s F opn" and "GetHandleFromFd fd s = Some h"
    and "path \<noteq> []" and "length path \<le> 64" and "path ! 0 = CHR ''/''" and "through_dirs F (components path)"
  shows "case abs_list (handle_at s h) (components path) F of
      Inl e \<Rightarrow> ReadDirectory lib fd path s = Some (Inl e, s)
    | Inr ns \<Rightarrow> \<exists>names. ReadDirectory lib fd path s = Some (Inr names, s) \<and> distinct names \<and> set names = ns"
  by (rule ReadDirectory_refines [OF assms])

lemma read_directory_refines_witness:
  "\<exists>names. ReadDirectory demo_mbedtls INTERNAL_FD ''/'' demo_fs = Some (Inr names, demo_fs) \<and> distinct names \<and>
    ''a'' \<in> set names \<and> ''x'' \<notin> set names"
proof -
  have "demo_map [''x''] = None" by (simp add: demo_map_def view_def entries_def demo_tree_def kid_roots_def named_def)
  then show ?thesis
    using read_directory_refines [OF demo_represents demo_user(1), of "''/''" demo_mbedtls] demo_through(5) demo_user(4)
    by (auto simp: demo_components abs_list_def demo_map_at demo_user(2) new_Handle_def IsDirectory_def)
qed

text \<open>
  C18 \<^verbatim>\<open>OpenFile\<close> returns the error of its abstract version and changes nothing, reports that
  all handles are in use, or opens the file: then its path is among the open ones and the
  map of paths is the same.
\<close>

theorem open_refines:
  assumes "represents s F opn" and "length (m_handles s) = NUM_HANDLES"
    and "IsValidNonRootPath path" and "through_dirs F (components path)"
  shows "let r = abs_open uid gid mode (components path) F in
    if r \<noteq> Success then OpenFile lib uid gid path mode s = Some (Inl r, s)
    else if \<forall>h \<in> set (m_handles s). h_opened h then OpenFile lib uid gid path mode s = Some (Inl NoFreeHandle, s)
    else \<exists>fd s'. OpenFile lib uid gid path mode s = Some (Inr fd, s') \<and> represents s' F (insert (components path) opn)"
  unfolding Let_def by (rule OpenFile_refines [OF assms])

lemma open_refines_witness:
  "\<exists>fd s'. OpenFile demo_mbedtls 0 0 ''/d/b'' FileMode_Read demo_fs = Some (Inr fd, s') \<and> represents s' demo_map {[''d'', ''b'']}"
proof -
  have "abs_open 0 0 FileMode_Read [''d'', ''b''] demo_map = Success"
    using demo_user(4) by (simp add: abs_open_def demo_map_at IsFile_def)
  moreover have "\<not> (\<forall>h \<in> set (m_handles demo_fs). h_opened h)" by (simp add: new_Handle_def NUM_HANDLES_def)
  ultimately show ?thesis
    using open_refines [OF demo_represents _ demo_paths(3), of 0 0 FileMode_Read demo_mbedtls] demo_through(3)
    by (simp add: demo_components Let_def)
qed

text \<open>
  C19 Formatting. From a state with a loaded superblock that no superblock on the image
  exceeds in version, or from a driver just constructed on any image, \<^verbatim>\<open>Format\<close> by root leaves a
  file system with nothing but the root directory, in memory and on the image, and no handle
  is open.
\<close>

theorem format_empty:
  assumes "mbedtls_ok lib" and "m_superblock s \<noteq> None \<and> versions_upto lib s \<or> s = Create lib nand keys"
  shows "\<exists>s'. Format lib 0 s = Some (Success, s') \<and> represents s' empty_map {} \<and>
    represents (Create lib (m_nand s') (m_keys s')) empty_map {} \<and> (\<forall>h\<in>set (m_handles s'). \<not> h_opened h)"
proof (cases "s = Create lib nand keys")
  case True
  then show ?thesis using Format_fresh [OF assms(1), of nand keys] by auto
next
  case False
  then obtain sb where sb: "m_superblock s = Some sb" "versions_upto lib s" using assms(2) by auto
  show ?thesis using Format_makes_empty [OF assms(1) sb(2)] GetSuperblock_loaded [OF sb(1), of lib] by auto
qed

lemma format_empty_witness:
  "\<exists>s'. Format demo_mbedtls 0 demo_fs = Some (Success, s') \<and> represents (Create demo_mbedtls (m_nand s') (m_keys s')) empty_map {}"
  using format_empty [OF demo_mbedtls_ok, of demo_fs] demo_fs_upto [of demo_mbedtls] demo_fs_fields(1) by auto

text \<open>
  C20 Creating a file and deleting it again restores the map of paths: the interface of a path
  store, which the driver implements, makes the two operations inverse.
\<close>

theorem create_delete_restores:
  assumes "session lib fd h u s F opn" and "new_path_ok path" and "through_dirs F (components path)"
    and "CreateFile lib fd path attr om gm tm s = Some (Success, s')"
  shows "\<exists>s''. Delete lib fd path s' = Some (Success, s'') \<and> session lib fd h u s'' F opn"
  by (rule drv.create_then_delete [OF assms])

lemma demo_session: "session demo_mbedtls INTERNAL_FD Internal (new_Handle\<lparr>h_opened := True\<rparr>) demo_fs demo_map {}"
  using demo_mbedtls_ok demo_represents demo_user(1,2) by (simp add: session_def)

lemma demo_create:
  "\<exists>s'. CreateFile demo_mbedtls INTERNAL_FD ''/d/x'' 0 3 3 3 demo_fs = Some (Success, s') \<and>
    represents s' (demo_map([''d'', ''x''] \<mapsto> (new_entry (new_Handle\<lparr>h_opened := True\<rparr>) 0 3 3 3 True)\<lparr>e_sub := free_index demo_fs\<rparr>)) {}"
proof -
  have "abs_create (new_Handle\<lparr>h_opened := True\<rparr>) [''d'', ''x''] e demo_map = (Success, demo_map([''d'', ''x''] \<mapsto> e))" for e
    by (simp add: abs_create_def demo_map_at demo_user(3))
  then show ?thesis
    using CreateFileOrDirectory_refines [OF demo_mbedtls_ok demo_represents demo_new_paths(3), of True Internal 0 3 3 3]
      demo_new_paths(2) demo_through(2) demo_room
    by (auto simp: new_path_ok_def name_fits_def demo_components CreateFile_def demo_user(1,2) if_room_def outcome_def)
qed

lemma create_delete_restores_witness:
  "\<exists>s' s''. CreateFile demo_mbedtls INTERNAL_FD ''/d/x'' 0 3 3 3 demo_fs = Some (Success, s') \<and>
    Delete demo_mbedtls INTERNAL_FD ''/d/x'' s' = Some (Success, s'') \<and> represents s'' demo_map {}"
proof -
  obtain s' where s': "CreateFile demo_mbedtls INTERNAL_FD ''/d/x'' 0 3 3 3 demo_fs = Some (Success, s')" using demo_create by blast
  then show ?thesis
    using create_delete_restores [OF demo_session demo_new_paths(2) _ s'] demo_through(2) by (auto simp: demo_components session_def)
qed

text \<open>
  Renaming to a free path and back restores the map of paths.
\<close>

theorem rename_restores:
  assumes "session lib fd h u s F opn" and "new_path_ok old_path" and "new_path_ok new_path"
    and "through_dirs F (components old_path)" and "through_dirs F (components new_path)"
    and "\<not> below (components old_path) (components new_path)" and "\<not> below (components new_path) (components old_path)"
    and "F (components new_path) = None" and "Rename lib fd old_path new_path s = Some (Success, s')"
  shows "\<exists>s''. Rename lib fd new_path old_path s' = Some (Success, s'') \<and> session lib fd h u s'' F opn"
  by (rule drv.rename_back [OF assms])

lemma rename_restores_witness:
  "\<exists>s' s''. Rename demo_mbedtls INTERNAL_FD ''/a'' ''/d/x'' demo_fs = Some (Success, s') \<and>
    Rename demo_mbedtls INTERNAL_FD ''/d/x'' ''/a'' s' = Some (Success, s'') \<and> represents s'' demo_map {}"
proof -
  have "fst (abs_rename (new_Handle\<lparr>h_opened := True\<rparr>) {} [''a''] [''d'', ''x''] demo_map) = Success"
    by (simp add: abs_rename_def rename_at_def demo_map_at demo_user(3))
  then obtain s' where s': "Rename demo_mbedtls INTERNAL_FD ''/a'' ''/d/x'' demo_fs = Some (Success, s')"
    using Rename_refines [OF demo_mbedtls_ok demo_represents demo_user(1) demo_paths(1) demo_new_paths(3), unfolded demo_components,
        OF demo_through(1,2)] demo_new_paths(2)
    by (auto simp: new_path_ok_def name_fits_def demo_user(2) below_def)
  show ?thesis
    using rename_restores [OF demo_session demo_new_paths(1,2) _ _ _ _ _ s'] demo_through(1,2) demo_map_at(4) s'
    by (auto simp: demo_components session_def below_def)
qed

end
