(* ===== verification/Statistics.thy ===== *)
theory Statistics
  imports PathFs
begin

text \<open>
  The two calls that count: the usage of a directory as a sum over the map of paths, and the
  usage of the whole memory as cardinalities over the FAT and the FST.
\<close>

section \<open>Directories\<close>

text \<open>
  One inode for each path at or below \<open>p\<close>, and for each file among them its size in clusters,
  rounded up; the sums are taken modulo \<open>2 ^ 32\<close>.
\<close>

definition paths_below :: "path \<Rightarrow> path_map \<Rightarrow> path set" where
  "paths_below p F = {q. below p q \<and> F q \<noteq> None}"

definition abs_usage :: "path \<Rightarrow> path_map \<Rightarrow> DirectoryStats" where
  "abs_usage p F = \<lparr>ds_used_clusters = (\<Sum>q\<in>{q\<in>paths_below p F. IsFile (the (F q))}. (e_size (the (F q)) + 0x3fff) div 0x4000),
     ds_used_inodes = of_nat (card (paths_below p F))\<rparr>"

definition abs_directory_stats :: "path \<Rightarrow> path_map \<Rightarrow> DirectoryStats Result" where
  "abs_directory_stats p F = (case F p of
     None \<Rightarrow> Inl NotFound
   | Some e \<Rightarrow> if \<not> IsDirectory e then Inl Invalid else Inr (abs_usage p F))"

text \<open>The paths at and below a directory correspond to the nodes of its subtree.\<close>

lemma paths_below_nodes:
  assumes inv: "tree_inv sb T" and c: "entries sb T p = Some c" "kids c T = Some ws"
  shows "bij_betw (\<lambda>q. the (entries sb T q)) (paths_below p (view sb T)) (set (c # nodes ws))"
proof (rule bij_betw_imageI)
  have E: "q \<in> paths_below p (view sb T) \<longleftrightarrow> below p q \<and> (\<exists>k. entries sb T q = Some k)" for q
    by (auto simp: paths_below_def view_None)
  show "inj_on (\<lambda>q. the (entries sb T q)) (paths_below p (view sb T))"
    using entries_inj [OF inv] by (auto simp: inj_on_def E)
  show "(\<lambda>q. the (entries sb T q)) ` paths_below p (view sb T) = set (c # nodes ws)"
  proof (rule set_eqI)
    fix g
    have "g \<in> (\<lambda>q. the (entries sb T q)) ` paths_below p (view sb T) \<longleftrightarrow> (\<exists>q. below p q \<and> entries sb T q = Some g)"
      unfolding image_iff Bex_def E by (metis option.sel)
    then show "g \<in> (\<lambda>q. the (entries sb T q)) ` paths_below p (view sb T) \<longleftrightarrow> g \<in> set (c # nodes ws)"
      using entries_below [OF inv c, of g] by blast
  qed
qed

lemma CountDirectoryRecursively_view:
  assumes inv: "tree_inv sb T" and p: "entries sb T p = Some c" "IsDirectory (fst_at sb c)"
  shows "CountDirectoryRecursively sb c = Some (abs_usage p (view sb T))"
proof -
  obtain ws where ws: "kids c T = Some ws"
    using kids_None [of c T] entries_node [OF inv p(1)] by (cases "kids c T") auto
  have f: "forest sb 0 T" "distinct (nodes T)" using inv by (simp_all add: tree_inv_def)
  obtain A B where "nodes T = A @ nodes ws @ B" using kids_split [OF f(2) ws] by blast
  then have d: "distinct (c # nodes ws)" using f(2) kids_below(1) [OF inv ws] by simp
  note bij = paths_below_nodes [OF inv p(1) ws]
  let ?k = "\<lambda>q. the (entries sb T q)" and ?P = "paths_below p (view sb T)"
  have val: "the (view sb T q) = inode sb (?k q)" if "q \<in> ?P" for q
    using that by (auto simp: paths_below_def view_def)
  have "card ?P = card (set (c # nodes ws))" by (rule bij_betw_same_card [OF bij])
  also have "\<dots> = length (c # nodes ws)" by (rule distinct_card [OF d])
  finally have inodes: "card ?P = Suc (length (nodes ws))" by simp
  have img: "?k ` {q \<in> ?P. IsFile (fst_at sb (?k q))} = set (files sb ws)"
  proof -
    have "?k ` {q \<in> ?P. IsFile (fst_at sb (?k q))} = {k \<in> ?k ` ?P. IsFile (fst_at sb k)}" by blast
    also have "\<dots> = {k \<in> set (c # nodes ws). IsFile (fst_at sb k)}" using bij by (simp add: bij_betw_def)
    also have "\<dots> = set (files sb ws)" using p(2) by (auto simp: files_def IsFile_def IsDirectory_def)
    finally show ?thesis .
  qed
  have "inj_on ?k {q \<in> ?P. IsFile (fst_at sb (?k q))}"
    using bij by (auto simp: bij_betw_def inj_on_def)
  then have "(\<Sum>q\<in>{q \<in> ?P. IsFile (fst_at sb (?k q))}. size_clusters (fst_at sb (?k q))) = (\<Sum>k\<in>set (files sb ws). size_clusters (fst_at sb k))"
    unfolding img [symmetric] by (simp add: sum.reindex)
  also have "\<dots> = sum_list (map (\<lambda>k. size_clusters (fst_at sb k)) (files sb ws))"
    using d by (intro sum_list_distinct_conv_sum_set [symmetric]) (simp add: files_def)
  finally have sum: "(\<Sum>q\<in>{q \<in> ?P. IsFile (fst_at sb (?k q))}. size_clusters (fst_at sb (?k q))) =
      sum_list (map (\<lambda>k. size_clusters (fst_at sb k)) (files sb ws))" .
  have "{q \<in> ?P. IsFile (the (view sb T q))} = {q \<in> ?P. IsFile (fst_at sb (?k q))}" using val by (auto simp: IsFile_def)
  then have "(\<Sum>q\<in>{q \<in> ?P. IsFile (the (view sb T q))}. (e_size (the (view sb T q)) + 0x3fff) div 0x4000) =
      (\<Sum>q\<in>{q \<in> ?P. IsFile (fst_at sb (?k q))}. size_clusters (fst_at sb (?k q)))"
    using val by (intro sum.cong) (simp_all add: size_clusters_def)
  then show ?thesis
    using CountDirectoryRecursively_forest [OF kids_forest [OF f(1) ws p(2)]] by (simp add: abs_usage_def inodes sum)
qed

lemma GetDirectoryStats_refines:
  assumes rep: "represents s F opn" and h: "GetHandleFromFd fd s = Some h"
    and path: "path \<noteq> []" "length path \<le> 64" "path ! 0 = CHR ''/''" and dirs: "through_dirs F (components path)"
  shows "GetDirectoryStats lib fd path s = Some (abs_directory_stats (components path) F, s)"
proof -
  obtain sb T where sb: "m_superblock s = Some sb" and inv: "tree_inv sb T" and F: "F = view sb T"
    using rep by (auto simp: represents_def)
  note look = lookup_path [OF inv dirs [unfolded F]]
  show ?thesis
  proof (cases "entries sb T (components path)")
    case None
    then show ?thesis using look path
      by (simp add: GetDirectoryStats_def h GetSuperblock_loaded [OF sb] abs_directory_stats_def F view_def)
  next
    case (Some k)
    then show ?thesis using look path CountDirectoryRecursively_view [OF inv Some]
      by (simp add: GetDirectoryStats_def h GetSuperblock_loaded [OF sb] abs_directory_stats_def F view_def IsDirectory_def)
  qed
qed

section \<open>The whole memory\<close>

lemma count_clusters:
  "fold count_cluster xs st = st\<lparr>
     free_clusters := free_clusters st + of_nat (length (filter unused_mark xs)),
     reserved_clusters := reserved_clusters st + of_nat (length (filter (\<lambda>c. c = CLUSTER_RESERVED) xs)),
     bad_clusters := bad_clusters st + of_nat (length (filter (\<lambda>c. c = CLUSTER_BAD_BLOCK) xs)),
     used_clusters := used_clusters st +
       of_nat (length (filter (\<lambda>c. \<not> unused_mark c \<and> c \<noteq> CLUSTER_RESERVED \<and> c \<noteq> CLUSTER_BAD_BLOCK) xs))\<rparr>"
  by (induction xs arbitrary: st) (simp_all add: count_cluster_def unused_mark_def cluster_marks)

lemma count_inodes:
  "fold count_inode es st = st\<lparr>
     used_inodes := used_inodes st + of_nat (length (filter (\<lambda>e. e_mode e AND 3 \<noteq> 0) es)),
     free_inodes := free_inodes st + of_nat (length (filter (\<lambda>e. e_mode e AND 3 = 0) es))\<rparr>"
  by (induction es arbitrary: st) (simp_all add: count_inode_def)

lemma card_words:
  fixes Q :: "nat \<Rightarrow> bool"
  assumes "n \<le> 65536"
  shows "card {c :: u16. unat c < n \<and> Q (unat c)} = card {i. i < n \<and> Q i}"
proof (rule bij_betw_same_card [of unat], rule bij_betw_imageI)
  show "unat ` {c :: u16. unat c < n \<and> Q (unat c)} = {i. i < n \<and> Q i}"
  proof (rule set_eqI, rule iffI)
    fix i assume i: "i \<in> {i. i < n \<and> Q i}"
    then have "unat (of_nat i :: u16) = i" using assms by (simp add: unat_of_nat)
    then show "i \<in> unat ` {c :: u16. unat c < n \<and> Q (unat c)}" using i by (intro image_eqI [of _ _ "of_nat i"]) auto
  qed auto
qed (simp add: inj_on_def word_unat_eq_iff)

lemma filter_fat: "sb_wf sb \<Longrightarrow> length (filter P (sb_fat sb)) = card {c. in_fat c \<and> P (fat_at sb c)}"
  using card_words [of FAT_SIZE "\<lambda>i. P (sb_fat sb ! i)"]
  by (simp add: length_filter_conv_card sb_wf_def in_fat_def fat_at_def FAT_SIZE_def)

lemma filter_fst: "sb_wf sb \<Longrightarrow> length (filter P (sb_fst sb)) = card {g. in_fst g \<and> P (fst_at sb g)}"
  using card_words [of FST_SIZE "\<lambda>i. P (sb_fst sb ! i)"]
  by (simp add: length_filter_conv_card sb_wf_def in_fst_def fst_at_def FST_SIZE_def)

lemma nand_stats_fields:
  assumes wf: "sb_wf sb"
  shows "unat (free_clusters (nand_stats sb)) = card {c. in_fat c \<and> unused_mark (fat_at sb c)}"
    "unat (reserved_clusters (nand_stats sb)) = card {c. in_fat c \<and> fat_at sb c = CLUSTER_RESERVED}"
    "unat (bad_clusters (nand_stats sb)) = card {c. in_fat c \<and> fat_at sb c = CLUSTER_BAD_BLOCK}"
    "unat (used_clusters (nand_stats sb)) = card {c. in_fat c \<and> \<not> unused_mark (fat_at sb c) \<and>
       fat_at sb c \<noteq> CLUSTER_RESERVED \<and> fat_at sb c \<noteq> CLUSTER_BAD_BLOCK}"
    "unat (used_inodes (nand_stats sb)) = card {g. in_fst g \<and> e_mode (fst_at sb g) AND 3 \<noteq> 0}"
    "unat (free_inodes (nand_stats sb)) = card {g. in_fst g \<and> e_mode (fst_at sb g) AND 3 = 0}"
proof -
  have n: "unat (of_nat (length (filter P xs)) :: u32) = length (filter P xs)" if "length xs \<le> 65536" for P and xs :: "'a list"
  proof -
    have "length (filter P xs) < 2 ^ 32" using le_less_trans [OF length_filter_le [of P xs] le_less_trans [OF that]] by simp
    then show ?thesis by (simp add: unat_of_nat)
  qed
  have l: "length (sb_fat sb) \<le> 65536" "length (sb_fst sb) \<le> 65536" using wf by (simp_all add: sb_wf_def FAT_SIZE_def FST_SIZE_def)
  show "unat (free_clusters (nand_stats sb)) = card {c. in_fat c \<and> unused_mark (fat_at sb c)}"
    "unat (reserved_clusters (nand_stats sb)) = card {c. in_fat c \<and> fat_at sb c = CLUSTER_RESERVED}"
    "unat (bad_clusters (nand_stats sb)) = card {c. in_fat c \<and> fat_at sb c = CLUSTER_BAD_BLOCK}"
    "unat (used_clusters (nand_stats sb)) = card {c. in_fat c \<and> \<not> unused_mark (fat_at sb c) \<and>
       fat_at sb c \<noteq> CLUSTER_RESERVED \<and> fat_at sb c \<noteq> CLUSTER_BAD_BLOCK}"
    "unat (used_inodes (nand_stats sb)) = card {g. in_fst g \<and> e_mode (fst_at sb g) AND 3 \<noteq> 0}"
    "unat (free_inodes (nand_stats sb)) = card {g. in_fst g \<and> e_mode (fst_at sb g) AND 3 = 0}"
    by (simp_all add: nand_stats_def count_clusters count_inodes trans [OF n [OF l(1)] filter_fat [OF wf]] trans [OF n [OF l(2)] filter_fst [OF wf]])
qed

lemma count_marks:
  assumes wf: "sb_wf sb"
  defines "st \<equiv> nand_stats sb"
  shows "unat (free_clusters st) + unat (used_clusters st) + unat (bad_clusters st) + unat (reserved_clusters st) = FAT_SIZE"
    "unat (free_inodes st) + unat (used_inodes st) = FST_SIZE"
proof -
  have "length (filter unused_mark xs) + length (filter (\<lambda>c. \<not> unused_mark c \<and> c \<noteq> CLUSTER_RESERVED \<and> c \<noteq> CLUSTER_BAD_BLOCK) xs) +
      length (filter (\<lambda>c. c = CLUSTER_BAD_BLOCK) xs) + length (filter (\<lambda>c. c = CLUSTER_RESERVED) xs) = length xs" for xs
    by (induction xs) (auto simp: unused_mark_def cluster_marks)
  from this [of "sb_fat sb"]
  show "unat (free_clusters st) + unat (used_clusters st) + unat (bad_clusters st) + unat (reserved_clusters st) = FAT_SIZE"
    using wf by (simp add: st_def nand_stats_fields [OF wf] filter_fat [OF wf] sb_wf_def)
  have "length (filter (\<lambda>e. e_mode e AND 3 = 0) es) + length (filter (\<lambda>e. e_mode e AND 3 \<noteq> 0) es) = length es" for es :: "FstEntry list"
    by (induction es) auto
  from this [of "sb_fst sb"] show "unat (free_inodes st) + unat (used_inodes st) = FST_SIZE"
    using wf by (simp add: st_def nand_stats_fields [OF wf] filter_fst [OF wf] sb_wf_def)
qed

text \<open>Every path has an entry of its own that is counted as used.\<close>

lemma paths_used:
  assumes inv: "tree_inv sb T"
  shows "card {p. view sb T p \<noteq> None} \<le> unat (used_inodes (nand_stats sb))"
proof -
  have wf: "sb_wf sb" using inv by (simp add: tree_inv_def)
  have "card {p. view sb T p \<noteq> None} \<le> card {g. in_fst g \<and> e_mode (fst_at sb g) AND 3 \<noteq> 0}"
  proof (rule card_inj_on_le [of "\<lambda>p. the (entries sb T p)"])
    show "inj_on (\<lambda>p. the (entries sb T p)) {p. view sb T p \<noteq> None}"
      using entries_inj [OF inv] by (auto simp: inj_on_def view_None)
    show "(\<lambda>p. the (entries sb T p)) ` {p. view sb T p \<noteq> None} \<subseteq> {g. in_fst g \<and> e_mode (fst_at sb g) AND 3 \<noteq> 0}"
      using tree_inv_node [OF inv entries_node [OF inv]] by (auto simp: view_None)
  qed simp
  then show ?thesis by (simp add: nand_stats_fields [OF wf])
qed

section \<open>Properties\<close>

text \<open>
  C25 Directory statistics. \<^verbatim>\<open>GetDirectoryStats\<close> counts one inode for each path at or below the
  directory and for each file among them its size in clusters of 16 KiB, rounded up, or
  returns an error if there is no directory at the path; it changes nothing.
\<close>

theorem directory_stats_refines:
  assumes "represents s F opn" and "GetHandleFromFd fd s = Some h"
    and "path \<noteq> []" and "length path \<le> 64" and "path ! 0 = CHR ''/''" and "through_dirs F (components path)"
  shows "GetDirectoryStats lib fd path s = Some (abs_directory_stats (components path) F, s)"
  by (rule GetDirectoryStats_refines [OF assms])

lemma directory_stats_refines_witness:
  "GetDirectoryStats demo_mbedtls INTERNAL_FD ''/d'' demo_fs = Some (Inr \<lparr>ds_used_clusters = 1, ds_used_inodes = 2\<rparr>, demo_fs)"
proof -
  have f: "forest demo_sb (e_sub (fst_at demo_sb 2)) [Entry 3 []]" unfolding demo_fst demo_entry_fields by (rule demo_forest(2))
  have "entries demo_sb demo_tree [''d''] = Some 2" by (simp add: entries_def demo_tree_def kid_roots_def named_def)
  then have "abs_usage [''d''] demo_map = \<lparr>ds_used_clusters = 1, ds_used_inodes = 2\<rparr>"
    using CountDirectoryRecursively_view [OF demo_tree_inv(1), of "[''d'']" 2] CountDirectoryRecursively_forest [OF f]
    by (simp add: demo_map_def files_def size_clusters_def IsFile_def IsDirectory_def)
  then show ?thesis
    using directory_stats_refines [OF demo_represents demo_user(1), of "''/d''" demo_mbedtls] demo_through(4)
    by (simp add: demo_components abs_directory_stats_def demo_map_at IsDirectory_def)
qed

text \<open>
  C26 Statistics of the memory. \<^verbatim>\<open>GetNandStats\<close> counts exactly the clusters that are free,
  reserved, bad and used and the entries that are free and used; no counter wraps, the
  counts of clusters add up to the size of the FAT and those of entries to that of the FST,
  and at least as many entries are used as there are paths.
\<close>

theorem nand_stats_exact:
  assumes "represents s F opn" and "GetHandleFromFd fd s = Some h"
  shows "\<exists>sb st. m_superblock s = Some sb \<and> GetNandStats lib fd s = (Inr st, s) \<and>
    unat (free_clusters st) = card {c. in_fat c \<and> (fat_at sb c = CLUSTER_UNUSED \<or> fat_at sb c = 0xffff)} \<and>
    unat (reserved_clusters st) = card {c. in_fat c \<and> fat_at sb c = CLUSTER_RESERVED} \<and>
    unat (bad_clusters st) = card {c. in_fat c \<and> fat_at sb c = CLUSTER_BAD_BLOCK} \<and>
    unat (used_inodes st) = card {g. in_fst g \<and> e_mode (fst_at sb g) AND 3 \<noteq> 0} \<and>
    unat (free_clusters st) + unat (used_clusters st) + unat (bad_clusters st) + unat (reserved_clusters st) = FAT_SIZE \<and>
    unat (free_inodes st) + unat (used_inodes st) = FST_SIZE \<and> card {p. F p \<noteq> None} \<le> unat (used_inodes st)"
proof -
  obtain sb T where sb: "m_superblock s = Some sb" and inv: "tree_inv sb T" and F: "F = view sb T"
    using assms(1) by (auto simp: represents_def)
  have wf: "sb_wf sb" using inv by (simp add: tree_inv_def)
  have "GetNandStats lib fd s = (Inr (nand_stats sb), s)" by (simp add: GetNandStats_def assms(2) GetSuperblock_loaded [OF sb])
  then show ?thesis
    using sb nand_stats_fields(1-3,5) [OF wf, unfolded unused_mark_def] count_marks [OF wf] paths_used [OF inv] F by blast
qed

lemma nand_stats_exact_witness:
  "\<exists>st. GetNandStats demo_mbedtls INTERNAL_FD demo_fs = (Inr st, demo_fs) \<and>
    unat (free_inodes st) + unat (used_inodes st) = FST_SIZE \<and> card {p. demo_map p \<noteq> None} \<le> unat (used_inodes st)"
  using nand_stats_exact [OF demo_represents demo_user(1), of demo_mbedtls] by blast

end
