(* ===== verification/Runs.thy ===== *)
theory Runs
  imports Statistics
begin

text \<open>
  What holds after any sequence of calls: the properties of the driver as a state machine.
\<close>

section \<open>Running drivers\<close>

text \<open>
  \<open>running lib s\<close>: a driver was constructed on some image, formatted, and led to \<open>s\<close> by calls
  that keep to the naming rules.
\<close>

definition running :: "('k, 'c) mbedtls \<Rightarrow> FileSystemImpl \<Rightarrow> bool" where
  "running lib s \<longleftrightarrow> (\<exists>nand keys r s0. Format lib 0 (Create lib nand keys) = Some (r, s0) \<and> reaches lib {} s0 s)"

lemma running_ok:
  assumes "mbedtls_ok lib" "running lib s"
  shows "fs_ok s"
proof -
  obtain nand keys r s0 where f: "Format lib 0 (Create lib nand keys) = Some (r, s0)" and run: "reaches lib {} s0 s"
    using assms(2) by (auto simp: running_def)
  have "fs_ok s0" using Format_fresh [OF assms(1), of nand keys] f by (auto simp: fs_ok_def cache_ok_def)
  then show ?thesis by (rule reaches_ok [OF assms(1) run])
qed

lemma running_tight:
  assumes "mbedtls_ok lib" "running lib s"
  shows "tight s"
proof -
  obtain nand keys r s0 where f: "Format lib 0 (Create lib nand keys) = Some (r, s0)" and run: "reaches lib {} s0 s"
    using assms(2) by (auto simp: running_def)
  have "fs_ok s0" "tight s0" using Format_fresh [OF assms(1), of nand keys] f by (auto simp: fs_ok_def cache_ok_def)
  then show ?thesis by (rule reaches_tight [OF assms(1) run])
qed

lemma demo_running:
  "\<exists>s s'. Format demo_mbedtls 0 (Create demo_mbedtls nand keys) = Some (Success, s) \<and> fs_step demo_mbedtls {} s s' \<and> running demo_mbedtls s'"
proof -
  obtain s where s: "Format demo_mbedtls 0 (Create demo_mbedtls nand keys) = Some (Success, s)"
    using Format_fresh [OF demo_mbedtls_ok] by blast
  obtain r s' where "OpenFs 0 0 s = (r, s')" by (cases "OpenFs 0 0 s")
  then have step: "fs_step demo_mbedtls {} s s'" by (rule step_OpenFs)
  have "reaches demo_mbedtls {} s s'" by (rule reaches_step [OF reaches_refl step]) simp_all
  then show ?thesis using s step unfolding running_def by blast
qed

lemma demo_apart: "apart demo_fs"
proof -
  define cl where "cl = (\<lambda>f :: u16. if f = 3 then [64 :: u16] else [])"
  have v: "in_fat 64" "data_area 64" "\<not> in_fat CLUSTER_LAST_IN_CHAIN"
    by (simp_all add: in_fat_def data_area_def FAT_SIZE_def SUPERBLOCK_START_CLUSTER_def cluster_marks)
  have only: "f = 1 \<or> f = 3" if f: "file_at demo_sb f" for f
  proof -
    have "in_fst f" "IsFile (fst_at demo_sb f)" using f by (simp_all add: file_at_def)
    then show ?thesis using demo_index [of f] demo_free_entry [of f] by (auto simp: IsFile_def zero_FstEntry_def)
  qed
  have "alloc demo_sb cl"
    unfolding alloc_def
  proof (intro conjI allI impI ballI)
    fix f assume "file_at demo_sb f"
    then have f: "f = 1 \<or> f = 3" by (rule only)
    show "clusters demo_sb f (cl f)" using f v by (auto simp: clusters_def cl_def demo_fat)
    fix c assume "c \<in> set (cl f)"
    then have "c = 64" by (simp add: cl_def split: if_splits)
    then show "data_area c" "\<not> unused_mark (fat_at demo_sb c)" using v by (simp_all add: demo_fat unused_mark_def cluster_marks)
  next
    fix f g assume "file_at demo_sb f" "file_at demo_sb g" "f \<noteq> g"
    then show "set (cl f) \<inter> set (cl g) = {}" using only by (auto simp: cl_def)
  next
    fix c assume c: "in_fat c" "\<not> data_area c"
    then have "c \<noteq> 64" using v by auto
    then show "\<not> unused_mark (fat_at demo_sb c)"
      using c by (auto simp: demo_fat data_area_def unused_mark_def cluster_marks not_less)
  qed
  then show ?thesis by (auto simp: apart_def files_ok_def)
qed

lemma demo_fs_ok: "fs_ok demo_fs"
  using demo_represents demo_apart by (auto simp: fs_ok_def cache_ok_def)

section \<open>Calls return\<close>

lemma Format_returns:
  assumes ok: "mbedtls_ok lib" and inv: "fs_ok s"
  shows "Format lib uid s \<noteq> None"
proof (cases "uid = 0")
  case True
  obtain F opn where "represents s F opn" using inv by (auto simp: fs_ok_def)
  then show ?thesis using Format_represents [OF ok] True by blast
qed (simp add: Format_def)

lemma create_returns:
  assumes ok: "mbedtls_ok lib" and inv: "fs_ok s" and n: "walkable s path" "name_fits path"
  shows "CreateFile lib fd path attr om gm tm s \<noteq> None" "CreateDirectory lib fd path attr om gm tm s \<noteq> None"
proof -
  obtain F opn where rep: "represents s F opn" using inv by (auto simp: fs_ok_def)
  have "CreateFileOrDirectory lib h path attr om gm tm is_file s \<noteq> None" for h is_file
  proof (cases "IsValidNonRootPath path \<and> \<not> list_ex bad_char path \<and> (is_file \<or> count_list path (CHR ''/'') \<le> 8)")
    case True
    then show ?thesis
      using CreateFileOrDirectory_refines [OF ok rep _ _ _ walkable_dirs [OF n(1) rep], of is_file h attr om gm tm] n(2)
      by (auto simp: name_fits_def)
  next
    case False
    then show ?thesis by (auto simp: CreateFileOrDirectory_def)
  qed
  then show "CreateFile lib fd path attr om gm tm s \<noteq> None" "CreateDirectory lib fd path attr om gm tm s \<noteq> None"
    by (simp_all add: CreateFile_def CreateDirectory_def split: option.split)
qed

lemma Delete_returns:
  assumes ok: "mbedtls_ok lib" and inv: "fs_ok s" and n: "walkable s path"
  shows "Delete lib fd path s \<noteq> None"
proof -
  obtain F opn where rep: "represents s F opn" using inv by (auto simp: fs_ok_def)
  note d = Delete_refines [OF ok rep _ _ walkable_dirs [OF n rep], of fd]
  show ?thesis
  proof (cases "GetHandleFromFd fd s = None \<or> \<not> IsValidNonRootPath path")
    case True
    then show ?thesis by (auto simp: Delete_def split: option.split)
  qed (use d in auto)
qed

lemma Rename_returns:
  assumes ok: "mbedtls_ok lib" and inv: "fs_ok s" and n: "walkable s old_path" "walkable s new_path" "name_fits new_path" "separate_paths old_path new_path"
  shows "Rename lib fd old_path new_path s \<noteq> None"
proof -
  obtain F opn where rep: "represents s F opn" using inv by (auto simp: fs_ok_def)
  note d = Rename_refines [OF ok rep _ _ _ walkable_dirs [OF n(1) rep] walkable_dirs [OF n(2) rep] n(3) [unfolded name_fits_def], of fd]
  show ?thesis
  proof (cases "GetHandleFromFd fd s = None \<or> \<not> IsValidNonRootPath old_path \<or> \<not> IsValidNonRootPath new_path")
    case True
    then show ?thesis by (auto simp: Rename_def split: option.split)
  qed (use d n(4) in \<open>auto simp: separate_paths_def\<close>)
qed

lemma SetMetadata_returns:
  assumes ok: "mbedtls_ok lib" and inv: "fs_ok s" and n: "walkable s path"
  shows "SetMetadata lib fd path uid gid attr om gm tm s \<noteq> None"
proof -
  obtain F opn where rep: "represents s F opn" using inv by (auto simp: fs_ok_def)
  note d = SetMetadata_refines [OF ok rep _ _ _ _ walkable_dirs [OF n rep], of fd]
  show ?thesis
  proof (cases "GetHandleFromFd fd s = None \<or> path = [] \<or> 64 < length path \<or> path ! 0 \<noteq> CHR ''/''")
    case True
    then show ?thesis by (auto simp: SetMetadata_def split: option.split)
  next
    case False
    then show ?thesis using d [where uid = uid and gid = gid and attr = attr and om = om and gm = gm and tm = tm] by auto
  qed
qed

lemma query_returns:
  assumes inv: "fs_ok s" and n: "walkable s path"
  shows "GetMetadata lib fd path s \<noteq> None" "ReadDirectory lib fd path s \<noteq> None" "GetDirectoryStats lib fd path s \<noteq> None"
proof -
  obtain F opn where rep: "represents s F opn" using inv by (auto simp: fs_ok_def)
  note dirs = walkable_dirs [OF n rep]
  show "GetMetadata lib fd path s \<noteq> None"
  proof (cases "GetHandleFromFd fd s = None \<or> path \<noteq> ''/'' \<and> \<not> IsValidNonRootPath path")
    case True
    then show ?thesis by (auto simp: GetMetadata_def Let_def split: option.split prod.split)
  qed (use GetMetadata_refines [OF rep _ _ dirs, of fd] in auto)
  let ?bad = "GetHandleFromFd fd s = None \<or> path = [] \<or> 64 < length path \<or> path ! 0 \<noteq> CHR ''/''"
  show "ReadDirectory lib fd path s \<noteq> None"
  proof (cases ?bad)
    case True
    then show ?thesis by (auto simp: ReadDirectory_def split: option.split)
  next
    case False
    then obtain h where h: "GetHandleFromFd fd s = Some h" "path \<noteq> []" "length path \<le> 64" "path ! 0 = CHR ''/''" by auto
    show ?thesis using ReadDirectory_refines [OF rep h dirs, of lib] by (auto split: sum.splits)
  qed
  show "GetDirectoryStats lib fd path s \<noteq> None"
  proof (cases ?bad)
    case True
    then show ?thesis by (auto simp: GetDirectoryStats_def split: option.split prod.split)
  next
    case False
    then obtain h where h: "GetHandleFromFd fd s = Some h" "path \<noteq> []" "length path \<le> 64" "path ! 0 = CHR ''/''" by auto
    show ?thesis by (simp add: GetDirectoryStats_refines [OF rep h dirs])
  qed
qed

lemma OpenFile_returns:
  assumes inv: "fs_ok s" and n: "walkable s path"
  shows "OpenFile lib uid gid path mode s \<noteq> None"
proof -
  obtain F opn where rep: "represents s F opn" using inv by (auto simp: fs_ok_def)
  have len: "length (m_handles s) = NUM_HANDLES" using inv by (simp add: fs_ok_def)
  show ?thesis
  proof (cases "IsValidNonRootPath path")
    case True
    show ?thesis using OpenFile_refines [OF rep len True walkable_dirs [OF n rep], of uid gid mode lib] by (auto split: if_splits)
  qed (simp add: OpenFile_def)
qed

lemma Close_returns:
  assumes ok: "mbedtls_ok lib" and inv: "fs_ok s"
  shows "Close lib fd s \<noteq> None"
proof -
  obtain sb F opn where sb: "represents s F opn" "m_superblock s = Some sb" "sb_wf sb" "files_ok sb" by (rule fs_okE [OF inv])
  have c: "close_handle lib h t \<noteq> None" if "m_superblock t = Some sb1" "sb_wf sb1" for h t sb1
    using FlushSuperblock_eq [OF ok that] by (simp add: close_handle_def)
  obtain sb1 where "m_superblock (snd (FlushFileCache lib s)) = Some sb1" "data_step sb sb1"
    using data_rel_sb [OF FlushFileCache_data [of s lib] sb(2,3)] by auto
  then have s1: "m_superblock (snd (FlushFileCache lib s)) = Some sb1" "sb_wf sb1" using data_step_wf by simp_all
  have "close_handle lib h ((snd (FlushFileCache lib s))\<lparr>m_cache_handle := None, m_cache_data := []\<rparr>) \<noteq> None" for h
    by (rule c [OF _ s1(2)]) (simp add: s1(1))
  then show ?thesis using c [OF sb(2,3)]
    by (simp add: Close_def case_prod_unfold split: option.split)
qed

section \<open>Properties of the driver as a state machine\<close>

text \<open>
  C8 Consistency. No sequence of calls of the public interface that keeps to the naming rules
  breaks the file system: from the root the FST is a finite tree without sharing, names are
  distinct within a directory, and every open handle refers to a file of the tree.
\<close>

theorem reachable_consistent:
  assumes "mbedtls_ok lib" and "running lib s"
  shows "\<exists>sb T. m_superblock s = Some sb \<and> forest sb 0 T \<and> distinct (nodes T) \<and> names_ok sb T \<and>
    (\<forall>h\<in>set (m_handles s). h_opened h \<and> in_fst (h_fst_index h) \<longrightarrow>
       h_fst_index h \<in> set (nodes T) \<and> IsFile (fst_at sb (h_fst_index h)))"
proof -
  obtain sb T where sb: "m_superblock s = Some sb" and inv: "tree_inv sb T" and lv: "live s sb T"
    using running_ok [OF assms] by (auto simp: fs_ok_def represents_def)
  have "h_fst_index h \<in> set (nodes T) \<and> IsFile (fst_at sb (h_fst_index h))"
    if "h \<in> set (m_handles s)" "h_opened h" "in_fst (h_fst_index h)" for h
  proof -
    have "IsFileOpened s (h_fst_index h)" using that(1,2) by (auto simp: IsFileOpened_def list_ex_iff)
    then show ?thesis using lv that(3) entries_node [OF inv] by (auto simp: live_def)
  qed
  then show ?thesis using sb inv by (auto simp: tree_inv_def)
qed

lemma reachable_consistent_witness:
  "\<exists>s s' sb T. Format demo_mbedtls 0 (Create demo_mbedtls (\<lambda>_. 0) (m_keys demo_fs)) = Some (Success, s) \<and> fs_step demo_mbedtls {} s s' \<and>
    m_superblock s' = Some sb \<and> forest sb 0 T \<and> distinct (nodes T)"
  using demo_running [of "\<lambda>_. 0" "m_keys demo_fs"] reachable_consistent [OF demo_mbedtls_ok] by blast

text \<open>
  C9 Allocation. In every state that is reached, the clusters of a file are a finite list
  without repetition between the boot data and the superblocks, every cluster there either is
  free or belongs to exactly one file, so that none gets lost and the free clusters and those
  of files add up to \<^verbatim>\<open>0x7ec0\<close>, and no cluster outside this area can be allocated.
\<close>

theorem reachable_files_apart:
  assumes "mbedtls_ok lib" and "running lib s"
  shows "\<exists>sb cl. m_superblock s = Some sb \<and>
    (\<forall>f. file_at sb f \<longrightarrow> clusters sb f (cl f) \<and> distinct (cl f) \<and> (\<forall>c\<in>set (cl f). data_area c \<and> \<not> unused_mark (fat_at sb c))) \<and>
    (\<forall>c. data_area c \<longrightarrow> fat_at sb c = CLUSTER_UNUSED \<or> (\<exists>!f. file_at sb f \<and> c \<in> set (cl f))) \<and>
    (\<forall>c. in_fat c \<longrightarrow> \<not> data_area c \<longrightarrow> \<not> unused_mark (fat_at sb c)) \<and>
    free_space s + (\<Sum>f | file_at sb f. length (cl f)) = 0x7ec0"
proof -
  obtain sb cl where sb: "m_superblock s = Some sb" and a: "alloc sb cl" "no_loss sb cl"
    using running_tight [OF assms] by (auto simp: tight_def)
  have "distinct (cl f)" if "file_at sb f" for f
    using alloc_file(1) [OF a(1) that] chain_distinct by (auto simp: clusters_def)
  moreover have "\<exists>!f. file_at sb f \<and> c \<in> set (cl f)" if c: "data_area c" "fat_at sb c \<noteq> CLUSTER_UNUSED" for c
  proof -
    obtain f where f: "file_at sb f" "c \<in> set (cl f)" using a(2) c unfolding no_loss_def by blast
    then have "g = f" if "file_at sb g \<and> c \<in> set (cl g)" for g using alloc_disjoint [OF a(1) f(1) _ _ f(2)] that by metis
    then show ?thesis using f by blast
  qed
  moreover have "\<not> unused_mark (fat_at sb c)" if "in_fat c" "\<not> data_area c" for c
    using a(1) that by (simp add: alloc_def)
  moreover have "free_space s + (\<Sum>f | file_at sb f. length (cl f)) = 0x7ec0"
    using clusters_conserved [OF a] by (simp add: free_space_def sb)
  ultimately show ?thesis using alloc_file [OF a(1)] by (intro exI [of _ sb] exI [of _ cl] conjI sb) blast+
qed

lemma reachable_files_apart_witness:
  "\<exists>s s' sb. Format demo_mbedtls 0 (Create demo_mbedtls (\<lambda>_. 0) (m_keys demo_fs)) = Some (Success, s) \<and> fs_step demo_mbedtls {} s s' \<and>
    m_superblock s' = Some sb \<and> (\<forall>c. in_fat c \<longrightarrow> \<not> data_area c \<longrightarrow> \<not> unused_mark (fat_at sb c))"
  using demo_running [of "\<lambda>_. 0" "m_keys demo_fs"] reachable_files_apart [OF demo_mbedtls_ok] by blast

text \<open>
  C10 Files do not interfere. From a consistent state, which every running driver is in, what
  \<^verbatim>\<open>ReadFileData\<close> returns for a cluster of a file stays the same through any sequence of calls
  that neither delete, rename or format the file nor read, write or close it or the file in
  the cache: other files may be created, written, grown, deleted and moved.
\<close>

theorem data_survives:
  assumes "mbedtls_ok lib" and "fs_ok s" and "reaches lib A s s'" and "f \<in> A"
  shows "cluster_data lib f i s' = cluster_data lib f i s"
  by (rule reaches_data [OF assms(1,3,2,4)])

lemma data_survives_witness:
  "\<exists>s'. CreateFile demo_mbedtls INTERNAL_FD ''/d/x'' 0 3 3 3 demo_fs = Some (Success, s') \<and>
    cluster_data demo_mbedtls 3 0 s' = cluster_data demo_mbedtls 3 0 demo_fs"
proof -
  obtain s' F where s': "CreateFile demo_mbedtls INTERNAL_FD ''/d/x'' 0 3 3 3 demo_fs = Some (Success, s')"
    and F: "represents s' F {}" "F [''d'', ''b''] = demo_map [''d'', ''b'']" using demo_create by auto
  have "walkable demo_fs ''/d/x''"
    unfolding walkable_def using represents_unique(1) [OF demo_represents] demo_through(2) by (auto simp: demo_components)
  moreover have "name_fits ''/d/x''" using demo_new_paths(2) by (simp add: new_path_ok_def)
  ultimately have step: "fs_step demo_mbedtls {} demo_fs s'" using s' by (rule step_CreateFile)
  have "has_file s' 3" using represents_file [OF F(1) F(2) [unfolded demo_map_at]] by (simp add: IsFile_def)
  then have "reaches demo_mbedtls {3} demo_fs s'" by (intro reaches_step [OF reaches_refl step]) auto
  from data_survives [OF demo_mbedtls_ok demo_fs_ok this] s' show ?thesis by simp
qed

text \<open>
  C21 Reading, writing and closing keep every path. Whatever these calls return, the new state
  represents a map with the same paths, whose entries differ in the sizes of files only.
\<close>

theorem data_calls_keep_paths:
  assumes "mbedtls_ok lib" and "represents s F opn" and "cache_ok s"
    and "ReadFile lib fd ptr count s = Some (n, s') \<or> WriteFile lib fd data count s = Some (m, s') \<or> Close lib fd s = Some (r, s')"
  shows "\<exists>F' opn'. represents s' F' opn' \<and> opn' \<subseteq> opn \<and> (\<forall>p. map_option (\<lambda>e. e\<lparr>e_size := 0\<rparr>) (F' p) = map_option (\<lambda>e. e\<lparr>e_size := 0\<rparr>) (F p))"
proof -
  consider "data_rel s s'" | "Close lib fd s = Some (r, s')"
    using assms(4) ReadFile_data WriteFile_data by metis
  then show ?thesis
  proof cases
    case 1
    then show ?thesis using data_represents [OF assms(2) 1] by (auto simp: same_shape_def)
  next
    case 2
    then show ?thesis using Close_represents [OF assms(1-3) 2] by (auto simp: same_shape_def)
  qed
qed

lemma data_calls_keep_paths_witness:
  "\<exists>s' F' opn'. Close demo_mbedtls INTERNAL_FD demo_fs = Some (Success, s') \<and> represents s' F' opn' \<and> opn' \<subseteq> {}"
proof -
  have "\<exists>s'. Close demo_mbedtls INTERNAL_FD demo_fs = Some (Success, s')"
    by (simp add: Close_def demo_user(1,2) close_handle_def new_Handle_def)
  then obtain s' where s': "Close demo_mbedtls INTERNAL_FD demo_fs = Some (Success, s')" by blast
  show ?thesis using data_calls_keep_paths [OF demo_mbedtls_ok demo_represents _ disjI2 [OF disjI2 [OF s']]] s' by (auto simp: cache_ok_def)
qed

text \<open>
  C13 Every call returns. In a consistent state the calls on directories, the queries, \<^verbatim>\<open>Format\<close>
  and \<^verbatim>\<open>Close\<close> return, whatever their other arguments are and whether they succeed or not: no
  loop over the FAT or the FST runs forever and no index is outside its array.
\<close>

theorem calls_return:
  assumes "mbedtls_ok lib" and "fs_ok s" and "walkable s path" and "name_fits path"
    and "walkable s old_path" and "separate_paths old_path path"
  shows "Format lib uid s \<noteq> None \<and> CreateFile lib fd path attr om gm tm s \<noteq> None \<and> CreateDirectory lib fd path attr om gm tm s \<noteq> None \<and>
    Delete lib fd path s \<noteq> None \<and> Rename lib fd old_path path s \<noteq> None \<and> SetMetadata lib fd path uid gid attr om gm tm s \<noteq> None \<and>
    GetMetadata lib fd path s \<noteq> None \<and> ReadDirectory lib fd path s \<noteq> None \<and> GetDirectoryStats lib fd path s \<noteq> None \<and>
    OpenFile lib uid gid path mode s \<noteq> None \<and> Close lib fd s \<noteq> None"
  using Format_returns [OF assms(1,2)] create_returns [OF assms(1-4)] Delete_returns [OF assms(1-3)]
    Rename_returns [OF assms(1,2,5,3,4,6)] SetMetadata_returns [OF assms(1-3)] query_returns [OF assms(2,3), where lib = lib]
    OpenFile_returns [OF assms(2,3), where lib = lib] Close_returns [OF assms(1,2)]
  by simp

lemma calls_return_witness:
  "Delete demo_mbedtls INTERNAL_FD ''/d/x'' demo_fs \<noteq> None \<and> Rename demo_mbedtls INTERNAL_FD ''/a'' ''/d/x'' demo_fs \<noteq> None"
proof -
  have w: "walkable demo_fs ''/d/x''" "walkable demo_fs ''/a''"
    unfolding walkable_def using represents_unique(1) [OF demo_represents] demo_through(1,2) by (auto simp: demo_components)
  have "name_fits ''/d/x''" using demo_new_paths(2) by (simp add: new_path_ok_def)
  moreover have "separate_paths ''/a'' ''/d/x''" by (simp add: separate_paths_def demo_components below_def)
  ultimately show ?thesis using calls_return [OF demo_mbedtls_ok demo_fs_ok w(1) _ w(2)] by simp
qed

end
