(* ===== verification/Contents.thy ===== *)
theory Contents
  imports Runs
begin

text \<open>
  The contents of files as lists of bytes next to the map of paths: what appending to a file
  and reading from it do to the abstract file system, for the running driver and for one
  started on the resulting image.
\<close>

section \<open>The contents of the files of a map\<close>

text \<open>
  \<open>contents lib s F D\<close>: every path in the domain of \<open>D\<close> is a file of the map \<open>F\<close> whose
  clusters can be read and verified and hold exactly the bytes \<open>D\<close> gives for it.
\<close>

definition stores :: "('k, 'c) mbedtls \<Rightarrow> FileSystemImpl \<Rightarrow> path_map \<Rightarrow> path \<Rightarrow> u8 list \<Rightarrow> bool" where
  "stores lib s F p d \<longleftrightarrow> (\<exists>e. F p = Some e \<and> IsFile e \<and> unat (e_size e) = length d \<and> holds lib s (e_sub e) d)"

definition contents :: "('k, 'c) mbedtls \<Rightarrow> FileSystemImpl \<Rightarrow> path_map \<Rightarrow> (path \<Rightarrow> u8 list option) \<Rightarrow> bool" where
  "contents lib s F D \<longleftrightarrow> (\<forall>p d. D p = Some d \<longrightarrow> stores lib s F p d)"

text \<open>
  \<open>settled lib s\<close>: a consistent file system that knows the newest version on the image, without
  pending file data, and whose cache, if any, belongs to an open handle.
\<close>

definition settled :: "('k, 'c) mbedtls \<Rightarrow> FileSystemImpl \<Rightarrow> bool" where
  "settled lib s \<longleftrightarrow> fs_ok s \<and> versions_upto lib s \<and> clean s \<and>
     (\<forall>i<NUM_HANDLES. m_cache_handle s = Some (Slot i) \<longrightarrow> h_opened (m_handles s ! i))"

definition needed_clusters :: "u8 list \<Rightarrow> nat" where
  "needed_clusters d = (length d + CLUSTER_DATA_SIZE - 1) div CLUSTER_DATA_SIZE"

definition resize :: "path \<Rightarrow> nat \<Rightarrow> path_map \<Rightarrow> path_map" where
  "resize p n F = F(p := map_option (\<lambda>e. e\<lparr>e_size := of_nat n\<rparr>) (F p))"

text \<open>
  \<open>durable lib s opn F D\<close>: the driver shows the map \<open>F\<close> with contents \<open>D\<close>, and a driver started
  on the image as it is shows the same, with no file open.
\<close>

definition durable :: "('k, 'c) mbedtls \<Rightarrow> FileSystemImpl \<Rightarrow> path set \<Rightarrow> path_map \<Rightarrow> (path \<Rightarrow> u8 list option) \<Rightarrow> bool" where
  "durable lib s opn F D \<longleftrightarrow> represents s F opn \<and> contents lib s F D \<and>
     (let t = Create lib (m_nand s) (m_keys s) in settled lib t \<and> represents t F {} \<and> contents lib t F D)"

lemma needed_clusters_full: "d \<noteq> [] \<Longrightarrow> needed_clusters d = Suc (full_clusters d)"
proof -
  assume "d \<noteq> []"
  then have "0 < length d" by simp
  then have e: "length d + CLUSTER_DATA_SIZE - 1 = length d - 1 + CLUSTER_DATA_SIZE" by linarith
  have "CLUSTER_DATA_SIZE \<noteq> 0" by (simp add: layout_consts)
  from div_add_self2 [OF this, of "length d - 1"] show ?thesis
    unfolding needed_clusters_def full_clusters_def e by (simp only: Suc_eq_plus1)
qed

lemma needed_clusters_enough: "length d \<le> needed_clusters d * CLUSTER_DATA_SIZE"
  using div_mult_mod_eq [of "length d + CLUSTER_DATA_SIZE - 1" CLUSTER_DATA_SIZE]
    mod_less_divisor [of CLUSTER_DATA_SIZE "length d + CLUSTER_DATA_SIZE - 1"]
  by (simp add: needed_clusters_def layout_consts)

section \<open>Contents that stay\<close>

lemma ReadFileData_cluster_data:
  "m_superblock s = Some sb \<Longrightarrow> ReadFileData lib f i s = Some (Inr c, s) \<longleftrightarrow> cluster_data lib f i s = Some (Inr c)"
  using ReadFileData_state [of lib f i s "Inr c"] by (auto simp: cluster_data_def GetSuperblock_loaded)

lemma holds_kept:
  assumes hold: "holds lib s f d" and k: "kept_data lib X s s'" "f \<notin> X" "has_file s' f"
  shows "holds lib s' f d"
proof -
  obtain sb sb' where sb: "m_superblock s = Some sb" "m_superblock s' = Some sb'"
    using hold k(3) by (auto simp: holds_def has_file_def)
  have "cluster_data lib f i s' = cluster_data lib f i s" for i using k by (simp add: kept_data_def)
  then show ?thesis using hold sb unfolding holds_def
    by (simp add: ReadFileData_cluster_data [OF sb(1)] ReadFileData_cluster_data [OF sb(2)])
qed

text \<open>
  Contents of the new map: an empty file, or the contents of a path of the old map whose
  entry has kept its index and size.
\<close>

lemma contents_kept:
  assumes c: "contents lib s F D" and rep: "represents s' F' opn'" and k: "kept_data lib X s s'"
    and same: "\<And>p d. D' p = Some d \<Longrightarrow> d = [] \<and> (\<exists>e'. F' p = Some e' \<and> IsFile e' \<and> e_size e' = 0) \<or>
      (\<exists>q. D q = Some d \<and> (\<forall>e. F q = Some e \<longrightarrow> IsFile e \<longrightarrow>
        e_sub e \<notin> X \<and> (\<exists>e'. F' p = Some e' \<and> IsFile e' \<and> e_sub e' = e_sub e \<and> e_size e' = e_size e)))"
  shows "contents lib s' F' D'"
  unfolding contents_def
proof (intro allI impI)
  fix p d assume "D' p = Some d"
  from same [OF this] show "stores lib s' F' p d"
  proof (elim disjE conjE exE)
    fix e' assume "d = []" "F' p = Some e'" "IsFile e'" "e_size e' = 0"
    then show ?thesis using rep by (auto simp: stores_def holds_def represents_def)
  next
    fix q assume q: "D q = Some d" and old: "\<forall>e. F q = Some e \<longrightarrow> IsFile e \<longrightarrow>
      e_sub e \<notin> X \<and> (\<exists>e'. F' p = Some e' \<and> IsFile e' \<and> e_sub e' = e_sub e \<and> e_size e' = e_size e)"
    obtain e where e: "F q = Some e" "IsFile e" "unat (e_size e) = length d" "holds lib s (e_sub e) d"
      using c q unfolding contents_def stores_def by blast
    then obtain e' where e': "F' p = Some e'" "IsFile e'" "e_sub e' = e_sub e" "e_size e' = e_size e" "e_sub e \<notin> X"
      using old by blast
    have "has_file s' (e_sub e)" using represents_file [OF rep e'(1,2)] e'(3) by simp
    then show ?thesis
      using e' e holds_kept [OF e(4) k e'(5)] unfolding stores_def by (intro exI [of _ e']) simp
  qed
qed

text \<open>A driver started on an image whose newest superblock is the one in memory.\<close>

lemma restart:
  assumes new: "newest lib s" and rep: "represents s F opn" and ap: "apart s"
  shows "represents (Create lib (m_nand s) (m_keys s)) F {}" "settled lib (Create lib (m_nand s) (m_keys s))"
    "kept_data lib {} s (Create lib (m_nand s) (m_keys s))"
proof -
  let ?c = "Create lib (m_nand s) (m_keys s)"
  obtain sb T where sb: "m_superblock s = Some sb" "tree_inv sb T" "links_ok sb" "F = view sb T"
    using rep by (auto simp: represents_def)
  have wf: "sb_wf sb" using sb(2) by (simp add: tree_inv_def)
  have ok: "files_ok sb" using ap sb(1) by (simp add: apart_def)
  note c = newest_Create [OF new sb(1) refl]
  define sb' where "sb' = sb\<lparr>sb_fat := map (\<lambda>c. if c = 0xffff then CLUSTER_UNUSED else c) (sb_fat sb)\<rparr>"
  have sb': "m_superblock ?c = Some sb'" by (simp add: c sb'_def)
  have r: "refiles {} sb sb'" unfolding sb'_def by (rule refiles_unused [OF wf])
  show rep': "represents ?c F {}" unfolding sb(4) by (rule newest_restart [OF new sb(1) refl wf sb(2,3)])
  have "apart ?c" using refiles_files_ok [OF r ok] sb' by (simp add: apart_def)
  then show "settled lib ?c"
    using rep' Create_loaded(1) [of lib "m_nand s" "m_keys s"] by (auto simp: settled_def fs_ok_def cache_ok_def clean_def)
  show "kept_data lib {} s ?c" by (rule refiles_data [OF sb(1) sb' _ r ok]) simp_all
qed

lemma contents_restrict:
  assumes "contents lib s F D" "represents s' F opn'" "kept_data lib {} s s'"
  shows "contents lib s' F D"
proof (rule contents_kept [OF assms])
  fix p d assume d: "D p = Some d"
  have "\<forall>e. F p = Some e \<longrightarrow> IsFile e \<longrightarrow>
      e_sub e \<notin> {} \<and> (\<exists>e'. F p = Some e' \<and> IsFile e' \<and> e_sub e' = e_sub e \<and> e_size e' = e_size e)" by simp
  then show "d = [] \<and> (\<exists>e'. F p = Some e' \<and> IsFile e' \<and> e_size e' = 0) \<or>
    (\<exists>q. D q = Some d \<and> (\<forall>e. F q = Some e \<longrightarrow> IsFile e \<longrightarrow>
      e_sub e \<notin> {} \<and> (\<exists>e'. F p = Some e' \<and> IsFile e' \<and> e_sub e' = e_sub e \<and> e_size e' = e_size e)))"
    using d by blast
qed

lemma newest_durable:
  assumes new: "newest lib s" and rep: "represents s F opn" and ap: "apart s" and c: "contents lib s F D"
  shows "durable lib s opn F D"
  using restart(1,2) [OF new rep ap] contents_restrict [OF c restart(1,3) [OF new rep ap]] rep c
  by (simp add: durable_def Let_def)

section \<open>The state before a session\<close>

lemma settled_ready:
  assumes "settled lib s" "m_superblock s = Some sb"
  shows "ready lib sb s"
proof -
  have s: "fs_ok s" "versions_upto lib s" "clean s"
    "\<forall>i<NUM_HANDLES. m_cache_handle s = Some (Slot i) \<longrightarrow> h_opened (m_handles s ! i)" using assms(1) by (simp_all add: settled_def)
  then obtain cl where "alloc sb cl" using assms(2) by (auto simp: fs_ok_def apart_def files_ok_def)
  then have "area_reserved sb"
    unfolding alloc_def area_reserved_def data_area_def unused_mark_def by (metis not_le)
  then show ?thesis using s assms(2) by (simp add: ready_def fs_ok_def)
qed

lemma settled_file:
  assumes s: "settled lib s" and sb: "m_superblock s = Some sb" and rep: "represents s F opn" and st: "stores lib s F p d"
  obtains e cs where "F p = Some e" "IsFile e" "stored_file lib sb (e_sub e) cs d s" "in_fst (e_sub e)" "IsFile (fst_at sb (e_sub e))"
    "e_size (fst_at sb (e_sub e)) = e_size e" "needed_clusters d \<le> length cs" "free_count sb + length cs \<le> 0x7ec0"
    "\<And>path. components path = p \<Longrightarrow> GetFstIndex sb path = Some (Inr (e_sub e))"
proof -
  obtain e where e: "F p = Some e" "IsFile e" "unat (e_size e) = length d" "holds lib s (e_sub e) d"
    using st by (auto simp: stores_def)
  obtain T where inv: "tree_inv sb T" and F: "F = view sb T" using rep sb by (auto simp: represents_def)
  then obtain k where k: "entries sb T p = Some k" "e = inode sb k" using e(1) by (auto simp: view_def)
  have i: "in_fst k" using tree_inv_node [OF inv entries_node [OF inv k(1)]] by simp
  have f: "IsFile (fst_at sb k)" using e(2) by (simp add: k(2) IsFile_def meta_def)
  obtain cl where a: "alloc sb cl" using s sb by (auto simp: settled_def fs_ok_def apart_def files_ok_def)
  have fk: "file_at sb k" using i f by (simp add: file_at_def)
  have st': "stored_file lib sb k (cl k) d s"
    using alloc_file_clusters [OF a fk] alloc_file(2) [OF a fk] f e(3,4) by (auto simp: stored_file_def k(2) data_area_def)
  have "needed_clusters d \<le> length (cl k)"
  proof (cases "d = []")
    case True
    then show ?thesis by (simp add: needed_clusters_def layout_consts)
  next
    case False
    have d30: "length d < 2 ^ 30" using e(4) by (simp add: holds_def)
    then have "full_clusters d < 2 ^ 16" by (simp add: full_clusters_def layout_consts)
    then have u: "unat (of_nat (full_clusters d) :: u16) = full_clusters d" by (simp add: unat_of_nat)
    have "holds lib s k d" using e(4) by (simp add: k(2))
    then obtain c where "ReadFileData lib k (of_nat (full_clusters d)) s = Some (Inr c, s)"
      using full_clusters_less [OF False] u unfolding holds_def by metis
    from ReadFileData_Some(4) [OF this sb alloc_file(1) [OF a fk]] show ?thesis
      using needed_clusters_full [OF False] u by simp
  qed
  moreover have "GetFstIndex sb path = Some (Inr k)" if "components path = p" for path
    by (rule entries_lookup [OF inv]) (simp add: that k(1))
  ultimately show thesis using that [OF e(1,2), of "cl k"] st' i f clusters_bounded [OF a fk] by (simp add: k(2) meta_def)
qed

lemma closed_again:
  assumes len: "length (m_handles s) = NUM_HANDLES" and i: "i < NUM_HANDLES" "\<not> h_opened (m_handles s ! i)"
    and t: "hview t = hview (upd_handle (Slot i) f s)" and s': "m_handles s' = m_handles (upd_handle (Slot i) (\<lambda>_. new_Handle) t)"
  shows "IsFileOpened s' k = IsFileOpened s k" "length (m_handles s') = NUM_HANDLES" "\<exists>h\<in>set (m_handles s'). \<not> h_opened h"
    "\<forall>h\<in>set (m_handles s). \<not> h_opened h \<Longrightarrow> \<forall>h\<in>set (m_handles s'). \<not> h_opened h"
proof -
  have lt: "length (hview t) = NUM_HANDLES" using len by (simp add: t) (simp add: hview_def upd_handle_def)
  then have l: "length (m_handles t) = NUM_HANDLES" by (simp add: hview_def)
  show "length (m_handles s') = NUM_HANDLES" using l by (simp add: s' upd_handle_def)
  have "new_Handle \<in> set (m_handles s')" using l i(1) by (simp add: s' upd_handle_def set_update_memI)
  then show "\<exists>h\<in>set (m_handles s'). \<not> h_opened h" by (rule bexI [rotated]) (simp add: new_Handle_def)
  have "hview s' = (hview t)[i := (False, 0xffff)]" by (simp add: hview_def s' upd_handle_def map_update new_Handle_def)
  also have "\<dots> = (hview s)[i := (False, 0xffff)]" by (simp add: t) (simp add: hview_def upd_handle_def map_update)
  finally have v: "hview s' = (hview s)[i := (False, 0xffff)]" .
  show "\<forall>h\<in>set (m_handles s'). \<not> h_opened h" if "\<forall>h\<in>set (m_handles s). \<not> h_opened h"
  proof -
    have "\<forall>x\<in>set (hview s). \<not> fst x" using that by (simp add: hview_def)
    then have "\<forall>x\<in>set (hview s'). \<not> fst x" unfolding v using set_update_subset_insert [of "hview s" i "(False, 0xffff)"] by auto
    then show ?thesis by (simp add: hview_def)
  qed
  have old: "hview s ! i = (False, h_fst_index (m_handles s ! i))" using i len by (simp add: hview_def)
  have "(hview s)[i := (False, 0xffff)] ! j = (True, k) \<longleftrightarrow> hview s ! j = (True, k)" if "j < length (hview s)" for j
    using that old by (cases "j = i") simp_all
  then have "(True, k) \<in> set ((hview s)[i := (False, 0xffff)]) \<longleftrightarrow> (True, k) \<in> set (hview s)"
    by (auto simp: in_set_conv_nth)
  then show "IsFileOpened s' k = IsFileOpened s k" by (simp add: IsFileOpened_hview v)
qed

section \<open>What a session leaves\<close>

lemma represents_inj:
  assumes "represents s F opn" "F p = Some e" "F q = Some e'" "e_sub e' = e_sub e"
  shows "q = p"
proof -
  obtain sb T where inv: "tree_inv sb T" and F: "F = view sb T" using assms(1) by (auto simp: represents_def)
  obtain k where k: "entries sb T p = Some k" "e = inode sb k" using assms(2) F by (auto simp: view_def)
  obtain l where l: "entries sb T q = Some l" "e' = inode sb l" using assms(3) F by (auto simp: view_def)
  have "l = k" using assms(4) k(2) l(2) by simp
  then show ?thesis using entries_inj [OF inv l(1)] k(1) by simp
qed

lemma resize_represents:
  assumes rep: "represents s F opn" and sb: "m_superblock s = Some sb" and p: "F p = Some e" "IsFile (fst_at sb (e_sub e))"
    and sb': "m_superblock s' = Some sb'" "sb_wf sb'" and g: "grown (e_sub e) sb sb'"
    and z: "e_size (fst_at sb' (e_sub e)) = of_nat n" and o: "\<And>k. IsFileOpened s' k = IsFileOpened s k"
  shows "represents s' (resize p n F) opn"
proof -
  obtain T where inv: "tree_inv sb T" and lk: "links_ok sb" and lv: "live s sb T" and F: "F = view sb T" and opn: "opn = open_paths s sb T"
    using rep sb by (auto simp: represents_def)
  obtain k where k: "entries sb T p = Some k" "e = inode sb k" using p(1) F by (auto simp: view_def)
  obtain a y where fk: "fst_at sb' k = (fst_at sb k)\<lparr>e_sub := a, e_size := y\<rparr>" and others: "\<And>g. g \<noteq> k \<Longrightarrow> fst_at sb' g = fst_at sb g"
    using g by (auto simp: grown_def k(2))
  have y: "y = of_nat n" using z fk by (simp add: k(2))
  have r: "resized (fst_at sb g) (fst_at sb' g)" for g
  proof (cases "g = k")
    case True
    then show ?thesis using fk p(2) unfolding resized_def k(2) by (intro exI [of _ a] exI [of _ y]) simp
  next
    case False
    then show ?thesis using others resized_refl by simp
  qed
  have "view sb' T q = resize p n F q" for q
  proof (cases "q = p")
    case True
    then show ?thesis using k fk p(1)
      by (simp add: view_def resized_tree(2) [OF inv sb'(2) r] resize_def y meta_def)
  next
    case False
    have "entries sb T q \<noteq> Some k" using entries_inj [OF inv _ k(1)] False by blast
    then show ?thesis using False others
      by (cases "entries sb T q") (simp_all add: view_def resized_tree(2) [OF inv sb'(2) r] resize_def F)
  qed
  then have "view sb' T = resize p n F" by (rule ext)
  then show ?thesis using resized_represents [OF inv lk lv sb' r o] by (simp add: opn)
qed

text \<open>A cache without pending data plays no part once another file is used.\<close>

lemma WriteFile_uncached:
  assumes "clean s" "GetHandleFromFd fd s = Some h" "m_cache_handle s \<noteq> Some h" "count \<noteq> 0"
    "in_fst (index_at s h)" "FileMode_and (h_mode (handle_at s h)) FileMode_Write \<noteq> 0"
  shows "WriteFile lib fd ptr count (s\<lparr>m_cache_handle := None\<rparr>) = WriteFile lib fd ptr count s"
proof -
  let ?t = "s\<lparr>m_cache_handle := None\<rparr>"
  have c: "clean ?t" by (simp add: clean_def)
  have at: "handle_at ?t h' = handle_at s h'" for h' by (simp add: handle_at_def split: HandleRef.split)
  have "PopulateFileCache lib h off w ?t = PopulateFileCache lib h off w s" for off w
    using assms(3) by (simp add: PopulateFileCache_def Let_def FlushFileCache_clean [OF assms(1)] FlushFileCache_clean [OF c] split del: if_split cong: if_cong)
  then have "write_loop lib h ptr count 0 ?t = write_loop lib h ptr count 0 s"
    using assms(4) by (subst (1 2) write_loop.simps) (simp add: at)
  moreover have "GetHandleFromFd fd ?t = GetHandleFromFd fd s" by (simp add: GetHandleFromFd_def)
  ultimately show ?thesis using assms(2,5,6) by (simp add: WriteFile_def Let_def at)
qed

lemma append_written:
  assumes ok: "mbedtls_ok lib" and s: "m_superblock s = Some sb" "sb_wf sb" and clean: "clean s"
    and h: "GetHandleFromFd fd s = Some h" "index_at s h = f" "m_cache_handle s \<noteq> Some h" and n: "count \<noteq> 0"
    and m: "in_fst (index_at s h)" "FileMode_and (h_mode (handle_at s h)) FileMode_Write \<noteq> 0"
    and w: "WriteFile lib fd ptr count s = Some (r, s')" and c: "m_cache_handle s' = Some h" "GetHandleFromFd fd s' = Some h"
    and cl: "Close lib fd s' = Some (r', s'')"
  shows "written lib {f} s s''"
proof -
  let ?t = "s\<lparr>m_cache_handle := None\<rparr>"
  have at: "index_at ?t h' = index_at s h'" for h' by (rule index_at_cong) simp_all
  have w': "WriteFile lib fd ptr count ?t = Some (r, s')" using w WriteFile_uncached [OF clean h(1,3) n m, of lib ptr] by simp
  have "GetHandleFromFd fd ?t = GetHandleFromFd fd s" by (simp add: GetHandleFromFd_def)
  then have gh: "GetHandleFromFd fd ?t = Some h" using h(1) by simp
  have q: "quiet lib {f} ?t s'"
    by (rule cache_relation.write_file [OF cache_relation_quiet [OF ok] w']) (use gh h(2) at in simp)
  have "cached_in {f} ?t" by (simp add: cached_in_def)
  then have "written lib {f} ?t s'" and f: "index_at s' h = f" using q h(2) at by (simp_all add: quiet_def)
  moreover have "written lib {f} s ?t" by (rule written_same) simp_all
  ultimately have w1: "written lib {f} s s'" using written_trans by blast
  obtain sb' where sb': "m_superblock s' = Some sb'" "data_step sb sb'" using data_rel_sb [OF WriteFile_data [OF w] s] by blast
  have "data_files fd s' \<subseteq> {f}" using c f by (auto simp: data_files_def)
  then have "written lib {f} s' s''" by (rule written_mono [OF Close_written [OF ok sb'(1) data_step_wf(1) [OF sb'(2)] cl]])
  then show ?thesis by (rule written_trans [OF w1])
qed

section \<open>Appending\<close>

lemma seek_opened:
  assumes len: "length (m_handles s) = NUM_HANDLES" and i: "i < NUM_HANDLES" and f: "in_fst f"
    and s1: "s1 = upd_handle (Slot i) (\<lambda>_. opened_handle uid gid mode f z) s"
  shows "SeekFile (ConvertHandleToFd i) 0 SeekMode_End s1 =
      (Inr z, upd_handle (Slot i) (\<lambda>_. (opened_handle uid gid mode f z)\<lparr>h_file_offset := z\<rparr>) s)"
    "pos \<le> z \<Longrightarrow> SeekFile (ConvertHandleToFd i) pos SeekMode_Set s1 =
      (Inr pos, upd_handle (Slot i) (\<lambda>_. (opened_handle uid gid mode f z)\<lparr>h_file_offset := pos\<rparr>) s)"
proof -
  have v: "valid_ref (Slot i)" using i by (simp add: valid_ref_def)
  have fd: "GetHandleFromFd (ConvertHandleToFd i) s1 = Some (Slot i)"
    unfolding s1 by (rule GetHandleFromFd_opened) (use i len in simp_all)
  have at: "handle_at s1 (Slot i) = opened_handle uid gid mode f z" unfolding s1 by (simp add: handle_at_upd_handle len v)
  have twice: "upd_handle (Slot i) (\<lambda>x. x\<lparr>h_file_offset := q\<rparr>) s1 =
      upd_handle (Slot i) (\<lambda>_. (opened_handle uid gid mode f z)\<lparr>h_file_offset := q\<rparr>) s" for q
    using i len by (simp add: s1 upd_handle_def)
  show "SeekFile (ConvertHandleToFd i) 0 SeekMode_End s1 =
      (Inr z, upd_handle (Slot i) (\<lambda>_. (opened_handle uid gid mode f z)\<lparr>h_file_offset := z\<rparr>) s)"
    using fd f at twice by (simp add: SeekFile_def Let_def SeekMode_Set_def SeekMode_Current_def SeekMode_End_def)
  show "SeekFile (ConvertHandleToFd i) pos SeekMode_Set s1 =
      (Inr pos, upd_handle (Slot i) (\<lambda>_. (opened_handle uid gid mode f z)\<lparr>h_file_offset := pos\<rparr>) s)" if "pos \<le> z"
    using fd f at twice that by (simp add: SeekFile_def Let_def)
qed

lemma append_session:
  assumes ok: "mbedtls_ok lib" and set: "settled lib s" and rep: "represents s F opn" and st: "stores lib s F p d0"
    and path: "IsValidNonRootPath path" "components path = p" "through_dirs F p"
    and open_ok: "abs_open uid gid FileMode_ReadWrite p F = Success" and handle: "\<exists>h\<in>set (m_handles s). \<not> h_opened h"
    and ne: "d \<noteq> []"
    and room: "0 < free_space s" "needed_clusters (d0 @ d) \<le> free_space s + needed_clusters d0"
  obtains fd s1 s2 s3 s4 e where "OpenFile lib uid gid path FileMode_ReadWrite s = Some (Inr fd, s1)"
    "SeekFile fd 0 SeekMode_End s1 = (Inr (of_nat (length d0)), s2)"
    "WriteFile lib fd d (of_nat (length d)) s2 = Some (Inr (of_nat (length d)), s3)" "Close lib fd s3 = Some (Success, s4)"
    "F p = Some e" "IsFile e" "represents s4 (resize p (length (d0 @ d)) F) opn" "written lib {e_sub e} s s4" "newest lib s4" "settled lib s4"
    "holds lib s4 (e_sub e) (d0 @ d)" "\<exists>h\<in>set (m_handles s4). \<not> h_opened h" "free_space s + needed_clusters d0 \<le> free_space s4 + needed_clusters (d0 @ d)"
    "m_cache_handle s4 = None" "(\<forall>h\<in>set (m_handles s). \<not> h_opened h) \<longrightarrow> (\<forall>h\<in>set (m_handles s4). \<not> h_opened h)"
proof -
  obtain sb where sb: "m_superblock s = Some sb" "sb_wf sb" using rep by (auto simp: represents_def tree_inv_def)
  have fs: "fs_ok s" "clean s" using set by (simp_all add: settled_def)
  then have len: "length (m_handles s) = NUM_HANDLES" by (simp add: fs_ok_def)
  obtain e cs where e: "F p = Some e" "IsFile e" "stored_file lib sb (e_sub e) cs d0 s" "in_fst (e_sub e)" "IsFile (fst_at sb (e_sub e))"
      "e_size (fst_at sb (e_sub e)) = e_size e" "needed_clusters d0 \<le> length cs" "free_count sb + length cs \<le> 0x7ec0"
    and look: "GetFstIndex sb path = Some (Inr (e_sub e))"
    by (rule settled_file [OF set sb(1) rep st]) (use path(2) in blast)
  have fc: "free_space s = free_count sb" by (simp add: free_space_def sb(1))
  have d: "d \<noteq> []" "length (d0 @ d) < 2 ^ 30"
  proof -
    have "needed_clusters (d0 @ d) \<le> 0x7ec0" using room(2) e(7,8) fc by linarith
    then have "needed_clusters (d0 @ d) * CLUSTER_DATA_SIZE \<le> 0x7ec0 * CLUSTER_DATA_SIZE" by (rule mult_le_mono1)
    then show "length (d0 @ d) < 2 ^ 30" using needed_clusters_enough [of "d0 @ d"] by (simp add: layout_consts)
  qed (rule ne)
  obtain fd s1 where o: "OpenFile lib uid gid path FileMode_ReadWrite s = Some (Inr fd, s1)"
    using OpenFile_refines [OF rep len path(1), of uid gid FileMode_ReadWrite lib] path(2,3) open_ok handle by (auto split: if_split_asm)
  obtain i where i: "i < NUM_HANDLES" "\<not> h_opened (m_handles s ! i)" "fd = ConvertHandleToFd i"
      "s1 = upd_handle (Slot i) (\<lambda>_. opened_handle uid gid FileMode_ReadWrite (e_sub e) (e_size (fst_at sb (e_sub e)))) s"
    by (rule open_slot [OF sb(1) len look o])
  define hd where "hd = (opened_handle uid gid FileMode_ReadWrite (e_sub e) (e_size (fst_at sb (e_sub e))))\<lparr>h_file_offset := e_size (fst_at sb (e_sub e))\<rparr>"
  define s2 where "s2 = upd_handle (Slot i) (\<lambda>_. hd) s"
  have l0: "length d0 = unat (e_size e)" using e(3,6) by (simp add: stored_file_def)
  have z: "e_size e = of_nat (length d0)" unfolding l0 by simp
  have seek: "SeekFile fd 0 SeekMode_End s1 = (Inr (of_nat (length d0)), s2)"
    using seek_opened(1) [OF len i(1) e(4) i(4)] by (simp add: i(3) s2_def hd_def z e(6))
  have free: "0 < free_count sb" using room(1) fc by simp
  note a = open_to_append [OF settled_ready [OF set sb(1)] e(3,4) free i(1,2) s2_def [unfolded hd_def]]
  have fd2: "GetHandleFromFd fd s2 = Some (Slot i)" using a(2) i(3) by simp
  have nd: "needed_clusters (d0 @ d) = Suc (full_clusters (d0 @ d))" by (rule needed_clusters_full) (use d(1) in simp)
  have rm: "(length d0 + length d - 1) div CLUSTER_DATA_SIZE < free_count sb + length cs"
    using room(2) e(7) nd fc by (simp add: full_clusters_def)
  obtain s3 s4 sb' where w: "WriteFile lib fd d (of_nat (length d)) s2 = Some (Inr (of_nat (length d)), s3)"
    "Close lib fd s3 = Some (Success, s4)" "m_superblock s4 = Some sb'" "sb_wf sb'" "grown (e_sub e) sb sb'"
    "IsFile (fst_at sb' (e_sub e))" "unat (e_size (fst_at sb' (e_sub e))) = length (d0 @ d)"
    "holds lib s4 (e_sub e) (d0 @ d)" "newest lib s4" "m_cache_handle s4 = None" "m_handles s4 = m_handles (upd_handle (Slot i) (\<lambda>_. new_Handle) s3)"
    "appending (Slot i) (e_sub e) (d0 @ d) s3" "m_cache_handle s3 = Some (Slot i)"
    "free_count sb + length cs \<le> free_count sb' + max (length cs) (Suc (full_clusters (d0 @ d)))"
    by (rule write_and_close [OF ok a(1) fd2 a(3) d(1)]) (use d(2) rm in simp_all)
  have "hview s3 = hview s2" using WriteFile_data [OF w(1)] by (simp add: data_rel_def)
  note closed = closed_again [OF len i(1,2) this [unfolded s2_def] w(11)]
  have rep4: "represents s4 (resize p (length (d0 @ d)) F) opn"
    by (rule resize_represents [OF rep sb(1) e(1,5) w(3-5) _ closed(1)]) (simp only: w(7) [symmetric] of_nat_unat ucast_id)
  have idle: "clean s2" "m_cache_handle s2 \<noteq> Some (Slot i)" "appending (Slot i) (e_sub e) d0 s2" using a(1) by (simp_all add: idle_def)
  have n0: "(of_nat (length d) :: u32) \<noteq> 0"
  proof -
    have "unat (of_nat (length d) :: u32) = length d" using d(2) by (simp add: unat_of_nat)
    then show ?thesis using d(1) by (metis length_0_conv unat_0)
  qed
  have fd3: "GetHandleFromFd fd s3 = Some (Slot i)"
    using w(12) fd2 by (intro GetHandleFromFd_still [OF _ fd2]) (simp add: appending_def)
  have "written lib {e_sub e} s2 s4"
    by (rule append_written [OF ok _ sb(2) idle(1) fd2 _ idle(2) n0 _ _ w(1,13) fd3 w(2)])
      (use idle(3) a(3) ReadWrite_bits(2) in \<open>simp_all add: appending_def s2_def sb(1)\<close>)
  moreover have "written lib {e_sub e} s s2" by (rule written_same) (simp_all add: s2_def)
  ultimately have wr: "written lib {e_sub e} s s4" using written_trans by blast
  have "files_ok sb" using fs(1) sb(1) by (simp add: fs_ok_def apart_def)
  then have "apart s4" using wr sb by (auto simp: written_def apart_def)
  moreover have "versions_upto lib s4" by (rule newest_versions_upto [OF w(9)]) (use w(3,4) in simp)
  ultimately have set4: "settled lib s4" using rep4 closed(2) w(10) by (auto simp: settled_def fs_ok_def clean_def cache_ok_def)
  have "needed_clusters d0 \<le> needed_clusters (d0 @ d)" by (simp add: needed_clusters_def div_le_mono)
  then have "free_space s + needed_clusters d0 \<le> free_space s4 + needed_clusters (d0 @ d)"
    using w(14) e(7) nd fc by (simp add: free_space_def w(3) max_def split: if_splits)
  then show thesis using that [OF o seek w(1,2) e(1,2) rep4 wr w(9) set4 w(8) closed(3) _ w(10)] closed(4) by blast
qed

lemma append_contents:
  assumes c: "contents lib s F D" and rep: "represents s F opn" and e: "F p = Some e" "IsFile e"
    and rep': "represents s' (resize p (length d) F) opn'" and k: "kept_data lib {e_sub e} s s'"
    and d: "holds lib s' (e_sub e) d"
  shows "contents lib s' (resize p (length d) F) (D(p \<mapsto> d))"
proof -
  have "length d < 2 ^ 30" using d by (simp add: holds_def)
  then have "unat (of_nat (length d) :: u32) = length d" by (simp add: unat_of_nat)
  then have p: "stores lib s' (resize p (length d) F) p d"
    using e d by (simp add: stores_def resize_def IsFile_def)
  have "contents lib s' (resize p (length d) F) (D(p := None))"
  proof (rule contents_kept [OF c rep' k])
    fix q x assume q: "(D(p := None)) q = Some x"
    then have ne: "q \<noteq> p" "D q = Some x" by (simp_all split: if_split_asm)
    have "e_sub y \<noteq> e_sub e" if "F q = Some y" for y using represents_inj [OF rep e(1) that] ne(1) by blast
    then have "\<forall>y. F q = Some y \<longrightarrow> IsFile y \<longrightarrow> e_sub y \<notin> {e_sub e} \<and>
        (\<exists>e'. resize p (length d) F q = Some e' \<and> IsFile e' \<and> e_sub e' = e_sub y \<and> e_size e' = e_size y)"
      using ne by (simp add: resize_def)
    then show "x = [] \<and> (\<exists>e'. resize p (length d) F q = Some e' \<and> IsFile e' \<and> e_size e' = 0) \<or>
      (\<exists>q'. D q' = Some x \<and> (\<forall>y. F q' = Some y \<longrightarrow> IsFile y \<longrightarrow> e_sub y \<notin> {e_sub e} \<and>
        (\<exists>e'. resize p (length d) F q = Some e' \<and> IsFile e' \<and> e_sub e' = e_sub y \<and> e_size e' = e_size y)))"
      using ne(2) by blast
  qed
  then show ?thesis using p by (auto simp: contents_def split: if_split_asm)
qed

section \<open>Reading\<close>

text \<open>Using one handle puts no other handle in the cache.\<close>

definition cached_by :: "HandleRef \<Rightarrow> FileSystemImpl \<Rightarrow> bool" where
  "cached_by h s \<longleftrightarrow> m_cache_handle s = None \<or> m_cache_handle s = Some h"

lemma cache_relation_cached_by:
  "cache_relation lib (\<lambda>s s'. cached_by h s \<longrightarrow> cached_by h s') (\<lambda>_ h'. h' = h)"
proof unfold_locales
  fix s :: FileSystemImpl
  have "m_cache_handle (snd (FlushFileCache lib s)) = m_cache_handle s"
    by (simp add: FlushFileCache_def split: option.split prod.split) (metis WriteFileData_handles(3) snd_conv)
  then show "cached_by h s \<longrightarrow> cached_by h (snd (FlushFileCache lib s))" by (simp add: cached_by_def)
qed (auto simp: cached_by_def)

lemma Close_clean:
  assumes "clean s" "GetHandleFromFd fd s = Some h" "\<not> h_superblock_flush_needed (handle_at s h)" "cached_by h s"
  obtains s' where "Close lib fd s = Some (Success, s')" "m_handles s' = m_handles (upd_handle h (\<lambda>_. new_Handle) s)"
    "same_disk s s'" "m_cache_handle s' = None"
proof (cases "m_cache_handle s")
  case None
  then show thesis using assms that [of "upd_handle h (\<lambda>_. new_Handle) s"] by (simp add: Close_def close_handle_def same_disk_def)
next
  case (Some h')
  let ?s = "s\<lparr>m_cache_handle := None, m_cache_data := []\<rparr>"
  have "handle_at ?s h = handle_at s h" by (simp add: handle_at_def split: HandleRef.split)
  then have "Close lib fd s = Some (Success, upd_handle h (\<lambda>_. new_Handle) ?s)"
    using assms Some FlushFileCache_clean [OF assms(1), of lib] by (simp add: Close_def close_handle_def cached_by_def)
  then show thesis by (rule that) (simp_all add: same_disk_def upd_handle_def split: HandleRef.split)
qed

text \<open>A further relation kept by the file cache: the cache belongs to an open handle.\<close>

definition cache_open :: "FileSystemImpl \<Rightarrow> bool" where
  "cache_open s \<longleftrightarrow> (\<forall>i<length (hview s). m_cache_handle s = Some (Slot i) \<longrightarrow> fst (hview s ! i))"

definition open_rel :: "FileSystemImpl \<Rightarrow> FileSystemImpl \<Rightarrow> bool" where
  "open_rel s s' \<longleftrightarrow> hview s' = hview s \<and> (cache_open s \<longrightarrow> cache_open s')"

lemma cache_open_settled:
  "length (m_handles s) = NUM_HANDLES \<Longrightarrow>
   cache_open s \<longleftrightarrow> (\<forall>i<NUM_HANDLES. m_cache_handle s = Some (Slot i) \<longrightarrow> h_opened (m_handles s ! i))"
  by (auto simp: cache_open_def hview_def)

interpretation opened: cache_relation lib open_rel "\<lambda>s h. \<forall>i<length (hview s). h = Slot i \<longrightarrow> fst (hview s ! i)"
  for lib :: "('k, 'c) mbedtls"
proof unfold_locales
  fix s s' s'' :: FileSystemImpl and h c i w d and f :: "Handle \<Rightarrow> Handle"
  show "open_rel s s" by (simp add: open_rel_def)
  show "open_rel s s''" if "open_rel s s'" "open_rel s' s''" using that by (simp add: open_rel_def)
  show "\<forall>i<length (hview s'). h = Slot i \<longrightarrow> fst (hview s' ! i)"
    if "open_rel s s'" "\<forall>i<length (hview s). h = Slot i \<longrightarrow> fst (hview s ! i)" using that by (simp add: open_rel_def)
  show "open_rel s (upd_handle h f s)" if "\<And>x. h_opened (f x) = h_opened x \<and> h_fst_index (f x) = h_fst_index x"
    using hview_upd_handle [OF that, of h s] by (simp add: open_rel_def cache_open_def)
  show "open_rel s (s\<lparr>m_cache_handle := c, m_cache_chain_index := i, m_cache_for_write := w, m_cache_data := d\<rparr>)"
    if "c = m_cache_handle s \<or> (\<exists>h. c = Some h \<and> (\<forall>i<length (hview s). h = Slot i \<longrightarrow> fst (hview s ! i)))"
      "mbedtls_ok lib \<longrightarrow> length d = length (m_cache_data s) \<or> c \<noteq> None \<and> length d = CLUSTER_DATA_SIZE"
    using that(1) by (auto simp: open_rel_def cache_open_def hview_def)
  have "m_cache_handle (snd (FlushFileCache lib s)) = m_cache_handle s"
    by (simp add: FlushFileCache_def split: option.split prod.split) (metis WriteFileData_handles(3) snd_conv)
  then show "open_rel s (snd (FlushFileCache lib s))"
    using FlushFileCache_data [of s lib] by (simp add: data_rel_def open_rel_def cache_open_def)
  show "open_rel s (snd (GetSuperblock lib s))" by (simp add: open_rel_def cache_open_def hview_def)
qed

lemma represents_same:
  assumes "represents s F opn" "m_superblock s' = m_superblock s" "hview s' = hview s"
  shows "represents s' F opn"
proof -
  have "IsFileOpened s' k = IsFileOpened s k" for k by (simp add: IsFileOpened_hview assms(3))
  then show ?thesis using assms(1,2) by (simp add: represents_def live_def open_paths_def)
qed

lemma contents_same_disk: "contents lib s F D \<Longrightarrow> same_disk s s' \<Longrightarrow> contents lib s' F D"
  using holds_same_disk [of s s' lib] unfolding contents_def stores_def by blast

text \<open>Opening a file and seeking to a position in it prepares its handle for reading.\<close>

lemma open_at:
  assumes set: "settled lib s" and rep: "represents s F opn" and st: "stores lib s F p d"
    and path: "IsValidNonRootPath path" "components path = p" "through_dirs F p"
    and open_ok: "abs_open uid gid mode p F = Success" and handle: "\<exists>h\<in>set (m_handles s). \<not> h_opened h"
    and pos: "unat pos \<le> length d"
  obtains fd s1 s2 sb e i hd where "OpenFile lib uid gid path mode s = Some (Inr fd, s1)" "SeekFile fd pos SeekMode_Set s1 = (Inr pos, s2)"
    "represents s1 F (insert p opn)" "m_superblock s = Some sb" "F p = Some e" "in_fst (e_sub e)" "IsFile (fst_at sb (e_sub e))"
    "i < NUM_HANDLES" "\<not> h_opened (m_handles s ! i)" "length (m_handles s) = NUM_HANDLES" "hview s1 = hview s2"
    "hd = (opened_handle uid gid mode (e_sub e) (e_size (fst_at sb (e_sub e))))\<lparr>h_file_offset := pos\<rparr>"
    "s2 = upd_handle (Slot i) (\<lambda>_. hd) s" "handle_at s2 (Slot i) = hd"
    "GetHandleFromFd fd s2 = Some (Slot i)" "same_disk s s1" "same_disk s s2" "m_cache_handle s \<noteq> Some (Slot i)"
    "reading lib (Slot i) (e_sub e) d s2"
proof -
  obtain sb where sb: "m_superblock s = Some sb" using rep by (auto simp: represents_def)
  have fs: "fs_ok s" "clean s" "versions_upto lib s" using set by (simp_all add: settled_def)
  then have len: "length (m_handles s) = NUM_HANDLES" by (simp add: fs_ok_def)
  obtain e cs where e: "F p = Some e" "stored_file lib sb (e_sub e) cs d s" "in_fst (e_sub e)" "IsFile (fst_at sb (e_sub e))"
      "e_size (fst_at sb (e_sub e)) = e_size e" and look: "GetFstIndex sb path = Some (Inr (e_sub e))"
    by (rule settled_file [OF set sb rep st]) (use path(2) in blast)
  obtain fd s1 where o: "OpenFile lib uid gid path mode s = Some (Inr fd, s1)" and rep1: "represents s1 F (insert p opn)"
    using OpenFile_refines [OF rep len path(1), of uid gid mode lib] path(2,3) open_ok handle by (auto split: if_split_asm)
  obtain i where i: "i < NUM_HANDLES" "\<not> h_opened (m_handles s ! i)" "fd = ConvertHandleToFd i"
      "s1 = upd_handle (Slot i) (\<lambda>_. opened_handle uid gid mode (e_sub e) (e_size (fst_at sb (e_sub e)))) s"
    by (rule open_slot [OF sb len look o])
  define hd where "hd = (opened_handle uid gid mode (e_sub e) (e_size (fst_at sb (e_sub e))))\<lparr>h_file_offset := pos\<rparr>"
  define s2 where "s2 = upd_handle (Slot i) (\<lambda>_. hd) s"
  have z: "unat (e_size (fst_at sb (e_sub e))) = length d" and hold: "holds lib s (e_sub e) d" using e(2) by (simp_all add: stored_file_def)
  then have "pos \<le> e_size (fst_at sb (e_sub e))" using pos by (simp add: word_le_nat_alt)
  then have seek: "SeekFile fd pos SeekMode_Set s1 = (Inr pos, s2)"
    using seek_opened(2) [OF len i(1) e(3) i(4)] by (simp add: i(3) s2_def hd_def)
  have v: "valid_ref (Slot i)" using i(1) by (simp add: valid_ref_def)
  have at: "handle_at s2 (Slot i) = hd" unfolding s2_def by (simp add: handle_at_upd_handle len v)
  have fd2: "GetHandleFromFd fd s2 = Some (Slot i)"
    unfolding s2_def i(3) by (rule GetHandleFromFd_opened) (use i len in \<open>simp_all add: hd_def\<close>)
  have d: "same_disk s s1" "same_disk s s2" by (simp_all add: same_disk_def s2_def i(4))
  have nc: "m_cache_handle s \<noteq> Some (Slot i)" using set i(1,2) by (auto simp: settled_def)
  have r: "reading lib (Slot i) (e_sub e) d s2"
    using v len fs(2) nc at z holds_same_disk [OF d(2) hold] by (simp add: reading_def clean_def hd_def) (simp add: s2_def)
  have "hview s1 = hview s2" by (simp add: s2_def i(4) hview_def hd_def upd_handle_def map_update)
  from that [OF o seek rep1 sb e(1,3,4) i(1,2) len this hd_def s2_def at fd2 d nc r] show thesis .
qed

lemma read_session:
  assumes set: "settled lib s" and rep: "represents s F opn" and st: "stores lib s F p d"
    and path: "IsValidNonRootPath path" "components path = p" "through_dirs F p"
    and open_ok: "abs_open uid gid mode p F = Success" and mode: "FileMode_and mode FileMode_Read \<noteq> 0"
    and handle: "\<exists>h\<in>set (m_handles s). \<not> h_opened h"
    and pos: "unat pos \<le> length d" "unat pos + unat count < 2 ^ 32"
    and n: "n = min (unat count) (length d - unat pos)" "n \<le> length ptr"
  obtains fd s1 s2 s3 where "OpenFile lib uid gid path mode s = Some (Inr fd, s1)" "SeekFile fd pos SeekMode_Set s1 = (Inr pos, s2)"
    "ReadFile lib fd ptr count s2 = Some ((Inr (of_nat n), copy_into ptr 0 (slice (unat pos) n d)), s3)"
    "represents s3 F (insert p opn)" "same_disk s s3" "settled lib s3"
    "m_cache_handle s = None \<Longrightarrow> \<exists>s4. Close lib fd s3 = Some (Success, s4) \<and> represents s4 F opn \<and> same_disk s s4 \<and>
       settled lib s4 \<and> m_cache_handle s4 = None \<and> ((\<forall>h\<in>set (m_handles s). \<not> h_opened h) \<longrightarrow> (\<forall>h\<in>set (m_handles s4). \<not> h_opened h))"
proof -
  have fs: "fs_ok s" "clean s" "versions_upto lib s" using set by (simp_all add: settled_def)
  obtain fd s1 s2 i hd and sb :: Superblock and e :: FstEntry where o: "OpenFile lib uid gid path mode s = Some (Inr fd, s1)" and seek: "SeekFile fd pos SeekMode_Set s1 = (Inr pos, s2)"
    and rep1: "represents s1 F (insert p opn)" and e: "in_fst (e_sub e)" and i: "i < NUM_HANDLES" "\<not> h_opened (m_handles s ! i)"
    and len: "length (m_handles s) = NUM_HANDLES" and h2: "hview s1 = hview s2"
    and hd_def: "hd = (opened_handle uid gid mode (e_sub e) (e_size (fst_at sb (e_sub e))))\<lparr>h_file_offset := pos\<rparr>"
    and s2_def: "s2 = upd_handle (Slot i) (\<lambda>_. hd) s" and at: "handle_at s2 (Slot i) = hd"
    and fd2: "GetHandleFromFd fd s2 = Some (Slot i)" and d2: "same_disk s s1" "same_disk s s2" and nc: "m_cache_handle s \<noteq> Some (Slot i)"
    and r2: "reading lib (Slot i) (e_sub e) d s2"
    by (rule open_at [OF set rep st path open_ok handle pos(1)]) (rule that, assumption+)
  have "\<exists>s3. ReadFile lib fd ptr count s2 = Some ((Inr (of_nat n), copy_into ptr 0 (slice (unat pos) n d)), s3) \<and>
      reading lib (Slot i) (e_sub e) d s3 \<and> same_disk s2 s3 \<and> unat (h_file_offset (handle_at s3 (Slot i))) = unat pos + n"
    by (rule ReadFile_reads [OF r2 fd2 e _ _ pos(1) _ n]) (use mode pos(2) in \<open>simp_all add: at hd_def add.commute\<close>)
  then obtain s3 where rd: "ReadFile lib fd ptr count s2 = Some ((Inr (of_nat n), copy_into ptr 0 (slice (unat pos) n d)), s3)"
    and s3: "reading lib (Slot i) (e_sub e) d s3" "same_disk s2 s3"
    by blast
  have d3: "same_disk s s3" using d2(2) s3(2) by (simp add: same_disk_def)
  have h3: "hview s3 = hview s2" using ReadFile_data [OF rd] by (simp add: data_rel_def)
  have rep3: "represents s3 F (insert p opn)"
    by (rule represents_same [OF rep1]) (use d2(1) d3 h2 h3 in \<open>simp_all add: same_disk_def\<close>)
  have len2: "length (m_handles s2) = NUM_HANDLES" using len by (simp add: s2_def upd_handle_def)
  have len3: "length (m_handles s3) = NUM_HANDLES" using s3(1) by (simp add: reading_def)
  have may: "\<forall>j<length (hview s2). Slot i = Slot j \<longrightarrow> fst (hview s2 ! j)"
    using len2 i(1) len by (simp add: hview_def) (simp add: s2_def upd_handle_def hd_def)
  have "open_rel s2 s3" by (rule opened.read_file [OF rd]) (use may fd2 in auto)
  moreover have "cache_open s2"
    unfolding cache_open_settled [OF len2] using set nc i(1) len
    by (auto simp: settled_def s2_def upd_handle_def nth_list_update)
  ultimately have "cache_open s3" by (simp add: open_rel_def)
  moreover have "cache_ok s2" using fs(1) unfolding fs_ok_def cache_ok_def by (simp add: s2_def)
  then have "cache_ok s3" using ReadFile_data [OF rd] unfolding data_rel_def by blast
  moreover have "versions_upto lib s3" using fs(3) d3 by (simp add: versions_upto_def same_disk_def)
  moreover have "apart s3" using fs(1) d3 by (simp add: fs_ok_def apart_def same_disk_def)
  moreover have "clean s3" using s3(1) by (simp add: reading_def)
  ultimately have "settled lib s3"
    unfolding settled_def fs_ok_def cache_open_settled [OF len3] using rep3 len3 by blast
  note set3 = this
  have close: "\<exists>s4. Close lib fd s3 = Some (Success, s4) \<and> represents s4 F opn \<and> same_disk s s4 \<and> settled lib s4 \<and>
      m_cache_handle s4 = None \<and> ((\<forall>h\<in>set (m_handles s). \<not> h_opened h) \<longrightarrow> (\<forall>h\<in>set (m_handles s4). \<not> h_opened h))"
    if none: "m_cache_handle s = None"
  proof -
    have "cached_by (Slot i) s2 \<longrightarrow> cached_by (Slot i) s3"
      by (rule cache_relation.read_file [OF cache_relation_cached_by rd]) (use fd2 in simp)
    then have c: "cached_by (Slot i) s3" using none by (simp add: cached_by_def s2_def)
    have fd3: "GetHandleFromFd fd s3 = Some (Slot i)"
    proof (rule GetHandleFromFd_still [OF _ fd2])
      have "hview s3 ! i = hview s2 ! i" using h3 by simp
      moreover have "h_opened (m_handles s2 ! i)" using len i(1) by (simp add: s2_def upd_handle_def hd_def)
      ultimately show "h_opened (handle_at s3 (Slot i))" using len2 len3 i(1) by (simp add: hview_def handle_at_def)
    qed
    obtain s4 where s4: "Close lib fd s3 = Some (Success, s4)" "m_handles s4 = m_handles (upd_handle (Slot i) (\<lambda>_. new_Handle) s3)"
        "same_disk s3 s4" "m_cache_handle s4 = None"
      by (rule Close_clean [OF _ fd3 _ c]) (use s3(1) in \<open>simp_all add: reading_def\<close>)
    have "hview s3 = hview (upd_handle (Slot i) (\<lambda>_. hd) s)" using h3 by (simp add: s2_def)
    note closed = closed_again [OF len i(1,2) this s4(2)]
    have d4: "same_disk s s4" using d3 s4(3) by (simp add: same_disk_def)
    have rep4: "represents s4 F opn"
      using rep closed(1) d4 by (simp add: represents_def live_def open_paths_def same_disk_def)
    have "settled lib s4"
      using set rep4 d4 s4(4) closed(2) unfolding settled_def fs_ok_def
      by (auto simp: versions_upto_def same_disk_def apart_def clean_def cache_ok_def)
    then show ?thesis using s4 rep4 d4 closed(4) by blast
  qed
  show thesis by (rule that [OF o seek rd rep3 d3 set3 close])
qed

section \<open>Operations on directories\<close>

lemma outcome_durable:
  assumes set: "settled lib s" and c: "contents lib s F D" and out: "outcome lib s opn X Success F' s'"
    and same: "\<And>p d. D' p = Some d \<Longrightarrow> d = [] \<and> (\<exists>e'. F' p = Some e' \<and> IsFile e' \<and> e_size e' = 0) \<or>
      (\<exists>q. D q = Some d \<and> (\<forall>e. F q = Some e \<longrightarrow> IsFile e \<longrightarrow>
        e_sub e \<notin> X \<and> (\<exists>e'. F' p = Some e' \<and> IsFile e' \<and> e_sub e' = e_sub e \<and> e_size e' = e_size e)))"
  shows "durable lib s' opn F' D' \<and> (m_cache_handle s = None \<longrightarrow> settled lib s')"
proof -
  let ?t = "Create lib (m_nand s') (m_keys s')"
  have s: "apart s" "versions_upto lib s" "length (m_handles s) = NUM_HANDLES" using set by (simp_all add: settled_def fs_ok_def)
  have o: "represents s' F' opn" "apart s'" "kept_data lib X s s'" "versions_upto lib s'" "represents ?t F' {}" "kept_data lib X s ?t"
    "m_handles s' = m_handles s" "m_cache_handle s' = m_cache_handle s" "apart ?t"
    using out s unfolding outcome_def Let_def by blast+
  have "settled lib ?t" using o(5,9) Create_loaded(1) [of lib "m_nand s'" "m_keys s'"] by (auto simp: settled_def fs_ok_def cache_ok_def clean_def)
  moreover have "contents lib s' F' D'" "contents lib ?t F' D'"
    by (rule contents_kept [OF c o(1,3) same], assumption) (rule contents_kept [OF c o(5,6) same])
  moreover have "settled lib s'" if "m_cache_handle s = None"
    using o s that by (auto simp: settled_def fs_ok_def cache_ok_def clean_def)
  ultimately show ?thesis using o(1,5) by (simp add: durable_def Let_def)
qed

lemma create_contents:
  assumes ok: "mbedtls_ok lib" and set: "settled lib s" and rep: "represents s F opn" and c: "contents lib s F D"
    and path: "IsValidNonRootPath path" "\<not> list_ex bad_char path" "through_dirs F (components path)" "name_fits path"
    and r: "CreateFile lib fd path attr om gm tm s = Some (Success, s')"
  shows "\<exists>e. IsFile e \<and> e_size e = 0 \<and> durable lib s' opn (F(components path \<mapsto> e)) (D(components path \<mapsto> [])) \<and>
    (m_cache_handle s = None \<longrightarrow> settled lib s')"
proof -
  let ?p = "components path"
  obtain h where h: "GetHandleFromFd fd s = Some h" using r by (auto simp: CreateFile_def split: option.splits)
  define e where "e = (new_entry (handle_at s h) attr om gm tm True)\<lparr>e_sub := free_index s\<rparr>"
  define out where "out = if_room s F (abs_create (handle_at s h) ?p e F)"
  have run: "\<exists>s'. CreateFileOrDirectory lib h path attr om gm tm True s = Some (fst out, s') \<and> outcome lib s opn {} (fst out) (snd out) s'"
    unfolding out_def e_def by (rule CreateFileOrDirectory_refines [OF ok rep path(1,2) _ path(3)]) (use path(4) in \<open>simp_all add: name_fits_def\<close>)
  then have "fst out = Success" "outcome lib s opn {} Success (snd out) s'" using r h by (auto simp: CreateFile_def)
  then have new: "F ?p = None" and o: "outcome lib s opn {} Success (F(?p \<mapsto> e)) s'"
    by (auto simp: out_def if_room_def abs_create_def split: option.splits if_splits)
  have "e_mode (new_entry (handle_at s h) attr om gm tm True) AND 3 = 1" by (simp add: new_entry_def)
  then have e: "IsFile e" "e_size e = 0" by (simp_all add: e_def IsFile_def) (simp add: new_entry_def SetAccessMode_def)
  have "durable lib s' opn (F(?p \<mapsto> e)) (D(?p \<mapsto> [])) \<and> (m_cache_handle s = None \<longrightarrow> settled lib s')"
  proof (rule outcome_durable [OF set c o])
    fix q d assume q: "(D(?p \<mapsto> [])) q = Some d"
    show "d = [] \<and> (\<exists>e'. (F(?p \<mapsto> e)) q = Some e' \<and> IsFile e' \<and> e_size e' = 0) \<or>
      (\<exists>q'. D q' = Some d \<and> (\<forall>y. F q' = Some y \<longrightarrow> IsFile y \<longrightarrow>
        e_sub y \<notin> {} \<and> (\<exists>e'. (F(?p \<mapsto> e)) q = Some e' \<and> IsFile e' \<and> e_sub e' = e_sub y \<and> e_size e' = e_size y)))"
    proof (cases "q = ?p")
      case False
      then have "D q = Some d" "(F(?p \<mapsto> e)) q = F q" using q by simp_all
      then show ?thesis by (intro disjI2 exI [of _ q]) simp
    next
      case True
      then have "d = []" using q by simp
      then show ?thesis using e True by (intro disjI1) simp
    qed
  qed
  then show ?thesis using e by (intro exI [of _ e] conjI) simp_all
qed

lemma delete_contents:
  assumes ok: "mbedtls_ok lib" and set: "settled lib s" and rep: "represents s F opn" and c: "contents lib s F D"
    and path: "IsValidNonRootPath path" "through_dirs F (components path)"
    and r: "Delete lib fd path s = Some (Success, s')"
  shows "durable lib s' opn (prune (components path) F) (prune (components path) D) \<and> (m_cache_handle s = None \<longrightarrow> settled lib s')"
proof -
  let ?p = "components path"
  obtain h where h: "GetHandleFromFd fd s = Some h" using r by (auto simp: Delete_def split: option.splits)
  define out where "out = abs_delete (handle_at s h) opn ?p F"
  have "fst out = Success" "outcome lib s opn {} Success (snd out) s'"
    using Delete_refines [OF ok rep h path] r by (auto simp: out_def)
  then have o: "outcome lib s opn {} Success (prune ?p F) s'"
    by (auto simp: out_def abs_delete_def split: option.splits if_splits)
  show ?thesis
  proof (rule outcome_durable [OF set c o])
    fix q d assume "prune ?p D q = Some d"
    then show "d = [] \<and> (\<exists>e'. prune ?p F q = Some e' \<and> IsFile e' \<and> e_size e' = 0) \<or>
      (\<exists>q'. D q' = Some d \<and> (\<forall>y. F q' = Some y \<longrightarrow> IsFile y \<longrightarrow>
        e_sub y \<notin> {} \<and> (\<exists>e'. prune ?p F q = Some e' \<and> IsFile e' \<and> e_sub e' = e_sub y \<and> e_size e' = e_size y)))"
      by (intro disjI2 exI [of _ q]) (simp add: prune_def split: if_split_asm)
  qed
qed

lemma move_contents:
  assumes ok: "mbedtls_ok lib" and set: "settled lib s" and rep: "represents s F opn" and c: "contents lib s F D"
    and path: "IsValidNonRootPath path" "through_dirs F (components path)"
    and new: "IsValidNonRootPath new_path" "through_dirs F (components new_path)" "name_fits new_path"
    and apart: "\<not> below (components path) (components new_path)" "\<not> below (components new_path) (components path)"
    and dir: "F (components path) = Some e" "\<not> IsFile e"
    and r: "Rename lib fd path new_path s = Some (Success, s')"
  shows "durable lib s' opn (moved (components path) (components new_path) F) (moved (components path) (components new_path) D) \<and>
    (m_cache_handle s = None \<longrightarrow> settled lib s')"
proof -
  let ?p = "components path" and ?n = "components new_path"
  obtain h where h: "GetHandleFromFd fd s = Some h" using r by (auto simp: Rename_def split: option.splits)
  define out where "out = abs_rename (handle_at s h) opn ?p ?n F"
  have "fst out = Success" "outcome lib s opn (index_of F ?p) Success (snd out) s'"
    using Rename_refines [OF ok rep h path(1) new(1) path(2) new(2) new(3) [unfolded name_fits_def]] apart r by (auto simp: out_def)
  then have o: "outcome lib s opn {e_sub e} Success (moved ?p ?n F) s'"
    using dir by (auto simp: out_def abs_rename_def rename_at_def index_of_def split: option.splits if_splits)
  have ne: "e_sub y \<notin> {e_sub e}" if "F q = Some y" "IsFile y" for q y
    using represents_inj [OF rep dir(1) that(1)] dir that by auto
  show ?thesis
  proof (rule outcome_durable [OF set c o])
    fix q d assume d: "moved ?p ?n D q = Some d"
    define q' where "q' = (if below ?n q then ?p @ drop (length ?n) q else q)"
    have "D q' = Some d" "moved ?p ?n F q = F q'" using d by (auto simp: moved_def q'_def split: if_split_asm)
    then show "d = [] \<and> (\<exists>e'. moved ?p ?n F q = Some e' \<and> IsFile e' \<and> e_size e' = 0) \<or>
      (\<exists>q'. D q' = Some d \<and> (\<forall>y. F q' = Some y \<longrightarrow> IsFile y \<longrightarrow>
        e_sub y \<notin> {e_sub e} \<and> (\<exists>e'. moved ?p ?n F q = Some e' \<and> IsFile e' \<and> e_sub e' = e_sub y \<and> e_size e' = e_size y)))"
      using ne by (intro disjI2 exI [of _ q']) simp
  qed
qed

lemma append_durable:
  assumes "mbedtls_ok lib" and "settled lib s" and "represents s F opn" and "contents lib s F D"
    and "IsValidNonRootPath path" and "through_dirs F (components path)"
    and "abs_open uid gid FileMode_ReadWrite (components path) F = Success" and "\<exists>h\<in>set (m_handles s). \<not> h_opened h"
    and "D (components path) = Some d0" and "d \<noteq> []"
    and "0 < free_space s" and "needed_clusters (d0 @ d) \<le> free_space s + needed_clusters d0"
  shows "let p = components path; F' = resize p (length (d0 @ d)) F; D' = D(p \<mapsto> d0 @ d) in
    \<exists>fd s1 s2 s3 s4. OpenFile lib uid gid path FileMode_ReadWrite s = Some (Inr fd, s1) \<and>
      SeekFile fd 0 SeekMode_End s1 = (Inr (of_nat (length d0)), s2) \<and>
      WriteFile lib fd d (of_nat (length d)) s2 = Some (Inr (of_nat (length d)), s3) \<and> Close lib fd s3 = Some (Success, s4) \<and>
      settled lib s4 \<and> durable lib s4 opn F' D' \<and> (\<exists>h\<in>set (m_handles s4). \<not> h_opened h) \<and>
      free_space s + needed_clusters d0 \<le> free_space s4 + needed_clusters (d0 @ d) \<and>
      m_cache_handle s4 = None \<and> ((\<forall>h\<in>set (m_handles s). \<not> h_opened h) \<longrightarrow> (\<forall>h\<in>set (m_handles s4). \<not> h_opened h))"
proof -
  let ?p = "components path"
  have st: "stores lib s F ?p d0" using assms(4,9) by (simp add: contents_def)
  obtain fd s1 s2 s3 s4 e where r: "OpenFile lib uid gid path FileMode_ReadWrite s = Some (Inr fd, s1)"
    "SeekFile fd 0 SeekMode_End s1 = (Inr (of_nat (length d0)), s2)"
    "WriteFile lib fd d (of_nat (length d)) s2 = Some (Inr (of_nat (length d)), s3)" "Close lib fd s3 = Some (Success, s4)"
    and s4: "F ?p = Some e" "IsFile e" "represents s4 (resize ?p (length (d0 @ d)) F) opn" "written lib {e_sub e} s s4" "newest lib s4"
      "settled lib s4" "holds lib s4 (e_sub e) (d0 @ d)" "\<exists>h\<in>set (m_handles s4). \<not> h_opened h"
      "free_space s + needed_clusters d0 \<le> free_space s4 + needed_clusters (d0 @ d)" "m_cache_handle s4 = None"
      "(\<forall>h\<in>set (m_handles s). \<not> h_opened h) \<longrightarrow> (\<forall>h\<in>set (m_handles s4). \<not> h_opened h)"
    by (rule append_session [OF assms(1-3) st assms(5) refl assms(6-8,10-12)])
  obtain sb F2 opn2 where sb: "m_superblock s = Some sb" "sb_wf sb" "files_ok sb"
    using assms(2) fs_okE [of s] by (metis settled_def)
  then have "kept_data lib {e_sub e} s s4" using s4(4) by (simp add: written_def)
  note c = append_contents [OF assms(4,3) s4(1-3) this s4(7)]
  have ap: "apart s4" using s4(6) by (simp add: settled_def fs_ok_def)
  show ?thesis unfolding Let_def by (intro exI conjI) (rule r s4 newest_durable [OF s4(5,3) ap c])+
qed

section \<open>The demonstration image\<close>

lemma demo_settled: "settled lib demo_fs"
  using demo_fs_ok demo_fs_upto [of lib] by (simp add: settled_def clean_def)

abbreviation demo_contents :: "path \<Rightarrow> u8 list option" where
  "demo_contents \<equiv> [[''a''] \<mapsto> []]"

lemma demo_stores: "contents lib demo_fs demo_map demo_contents"
  by (simp add: contents_def stores_def holds_def demo_map_at IsFile_def)

lemma demo_free_space: "3 \<le> free_space demo_fs"
proof -
  have "in_fat c \<and> fat_at demo_sb c = CLUSTER_UNUSED" if "c \<in> {65, 66, 67}" for c
    using that by (auto simp: demo_fat in_fat_def FAT_SIZE_def layout_consts)
  then have "{65, 66, 67} \<subseteq> {c. in_fat c \<and> fat_at demo_sb c = CLUSTER_UNUSED}" by blast
  then have "card {65, 66, 67 :: u16} \<le> free_count demo_sb" unfolding free_count_def by (rule card_mono [OF finite])
  moreover have "card {65, 66, 67 :: u16} = 3" by simp
  ultimately show ?thesis by (simp only: free_space_def demo_fs_fields option.case)
qed

lemma demo_needed: "needed_clusters [] = 0" "needed_clusters [1, 2, 3] = 1" "needed_clusters [1, 2, 3, 4] = 1"
  by (simp_all add: needed_clusters_def layout_consts)

abbreviation demo_written :: "path_map" where
  "demo_written \<equiv> resize [''a''] 3 demo_map"

lemma demo_written: "through_dirs demo_written [''a'']" "abs_open 0 0 mode [''a''] demo_written = Success"
  using demo_user(4) by (simp_all add: through_dirs_def abs_open_def resize_def demo_map_at IsFile_def IsDirectory_def)

lemma demo_open_a: "abs_open 0 0 mode [''a''] demo_map = Success" "\<exists>h\<in>set (m_handles demo_fs). \<not> h_opened h"
  using demo_user(4) by (simp_all add: abs_open_def demo_map_at IsFile_def new_Handle_def NUM_HANDLES_def)

text \<open>After a first session the file \<open>/a\<close> has three bytes.\<close>

lemma demo_appended:
  obtains fd s1 s2 s3 s4 where "OpenFile demo_mbedtls 0 0 ''/a'' FileMode_ReadWrite demo_fs = Some (Inr fd, s1)"
    "SeekFile fd 0 SeekMode_End s1 = (Inr 0, s2)" "WriteFile demo_mbedtls fd [1, 2, 3] 3 s2 = Some (Inr 3, s3)"
    "Close demo_mbedtls fd s3 = Some (Success, s4)" "settled demo_mbedtls s4" "durable demo_mbedtls s4 {} demo_written [[''a''] \<mapsto> [1, 2, 3]]"
    "\<exists>h\<in>set (m_handles s4). \<not> h_opened h" "2 \<le> free_space s4"
proof -
  have l: "length [1, 2, 3 :: u8] = 3" "(of_nat (length ([] :: u8 list)) :: u32) = 0" by simp_all
  note r = append_durable [OF demo_mbedtls_ok demo_settled demo_represents demo_stores demo_paths(1), unfolded demo_components,
      OF demo_through(1) demo_open_a, of "[]" "[1, 2, 3]", unfolded append_Nil l Let_def demo_needed of_nat_numeral fun_upd_upd]
  show thesis
    by (rule exE [OF r]; insert demo_free_space) ((elim exE conjE, rule that, assumption+, linarith) | linarith | simp)+
qed

section \<open>Properties\<close>

text \<open>
  C5 Appending. On a settled file system with map \<open>F\<close> and contents \<open>D\<close>, opening a file for
  reading and writing, seeking to its end, writing \<open>d\<close> and closing the file all succeed, if the
  path may be opened and a handle and enough clusters are free.
  Afterwards the file holds its old contents followed by \<open>d\<close> and has the new size, every other
  path and all other contents are as before, and a driver started on the image sees the
  same. The number of free clusters falls by no more than the file needs.
\<close>

theorem append_refines:
  assumes "mbedtls_ok lib" and "settled lib s" and "represents s F opn" and "contents lib s F D"
    and "IsValidNonRootPath path" and "through_dirs F (components path)"
    and "abs_open uid gid FileMode_ReadWrite (components path) F = Success" and "\<exists>h\<in>set (m_handles s). \<not> h_opened h"
    and "D (components path) = Some d0" and "d \<noteq> []"
    and "0 < free_space s" and "needed_clusters (d0 @ d) \<le> free_space s + needed_clusters d0"
  shows "let p = components path; F' = resize p (length (d0 @ d)) F; D' = D(p \<mapsto> d0 @ d) in
    \<exists>fd s1 s2 s3 s4. OpenFile lib uid gid path FileMode_ReadWrite s = Some (Inr fd, s1) \<and>
      SeekFile fd 0 SeekMode_End s1 = (Inr (of_nat (length d0)), s2) \<and>
      WriteFile lib fd d (of_nat (length d)) s2 = Some (Inr (of_nat (length d)), s3) \<and> Close lib fd s3 = Some (Success, s4) \<and>
      settled lib s4 \<and> durable lib s4 opn F' D' \<and> (\<exists>h\<in>set (m_handles s4). \<not> h_opened h) \<and>
      free_space s + needed_clusters d0 \<le> free_space s4 + needed_clusters (d0 @ d)"
  using append_durable [OF assms] unfolding Let_def by blast

text \<open>A second session appends to the file that the first one wrote.\<close>

lemma append_refines_witness:
  "\<exists>s0 s1 s2 s3 s4 fd. durable demo_mbedtls s0 {} demo_written [[''a''] \<mapsto> [1, 2, 3]] \<and>
    OpenFile demo_mbedtls 0 0 ''/a'' FileMode_ReadWrite s0 = Some (Inr fd, s1) \<and> SeekFile fd 0 SeekMode_End s1 = (Inr 3, s2) \<and>
    WriteFile demo_mbedtls fd [4] 1 s2 = Some (Inr 1, s3) \<and> Close demo_mbedtls fd s3 = Some (Success, s4) \<and>
    durable demo_mbedtls s4 {} (resize [''a''] 4 demo_written) [[''a''] \<mapsto> [1, 2, 3, 4]]"
proof -
  obtain s0 where s0: "settled demo_mbedtls s0" "durable demo_mbedtls s0 {} demo_written [[''a''] \<mapsto> [1, 2, 3]]"
    "\<exists>h\<in>set (m_handles s0). \<not> h_opened h" "2 \<le> free_space s0"
    by (rule demo_appended)
  then have r: "represents s0 demo_written {}" "contents demo_mbedtls s0 demo_written [[''a''] \<mapsto> [1, 2, 3]]"
    by (simp_all add: durable_def Let_def)
  have l: "length [1, 2, 3, 4 :: u8] = 4" "length [4 :: u8] = 1" "length [1, 2, 3 :: u8] = 3" "[1, 2, 3] @ [4] = [1, 2, 3, 4 :: u8]"
    by simp_all
  note a = append_refines [OF demo_mbedtls_ok s0(1) r demo_paths(1), unfolded demo_components, OF demo_written s0(3), of "[1, 2, 3]" "[4]",
      unfolded l Let_def demo_needed of_nat_1 of_nat_numeral fun_upd_upd]
  show ?thesis by (rule exE [OF a]) (use s0(2,4) in \<open>auto\<close>)
qed

text \<open>
  C6 Reading. On a settled file system, opening a file whose contents \<open>D\<close> gives as \<open>d\<close>,
  seeking to a position in it and reading copies exactly the bytes of \<open>d\<close> from there to the
  caller's buffer, as many as asked for but not beyond the end, and changes neither paths nor
  contents; the path is now among the open ones. The sum of position and count must not wrap.
\<close>

theorem read_refines:
  assumes "settled lib s" and "represents s F opn" and "contents lib s F D"
    and "IsValidNonRootPath path" and "through_dirs F (components path)"
    and "abs_open uid gid mode (components path) F = Success" and "FileMode_and mode FileMode_Read \<noteq> 0"
    and "\<exists>h\<in>set (m_handles s). \<not> h_opened h" and "D (components path) = Some d"
    and "unat pos \<le> length d" and "unat pos + unat count < 2 ^ 32" and "min (unat count) (length d - unat pos) \<le> length ptr"
  shows "let n = min (unat count) (length d - unat pos) in
    \<exists>fd s1 s2 s3. OpenFile lib uid gid path mode s = Some (Inr fd, s1) \<and> SeekFile fd pos SeekMode_Set s1 = (Inr pos, s2) \<and>
      ReadFile lib fd ptr count s2 = Some ((Inr (of_nat n), copy_into ptr 0 (slice (unat pos) n d)), s3) \<and>
      settled lib s3 \<and> represents s3 F (insert (components path) opn) \<and> contents lib s3 F D"
proof -
  have st: "stores lib s F (components path) d" using assms(3,9) by (simp add: contents_def)
  show ?thesis
    unfolding Let_def
    by (rule read_session [OF assms(1,2) st assms(4) refl assms(5-8,10,11) refl assms(12)])
      (use contents_same_disk [OF assms(3)] in blast)
qed

text \<open>The two bytes behind the first one, read by a driver started on the image.\<close>

lemma read_refines_witness:
  "\<exists>s fd s1 s2 s3. durable demo_mbedtls s {} demo_written [[''a''] \<mapsto> [1, 2, 3]] \<and>
    OpenFile demo_mbedtls 0 0 ''/a'' FileMode_Read (Create demo_mbedtls (m_nand s) (m_keys s)) = Some (Inr fd, s1) \<and>
    SeekFile fd 1 SeekMode_Set s1 = (Inr 1, s2) \<and> ReadFile demo_mbedtls fd [0, 0, 0] 9 s2 = Some ((Inr 2, [2, 3, 0]), s3)"
proof -
  obtain s where s: "durable demo_mbedtls s {} demo_written [[''a''] \<mapsto> [1, 2, 3]]" by (rule demo_appended)
  define t where "t = Create demo_mbedtls (m_nand s) (m_keys s)"
  have t: "settled demo_mbedtls t" "represents t demo_written {}" "contents demo_mbedtls t demo_written [[''a''] \<mapsto> [1, 2, 3]]"
    using s by (simp_all add: durable_def Let_def t_def)
  have "\<exists>h\<in>set (m_handles t). \<not> h_opened h" by (simp add: t_def new_Handle_def NUM_HANDLES_def)
  moreover have "FileMode_and FileMode_Read FileMode_Read \<noteq> 0" by (simp add: FileMode_and_def FileMode_Read_def)
  ultimately show ?thesis
    using read_refines [OF t demo_paths(1), unfolded demo_components, OF demo_written, of FileMode_Read "[1, 2, 3]" 1 9 "[0, 0, 0]"] s
    by (auto simp: Let_def t_def [symmetric] slice_def copy_into_def)
qed

text \<open>
  C7 Contents under the calls on directories, on a settled file system. A file that
  \<^verbatim>\<open>CreateFile\<close> makes is empty; \<^verbatim>\<open>Delete\<close> removes the contents at and below the path and no
  other; \<^verbatim>\<open>Rename\<close> of a directory moves the contents of the files below it. Everything is on the
  image when the call returns.
\<close>

theorem directory_calls_contents:
  assumes "mbedtls_ok lib" and "settled lib s" and "represents s F opn" and "contents lib s F D"
    and "IsValidNonRootPath path" and "through_dirs F (components path)"
  shows "(\<not> list_ex bad_char path \<and> name_fits path \<and> CreateFile lib fd path attr om gm tm s = Some (Success, s') \<longrightarrow>
      (\<exists>e. IsFile e \<and> e_size e = 0 \<and> durable lib s' opn (F(components path \<mapsto> e)) (D(components path \<mapsto> [])))) \<and>
    (Delete lib fd path s = Some (Success, s') \<longrightarrow> durable lib s' opn (prune (components path) F) (prune (components path) D)) \<and>
    (\<forall>new_path e. IsValidNonRootPath new_path \<and> through_dirs F (components new_path) \<and> name_fits new_path \<and>
      \<not> below (components path) (components new_path) \<and> \<not> below (components new_path) (components path) \<and>
      F (components path) = Some e \<and> \<not> IsFile e \<and> Rename lib fd path new_path s = Some (Success, s') \<longrightarrow>
      durable lib s' opn (moved (components path) (components new_path) F) (moved (components path) (components new_path) D))"
proof (intro conjI impI allI)
  assume a: "\<not> list_ex bad_char path \<and> name_fits path \<and> CreateFile lib fd path attr om gm tm s = Some (Success, s')"
  show "\<exists>e. IsFile e \<and> e_size e = 0 \<and> durable lib s' opn (F(components path \<mapsto> e)) (D(components path \<mapsto> []))"
    using create_contents [OF assms(1-5) _ assms(6)] a by blast
next
  assume "Delete lib fd path s = Some (Success, s')"
  then show "durable lib s' opn (prune (components path) F) (prune (components path) D)"
    using delete_contents [OF assms] by blast
next
  fix new_path e
  assume a: "IsValidNonRootPath new_path \<and> through_dirs F (components new_path) \<and> name_fits new_path \<and>
    \<not> below (components path) (components new_path) \<and> \<not> below (components new_path) (components path) \<and>
    F (components path) = Some e \<and> \<not> IsFile e \<and> Rename lib fd path new_path s = Some (Success, s')"
  show "durable lib s' opn (moved (components path) (components new_path) F) (moved (components path) (components new_path) D)"
    using move_contents [OF assms] a by blast
qed

lemma directory_calls_contents_witness:
  "\<exists>s' e. CreateFile demo_mbedtls INTERNAL_FD ''/d/x'' 0 3 3 3 demo_fs = Some (Success, s') \<and>
    durable demo_mbedtls s' {} (demo_map([''d'', ''x''] \<mapsto> e)) [[''a''] \<mapsto> [], [''d'', ''x''] \<mapsto> []]"
proof -
  obtain s' where s': "CreateFile demo_mbedtls INTERNAL_FD ''/d/x'' 0 3 3 3 demo_fs = Some (Success, s')" using demo_create by blast
  have "name_fits ''/d/x''" "\<not> list_ex bad_char ''/d/x''" using demo_new_paths(2) by (simp_all add: new_path_ok_def)
  then show ?thesis
    using directory_calls_contents [OF demo_mbedtls_ok demo_settled demo_represents demo_stores demo_new_paths(3), unfolded demo_components,
        OF demo_through(2)] s' by blast
qed

text \<open>
  C11 Every state can be made durable. Whatever calls led to a running driver, a flush of the
  superblock succeeds, and a driver started on the image afterwards finds the same map of
  paths and, for every file, the contents that were in the image, be they of files open or
  closed.
\<close>

theorem running_flush_durable:
  assumes "mbedtls_ok lib" and "running lib s"
  shows "\<exists>F opn s'. represents s F opn \<and> FlushSuperblock lib s = Some (Success, s') \<and>
    (\<forall>D. contents lib s F D \<longrightarrow> durable lib s' opn F D)"
proof -
  obtain nand keys r s0 where f: "Format lib 0 (Create lib nand keys) = Some (r, s0)" and run: "reaches lib {} s0 s"
    using assms(2) by (auto simp: running_def)
  have s0: "fs_ok s0" "versions_upto lib s0" using Format_fresh [OF assms(1), of nand keys] f by (auto simp: fs_ok_def cache_ok_def)
  have up: "versions_upto lib s" by (rule reaches_versions [OF assms(1) run s0])
  obtain F opn where rep: "represents s F opn" and ap: "apart s" using running_ok [OF assms] by (auto simp: fs_ok_def)
  obtain sb T where sb: "m_superblock s = Some sb" "tree_inv sb T" "links_ok sb" "live s sb T" "F = view sb T" "opn = open_paths s sb T"
    using rep by (auto simp: represents_def)
  note fl = flushed_represents [OF assms(1) sb(1-4)]
  have "written lib {} s (flushed lib s)" by (rule flushed_written [OF assms(1)]) (simp add: sb(1))
  then have w: "apart (flushed lib s)" "kept_data lib {} s (flushed lib s)"
    using sb(1,2) ap by (auto simp: written_def apart_def tree_inv_def)
  have rep': "represents (flushed lib s) F opn" using fl(2) sb(5,6) by simp
  have "durable lib (flushed lib s) opn F D" if "contents lib s F D" for D
    by (rule newest_durable [OF flushed_newest [OF assms(1) sb(1) up] rep' w(1) contents_restrict [OF that rep' w(2)]])
  then show ?thesis using rep fl(1) by blast
qed

lemma running_flush_durable_witness:
  "\<exists>s F opn s'. running demo_mbedtls s \<and> FlushSuperblock demo_mbedtls s = Some (Success, s') \<and> durable demo_mbedtls s' opn F Map.empty"
proof -
  obtain s where s: "running demo_mbedtls s" using demo_running [of "\<lambda>_. 0" "m_keys demo_fs"] by blast
  then show ?thesis using running_flush_durable [OF demo_mbedtls_ok s] s by (metis contents_def option.distinct(1))
qed

text \<open>
  C12 Types. In every state of a running driver the superblock is loaded and carries its magic
  number, the two tables and the names in them have their fixed sizes, the index of the
  superblock is one of the sixteen, there are sixteen handles, the cache belongs to one of them,
  to the internal handle or to none, and it holds the bytes of one cluster or none; it holds none
  when it has no handle.
\<close>

theorem running_typed:
  assumes "mbedtls_ok lib" and "running lib s"
  shows "\<exists>sb. m_superblock s = Some sb \<and> sb_magic sb = SUPERBLOCK_MAGIC \<and> length (sb_fat sb) = FAT_SIZE \<and>
    length (sb_fst sb) = FST_SIZE \<and> (\<forall>e\<in>set (sb_fst sb). length (e_name e) = 12) \<and>
    unat (m_superblock_index s) < NUMBER_OF_SUPERBLOCKS \<and> length (m_handles s) = NUM_HANDLES \<and>
    (case m_cache_handle s of None \<Rightarrow> m_cache_data s = []
     | Some h \<Rightarrow> valid_ref h \<and> length (m_cache_data s) \<in> {0, CLUSTER_DATA_SIZE})"
proof -
  obtain nand keys r s0 where f: "Format lib 0 (Create lib nand keys) = Some (r, s0)" and run: "reaches lib {} s0 s"
    using assms(2) by (auto simp: running_def)
  have s0: "fs_ok s0" "versions_upto lib s0" "cache_sized s0"
    using Format_fresh [OF assms(1), of nand keys] f by (auto simp: fs_ok_def cache_ok_def cache_sized_def)
  have up: "versions_upto lib s" by (rule reaches_versions [OF assms(1) run s0(1,2)])
  have c: "cache_sized s" by (rule reaches_sized [OF assms(1) run s0(1,3)])
  have fs: "fs_ok s" by (rule running_ok [OF assms])
  then obtain sb F opn where sb: "m_superblock s = Some sb" "sb_wf sb" by (rule fs_okE)
  show ?thesis
    using up fs sb c
    by (intro exI [of _ sb]) (auto simp: versions_upto_def fs_ok_def cache_ok_def cache_sized_def sb_wf_def entry_wf_def split: option.split)
qed

lemma running_typed_witness:
  "\<exists>s sb. running demo_mbedtls s \<and> m_superblock s = Some sb \<and> length (sb_fst sb) = FST_SIZE \<and> length (m_handles s) = NUM_HANDLES"
proof -
  obtain s where s: "running demo_mbedtls s" using demo_running [of "\<lambda>_. 0" "m_keys demo_fs"] by blast
  then show ?thesis using running_typed [OF demo_mbedtls_ok s] by blast
qed

end
