(* ===== verification/Sessions.thy ===== *)
theory Sessions
  imports Contents
begin

text \<open>
  A reference file system, and clients of the driver that work in sessions: they open a
  handle, use it and close it. Every list of sessions gives the replies of the reference file
  system, and at the end a driver started on the image shows the reference file system.
\<close>

section \<open>Lists of commands\<close>

fun perform_all :: "('c \<Rightarrow> 's \<Rightarrow> ('r \<times> 's) option) \<Rightarrow> 'c list \<Rightarrow> 's \<Rightarrow> ('r list \<times> 's) option" where
  "perform_all step [] s = Some ([], s)"
| "perform_all step (c # cs) s = do {
     (r, s1) \<leftarrow> step c s;
     (rs, s2) \<leftarrow> perform_all step cs s1;
     Some (r # rs, s2)
   }"

text \<open>
  \<open>spec c r a\<close> is the abstract state after the command \<open>c\<close> in \<open>a\<close>, or \<open>None\<close> if \<open>r\<close> is no
  correct reply to it.
\<close>

fun accepts :: "('c \<Rightarrow> 'r \<Rightarrow> 'a \<Rightarrow> 'a option) \<Rightarrow> 'c list \<Rightarrow> 'r list \<Rightarrow> 'a \<Rightarrow> 'a option" where
  "accepts spec [] [] a = Some a"
| "accepts spec (c # cs) (r # rs) a = do { a1 \<leftarrow> spec c r a; accepts spec cs rs a1 }"
| "accepts spec _ _ a = None"

fun all_lawful :: "('c \<Rightarrow> 'r \<Rightarrow> 'a \<Rightarrow> 'a option) \<Rightarrow> ('c \<Rightarrow> 'a \<Rightarrow> bool) \<Rightarrow> 'c list \<Rightarrow> 'a \<Rightarrow> bool" where
  "all_lawful spec ok [] a = True"
| "all_lawful spec ok (c # cs) a \<longleftrightarrow> ok c a \<and> (\<forall>r a1. spec c r a = Some a1 \<longrightarrow> all_lawful spec ok cs a1)"

text \<open>
  A simulation of single commands, each of which may use up some of a resource, gives one of
  lists of commands.
\<close>

locale simulation =
  fixes step :: "'c \<Rightarrow> 's \<Rightarrow> ('r \<times> 's) option" and spec :: "'c \<Rightarrow> 'r \<Rightarrow> 'a \<Rightarrow> 'a option"
    and ok :: "'c \<Rightarrow> 'a \<Rightarrow> bool" and cost :: "'c \<Rightarrow> nat" and room :: "'s \<Rightarrow> nat" and rel :: "'s \<Rightarrow> 'a \<Rightarrow> bool"
  assumes simulates: "rel s a \<Longrightarrow> ok c a \<Longrightarrow> cost c < room s \<Longrightarrow>
    \<exists>r s' a'. step c s = Some (r, s') \<and> spec c r a = Some a' \<and> rel s' a' \<and> room s \<le> room s' + cost c"
begin

lemma simulates_all:
  assumes "rel s a" "all_lawful spec ok cs a" "sum_list (map cost cs) < room s"
  shows "\<exists>rs s' a'. perform_all step cs s = Some (rs, s') \<and> accepts spec cs rs a = Some a' \<and> rel s' a'"
  using assms
proof (induction cs arbitrary: s a)
  case Nil
  then show ?case by (intro exI [of _ "[]"]) simp
next
  case (Cons c cs)
  obtain r s1 a1 where c: "step c s = Some (r, s1)" "spec c r a = Some a1" "rel s1 a1" "room s \<le> room s1 + cost c"
    using simulates [OF Cons.prems(1), of c] Cons.prems(2,3) by auto
  have "all_lawful spec ok cs a1" "sum_list (map cost cs) < room s1" using Cons.prems(2,3) c(2,4) by auto
  from Cons.IH [OF c(3) this] obtain rs s' a' where
    "perform_all step cs s1 = Some (rs, s')" "accepts spec cs rs a1 = Some a'" "rel s' a'" by blast
  then show ?case using c(1,2) by (intro exI [of _ "r # rs"]) simp
qed

end

section \<open>Sessions of a client\<close>

datatype reply = Status ResultCode | Bytes "u8 list"

datatype command =
    Make bool string FileAttribute FileMode FileMode FileMode
  | Remove string
  | MoveDirectory string string
  | Append string "u8 list"
  | Fetch string u32 u32

text \<open>A call on a handle of the file system, and calls on a handle of a file.\<close>

definition fs_session :: "('k, 'c) mbedtls \<Rightarrow> Uid \<Rightarrow> Gid \<Rightarrow> (Fd \<Rightarrow> ResultCode fs_op) \<Rightarrow> reply fs_op" where
  "fs_session lib uid gid call s = (case OpenFs uid gid s of
     (Inl e, s1) \<Rightarrow> Some (Status e, s1)
   | (Inr fd, s1) \<Rightarrow> do {
       (r, s2) \<leftarrow> call fd s1;
       (c, s3) \<leftarrow> Close lib fd s2;
       Some (Status (if c = Success then r else c), s3)
     })"

definition file_session :: "('k, 'c) mbedtls \<Rightarrow> Uid \<Rightarrow> Gid \<Rightarrow> string \<Rightarrow> FileMode \<Rightarrow> (Fd \<Rightarrow> reply fs_op) \<Rightarrow> reply fs_op" where
  "file_session lib uid gid path mode call s = do {
     (handle, s1) \<leftarrow> OpenFile lib uid gid path mode s;
     (case handle of
       Inl e \<Rightarrow> Some (Status e, s1)
     | Inr fd \<Rightarrow> do {
         (r, s2) \<leftarrow> call fd s1;
         (c, s3) \<leftarrow> Close lib fd s2;
         Some (if c = Success then r else Status c, s3)
       })
   }"

definition append_call :: "('k, 'c) mbedtls \<Rightarrow> u8 list \<Rightarrow> Fd \<Rightarrow> reply fs_op" where
  "append_call lib d fd s = (case SeekFile fd 0 SeekMode_End s of
     (Inl e, s1) \<Rightarrow> Some (Status e, s1)
   | (Inr _, s1) \<Rightarrow> do {
       (n, s2) \<leftarrow> WriteFile lib fd d (of_nat (length d)) s1;
       Some (case n of Inl e \<Rightarrow> Status e | Inr _ \<Rightarrow> Status Success, s2)
     })"

definition fetch_call :: "('k, 'c) mbedtls \<Rightarrow> u32 \<Rightarrow> u32 \<Rightarrow> Fd \<Rightarrow> reply fs_op" where
  "fetch_call lib pos count fd s = (case SeekFile fd pos SeekMode_Set s of
     (Inl e, s1) \<Rightarrow> Some (Status e, s1)
   | (Inr _, s1) \<Rightarrow> do {
       ((n, buffer), s2) \<leftarrow> ReadFile lib fd (replicate (unat count) 0) count s1;
       Some (case n of Inl e \<Rightarrow> Status e | Inr n \<Rightarrow> Bytes (take (unat n) buffer), s2)
     })"

fun perform :: "('k, 'c) mbedtls \<Rightarrow> Uid \<Rightarrow> Gid \<Rightarrow> command \<Rightarrow> reply fs_op" where
  "perform lib uid gid (Make is_file path attr om gm tm) =
     fs_session lib uid gid (\<lambda>fd. (if is_file then CreateFile else CreateDirectory) lib fd path attr om gm tm)"
| "perform lib uid gid (Remove path) = fs_session lib uid gid (\<lambda>fd. Delete lib fd path)"
| "perform lib uid gid (MoveDirectory old_path new_path) = fs_session lib uid gid (\<lambda>fd. Rename lib fd old_path new_path)"
| "perform lib uid gid (Append path d) = file_session lib uid gid path FileMode_ReadWrite (append_call lib d)"
| "perform lib uid gid (Fetch path pos count) = file_session lib uid gid path FileMode_Read (fetch_call lib pos count)"

section \<open>The reference file system\<close>

text \<open>
  A map from paths to the owner, the mode and the attributes of an entry, and the bytes of a
  file. There is no index, no size of its own and no cluster.
\<close>

type_synonym ref_fs = "path \<Rightarrow> (FstEntry \<times> u8 list) option"

definition fs_user :: "Uid \<Rightarrow> Gid \<Rightarrow> Handle" where
  "fs_user uid gid = new_Handle\<lparr>h_opened := True, h_uid := uid, h_gid := gid\<rparr>"

fun ref_command :: "Uid \<Rightarrow> Gid \<Rightarrow> command \<Rightarrow> ref_fs \<Rightarrow> reply \<times> ref_fs" where
  "ref_command uid gid (Make is_file path attr om gm tm) R =
     (if \<not> IsValidNonRootPath path \<or> list_ex bad_char path then (Status Invalid, R)
      else if \<not> is_file \<and> count_list path (CHR ''/'') > 8 then (Status TooManyPathComponents, R)
      else (case R (butlast (components path)) of
        None \<Rightarrow> (Status NotFound, R)
      | Some (d, _) \<Rightarrow>
          if \<not> HasPermission d uid gid FileMode_Write then (Status AccessDenied, R)
          else if R (components path) \<noteq> None then (Status AlreadyExists, R)
          else (Status Success, R(components path \<mapsto> (new_entry (fs_user uid gid) attr om gm tm is_file, [])))))"
| "ref_command uid gid (Remove path) R =
     (if \<not> IsValidNonRootPath path then (Status Invalid, R)
      else (case R (butlast (components path)) of
        None \<Rightarrow> (Status NotFound, R)
      | Some (d, _) \<Rightarrow>
          if \<not> HasPermission d uid gid FileMode_Write then (Status AccessDenied, R)
          else if R (components path) = None then (Status NotFound, R)
          else (Status Success, prune (components path) R)))"
| "ref_command uid gid (MoveDirectory old_path new_path) R =
     (if \<not> IsValidNonRootPath old_path \<or> \<not> IsValidNonRootPath new_path then (Status Invalid, R)
      else let p = components old_path; p' = components new_path in
        (case (R (butlast p), R (butlast p')) of
          (Some (d, _), Some (d', _)) \<Rightarrow>
            if \<not> HasPermission d uid gid FileMode_Write \<or> \<not> HasPermission d' uid gid FileMode_Write then (Status AccessDenied, R)
            else (case R p of
              None \<Rightarrow> (Status NotFound, R)
            | Some (e, _) \<Rightarrow> (case R p' of
                None \<Rightarrow> (Status Success, moved p p' R)
              | Some (e', _) \<Rightarrow>
                  if e_mode e' AND 3 \<noteq> e_mode e AND 3 \<or> p' = p then (Status Invalid, R)
                  else (Status Success, moved p p' R)))
        | _ \<Rightarrow> (Status NotFound, R)))"
| "ref_command uid gid (Append path d) R =
     (if \<not> IsValidNonRootPath path then (Status Invalid, R)
      else (case R (components path) of
        None \<Rightarrow> (Status NotFound, R)
      | Some (e, d0) \<Rightarrow>
          if \<not> IsFile e then (Status Invalid, R)
          else if \<not> HasPermission e uid gid FileMode_ReadWrite then (Status AccessDenied, R)
          else (Status Success, R(components path \<mapsto> (e, d0 @ d)))))"
| "ref_command uid gid (Fetch path pos count) R =
     (if \<not> IsValidNonRootPath path then (Status Invalid, R)
      else (case R (components path) of
        None \<Rightarrow> (Status NotFound, R)
      | Some (e, d) \<Rightarrow>
          if \<not> IsFile e then (Status Invalid, R)
          else if \<not> HasPermission e uid gid FileMode_Read then (Status AccessDenied, R)
          else if length d < unat pos then (Status Invalid, R)
          else (Bytes (take (unat count) (drop (unat pos) d)), R)))"

text \<open>The only freedom: there may be no entry left in the table of entries.\<close>

definition ref_spec :: "Uid \<Rightarrow> Gid \<Rightarrow> command \<Rightarrow> reply \<Rightarrow> ref_fs \<Rightarrow> ref_fs option" where
  "ref_spec uid gid c r R =
     (if r = fst (ref_command uid gid c R) then Some (snd (ref_command uid gid c R))
      else case c of
        Make _ _ _ _ _ _ \<Rightarrow> if r = Status FstFull \<and> fst (ref_command uid gid c R) = Status Success then Some R else None
      | _ \<Rightarrow> None)"

text \<open>
  The conditions under which the driver keeps to the reference: no path leads through a
  file, names are not truncated, only directories are moved and not into each other, and the
  sum of a position and a count does not wrap.
\<close>

definition walks :: "ref_fs \<Rightarrow> string \<Rightarrow> bool" where
  "walks R path \<longleftrightarrow> (\<forall>i<length (components path). \<forall>x. R (take i (components path)) = Some x \<longrightarrow> IsDirectory (fst x))"

fun lawful :: "command \<Rightarrow> ref_fs \<Rightarrow> bool" where
  "lawful (Make _ path _ _ _ _) R \<longleftrightarrow> walks R path \<and> name_fits path"
| "lawful (Remove path) R \<longleftrightarrow> walks R path"
| "lawful (MoveDirectory path path') R \<longleftrightarrow> walks R path \<and> walks R path' \<and> name_fits path' \<and> separate_paths path path' \<and>
     (\<forall>x. R (components path) = Some x \<longrightarrow> \<not> IsFile (fst x))"
| "lawful (Append path d) R \<longleftrightarrow> walks R path"
| "lawful (Fetch path pos count) R \<longleftrightarrow> walks R path \<and> unat pos + unat count < 2 ^ 32"

fun clusters_for :: "command \<Rightarrow> nat" where
  "clusters_for (Append _ d) = needed_clusters d"
| "clusters_for _ = 0"

section \<open>What the driver shows\<close>

definition attrs :: "FstEntry \<Rightarrow> FstEntry" where
  "attrs e = e\<lparr>e_sub := 0, e_size := 0\<rparr>"

definition ref_of :: "path_map \<Rightarrow> (path \<Rightarrow> u8 list option) \<Rightarrow> ref_fs" where
  "ref_of F D = (\<lambda>p. map_option (\<lambda>e. (attrs e, case D p of None \<Rightarrow> [] | Some d \<Rightarrow> d)) (F p))"

definition full :: "path_map \<Rightarrow> (path \<Rightarrow> u8 list option) \<Rightarrow> bool" where
  "full F D \<longleftrightarrow> (\<forall>p. D p \<noteq> None \<longleftrightarrow> (\<exists>e. F p = Some e \<and> IsFile e))"

text \<open>
  \<open>at_rest lib s R\<close>: no handle is open, nothing is cached, and the driver, as one started on the
  image, shows the reference file system \<open>R\<close>.
\<close>

definition steady :: "('k, 'c) mbedtls \<Rightarrow> FileSystemImpl \<Rightarrow> path_map \<Rightarrow> (path \<Rightarrow> u8 list option) \<Rightarrow> bool" where
  "steady lib s F D \<longleftrightarrow> settled lib s \<and> m_cache_handle s = None \<and> durable lib s {} F D \<and> full F D"

abbreviation closed :: "FileSystemImpl \<Rightarrow> bool" where
  "closed s \<equiv> \<forall>h\<in>set (m_handles s). \<not> h_opened h"

definition at_rest :: "('k, 'c) mbedtls \<Rightarrow> FileSystemImpl \<Rightarrow> ref_fs \<Rightarrow> bool" where
  "at_rest lib s R \<longleftrightarrow> closed s \<and> (\<exists>F D. steady lib s F D \<and> R = ref_of F D)"

lemma attrs_simps [simp]:
  "IsFile (attrs e) = IsFile e" "IsDirectory (attrs e) = IsDirectory e" "HasPermission (attrs e) uid gid m = HasPermission e uid gid m"
  "e_mode (attrs e) = e_mode e" "attrs (e\<lparr>e_sub := x\<rparr>) = attrs e" "attrs (e\<lparr>e_size := z\<rparr>) = attrs e"
  by (simp_all add: attrs_def IsFile_def IsDirectory_def HasPermission_def GetOwnerMode_def GetGroupMode_def GetOtherMode_def)

lemma attrs_new_entry [simp]: "attrs (new_entry h attr om gm tm f) = new_entry h attr om gm tm f"
  by (simp add: attrs_def new_entry_def SetAccessMode_def)

lemma IsFile_new_entry [simp]: "IsFile (new_entry h attr om gm tm f) = f"
proof -
  have "e_mode (new_entry h attr om gm tm f) AND 3 = (if f then 1 else 2)" by (simp add: new_entry_def)
  then show ?thesis by (simp add: IsFile_def)
qed

lemma ref_of_None [simp]: "ref_of F D p = None \<longleftrightarrow> F p = None"
  by (simp add: ref_of_def)

lemma ref_of_at:
  "F p = Some e \<Longrightarrow> ref_of F D p = Some (attrs e, case D p of None \<Rightarrow> [] | Some d \<Rightarrow> d)" "F p = None \<Longrightarrow> ref_of F D p = None"
  by (simp_all add: ref_of_def)

lemma walks_through: "walks (ref_of F D) path \<Longrightarrow> through_dirs F (components path)"
  unfolding walks_def through_dirs_def by (auto simp: ref_of_def)

lemma full_file: "full F D \<Longrightarrow> F p = Some e \<Longrightarrow> IsFile e \<Longrightarrow> \<exists>d. D p = Some d"
  unfolding full_def by blast

lemma full_none: "full F D \<Longrightarrow> F p = None \<Longrightarrow> D p = None"
  unfolding full_def by (metis option.distinct(1))

lemma steady_parts:
  assumes "steady lib s F D"
  shows "settled lib s" "m_cache_handle s = None" "represents s F {}" "contents lib s F D" "full F D" "length (m_handles s) = NUM_HANDLES"
    "clean s" "apart s"
  using assms by (simp_all add: steady_def durable_def settled_def fs_ok_def)

text \<open>What the handles are has no influence as long as no file is open in them.\<close>

lemma steady_cong:
  assumes st: "steady lib s F D" and d: "same_disk s s'" and c: "m_cache_handle s' = None" and len: "length (m_handles s') = NUM_HANDLES"
    and o: "\<And>k. in_fst k \<Longrightarrow> IsFileOpened s' k = IsFileOpened s k"
  shows "steady lib s' F D"
proof -
  note p = steady_parts [OF st]
  obtain sb T where sb: "m_superblock s = Some sb" "tree_inv sb T" "links_ok sb" "live s sb T" "F = view sb T" "{} = open_paths s sb T"
    using p(3) by (auto simp: represents_def)
  have v: "in_fst k" if "entries sb T q = Some k" for q k using tree_inv_node [OF sb(2) entries_node [OF sb(2) that]] by simp
  have "live s' sb T" using sb(4) o by (simp add: live_def cong: conj_cong)
  moreover have "open_paths s' sb T = open_paths s sb T" using o v unfolding open_paths_def by blast
  ultimately have rep: "represents s' F {}" using sb d by (auto simp: represents_def same_disk_def)
  have "settled lib s'"
    using p(1) rep d c len unfolding settled_def fs_ok_def
    by (auto simp: versions_upto_def same_disk_def apart_def clean_def cache_ok_def)
  then show ?thesis
    using st rep c d contents_same_disk [OF p(4) d] by (simp add: steady_def durable_def same_disk_def)
qed

text \<open>The files of the new map are new and empty, or had the same data under another path.\<close>

definition inherits :: "u16 set \<Rightarrow> path_map \<Rightarrow> (path \<Rightarrow> u8 list option) \<Rightarrow> path_map \<Rightarrow> (path \<Rightarrow> u8 list option) \<Rightarrow> bool" where
  "inherits X F D F' D' \<longleftrightarrow> (\<forall>p d. D' p = Some d \<longrightarrow> d = [] \<and> (\<exists>e'. F' p = Some e' \<and> IsFile e' \<and> e_size e' = 0) \<or>
     (\<exists>q. D q = Some d \<and> (\<forall>e. F q = Some e \<longrightarrow> IsFile e \<longrightarrow>
       e_sub e \<notin> X \<and> (\<exists>e'. F' p = Some e' \<and> IsFile e' \<and> e_sub e' = e_sub e \<and> e_size e' = e_size e))))"

lemma outcome_steady:
  assumes st: "steady lib s F D" and out: "outcome lib s {} X Success F' s'" and f: "full F' D'" and inh: "inherits X F D F' D'"
  shows "steady lib s' F' D'"
  using outcome_durable [OF steady_parts(1,4) [OF st] out inh [unfolded inherits_def, rule_format]] steady_parts(2) [OF st] out f
  by (auto simp: steady_def outcome_def)

lemma outcome_frame:
  assumes "steady lib s F D" "outcome lib s {} X r F' s'"
  shows "m_handles s' = m_handles s" "free_space s \<le> free_space s'" "r \<noteq> Success \<Longrightarrow> s' = s"
  using assms(2) steady_parts(8) [OF assms(1)] by (simp_all add: outcome_def)

section \<open>Calls on the file system\<close>

text \<open>
  The reply \<open>r\<close> to \<open>c\<close> and the maps the driver shows in \<open>s'\<close> are right, and no more clusters are
  used up than \<open>c\<close> needs.
\<close>

definition serves :: "('k, 'c) mbedtls \<Rightarrow> Uid \<Rightarrow> Gid \<Rightarrow> command \<Rightarrow> path_map \<Rightarrow> (path \<Rightarrow> u8 list option) \<Rightarrow>
    FileSystemImpl \<Rightarrow> reply \<Rightarrow> FileSystemImpl \<Rightarrow> bool" where
  "serves lib uid gid c F D s r s' \<longleftrightarrow> free_space s \<le> free_space s' + clusters_for c \<and>
     (\<exists>F' D'. steady lib s' F' D' \<and> ref_spec uid gid c r (ref_of F D) = Some (ref_of F' D'))"

lemma serves_same:
  "steady lib s F D \<Longrightarrow> ref_command uid gid c (ref_of F D) = (r, ref_of F D) \<Longrightarrow> serves lib uid gid c F D s r s"
  by (auto simp: serves_def ref_spec_def)

lemma open_fs:
  assumes st: "steady lib s F D" and cl: "closed s"
  obtains i where "i < NUM_HANDLES" "OpenFs uid gid s = (Inr (ConvertHandleToFd i), upd_handle (Slot i) (\<lambda>_. fs_user uid gid) s)"
proof -
  note len = steady_parts(6) [OF st]
  then have "m_handles s \<noteq> []" by (auto simp: NUM_HANDLES_def)
  then have "\<not> (\<forall>h\<in>set (m_handles s). h_opened h)" using cl by (metis list.set_sel(1))
  then show thesis using AssignFreeHandle_cases [OF len, of uid gid] that by (auto simp: OpenFs_def fs_user_def)
qed

lemma fs_session_serves:
  assumes st: "steady lib s F D" and cl: "closed s"
    and call: "\<And>fd h s1. steady lib s1 F D \<Longrightarrow> GetHandleFromFd fd s1 = Some h \<Longrightarrow> handle_at s1 h = fs_user uid gid \<Longrightarrow>
      \<exists>r s2. call fd s1 = Some (r, s2) \<and> m_handles s2 = m_handles s1 \<and> serves lib uid gid c F D s1 (Status r) s2"
  shows "\<exists>r s'. fs_session lib uid gid call s = Some (r, s') \<and> closed s' \<and> serves lib uid gid c F D s r s'"
proof -
  note p = steady_parts [OF st]
  obtain i where i: "i < NUM_HANDLES" "OpenFs uid gid s = (Inr (ConvertHandleToFd i), upd_handle (Slot i) (\<lambda>_. fs_user uid gid) s)"
    by (rule open_fs [OF st cl])
  define s1 where "s1 = upd_handle (Slot i) (\<lambda>_. fs_user uid gid) s"
  let ?fd = "ConvertHandleToFd i"
  have hs: "m_handles s1 = (m_handles s)[i := fs_user uid gid]" by (simp add: s1_def upd_handle_def)
  have none: "\<not> IsFileOpened t k" if "m_handles t = (m_handles s)[i := x]" "x = fs_user uid gid \<or> x = new_Handle" "in_fst k" for t k x
    using that cl set_update_subset_insert [of "m_handles s" i x]
    by (auto simp: IsFileOpened_def list_ex_iff fs_user_def new_Handle_def in_fst_def FST_SIZE_def)
  have off: "\<not> IsFileOpened s k" for k using cl by (auto simp: IsFileOpened_def list_ex_iff)
  have st1: "steady lib s1 F D"
    by (rule steady_cong [OF st]) (use p(2,6) none [OF hs] off in \<open>simp_all add: s1_def same_disk_def upd_handle_def\<close>)
  have fd: "GetHandleFromFd ?fd s1 = Some (Slot i)"
    unfolding s1_def by (rule GetHandleFromFd_opened) (use i p(6) in \<open>simp_all add: fs_user_def\<close>)
  have at: "handle_at t (Slot i) = fs_user uid gid" if "m_handles t = m_handles s1" for t
    using that hs i(1) p(6) by (simp add: handle_at_def)
  obtain r s2 where s2: "call ?fd s1 = Some (r, s2)" "m_handles s2 = m_handles s1" "serves lib uid gid c F D s1 (Status r) s2"
    using call [OF st1 fd at [OF refl]] by blast
  obtain F' D' where st2: "steady lib s2 F' D'" "ref_spec uid gid c (Status r) (ref_of F D) = Some (ref_of F' D')"
    "free_space s1 \<le> free_space s2 + clusters_for c"
    using s2(3) by (auto simp: serves_def)
  note p2 = steady_parts [OF st2(1)]
  have fd2: "GetHandleFromFd ?fd s2 = Some (Slot i)" 
    by (rule GetHandleFromFd_still [OF _ fd]) (simp add: at [OF s2(2)] fs_user_def)
  obtain s3 where s3: "Close lib ?fd s2 = Some (Success, s3)" "m_handles s3 = m_handles (upd_handle (Slot i) (\<lambda>_. new_Handle) s2)"
      "same_disk s2 s3" "m_cache_handle s3 = None"
    by (rule Close_clean [OF p2(7) fd2]) (use at [OF s2(2)] p2(2) in \<open>simp_all add: fs_user_def new_Handle_def cached_by_def\<close>)
  have h3: "m_handles s3 = (m_handles s)[i := new_Handle]" using s3(2) s2(2) hs by (simp add: upd_handle_def)
  have c3: "closed s3" using cl set_update_subset_insert [of "m_handles s" i new_Handle] by (auto simp: h3 new_Handle_def)
  have op: "IsFileOpened s3 k = IsFileOpened s2 k" if "in_fst k" for k
    using none [OF h3 _ that] none [of s2, OF s2(2) [unfolded hs] _ that] by blast
  have st3: "steady lib s3 F' D'" by (rule steady_cong [OF st2(1) s3(3,4) _ op]) (use h3 p(6) in simp_all)
  have "free_space s1 = free_space s" "free_space s3 = free_space s2"
    using s3(3) by (simp_all add: free_space_def s1_def same_disk_def)
  then have "serves lib uid gid c F D s (Status r) s3" using st3 st2(2,3) unfolding serves_def by (metis (no_types))
  then show ?thesis using i(2) s2(1) s3(1) c3 by (simp add: fs_session_def s1_def)
qed

lemma fs_user_fields [simp]: "writable (fs_user uid gid) e = HasPermission e uid gid FileMode_Write"
  by (simp add: writable_def fs_user_def)

lemma ref_make:
  assumes "IsValidNonRootPath path" "\<not> list_ex bad_char path" "is_file \<or> count_list path (CHR ''/'') \<le> 8"
    "out = abs_create (fs_user uid gid) (components path) e F"
  shows "ref_command uid gid (Make is_file path attr om gm tm) (ref_of F D) = (Status (fst out),
    if fst out = Success then (ref_of F D)(components path \<mapsto> (new_entry (fs_user uid gid) attr om gm tm is_file, [])) else ref_of F D)"
  using assms(1-3) unfolding assms(4) abs_create_def
  by (cases "F (butlast (components path))"; cases "F (components path)") (auto simp: ref_of_at)

text \<open>A new entry: what the driver shows afterwards.\<close>

lemma made_steady:
  assumes st: "steady lib s F D" and new: "F p = None" and o: "outcome lib s {} {} Success (F(p \<mapsto> e)) s'"
    and e: "IsFile e = is_file" "e_size e = 0" and D': "D' = (if is_file then D(p \<mapsto> []) else D)"
  shows "steady lib s' (F(p \<mapsto> e)) D'" "ref_of (F(p \<mapsto> e)) D' = (ref_of F D)(p \<mapsto> (attrs e, []))"
proof -
  have f: "full F D" using st by (simp add: steady_def)
  have Dp: "D p = None" by (rule full_none [OF f new])
  show "ref_of (F(p \<mapsto> e)) D' = (ref_of F D)(p \<mapsto> (attrs e, []))" using Dp by (auto simp: ref_of_def D' fun_eq_iff)
  have "full (F(p \<mapsto> e)) D'" using f Dp new e(1) by (auto simp: full_def D')
  moreover have "inherits {} F D (F(p \<mapsto> e)) D'"
    unfolding inherits_def
  proof (intro allI impI)
    fix q d assume q: "D' q = Some d"
    show "d = [] \<and> (\<exists>e'. (F(p \<mapsto> e)) q = Some e' \<and> IsFile e' \<and> e_size e' = 0) \<or>
      (\<exists>q'. D q' = Some d \<and> (\<forall>y. F q' = Some y \<longrightarrow> IsFile y \<longrightarrow>
        e_sub y \<notin> {} \<and> (\<exists>e'. (F(p \<mapsto> e)) q = Some e' \<and> IsFile e' \<and> e_sub e' = e_sub y \<and> e_size e' = e_size y)))"
    proof (cases "q = p")
      case True
      then show ?thesis using q Dp e by (auto simp: D' split: if_splits)
    next
      case False
      then have "D q = Some d" "(F(p \<mapsto> e)) q = F q" using q by (auto simp: D' split: if_splits)
      then show ?thesis by (intro disjI2 exI [of _ q]) simp
    qed
  qed
  ultimately show "steady lib s' (F(p \<mapsto> e)) D'" by (intro outcome_steady [OF st o])
qed

lemma make_serves:
  assumes ok: "mbedtls_ok lib" and st: "steady lib s F D" and h: "GetHandleFromFd fd s = Some h" "handle_at s h = fs_user uid gid"
    and law: "lawful (Make is_file path attr om gm tm) (ref_of F D)"
  shows "\<exists>r s'. (if is_file then CreateFile else CreateDirectory) lib fd path attr om gm tm s = Some (r, s') \<and>
    m_handles s' = m_handles s \<and> serves lib uid gid (Make is_file path attr om gm tm) F D s (Status r) s'"
proof -
  let ?c = "Make is_file path attr om gm tm" and ?p = "components path"
  note p = steady_parts [OF st]
  have run: "(if is_file then CreateFile else CreateDirectory) lib fd path attr om gm tm s =
      CreateFileOrDirectory lib h path attr om gm tm is_file s"
    using h(1) by (simp add: CreateFile_def CreateDirectory_def)
  consider (bad) "\<not> IsValidNonRootPath path \<or> list_ex bad_char path"
    | (deep) "\<not> (\<not> IsValidNonRootPath path \<or> list_ex bad_char path)" "\<not> is_file \<and> 8 < count_list path (CHR ''/'')"
    | (good) "IsValidNonRootPath path" "\<not> list_ex bad_char path" "is_file \<or> count_list path (CHR ''/'') \<le> 8"
    by fastforce
  then show ?thesis
  proof cases
    case bad
    then have "serves lib uid gid ?c F D s (Status Invalid) s" by (intro serves_same [OF st]) simp
    then show ?thesis using bad unfolding run by (simp add: CreateFileOrDirectory_def)
  next
    case deep
    then have "serves lib uid gid ?c F D s (Status TooManyPathComponents) s" by (intro serves_same [OF st]) simp
    then show ?thesis using deep unfolding run by (simp add: CreateFileOrDirectory_def)
  next
    case good
    define e where "e = (new_entry (fs_user uid gid) attr om gm tm is_file)\<lparr>e_sub := free_index s\<rparr>"
    define out where "out = if_room s F (abs_create (fs_user uid gid) ?p e F)"
    have dirs: "through_dirs F ?p" using law by (auto intro: walks_through)
    have name: "good_name (file_name (SplitPath path))" using law by (simp add: name_fits_def)
    obtain s' where s': "CreateFileOrDirectory lib h path attr om gm tm is_file s = Some (fst out, s')"
        "outcome lib s {} {} (fst out) (snd out) s'"
      using CreateFileOrDirectory_refines [OF ok p(3) good dirs name, of h attr om gm tm] unfolding h(2) out_def e_def by blast
    note frame = outcome_frame [OF st s'(2)]
    have "serves lib uid gid ?c F D s (Status (fst out)) s'"
    proof (cases "fst out = Success")
      case False
      have s: "s' = s" by (rule frame(3) [OF False])
      have "ref_spec uid gid ?c (Status (fst out)) (ref_of F D) = Some (ref_of F D)"
        using False unfolding ref_spec_def ref_make [OF good refl, where e = e and F = F] out_def if_room_def by auto
      then show ?thesis using st unfolding s serves_def by auto
    next
      case True
      then obtain d where d: "F (butlast ?p) = Some d" "HasPermission d uid gid FileMode_Write" and new: "F ?p = None"
        and out: "snd out = F(?p \<mapsto> e)"
        by (auto simp: out_def if_room_def abs_create_def split: option.splits if_splits)
      define D' where "D' = (if is_file then D(?p \<mapsto> []) else D)"
      have e: "attrs e = new_entry (fs_user uid gid) attr om gm tm is_file" "IsFile e = is_file" "e_size e = 0"
        by (simp_all add: e_def IsFile_new_entry [unfolded IsFile_def] IsFile_def) (simp add: new_entry_def SetAccessMode_def)
      have "outcome lib s {} {} Success (F(?p \<mapsto> e)) s'" using s'(2) True out by simp
      note made = made_steady [OF st new this e(2,3) D'_def, unfolded e(1)]
      have "ref_spec uid gid ?c (Status Success) (ref_of F D) = Some (ref_of (F(?p \<mapsto> e)) D')"
        using d new unfolding ref_spec_def ref_make [OF good refl, where e = e and F = F] made(2) by (simp add: abs_create_def)
      then show ?thesis using made(1) frame(2) True by (auto simp: serves_def)
    qed
    then show ?thesis using s'(1) frame(1) unfolding run by blast
  qed
qed

lemma outcome_serves:
  assumes st: "steady lib s F D" and out: "outcome lib s {} X r F' s'"
    and ref: "ref_command uid gid c (ref_of F D) = (Status r, if r = Success then R' else ref_of F D)"
    and new: "r = Success \<Longrightarrow> full F' D' \<and> inherits X F D F' D' \<and> ref_of F' D' = R'"
  shows "serves lib uid gid c F D s (Status r) s'"
proof (cases "r = Success")
  case True
  then have "steady lib s' F' D'" using outcome_steady [OF st, of X F' s' D'] out new by simp
  moreover have "ref_spec uid gid c (Status r) (ref_of F D) = Some (ref_of F' D')" using ref new True by (simp add: ref_spec_def)
  ultimately show ?thesis using outcome_frame(2) [OF st out] by (auto simp: serves_def)
next
  case False
  then have "s' = s" using outcome_frame(3) [OF st out] by simp
  then show ?thesis using serves_same [OF st, of uid gid c "Status r"] ref False by simp
qed

lemma ref_remove:
  assumes "IsValidNonRootPath path" "out = abs_delete (fs_user uid gid) {} (components path) F"
  shows "ref_command uid gid (Remove path) (ref_of F D) =
    (Status (fst out), if fst out = Success then prune (components path) (ref_of F D) else ref_of F D)"
  using assms(1) unfolding assms(2) by (cases "F (butlast (components path))"; cases "F (components path)") (auto simp: ref_of_at abs_delete_def)

lemma remove_serves:
  assumes ok: "mbedtls_ok lib" and st: "steady lib s F D" and h: "GetHandleFromFd fd s = Some h" "handle_at s h = fs_user uid gid"
    and law: "lawful (Remove path) (ref_of F D)"
  shows "\<exists>r s'. Delete lib fd path s = Some (r, s') \<and> m_handles s' = m_handles s \<and> serves lib uid gid (Remove path) F D s (Status r) s'"
proof (cases "IsValidNonRootPath path")
  case False
  then have "serves lib uid gid (Remove path) F D s (Status Invalid) s" by (intro serves_same [OF st]) simp
  then show ?thesis using False h(1) by (simp add: Delete_def)
next
  case True
  let ?p = "components path"
  note p = steady_parts [OF st]
  define out where "out = abs_delete (fs_user uid gid) {} ?p F"
  have dirs: "through_dirs F ?p" using law by (auto intro: walks_through)
  obtain s' where s': "Delete lib fd path s = Some (fst out, s')" "outcome lib s {} {} (fst out) (snd out) s'"
    using Delete_refines [OF ok p(3) h(1) True dirs] unfolding h(2) out_def by blast
  have "full (snd out) (prune ?p D) \<and> inherits {} F D (snd out) (prune ?p D) \<and> ref_of (snd out) (prune ?p D) = prune ?p (ref_of F D)"
    if "fst out = Success"
  proof -
    have o: "snd out = prune ?p F" using that by (auto simp: out_def abs_delete_def split: option.splits if_splits)
    have "inherits {} F D (prune ?p F) (prune ?p D)"
      unfolding inherits_def
    proof (intro allI impI disjI2)
      fix q d assume "prune ?p D q = Some d"
      then show "\<exists>q'. D q' = Some d \<and> (\<forall>e. F q' = Some e \<longrightarrow> IsFile e \<longrightarrow>
          e_sub e \<notin> {} \<and> (\<exists>e'. prune ?p F q = Some e' \<and> IsFile e' \<and> e_sub e' = e_sub e \<and> e_size e' = e_size e))"
        by (intro exI [of _ q]) (simp add: prune_def split: if_split_asm)
    qed
    then show ?thesis using p(5) by (auto simp: o full_def ref_of_def prune_def fun_eq_iff)
  qed
  then have "serves lib uid gid (Remove path) F D s (Status (fst out)) s'"
    by (rule outcome_serves [OF st s'(2) ref_remove [OF True out_def]])
  then show ?thesis using s'(1) outcome_frame(1) [OF st s'(2)] by blast
qed

lemma ref_move:
  assumes "IsValidNonRootPath path" "IsValidNonRootPath path'" "\<forall>x. ref_of F D (components path) = Some x \<longrightarrow> \<not> IsFile (fst x)"
    "out = abs_rename (fs_user uid gid) {} (components path) (components path') F"
  shows "ref_command uid gid (MoveDirectory path path') (ref_of F D) =
    (Status (fst out), if fst out = Success then moved (components path) (components path') (ref_of F D) else ref_of F D)"
  using assms(1-3) unfolding assms(4) abs_rename_def rename_at_def
  by (cases "F (butlast (components path))"; cases "F (butlast (components path'))"; cases "F (components path)"; cases "F (components path')")
    (auto simp: ref_of_at)

lemma move_serves:
  assumes ok: "mbedtls_ok lib" and st: "steady lib s F D" and h: "GetHandleFromFd fd s = Some h" "handle_at s h = fs_user uid gid"
    and law: "lawful (MoveDirectory path path') (ref_of F D)"
  shows "\<exists>r s'. Rename lib fd path path' s = Some (r, s') \<and> m_handles s' = m_handles s \<and>
    serves lib uid gid (MoveDirectory path path') F D s (Status r) s'"
proof (cases "IsValidNonRootPath path \<and> IsValidNonRootPath path'")
  case False
  then have "serves lib uid gid (MoveDirectory path path') F D s (Status Invalid) s" by (intro serves_same [OF st]) auto
  then show ?thesis using False h(1) by (auto simp: Rename_def)
next
  case True
  then have v: "IsValidNonRootPath path" "IsValidNonRootPath path'" by simp_all
  let ?p = "components path" and ?n = "components path'"
  note p = steady_parts [OF st]
  define out where "out = abs_rename (fs_user uid gid) {} ?p ?n F"
  have dirs: "through_dirs F ?p" "through_dirs F ?n" using law by (auto intro: walks_through)
  have name: "good_name (file_name (SplitPath path'))" using law by (simp add: name_fits_def)
  have apart: "\<not> below ?p ?n \<and> \<not> below ?n ?p" if "?p \<noteq> ?n" using law that by (auto simp: separate_paths_def)
  have nofile: "\<forall>x. ref_of F D ?p = Some x \<longrightarrow> \<not> IsFile (fst x)" using law by simp
  obtain s' where s': "Rename lib fd path path' s = Some (fst out, s')" "outcome lib s {} (index_of F ?p) (fst out) (snd out) s'"
    using Rename_refines [OF ok p(3) h(1) v dirs name apart] unfolding h(2) out_def by blast
  have "full (snd out) (moved ?p ?n D) \<and> inherits (index_of F ?p) F D (snd out) (moved ?p ?n D) \<and>
      ref_of (snd out) (moved ?p ?n D) = moved ?p ?n (ref_of F D)"
    if "fst out = Success"
  proof -
    have o: "snd out = moved ?p ?n F" and e: "\<exists>e. F ?p = Some e"
      using that by (auto simp: out_def abs_rename_def rename_at_def split: option.splits if_splits)
    then obtain e where e: "F ?p = Some e" by blast
    then have dir: "\<not> IsFile e" using nofile by (simp add: ref_of_at)
    have ne: "e_sub y \<notin> index_of F ?p" if "F q = Some y" "IsFile y" for q y
    proof
      assume "e_sub y \<in> index_of F ?p"
      then have "e_sub y = e_sub e" using e by (simp add: index_of_def)
      then have "q = ?p" by (rule represents_inj [OF p(3) e that(1)])
      then show False using that e dir by simp
    qed
    have "inherits (index_of F ?p) F D (moved ?p ?n F) (moved ?p ?n D)"
      unfolding inherits_def
    proof (intro allI impI disjI2)
      fix q d assume d: "moved ?p ?n D q = Some d"
      define q' where "q' = (if below ?n q then ?p @ drop (length ?n) q else q)"
      have "D q' = Some d" "moved ?p ?n F q = F q'" using d by (auto simp: moved_def q'_def split: if_split_asm)
      then show "\<exists>q'. D q' = Some d \<and> (\<forall>y. F q' = Some y \<longrightarrow> IsFile y \<longrightarrow> e_sub y \<notin> index_of F ?p \<and>
          (\<exists>e'. moved ?p ?n F q = Some e' \<and> IsFile e' \<and> e_sub e' = e_sub y \<and> e_size e' = e_size y))"
        using ne by (intro exI [of _ q']) simp
    qed
    then show ?thesis using p(5) by (auto simp: o full_def ref_of_def moved_def fun_eq_iff)
  qed
  then have "serves lib uid gid (MoveDirectory path path') F D s (Status (fst out)) s'"
    by (rule outcome_serves [OF st s'(2) ref_move [OF v nofile out_def]])
  then show ?thesis using s'(1) outcome_frame(1) [OF st s'(2)] by blast
qed

section \<open>Sessions on files\<close>

lemma needed_append: "needed_clusters (d0 @ d) \<le> needed_clusters d0 + needed_clusters d"
proof -
  let ?C = "CLUSTER_DATA_SIZE"
  have "length d0 + length d \<le> (needed_clusters d0 + needed_clusters d) * ?C"
    using needed_clusters_enough [of d0] needed_clusters_enough [of d] by (simp add: add_mult_distrib)
  then have "length d0 + length d + ?C - 1 < (needed_clusters d0 + needed_clusters d) * ?C + ?C" by (simp add: layout_consts)
  then have "length d0 + length d + ?C - 1 < Suc (needed_clusters d0 + needed_clusters d) * ?C" by simp
  then have "(length d0 + length d + ?C - 1) div ?C < Suc (needed_clusters d0 + needed_clusters d)" by (rule less_mult_imp_div_less)
  then show ?thesis by (simp add: needed_clusters_def)
qed

lemma open_fails:
  assumes st: "steady lib s F D" and path: "IsValidNonRootPath path \<Longrightarrow> walks (ref_of F D) path"
    and fails: "\<not> IsValidNonRootPath path \<or> abs_open uid gid mode (components path) F \<noteq> Success"
  shows "file_session lib uid gid path mode call s =
    Some (Status (if IsValidNonRootPath path then abs_open uid gid mode (components path) F else Invalid), s)"
proof (cases "IsValidNonRootPath path")
  case True
  note p = steady_parts [OF st]
  show ?thesis
    using OpenFile_refines [OF p(3,6) True walks_through [OF path [OF True]], of uid gid mode lib] fails True
    by (simp add: file_session_def)
qed (simp add: file_session_def OpenFile_def)

lemma open_works:
  assumes st: "steady lib s F D" and ok: "abs_open uid gid mode p F = Success"
  obtains e d where "F p = Some e" "IsFile e" "HasPermission e uid gid mode" "D p = Some d" "ref_of F D p = Some (attrs e, d)"
proof -
  obtain e where e: "F p = Some e" "IsFile e" "HasPermission e uid gid mode"
    using ok by (auto simp: abs_open_def split: option.splits if_splits)
  obtain d where "D p = Some d" using full_file [OF steady_parts(5) [OF st] e(1,2)] by blast
  then show thesis using that e by (simp add: ref_of_at)
qed

lemma free_handle:
  assumes "steady lib s F D" "closed s"
  shows "\<exists>h\<in>set (m_handles s). \<not> h_opened h"
proof -
  have "m_handles s \<noteq> []" using steady_parts(6) [OF assms(1)] by (auto simp: NUM_HANDLES_def)
  then show ?thesis using assms(2) by (metis list.set_sel(1))
qed

text \<open>Closing a handle that was opened but neither read nor written.\<close>

lemma close_idle:
  assumes st: "steady lib s F D" and cl: "closed s" and i: "i < NUM_HANDLES" and t: "t = upd_handle (Slot i) (\<lambda>_. x) s"
    and x: "\<not> h_superblock_flush_needed x" and fd: "GetHandleFromFd fd t = Some (Slot i)"
  shows "\<exists>s'. Close lib fd t = Some (Success, s') \<and> closed s' \<and> same_disk s s' \<and> steady lib s' F D"
proof -
  note p = steady_parts [OF st]
  have "valid_ref (Slot i)" using i by (simp add: valid_ref_def)
  then have at: "handle_at t (Slot i) = x" using p(6) by (simp add: t handle_at_upd_handle)
  obtain s' where s': "Close lib fd t = Some (Success, s')" "m_handles s' = m_handles (upd_handle (Slot i) (\<lambda>_. new_Handle) t)"
      "same_disk t s'" "m_cache_handle s' = None"
    by (rule Close_clean [OF _ fd]) (use at x p(2) in \<open>simp_all add: t clean_def cached_by_def\<close>)
  have "hview t = hview (upd_handle (Slot i) (\<lambda>_. x) s)" by (simp add: t)
  moreover have "\<not> h_opened (m_handles s ! i)" using cl i p(6) by simp
  ultimately have closed: "IsFileOpened s' k = IsFileOpened s k" "length (m_handles s') = NUM_HANDLES" "closed s'" for k
    using closed_again [OF p(6) i _ _ s'(2)] cl by blast+
  have d: "same_disk s s'" using s'(3) by (simp add: same_disk_def t)
  have "steady lib s' F D" by (rule steady_cong [OF st d s'(4) closed(2)]) (rule closed(1))
  then show ?thesis using s'(1) d closed(3) by blast
qed

lemma open_idle:
  assumes st: "steady lib s F D" and cl: "closed s" and path: "IsValidNonRootPath path" "through_dirs F (components path)"
    and ok: "abs_open uid gid mode (components path) F = Success" "D (components path) = Some d"
  obtains fd s1 i f z where "OpenFile lib uid gid path mode s = Some (Inr fd, s1)" "i < NUM_HANDLES" "\<not> h_opened (m_handles s ! i)"
    "fd = ConvertHandleToFd i" "s1 = upd_handle (Slot i) (\<lambda>_. opened_handle uid gid mode f z) s" "in_fst f" "unat z = length d"
proof -
  note p = steady_parts [OF st]
  obtain sb where sb: "m_superblock s = Some sb" using p(3) by (auto simp: represents_def)
  have sd: "stores lib s F (components path) d" using p(4) ok(2) by (simp add: contents_def)
  obtain e :: FstEntry and cs where e: "stored_file lib sb (e_sub e) cs d s" "in_fst (e_sub e)"
    and look: "GetFstIndex sb path = Some (Inr (e_sub e))"
    by (rule settled_file [OF p(1) sb p(3) sd]) blast
  obtain fd s1 where o: "OpenFile lib uid gid path mode s = Some (Inr fd, s1)"
    using OpenFile_refines [OF p(3,6) path, of uid gid mode lib] ok(1) free_handle [OF st cl] by (auto split: if_split_asm)
  obtain i where i: "i < NUM_HANDLES" "\<not> h_opened (m_handles s ! i)" "fd = ConvertHandleToFd i"
      "s1 = upd_handle (Slot i) (\<lambda>_. opened_handle uid gid mode (e_sub e) (e_size (fst_at sb (e_sub e)))) s"
    by (rule open_slot [OF sb p(6) look o])
  show thesis by (rule that [OF o i e(2)]) (use e(1) in \<open>simp add: stored_file_def\<close>)
qed

lemma append_nothing:
  assumes st: "steady lib s F D" and cl: "closed s" and path: "IsValidNonRootPath path" "through_dirs F (components path)"
    and ok: "abs_open uid gid FileMode_ReadWrite (components path) F = Success" "D (components path) = Some d"
  shows "\<exists>s'. file_session lib uid gid path FileMode_ReadWrite (append_call lib []) s = Some (Status Success, s') \<and>
    closed s' \<and> same_disk s s' \<and> steady lib s' F D"
proof -
  note p = steady_parts [OF st]
  obtain fd s1 i f z where o: "OpenFile lib uid gid path FileMode_ReadWrite s = Some (Inr fd, s1)" and e: "in_fst f"
    and i: "i < NUM_HANDLES" "\<not> h_opened (m_handles s ! i)" "fd = ConvertHandleToFd i"
      "s1 = upd_handle (Slot i) (\<lambda>_. opened_handle uid gid FileMode_ReadWrite f z) s"
    by (rule open_idle [OF st cl path ok])
  define hd where "hd = (opened_handle uid gid FileMode_ReadWrite f z)\<lparr>h_file_offset := z\<rparr>"
  define s2 where "s2 = upd_handle (Slot i) (\<lambda>_. hd) s"
  have seek: "SeekFile fd 0 SeekMode_End s1 = (Inr z, s2)"
    using seek_opened(1) [OF p(6) i(1) e i(4)] by (simp add: i(3) s2_def hd_def)
  have fd: "GetHandleFromFd fd s2 = Some (Slot i)"
    unfolding i(3) s2_def by (rule GetHandleFromFd_opened) (use i p(6) in \<open>simp_all add: hd_def\<close>)
  have "handle_at s2 (Slot i) = hd" using i(1) p(6) by (simp add: s2_def handle_at_upd_handle valid_ref_def)
  then have "WriteFile lib fd [] 0 s2 = Some (Inr 0, s2)"
    using fd e ReadWrite_bits(2) by (simp add: WriteFile_def hd_def write_loop.simps)
  then show ?thesis
    using o seek close_idle [OF st cl i(1) s2_def _ fd] by (auto simp: file_session_def append_call_def hd_def)
qed

lemma append_serves:
  assumes ok: "mbedtls_ok lib" and st: "steady lib s F D" and cl: "closed s"
    and law: "lawful (Append path d) (ref_of F D)" and room: "needed_clusters d < free_space s"
  shows "\<exists>r s'. perform lib uid gid (Append path d) s = Some (r, s') \<and> closed s' \<and> serves lib uid gid (Append path d) F D s r s'"
proof (cases "IsValidNonRootPath path \<and> abs_open uid gid FileMode_ReadWrite (components path) F = Success")
  case False
  let ?r = "Status (if IsValidNonRootPath path then abs_open uid gid FileMode_ReadWrite (components path) F else Invalid)"
  have "ref_command uid gid (Append path d) (ref_of F D) = (?r, ref_of F D)"
    using False by (cases "F (components path)") (auto simp: ref_of_at abs_open_def)
  moreover have "perform lib uid gid (Append path d) s = Some (?r, s)"
    using open_fails [OF st, of path uid gid FileMode_ReadWrite "append_call lib d"] False law by auto
  ultimately show ?thesis using serves_same [OF st] cl by blast
next
  case ok_path: True
  let ?p = "components path"
  note p = steady_parts [OF st]
  have dirs: "through_dirs F ?p" using law by (auto intro: walks_through)
  obtain e d0 where e: "F ?p = Some e" "IsFile e" "HasPermission e uid gid FileMode_ReadWrite" "D ?p = Some d0"
      "ref_of F D ?p = Some (attrs e, d0)"
    by (rule open_works [OF st conjunct2 [OF ok_path]])
  show ?thesis
  proof (cases "d = []")
    case True
    then have "ref_command uid gid (Append path d) (ref_of F D) = (Status Success, ref_of F D)" using ok_path e by (auto simp: fun_eq_iff)
    moreover obtain s' where "perform lib uid gid (Append path d) s = Some (Status Success, s')" "closed s'" "same_disk s s'" "steady lib s' F D"
      using append_nothing [OF st cl _ dirs conjunct2 [OF ok_path] e(4)] ok_path True by auto
    moreover from this have "free_space s' = free_space s" by (simp add: free_space_def same_disk_def)
    ultimately show ?thesis by (auto simp: serves_def ref_spec_def)
  next
    case d: False
    have rm: "0 < free_space s" "needed_clusters (d0 @ d) \<le> free_space s + needed_clusters d0"
      using room needed_append [of d0 d] by linarith+
    define F' where "F' = resize ?p (length (d0 @ d)) F"
    define D' where "D' = D(?p \<mapsto> d0 @ d)"
    obtain fd s1 s2 s3 s4 where run: "OpenFile lib uid gid path FileMode_ReadWrite s = Some (Inr fd, s1)"
        "SeekFile fd 0 SeekMode_End s1 = (Inr (of_nat (length d0)), s2)"
        "WriteFile lib fd d (of_nat (length d)) s2 = Some (Inr (of_nat (length d)), s3)" "Close lib fd s3 = Some (Success, s4)"
      and s4: "settled lib s4" "durable lib s4 {} F' D'" "free_space s + needed_clusters d0 \<le> free_space s4 + needed_clusters (d0 @ d)"
        "m_cache_handle s4 = None" "closed s4"
      using append_durable [OF ok p(1,3,4) conjunct1 [OF ok_path] dirs conjunct2 [OF ok_path] free_handle [OF st cl] e(4) d rm] cl
      unfolding Let_def F'_def D'_def by blast
    have "full F' D'" using p(5) e(1,2,4) by (auto simp: full_def F'_def D'_def resize_def IsFile_def)
    then have "steady lib s4 F' D'" using s4 by (simp add: steady_def)
    moreover have "ref_of F' D' = (ref_of F D)(?p \<mapsto> (attrs e, d0 @ d))"
      using e(1) by (auto simp: ref_of_def F'_def D'_def resize_def fun_eq_iff)
    then have "ref_spec uid gid (Append path d) (Status Success) (ref_of F D) = Some (ref_of F' D')"
      using ok_path e by (simp add: ref_spec_def)
    moreover have "free_space s \<le> free_space s4 + needed_clusters d" using s4(3) needed_append [of d0 d] by linarith
    ultimately have "serves lib uid gid (Append path d) F D s (Status Success) s4" by (auto simp: serves_def)
    moreover have "perform lib uid gid (Append path d) s = Some (Status Success, s4)"
      using run by (simp add: file_session_def append_call_def)
    ultimately show ?thesis using s4(5) by blast
  qed
qed

lemma fetch_beyond:
  assumes st: "steady lib s F D" and cl: "closed s" and path: "IsValidNonRootPath path" "through_dirs F (components path)"
    and ok: "abs_open uid gid FileMode_Read (components path) F = Success" "D (components path) = Some d" "length d < unat pos"
  shows "\<exists>s'. file_session lib uid gid path FileMode_Read (fetch_call lib pos count) s = Some (Status Invalid, s') \<and>
    closed s' \<and> same_disk s s' \<and> steady lib s' F D"
proof -
  note p = steady_parts [OF st]
  obtain fd s1 i f z where o: "OpenFile lib uid gid path FileMode_Read s = Some (Inr fd, s1)" and f: "in_fst f" "unat z = length d"
    and i: "i < NUM_HANDLES" "\<not> h_opened (m_handles s ! i)" "fd = ConvertHandleToFd i"
      "s1 = upd_handle (Slot i) (\<lambda>_. opened_handle uid gid FileMode_Read f z) s"
    by (rule open_idle [OF st cl path ok(1,2)])
  have fd: "GetHandleFromFd fd s1 = Some (Slot i)"
    unfolding i(3,4) by (rule GetHandleFromFd_opened) (use i p(6) in simp_all)
  have "handle_at s1 (Slot i) = opened_handle uid gid FileMode_Read f z"
    using i(1) p(6) by (simp add: i(4) handle_at_upd_handle valid_ref_def)
  moreover have "z < pos" using ok(3) f(2) by (simp add: word_less_nat_alt)
  ultimately have seek: "SeekFile fd pos SeekMode_Set s1 = (Inl Invalid, s1)" using fd f(1) by (simp add: SeekFile_def Let_def)
  show ?thesis
    using o seek close_idle [OF st cl i(1,4) _ fd] by (auto simp: file_session_def fetch_call_def)
qed

lemma fetch_serves:
  assumes st: "steady lib s F D" and cl: "closed s" and law: "lawful (Fetch path pos count) (ref_of F D)"
  shows "\<exists>r s'. perform lib uid gid (Fetch path pos count) s = Some (r, s') \<and> closed s' \<and>
    serves lib uid gid (Fetch path pos count) F D s r s'"
proof (cases "IsValidNonRootPath path \<and> abs_open uid gid FileMode_Read (components path) F = Success")
  case False
  let ?r = "Status (if IsValidNonRootPath path then abs_open uid gid FileMode_Read (components path) F else Invalid)"
  have "ref_command uid gid (Fetch path pos count) (ref_of F D) = (?r, ref_of F D)"
    using False by (cases "F (components path)") (auto simp: ref_of_at abs_open_def)
  moreover have "perform lib uid gid (Fetch path pos count) s = Some (?r, s)"
    using open_fails [OF st, of path uid gid FileMode_Read "fetch_call lib pos count"] False law by auto
  ultimately show ?thesis using serves_same [OF st] cl by blast
next
  case True
  let ?p = "components path" and ?c = "Fetch path pos count"
  note p = steady_parts [OF st]
  have dirs: "through_dirs F ?p" using law by (auto intro: walks_through)
  obtain e d where e: "F ?p = Some e" "IsFile e" "HasPermission e uid gid FileMode_Read" "D ?p = Some d" "ref_of F D ?p = Some (attrs e, d)"
    by (rule open_works [OF st conjunct2 [OF True]])
  have served: "serves lib uid gid ?c F D s r s'" if "ref_command uid gid ?c (ref_of F D) = (r, ref_of F D)" "same_disk s s'" "steady lib s' F D" for r s'
  proof -
    have "free_space s' = free_space s" using that(2) by (simp add: free_space_def same_disk_def)
    then show ?thesis using that(1,3) by (auto simp: serves_def ref_spec_def)
  qed
  show ?thesis
  proof (cases "length d < unat pos")
    case beyond: True
    have "ref_command uid gid ?c (ref_of F D) = (Status Invalid, ref_of F D)" using True e beyond by simp
    then show ?thesis using fetch_beyond [OF st cl conjunct1 [OF True] dirs conjunct2 [OF True] e(4) beyond, of count] served by auto
  next
    case False
    define n where "n = min (unat count) (length d - unat pos)"
    have sd: "stores lib s F ?p d" using p(4) e(4) by (simp add: contents_def)
    have m: "FileMode_and FileMode_Read FileMode_Read \<noteq> 0" by (simp add: FileMode_and_def FileMode_Read_def)
    let ?buf = "replicate (unat count) (0 :: u8)"
    obtain fd s1 s2 s3 where run: "OpenFile lib uid gid path FileMode_Read s = Some (Inr fd, s1)" "SeekFile fd pos SeekMode_Set s1 = (Inr pos, s2)"
        "ReadFile lib fd ?buf count s2 = Some ((Inr (of_nat n), copy_into ?buf 0 (slice (unat pos) n d)), s3)"
      and "m_cache_handle s = None \<Longrightarrow> \<exists>s4. Close lib fd s3 = Some (Success, s4) \<and> represents s4 F {} \<and> same_disk s s4 \<and>
        settled lib s4 \<and> m_cache_handle s4 = None \<and> (closed s \<longrightarrow> closed s4)"
      by (rule read_session [OF p(1,3) sd conjunct1 [OF True] refl dirs conjunct2 [OF True] m free_handle [OF st cl], of pos count n ?buf])
        (use False law in \<open>simp_all add: n_def\<close>)
    then obtain s4 where s4: "Close lib fd s3 = Some (Success, s4)" "represents s4 F {}" "same_disk s s4" "settled lib s4"
      "m_cache_handle s4 = None" "closed s4" using p(2) cl by blast
    have "steady lib s4 F D"
      using s4 p(5) st contents_same_disk [OF p(4) s4(3)] by (simp add: steady_def durable_def same_disk_def)
    moreover have "unat count < 2 ^ 32" using unsigned_less [of count] by simp
    then have "n < 2 ^ 32" unfolding n_def by linarith
    then have "unat (of_nat n :: u32) = n" by (simp add: unat_of_nat)
    then have "take (unat (of_nat n :: u32)) (copy_into ?buf 0 (slice (unat pos) n d)) = take (unat count) (drop (unat pos) d)"
      by (simp add: copy_into_def slice_def) (simp add: n_def min_def)
    then have "perform lib uid gid ?c s = Some (Bytes (take (unat count) (drop (unat pos) d)), s4)"
      using run s4(1) by (simp add: file_session_def fetch_call_def)
    moreover have "ref_command uid gid ?c (ref_of F D) = (Bytes (take (unat count) (drop (unat pos) d)), ref_of F D)"
      using True e False by simp
    ultimately show ?thesis using served s4(3,6) by blast
  qed
qed

section \<open>Every command\<close>

lemma perform_serves:
  assumes ok: "mbedtls_ok lib" and st: "steady lib s F D" and cl: "closed s"
    and law: "lawful c (ref_of F D)" and room: "clusters_for c < free_space s"
  shows "\<exists>r s'. perform lib uid gid c s = Some (r, s') \<and> closed s' \<and> serves lib uid gid c F D s r s'"
proof (cases c)
  case (Make is_file path attr om gm tm)
  show ?thesis unfolding Make perform.simps
    by (rule fs_session_serves [OF st cl]) (rule make_serves [OF ok _ _ _ law [unfolded Make]])
next
  case (Remove path)
  show ?thesis unfolding Remove perform.simps
    by (rule fs_session_serves [OF st cl]) (rule remove_serves [OF ok _ _ _ law [unfolded Remove]])
next
  case (MoveDirectory path path')
  show ?thesis unfolding MoveDirectory perform.simps
    by (rule fs_session_serves [OF st cl]) (rule move_serves [OF ok _ _ _ law [unfolded MoveDirectory]])
next
  case (Append path d)
  then show ?thesis using append_serves [OF ok st cl] law room by simp
next
  case (Fetch path pos count)
  then show ?thesis using fetch_serves [OF st cl] law by simp
qed

interpretation client: simulation "perform lib uid gid" "ref_spec uid gid" lawful clusters_for free_space
  "\<lambda>s R. mbedtls_ok lib \<and> at_rest lib s R"
  for lib :: "('k, 'c) mbedtls" and uid :: Uid and gid :: Gid
proof unfold_locales
  fix s R c
  assume rest: "mbedtls_ok lib \<and> at_rest lib s R" and law: "lawful c R" and room: "clusters_for c < free_space s"
  then obtain F D where st: "steady lib s F D" "closed s" "R = ref_of F D" by (auto simp: at_rest_def)
  obtain r s' where s': "perform lib uid gid c s = Some (r, s')" "closed s'" "serves lib uid gid c F D s r s'"
    using perform_serves [OF conjunct1 [OF rest] st(1,2) law [unfolded st(3)] room] by blast
  then obtain F' D' where "free_space s \<le> free_space s' + clusters_for c" "steady lib s' F' D'"
      "ref_spec uid gid c r R = Some (ref_of F' D')" unfolding serves_def st(3) by blast
  moreover from this have "at_rest lib s' (ref_of F' D')" using s'(2) by (auto simp: at_rest_def)
  ultimately show "\<exists>r s' R'. perform lib uid gid c s = Some (r, s') \<and> ref_spec uid gid c r R = Some R' \<and>
      (mbedtls_ok lib \<and> at_rest lib s' R') \<and> free_space s \<le> free_space s' + clusters_for c"
    using rest s'(1) by (intro exI [of _ r] exI [of _ s'] exI [of _ "ref_of F' D'"]) simp
qed

lemma at_rest_restart:
  assumes "at_rest lib s R"
  shows "at_rest lib (Create lib (m_nand s) (m_keys s)) R"
proof -
  obtain F D where st: "steady lib s F D" "R = ref_of F D" using assms by (auto simp: at_rest_def)
  then have "steady lib (Create lib (m_nand s) (m_keys s)) F D" by (simp add: steady_def durable_def Let_def)
  then show ?thesis using st(2) by (auto simp: at_rest_def new_Handle_def)
qed

text \<open>After a format there is only the root directory.\<close>

definition empty_ref :: ref_fs where
  "empty_ref = [[] \<mapsto> (attrs (meta format_root), [])]"

lemma format_at_rest:
  assumes ok: "mbedtls_ok lib"
  obtains s where "Format lib 0 (Create lib nand keys) = Some (Success, s)" "at_rest lib s empty_ref" "0x7ec0 \<le> free_space s"
proof -
  obtain s where f: "Format lib 0 (Create lib nand keys) = Some (Success, s)" and s: "represents s empty_map {}"
      "represents (Create lib (m_nand s) (m_keys s)) empty_map {}" "versions_upto lib s" "apart s" "0x7ec0 \<le> free_space s"
      "apart (Create lib (m_nand s) (m_keys s))" "closed s" "length (m_handles s) = NUM_HANDLES" "m_cache_handle s = None"
    using Format_fresh [OF ok, of nand keys] by blast
  let ?t = "Create lib (m_nand s) (m_keys s)"
  have "settled lib s" using s by (auto simp: settled_def fs_ok_def cache_ok_def clean_def)
  moreover have "settled lib ?t"
    using s(2,6) Create_loaded(1) [of lib "m_nand s" "m_keys s"] by (auto simp: settled_def fs_ok_def cache_ok_def clean_def)
  moreover have "full empty_map Map.empty"
    by (auto simp: full_def empty_map_def format_root_def IsFile_def)
  ultimately have "steady lib s empty_map Map.empty"
    using s(1,2,9) by (simp add: steady_def durable_def contents_def Let_def)
  moreover have "ref_of empty_map Map.empty = empty_ref" by (auto simp: ref_of_def empty_map_def empty_ref_def fun_eq_iff)
  ultimately have "at_rest lib s empty_ref" using s(7) unfolding at_rest_def by metis
  then show thesis using that f s(5) by blast
qed

section \<open>Properties\<close>

text \<open>
  C1 The driver is the reference file system. A client that makes, removes and moves
  directories, makes and removes files, appends to them and reads them back, each time opening and
  closing a handle, gets exactly the replies of the reference file system to any list of lawful
  commands for which there are enough free clusters, \<^verbatim>\<open>FstFull\<close> excepted; and at the end the
  driver, and a driver started on the image, show the paths, attributes and bytes of the reference.
\<close>

theorem sessions_refine:
  assumes "mbedtls_ok lib" and "at_rest lib s R" and "all_lawful (ref_spec uid gid) lawful cs R"
    and "sum_list (map clusters_for cs) < free_space s"
  shows "\<exists>rs s' R'. perform_all (perform lib uid gid) cs s = Some (rs, s') \<and> accepts (ref_spec uid gid) cs rs R = Some R' \<and>
    at_rest lib s' R' \<and> at_rest lib (Create lib (m_nand s') (m_keys s')) R'"
  using client.simulates_all [of lib s R uid gid cs] assms at_rest_restart by blast

lemma demo_session_lawful:
  "all_lawful (ref_spec 0 0) lawful [Make True ''/a'' 0 3 3 3, Append ''/a'' [1, 2, 3], Fetch ''/a'' 1 9] empty_ref"
proof -
  have c: "components ''/a'' = [''a'']" by code_simp
  have n: "name_fits ''/a''" by code_simp
  define e where "e = new_entry (fs_user 0 0) 0 3 3 3 True"
  define R where "R d = empty_ref([''a''] \<mapsto> (e, d))" for d
  have root: "empty_ref [] = Some (attrs (meta format_root), [])" "empty_ref [''a''] = None" by (simp_all add: empty_ref_def)
  have w: "walks Q ''/a''" if "Q [] = empty_ref []" for Q
    using that by (simp add: walks_def c root(1) format_root_def IsDirectory_def)
  have u: "HasPermission x 0 0 m" for x m by (simp add: HasPermission_def)
  have bad: "list_ex bad_char ''/a'' = False" by code_simp
  have make: "ref_command 0 0 (Make True ''/a'' 0 3 3 3) empty_ref = (Status Success, R [])"
    using bad by (simp add: c demo_paths root u e_def R_def)
  have app: "ref_command 0 0 (Append ''/a'' [1, 2, 3]) empty_ref = (Status NotFound, empty_ref)"
      "ref_command 0 0 (Append ''/a'' [1, 2, 3]) (R []) = (Status Success, R [1, 2, 3])"
    by (simp_all add: c demo_paths root u R_def e_def)
  have law: "lawful (Make True ''/a'' 0 3 3 3) empty_ref" "lawful (Append ''/a'' [1, 2, 3]) empty_ref" "lawful (Append ''/a'' [1, 2, 3]) (R [])"
      "lawful (Fetch ''/a'' 1 9) Q" if "Q [] = empty_ref []" for Q
    using n that by (simp_all add: w c root R_def)
  have "R [1, 2, 3] [] = empty_ref []" by (simp add: R_def)
  then show ?thesis
    using law(1-4) [of empty_ref] law(4) [of "R [1, 2, 3]"]
    by (auto simp: ref_spec_def make app simp del: ref_command.simps lawful.simps split: if_split_asm)
qed

lemma sessions_refine_witness:
  "\<exists>s rs s' R'. Format demo_mbedtls 0 (Create demo_mbedtls (\<lambda>_. 0xff) \<lparr>key_hmac = replicate 20 1, key_aes = replicate 16 2\<rparr>) = Some (Success, s) \<and>
    perform_all (perform demo_mbedtls 0 0) [Make True ''/a'' 0 3 3 3, Append ''/a'' [1, 2, 3], Fetch ''/a'' 1 9] s = Some (rs, s') \<and>
    accepts (ref_spec 0 0) [Make True ''/a'' 0 3 3 3, Append ''/a'' [1, 2, 3], Fetch ''/a'' 1 9] rs empty_ref = Some R' \<and>
    at_rest demo_mbedtls s' R'"
proof -
  obtain s where s: "Format demo_mbedtls 0 (Create demo_mbedtls (\<lambda>_. 0xff) \<lparr>key_hmac = replicate 20 1, key_aes = replicate 16 2\<rparr>) = Some (Success, s)"
      "at_rest demo_mbedtls s empty_ref" "0x7ec0 \<le> free_space s"
    by (rule format_at_rest [OF demo_mbedtls_ok])
  then show ?thesis
    using sessions_refine [OF demo_mbedtls_ok s(2) demo_session_lawful] by (auto simp: demo_needed)
qed

end
