(* ===== verification/Overwrite.thy ===== *)
theory Overwrite
  imports Contents
begin

text \<open>
  Writes inside a file. \<^verbatim>\<open>WriteFileData\<close> accepts only a write that makes the file larger, so a
  cached cluster of a file that did not grow cannot be flushed. The driver is then stuck: the
  cluster stays in the cache, its handle cannot be closed, and no data of another file can be
  read or written.
\<close>

section \<open>A cache that cannot be flushed\<close>

definition stuck :: "HandleRef \<Rightarrow> FileSystemImpl \<Rightarrow> bool" where
  "stuck h s \<longleftrightarrow> m_cache_handle s = Some h \<and> m_cache_for_write s \<and> length (m_cache_data s) = CLUSTER_DATA_SIZE \<and>
     (\<exists>sb. m_superblock s = Some sb \<and> h_file_size (handle_at s h) \<le> e_size (fst_at sb (h_fst_index (handle_at s h))))"

lemma stuck_flush:
  assumes "stuck h s"
  shows "FlushFileCache lib s = (Invalid, s)"
proof -
  obtain sb where sb: "m_superblock s = Some sb" "h_file_size (handle_at s h) \<le> e_size (fst_at sb (h_fst_index (handle_at s h)))"
    using assms by (auto simp: stuck_def)
  then have "WriteFileData lib (h_fst_index (handle_at s h)) d i (h_file_size (handle_at s h)) s = (Invalid, s)" for d i
    using WriteFileData_errors(1,2) [OF sb(1)] by (cases "in_fst (h_fst_index (handle_at s h))") blast+
  then show ?thesis using assms by (simp add: FlushFileCache_def stuck_def)
qed

lemma stuck_populate:
  "stuck h s \<Longrightarrow> h' \<noteq> h \<or> m_cache_chain_index s \<noteq> ucast (off div of_nat CLUSTER_DATA_SIZE) \<Longrightarrow>
   PopulateFileCache lib h' off w s = Some (Invalid, s)"
  using stuck_flush [of h s lib] by (auto simp: PopulateFileCache_def Let_def stuck_def)

lemma stuck_close:
  "stuck h s \<Longrightarrow> GetHandleFromFd fd s = Some h \<Longrightarrow> Close lib fd s = Some (Invalid, s)"
  using stuck_flush [of h s lib] by (simp add: Close_def stuck_def)

lemma stuck_write:
  assumes "stuck h s" "GetHandleFromFd fd s = Some h'" "h' \<noteq> h" "count \<noteq> 0" "FileMode_and (h_mode (handle_at s h')) FileMode_Write \<noteq> 0"
  shows "WriteFile lib fd ptr count s = Some (Inl Invalid, s)"
proof (cases "in_fst (h_fst_index (handle_at s h'))")
  case True
  then show ?thesis
    using assms by (simp add: WriteFile_def Let_def) (subst write_loop.simps, simp add: stuck_populate [OF assms(1) disjI1 [OF assms(3)]])
qed (use assms in \<open>simp add: WriteFile_def Let_def\<close>)

lemma stuck_read:
  assumes "stuck h s" "GetHandleFromFd fd s = Some h'" "h' \<noteq> h" "count \<noteq> 0" "FileMode_and (h_mode (handle_at s h')) FileMode_Read \<noteq> 0"
    and "h_file_offset (handle_at s h') \<noteq> h_file_size (handle_at s h')"
  shows "ReadFile lib fd ptr count s = Some ((Inl Invalid, ptr), s)"
proof (cases "in_fst (h_fst_index (handle_at s h'))")
  case True
  have "read_loop lib h' n 0 ptr s = Some ((Inl Invalid, ptr), s)" if "n \<noteq> 0" for n
    using that by (subst read_loop.simps) (simp add: stuck_populate [OF assms(1) disjI1 [OF assms(3)]])
  then show ?thesis using assms True by (simp add: ReadFile_def Let_def)
qed (use assms in \<open>simp add: ReadFile_def Let_def\<close>)

section \<open>A write inside a cluster of the file\<close>

lemma populate_inside:
  assumes r: "reading lib h f d s" and off: "off = h_file_offset (handle_at s h)" "unat off < length d"
    and free: "m_cache_handle s \<noteq> Some h"
  obtains c where "length c = CLUSTER_DATA_SIZE"
    "PopulateFileCache lib h off True s = Some (Success, s\<lparr>m_cache_handle := Some h,
       m_cache_chain_index := ucast (off div of_nat CLUSTER_DATA_SIZE), m_cache_for_write := True, m_cache_data := c\<rparr>)"
proof -
  have h: "holds lib s f d" "clean s" and f: "h_fst_index (handle_at s h) = f" and z: "unat (h_file_size (handle_at s h)) = length d"
    using r by (simp_all add: reading_def)
  obtain sb where sb: "m_superblock s = Some sb" using h(1) by (auto simp: holds_def)
  obtain c where c: "ReadFileData lib f (ucast (off div of_nat CLUSTER_DATA_SIZE)) s = Some (Inr c, s)" "length c = CLUSTER_DATA_SIZE"
    by (rule holds_cluster [OF h(1) off(2) refl])
  let ?s2 = "s\<lparr>m_cache_handle := Some h, m_cache_chain_index := ucast (off div of_nat CLUSTER_DATA_SIZE), m_cache_for_write := True\<rparr>"
  have "ReadFileData lib f (ucast (off div of_nat CLUSTER_DATA_SIZE)) ?s2 = Some (Inr c, ?s2)"
    using ReadFileData_cong [OF sb _ _ _ c(1)] sb by simp
  moreover have "off \<noteq> h_file_size (handle_at s h)" using off(2) z by auto
  ultimately show thesis
    using that [OF c(2)] free f FlushFileCache_clean [OF h(2), of lib] by (simp add: PopulateFileCache_def Let_def)
qed

text \<open>
  The first round of the loop fills the cache and stores as many bytes as its cluster takes; when
  bytes are left, the next round has to flush the cache and fails.
\<close>

lemma next_chain_index:
  fixes off :: u32
  assumes "unat off + n < 2 ^ 30" "unat off mod CLUSTER_DATA_SIZE + n = CLUSTER_DATA_SIZE"
  shows "(ucast (off div of_nat CLUSTER_DATA_SIZE) :: u16) \<noteq> ucast ((off + of_nat n) div of_nat CLUSTER_DATA_SIZE)"
proof -
  have u: "unat (off + of_nat n) = unat off + n" using assms(1) by (intro unat_add_of_nat) simp
  have "unat off + n = Suc (unat off div CLUSTER_DATA_SIZE) * CLUSTER_DATA_SIZE"
    using assms(2) div_mult_mod_eq [of "unat off" CLUSTER_DATA_SIZE] unfolding mult_Suc by linarith
  then have "(unat off + n) div CLUSTER_DATA_SIZE = Suc (unat off div CLUSTER_DATA_SIZE)"
    by (simp add: layout_consts)
  then show ?thesis
    using unat_chain_index [of off] unat_chain_index [of "off + of_nat n"] assms(1) u by auto
qed

lemma write_inside:
  assumes r: "reading lib h f d0 s" and fd: "GetHandleFromFd fd s = Some h" and f: "in_fst f"
    and mode: "FileMode_and (h_mode (handle_at s h)) FileMode_Write \<noteq> 0" and free: "m_cache_handle s \<noteq> Some h"
    and sb: "m_superblock s = Some sb" "h_file_size (handle_at s h) = e_size (fst_at sb f)"
    and d: "d \<noteq> []" "unat (h_file_offset (handle_at s h)) + length d \<le> length d0"
  obtains s' where "WriteFile lib fd d (of_nat (length d)) s
      = Some (if unat (h_file_offset (handle_at s h)) mod CLUSTER_DATA_SIZE + length d \<le> CLUSTER_DATA_SIZE
          then Inr (of_nat (length d)) else Inl Invalid, s')" "stuck h s'" "same_disk s s'" "hview s' = hview s"
proof -
  let ?off = "h_file_offset (handle_at s h)" and ?n = "of_nat (length d) :: u32"
  let ?st = "unat ?off mod CLUSTER_DATA_SIZE"
  define m where "m = min (CLUSTER_DATA_SIZE - ?st) (length d)"
  have h: "length (m_handles s) = NUM_HANDLES" "valid_ref h" "h_fst_index (handle_at s h) = f" "unat (h_file_size (handle_at s h)) = length d0"
    and d30: "length d0 < 2 ^ 30" using r by (simp_all add: reading_def holds_def)
  have lt: "unat ?off < length d0" using d(1,2) by (cases d) simp_all
  have st: "?st < CLUSTER_DATA_SIZE" by (simp add: layout_consts)
  have m: "0 < m" "m \<le> length d" "?st + m \<le> CLUSTER_DATA_SIZE" using st d(1) by (simp_all add: m_def)
  have n: "unat ?n = length d" "unat (of_nat m :: u32) = m" using d(2) d30 m(2) by (simp_all add: unat_of_nat)
  have n0: "?n \<noteq> 0" "of_nat m = ?n \<longleftrightarrow> m = length d"
    using n d(1) by (metis length_0_conv unat_0, metis)
  obtain c where c: "length c = CLUSTER_DATA_SIZE" and pop: "PopulateFileCache lib h ?off True s = Some (Success, s\<lparr>m_cache_handle := Some h,
      m_cache_chain_index := ucast (?off div of_nat CLUSTER_DATA_SIZE), m_cache_for_write := True, m_cache_data := c\<rparr>)"
    by (rule populate_inside [OF r refl lt free])
  define s1 where "s1 = s\<lparr>m_cache_handle := Some h, m_cache_chain_index := ucast (?off div of_nat CLUSTER_DATA_SIZE),
    m_cache_for_write := True, m_cache_data := c\<rparr>"
  have at1: "handle_at s1 g = handle_at s g" for g by (simp add: s1_def)
  have start: "cache_start s1 h = ?st"
    by (rule cache_start_eq) (use lt d30 at1 in \<open>simp_all add: s1_def\<close>)
  have len: "copy_length s1 h ?n = m"
  proof -
    have "length (m_cache_data s1) = CLUSTER_DATA_SIZE" by (simp add: s1_def c)
    from copy_length_eq [OF start this] show ?thesis using n(1) by (simp add: m_def)
  qed
  let ?s2 = "s1\<lparr>m_cache_data := copy_into c ?st (slice 0 m d)\<rparr>"
  let ?s3 = "upd_handle h (\<lambda>x. x\<lparr>h_file_offset := h_file_offset x + of_nat m\<rparr>) ?s2"
  define s4 where "s4 = upd_handle h (\<lambda>x. x\<lparr>h_file_size := max (h_file_offset x) (h_file_size x)\<rparr>) ?s3"
  have "m_cache_data s1 = c" by (simp add: s1_def)
  then have loop: "write_loop lib h d ?n 0 s = write_loop lib h d ?n (of_nat m) s4"
    using n0(1) pop start len c st by (subst write_loop.simps) (simp add: Let_def s1_def [symmetric] s4_def)
  have off: "unat (?off + of_nat m) = unat ?off + m" using d(2) d30 m(2) by (intro unat_add_of_nat) simp
  then have "?off + of_nat m \<le> h_file_size (handle_at s h)" using d(2) h(4) m(2) by (simp add: word_le_nat_alt)
  then have mx: "max (?off + of_nat m) (h_file_size (handle_at s h)) = h_file_size (handle_at s h)" by (rule max_absorb2)
  have len3: "length (m_handles ?s2) = NUM_HANDLES" "length (m_handles ?s3) = NUM_HANDLES" using h(1) by (simp_all add: s1_def)
  have "handle_at ?s3 h = (handle_at s h)\<lparr>h_file_offset := ?off + of_nat m\<rparr>"
    using handle_at_upd_handle [OF len3(1) h(2)] by (simp add: at1)
  then have at: "handle_at s4 h = (handle_at s h)\<lparr>h_file_offset := ?off + of_nat m\<rparr>"
    unfolding s4_def using handle_at_upd_handle [OF len3(2) h(2)] mx by simp
  have "length (m_cache_data s4) = CLUSTER_DATA_SIZE"
    using m c by (simp add: s4_def)
  then have stuck: "stuck h s4" using at sb h(3) by (simp add: stuck_def) (simp add: s4_def s1_def)
  have "write_loop lib h d ?n (of_nat m) s4
      = Some (if ?st + length d \<le> CLUSTER_DATA_SIZE then Inr ?n else Inl Invalid, s4)"
  proof (cases "?st + length d \<le> CLUSTER_DATA_SIZE")
    case True
    then have "m = length d" by (simp add: m_def)
    then show ?thesis using True by (subst write_loop.simps) simp
  next
    case False
    then have "m = CLUSTER_DATA_SIZE - ?st" "m \<noteq> length d" using st by (auto simp: m_def)
    note m' = this
    have "m_cache_chain_index s4 \<noteq> ucast (h_file_offset (handle_at s4 h) div of_nat CLUSTER_DATA_SIZE)"
      using next_chain_index [of ?off m] d(2) d30 m(2) m'(1) st at by (simp add: s4_def s1_def)
    then have "PopulateFileCache lib h (h_file_offset (handle_at s4 h)) True s4 = Some (Invalid, s4)"
      by (intro stuck_populate [OF stuck] disjI2)
    then show ?thesis using False n0(2) m'(2) by (subst write_loop.simps) simp
  qed
  then have w: "WriteFile lib fd d ?n s
      = Some (if ?st + length d \<le> CLUSTER_DATA_SIZE then Inr ?n else Inl Invalid, s4)"
    using loop fd f mode h(3) by (simp add: WriteFile_def Let_def)
  have "same_disk s s4" by (simp add: same_disk_def s4_def s1_def)
  moreover have "hview s4 = hview s" using WriteFile_data [OF w] by (simp add: data_rel_def)
  ultimately show thesis using that [OF w stuck] by blast
qed

section \<open>Properties\<close>

text \<open>
  C33 A write inside a file. A client opens a file, seeks and writes bytes that do not reach behind
  the end of the file. The write reports success when the bytes lie within one cluster, and
  \<^verbatim>\<open>Invalid\<close> when they do not. In both cases the cache cannot be flushed in the state that is left:
  closing the handle fails with \<^verbatim>\<open>Invalid\<close>, and so do, through any other handle, the reads (before
  the end of the file) and writes of at least one byte that the mode of that handle permits; none
  of these calls changes the state, so that trying again does not help, and the file keeps its old
  contents, in memory and on the image. (A later write of the same handle that makes the file
  larger can end this; the statement is about the state the write leaves.)
\<close>

theorem overwrite_refused:
  assumes "settled lib s" and "durable lib s opn F D" and "IsValidNonRootPath path" and "through_dirs F (components path)"
    and "abs_open uid gid FileMode_ReadWrite (components path) F = Success" and "\<exists>h\<in>set (m_handles s). \<not> h_opened h"
    and "D (components path) = Some d0" and "d \<noteq> []" and "unat pos + length d \<le> length d0"
  shows "\<exists>fd h s1 s2 s3. OpenFile lib uid gid path FileMode_ReadWrite s = Some (Inr fd, s1) \<and> SeekFile fd pos SeekMode_Set s1 = (Inr pos, s2) \<and>
    WriteFile lib fd d (of_nat (length d)) s2 = Some (if unat pos mod CLUSTER_DATA_SIZE + length d \<le> CLUSTER_DATA_SIZE
      then Inr (of_nat (length d)) else Inl Invalid, s3) \<and> GetHandleFromFd fd s3 = Some h \<and>
    FlushFileCache lib s3 = (Invalid, s3) \<and> Close lib fd s3 = Some (Invalid, s3) \<and>
    (\<forall>fd' g ptr n. GetHandleFromFd fd' s3 = Some g \<and> g \<noteq> h \<and> n \<noteq> 0 \<longrightarrow>
       (FileMode_and (h_mode (handle_at s3 g)) FileMode_Write \<noteq> 0 \<longrightarrow> WriteFile lib fd' ptr n s3 = Some (Inl Invalid, s3)) \<and>
       (FileMode_and (h_mode (handle_at s3 g)) FileMode_Read \<noteq> 0 \<and> h_file_offset (handle_at s3 g) \<noteq> h_file_size (handle_at s3 g) \<longrightarrow>
          ReadFile lib fd' ptr n s3 = Some ((Inl Invalid, ptr), s3))) \<and>
    contents lib s3 F D \<and> contents lib (Create lib (m_nand s3) (m_keys s3)) F D"
proof -
  have rep: "represents s F opn" "contents lib s F D" using assms(2) by (simp_all add: durable_def)
  have st: "stores lib s F (components path) d0" using rep(2) assms(7) by (simp add: contents_def)
  have pos: "unat pos \<le> length d0" using assms(9) by simp
  obtain fd s1 s2 i hd and sb :: Superblock and e :: FstEntry
    where o: "OpenFile lib uid gid path FileMode_ReadWrite s = Some (Inr fd, s1)" "SeekFile fd pos SeekMode_Set s1 = (Inr pos, s2)"
    and sb: "m_superblock s = Some sb" and e: "in_fst (e_sub e)" and i: "i < NUM_HANDLES" "length (m_handles s) = NUM_HANDLES"
    and hd: "hd = (opened_handle uid gid FileMode_ReadWrite (e_sub e) (e_size (fst_at sb (e_sub e))))\<lparr>h_file_offset := pos\<rparr>"
    and s2: "s2 = upd_handle (Slot i) (\<lambda>_. hd) s" "handle_at s2 (Slot i) = hd"
    and fd: "GetHandleFromFd fd s2 = Some (Slot i)" and d2: "same_disk s s2" and nc: "m_cache_handle s \<noteq> Some (Slot i)"
    and r: "reading lib (Slot i) (e_sub e) d0 s2"
    by (rule open_at [OF assms(1) rep(1) st assms(3) refl assms(4-6) pos]) (rule that, assumption+)
  obtain s3 where w: "WriteFile lib fd d (of_nat (length d)) s2
      = Some (if unat pos mod CLUSTER_DATA_SIZE + length d \<le> CLUSTER_DATA_SIZE then Inr (of_nat (length d)) else Inl Invalid, s3)"
    "stuck (Slot i) s3" "same_disk s2 s3" and h3: "hview s3 = hview s2"
    by (rule write_inside [OF r fd e _ _ _ _ assms(8), where sb = sb])
      (use nc sb ReadWrite_bits(2) assms(9) in \<open>simp_all add: s2(2) hd\<close>, simp_all add: s2(1))
  have d3: "same_disk s s3" using d2 w(3) by (simp add: same_disk_def)
  have o2: "h_opened (m_handles s2 ! i)" "length (m_handles s2) = NUM_HANDLES" using i by (simp_all add: s2(1) upd_handle_def hd)
  have "length (hview s3) = NUM_HANDLES" using o2(2) unfolding h3 by (simp add: hview_def)
  then have "length (m_handles s3) = NUM_HANDLES" by (simp add: hview_def)
  moreover have "hview s3 ! i = hview s2 ! i" using h3 by simp
  ultimately have "h_opened (handle_at s3 (Slot i))" using o2 i(1) by (simp add: hview_def handle_at_def)
  then have fd3: "GetHandleFromFd fd s3 = Some (Slot i)" by (rule GetHandleFromFd_still [OF _ fd])
  have "contents lib s3 F D" "contents lib (Create lib (m_nand s3) (m_keys s3)) F D"
    using contents_same_disk [OF rep(2) d3] assms(2) d3 by (simp_all add: durable_def Let_def same_disk_def)
  note c = this
  have blocked: "\<forall>fd' g ptr n. GetHandleFromFd fd' s3 = Some g \<and> g \<noteq> Slot i \<and> n \<noteq> 0 \<longrightarrow>
      (FileMode_and (h_mode (handle_at s3 g)) FileMode_Write \<noteq> 0 \<longrightarrow> WriteFile lib fd' ptr n s3 = Some (Inl Invalid, s3)) \<and>
      (FileMode_and (h_mode (handle_at s3 g)) FileMode_Read \<noteq> 0 \<and> h_file_offset (handle_at s3 g) \<noteq> h_file_size (handle_at s3 g) \<longrightarrow>
         ReadFile lib fd' ptr n s3 = Some ((Inl Invalid, ptr), s3))"
    by (auto intro!: stuck_write [OF w(2)] stuck_read [OF w(2)])
  show ?thesis
    by (intro exI conjI) (rule o w(1) fd3 stuck_flush [OF w(2)] stuck_close [OF w(2) fd3] c blocked)+
qed

text \<open>The second of the three bytes of a file is overwritten.\<close>

lemma overwrite_refused_witness:
  "\<exists>s fd s1 s2 s3. OpenFile demo_mbedtls 0 0 ''/a'' FileMode_ReadWrite s = Some (Inr fd, s1) \<and> SeekFile fd 1 SeekMode_Set s1 = (Inr 1, s2) \<and>
    WriteFile demo_mbedtls fd [7] 1 s2 = Some (Inr 1, s3) \<and> Close demo_mbedtls fd s3 = Some (Invalid, s3) \<and>
    contents demo_mbedtls (Create demo_mbedtls (m_nand s3) (m_keys s3)) demo_written [[''a''] \<mapsto> [1, 2, 3]]"
proof -
  obtain s where s: "settled demo_mbedtls s" "durable demo_mbedtls s {} demo_written [[''a''] \<mapsto> [1, 2, 3]]"
    "\<exists>h\<in>set (m_handles s). \<not> h_opened h"
    by (rule demo_appended)
  show ?thesis
    using overwrite_refused [OF s(1,2) demo_paths(1), unfolded demo_components, OF demo_written s(3), of "[1, 2, 3]" "[7]" 1]
    by (simp add: layout_consts) blast
qed

end
