(* ===== verification/Spec2Isabelle.thy ===== *)
theory Spec2Isabelle
  imports Align Sessions Overwrite
begin

text \<open>
  Verification of wiifs, a driver for the file system on the NAND memory of the Wii
  (\<^verbatim>\<open>include/\<close> and \<^verbatim>\<open>source/\<close> of the repository).

  The program. A NAND image is an array of clusters of 0x4000 bytes, stored encrypted and
  with a spare area that holds an error-correcting code and a message authentication code
  (MAC). The last 256 clusters hold sixteen copies of the superblock, of which the one with
  the highest version counts: a file allocation table (FAT) that chains the clusters of each
  file, and a file system table (FST) whose entries are chained into a directory tree. The
  class \<^verbatim>\<open>FileSystemImpl\<close> (\<^verbatim>\<open>driver/fs.h\<close>) keeps one superblock in memory, sixteen handles of
  open files and a cache of one cluster. Calls on directories change the superblock in memory
  and flush it to the next slot; file data goes through the cache, and \<^verbatim>\<open>Close\<close> flushes both.

  Conventions. \<^verbatim>\<open>Result<T>\<close> is the sum \<open>ResultCode + 'a\<close>; integers are words of the source's
  width, so sums wrap where they do in C++. A call takes and returns the state of
  \<^verbatim>\<open>FileSystemImpl\<close> (record \<open>FileSystemImpl\<close>). Where a run may fail to return, or would read
  outside an array or dereference an empty optional, the result is an option and \<open>None\<close>
  stands for that run (\<open>fs_op\<close>); theorems about such calls state that they give \<open>Some\<close>. A
  \<^verbatim>\<open>Handle*\<close> is a \<open>HandleRef\<close>, a slot of the table or the internal handle. The mbedTLS library
  is not under \<^verbatim>\<open>src\<close>: its functions are the record \<open>mbedtls\<close>, an argument \<open>lib\<close> of every
  definition that uses it, and \<open>mbedtls_ok lib\<close> states what its documentation promises. The
  witnesses use the concrete library \<open>demo_mbedtls\<close>.

  Definitions, by source file:
  \<^item> \<open>Prelude\<close>: integer types (\<^verbatim>\<open>common/common_types.h\<close>), memory, slices, and the locale of codecs.
  \<^item> \<open>Result\<close>: \<^verbatim>\<open>include/wiifs/result.h\<close> and the types of \<^verbatim>\<open>include/wiifs/fs.h\<close>.
  \<^item> \<open>Swap\<close>, \<open>Align\<close>, \<open>Ecc\<close>, \<open>StringUtil\<close>: \<^verbatim>\<open>common/swap.h\<close>, \<^verbatim>\<open>common/align.h\<close>, \<^verbatim>\<open>common/ecc.cpp\<close>,
    \<^verbatim>\<open>common/string_util.cpp\<close> with \<^verbatim>\<open>driver/util.cpp\<close> (\<open>SplitPath\<close>, \<open>IsValidNonRootPath\<close>).
  \<^item> \<open>Sffs\<close>, \<open>Layout\<close>: the structures of \<^verbatim>\<open>driver/sffs.h\<close>, their packed bytes and the member
    functions of \<^verbatim>\<open>driver/sffs.cpp\<close>, and \<open>HasPermission\<close>. \<open>holds_superblock\<close> in \<open>Layout\<close> states the
    documented format, with offsets and byte order, apart from these structures.
  \<^item> \<open>Crypto\<close>: \<^verbatim>\<open>common/crypto.cpp\<close> and the two MACs of \<^verbatim>\<open>driver/low_level.cpp\<close>.
  \<^item> \<open>Cluster\<close>, \<open>SuperblockIO\<close>, \<open>Lookup\<close>, \<open>FileData\<close>: the rest of \<^verbatim>\<open>driver/low_level.cpp\<close> (cluster
    access; \<open>GetSuperblock\<close> and \<open>FlushSuperblock\<close>; \<open>GetFstIndex\<close>; \<open>ReadFileData\<close>, \<open>WriteFileData\<close>).
  \<^item> \<open>FsState\<close>: the members of \<^verbatim>\<open>driver/fs.h\<close>.
  \<^item> \<open>Handles\<close>, \<open>FileIO\<close>: \<^verbatim>\<open>driver/file.cpp\<close> (handle table, opening, seeking; cache, closing,
    reading, writing).
  \<^item> \<open>FstOps\<close>, \<open>FsOps\<close>, \<open>FsQuery\<close>: \<^verbatim>\<open>driver/fs.cpp\<close> (static functions on the FST; construction,
    format, create, delete, rename; listing, metadata, statistics).

  Theory of the parts:
  \<^item> \<open>Chain\<close>: lists linked through an array, with a locale \<open>linked_store\<close> that is interpreted on the
    FAT and on the sibling links of the FST.
  \<^item> \<open>Persist\<close>: what a flush leaves on the image, down to the raw bytes of its pages
    (\<open>superblock_format\<close>), and what a mount finds there, the recursion of \<^verbatim>\<open>FlushSuperblock\<close> included. \<open>FlushSuperblock_fuel\<close> has fuel 2: the recursive call happens
    only after a version overflow to 0 and sees a version from 1 on (\<open>flush_terminates\<close>).
  \<^item> \<open>FileRW\<close>, \<open>FileRoundtrip\<close>: the loops of \<^verbatim>\<open>ReadFile\<close> and \<^verbatim>\<open>WriteFile\<close> over whole files. The bound
    of 1 GiB on a written file is that of the 16-bit cluster index within a file; in a consistent
    state (\<open>clusters_bounded\<close>) every file that fits into the data area is below it.
  \<^item> \<open>Forest\<close>, \<open>FsTree\<close>, \<open>Directory\<close>: the FST as a finite tree, the recursive functions of the
    driver on it, and adding and removing entries.

  The abstract file system. \<open>AbstractFs\<close> defines what a user sees, a map from paths to entries
  (each with its index in the FST, which identifies a file), abstract versions of the calls on
  this map, and the relation \<open>represents s F opn\<close> between a state, its map and the paths that
  are open; the map is unique. \<open>Creation\<close>, \<open>Removal\<close>, \<open>Renaming\<close>, \<open>Queries\<close>, \<open>Formatting\<close> and
  \<open>Statistics\<close> show that each call implements its abstract version, in memory and, after a
  success, for a driver started on the image (\<open>outcome\<close>). \<open>PathStore\<close> states the contract of the
  calls that change paths as a locale and derives that create/delete and rename are inverse;
  \<open>PathFs\<close> interprets it on the driver.

  The data of files. \<open>Allocation\<close> defines when no two files share a cluster (\<open>files_ok\<close>), which
  changes of the superblock keep this and the data of files (\<open>refiles\<close>, \<open>kept_data\<close>), and shows
  it for the allocation of a cluster; \<open>outcome\<close> includes it for the calls on directories.
  \<open>DataCalls\<close> has a locale \<open>cache_relation\<close> of the relations between states that the file cache
  keeps; it is used for the map of paths and for the size of the cached data (interpretations), for
  the data of other files and the newest version on the image (\<open>quiet\<close>) and, in \<open>Contents\<close>, for the
  handle that the cache belongs to (an interpretation).

  The contents of files. \<open>FileRW\<close> follows \<^verbatim>\<open>WriteFile\<close> cluster by cluster, for a file that is new
  or already has contents (\<open>grown_by\<close>, \<open>on_disk\<close>), and \<open>FileRoundtrip\<close> closes the handle. \<open>Contents\<close>
  adds to the map \<open>F\<close> of paths a map \<open>D\<close> of contents (\<open>contents lib s F D\<close>) and shows what
  appending, reading, creating, deleting and renaming do to \<open>D\<close>, for the running driver and for
  one started on the image (\<open>durable\<close>). The statements compose: the state after a session
  satisfies the hypotheses of the next (\<open>settled\<close>, a bound on the free clusters), as
  \<open>append_refines_witness\<close> shows with two sessions. Writing appends only: \<^verbatim>\<open>WriteFileData\<close> rejects a
  write that does not make the file larger (\<open>write_file_data_outcome\<close>).

  The state machine. \<open>Machine\<close> defines the driver as a step relation over all calls of the
  public interface that change the state, \<open>fs_step lib X s s'\<close>, labelled with the set \<open>X\<close> of files
  whose data a call may change: the file of a handle that is read, written or closed and
  that of the handle in the cache, a renamed file, and all files for a format. It shows the
  invariant \<open>fs_ok\<close> (a tree, open handles refer to files, files are apart) and that the driver
  never loses the newest version on the image (\<open>reaches_versions\<close>). \<open>Runs\<close> has what follows for
  every run from the construction of a driver: consistency, allocation, non-interference of
  files, and that calls return; \<open>Contents\<close> adds that every such state can be flushed and found
  again, and the types and sizes of its parts.

  No leaks. \<open>tight\<close> (in \<open>Allocation\<close>) says that a cluster of the data area that is not free is in
  the list of a file. The changes in \<open>refiles\<close> keep it, a format starts with it, so it holds in
  every run: the free clusters and those of the files always sum to 0x7ec0
  (\<open>reachable_files_apart\<close>). \<open>outcome\<close> includes that a call on directories never reduces the number
  of free clusters, and that a call that fails changes nothing.

  Clients. \<open>Sessions\<close> has a reference file system: a map from paths to attributes and bytes,
  without indices, sizes, clusters, handles or a cache (\<open>ref_command\<close>, \<open>ref_spec\<close>). A command of a
  client is a session: it opens a handle, makes its calls and closes the handle (\<open>perform\<close>). The
  locale \<open>simulation\<close> lifts a simulation of single commands, which may use up a resource, to lists
  of commands; its interpretation on the driver, with the number of free clusters as the
  resource, gives \<open>sessions_refine\<close>. The relation \<open>at_rest lib s R\<close> holds after a format
  (\<open>format_at_rest\<close>) and includes that a driver started on the image shows the same reference file
  system. A command must be \<open>lawful\<close>: besides the side conditions below, it moves directories only (data
  of a renamed file cannot be read any more) and reads with a sum of position and count that
  does not wrap. The reference leaves one choice, \<^verbatim>\<open>FstFull\<close> for the creation of an entry: how
  many entries of the FST are left is not visible in paths, since deleting a directory leaks
  the entries of the directories below it.

  Writes inside a file. \<open>Overwrite\<close> shows what happens to them: the write reports success if it
  stays within one cluster and fails otherwise, and in both cases the cache then cannot be flushed
  (\<open>stuck\<close>), so the handle cannot be closed and no other handle can read or write data
  (\<open>overwrite_refused\<close>); a later write of the same handle that makes the file larger can end this. The commands of \<open>Sessions\<close> therefore append.

  Side conditions, each because the code misbehaves without it: names of new entries have at
  most 12 characters (\<open>good_name\<close>; longer ones are truncated without a check for duplicates);
  no path leads through a file (\<open>through_dirs\<close>; the driver would take a cluster number for an
  FST index); a directory is not moved into itself (\<open>separate_paths\<close>).

  Not modelled: \<^verbatim>\<open>common/logging.cpp\<close> and all calls of \<^verbatim>\<open>DebugLog\<close> (output only), the build
  files, and the compiler built-ins for byte swapping on some platforms (the portable branch
  of \<^verbatim>\<open>common/swap.h\<close> is modelled). Running out of memory is not modelled.
\<close>

end
